(* ===== verification/Zmq_Prelude.thy ===== *)
theory Zmq_Prelude
  imports Main "HOL-Library.Word" "HOL-Library.Multiset"
begin

text \<open>
  Shared vocabulary of the development: the byte type, the error numbers the modelled code sets,
  the result types (a sum for an \<open>errno\<close> return, \<open>option\<close> for a call that ends in
  \<open>zmq_assert\<close>), and the list lemmas (block copies into a buffer, exchange of two array slots)
  that several components use.
\<close>

section \<open>Types\<close>

type_synonym byte = "8 word"

text \<open>The values of \<open>errno\<close> that the modelled functions set before they return -1 or NULL.\<close>

datatype errno =
    EFAULT | ENOMEM | EINVAL | EPROTO | EMSGSIZE | EAGAIN | ENODEV | EOPNOTSUPP | ECONNREFUSED | ENOTCONN
  | EACCES | EFSM | ENOTSUP | EHOSTUNREACH | EADDRINUSE | EMTHREAD | ETERM | EMFILE | ENOCOMPATPROTO | EBUSY | EINTR

text \<open>
  \<open>'a result\<close> is a call that either fails with an error number (\<open>Inl\<close>) or returns a value.
  A call that can also abort the process (a violated \<open>zmq_assert\<close>) is an \<open>option\<close>, \<open>None\<close>
  being the abort.
\<close>

type_synonym 'a result = "errno + 'a"

text \<open>Socket types.\<close>

abbreviation ZMQ_PAIR :: int where "ZMQ_PAIR \<equiv> 0"
abbreviation ZMQ_PUB :: int where "ZMQ_PUB \<equiv> 1"
abbreviation ZMQ_SUB :: int where "ZMQ_SUB \<equiv> 2"
abbreviation ZMQ_REQ :: int where "ZMQ_REQ \<equiv> 3"
abbreviation ZMQ_REP :: int where "ZMQ_REP \<equiv> 4"
abbreviation ZMQ_DEALER :: int where "ZMQ_DEALER \<equiv> 5"
abbreviation ZMQ_ROUTER :: int where "ZMQ_ROUTER \<equiv> 6"
abbreviation ZMQ_PULL :: int where "ZMQ_PULL \<equiv> 7"
abbreviation ZMQ_PUSH :: int where "ZMQ_PUSH \<equiv> 8"
abbreviation ZMQ_XPUB :: int where "ZMQ_XPUB \<equiv> 9"
abbreviation ZMQ_XSUB :: int where "ZMQ_XSUB \<equiv> 10"
abbreviation ZMQ_STREAM :: int where "ZMQ_STREAM \<equiv> 11"
abbreviation ZMQ_SERVER :: int where "ZMQ_SERVER \<equiv> 12"
abbreviation ZMQ_CLIENT :: int where "ZMQ_CLIENT \<equiv> 13"
abbreviation ZMQ_RADIO :: int where "ZMQ_RADIO \<equiv> 14"
abbreviation ZMQ_DISH :: int where "ZMQ_DISH \<equiv> 15"
abbreviation ZMQ_GATHER :: int where "ZMQ_GATHER \<equiv> 16"
abbreviation ZMQ_SCATTER :: int where "ZMQ_SCATTER \<equiv> 17"
abbreviation ZMQ_DGRAM :: int where "ZMQ_DGRAM \<equiv> 18"

named_theorems buf_simps \<open>rewriting of block copies\<close>
named_theorems array_simps \<open>rewriting of array exchanges\<close>

section \<open>Words\<close>

lemma unat_eqI: "unat a = unat b \<Longrightarrow> a = b" for a b :: "'a :: len word"
  by (rule unsigned_word_eqI)

section \<open>Block copies\<close>

text \<open>\<open>memcpy (buf + off, ys, length ys)\<close> on the bytes of a buffer.\<close>

definition overwrite :: "'a list \<Rightarrow> nat \<Rightarrow> 'a list \<Rightarrow> 'a list" where
  "overwrite xs off ys = take off xs @ ys @ drop (off + length ys) xs"

lemma length_overwrite [simp]:
  "off + length ys \<le> length xs \<Longrightarrow> length (overwrite xs off ys) = length xs"
  by (simp add: overwrite_def)

lemma overwrite_Nil [simp]: "overwrite xs off [] = xs"
  by (simp add: overwrite_def)

lemma take_overwrite [buf_simps]:
  "off + length ys \<le> length xs \<Longrightarrow> take (off + length ys) (overwrite xs off ys) = take off xs @ ys"
  by (simp add: overwrite_def)

lemma take_overwrite_prefix [buf_simps]:
  "off \<le> length xs \<Longrightarrow> take off (overwrite xs off ys) = take off xs"
  by (simp add: overwrite_def)

lemma overwrite_append [buf_simps]:
  "off + length ys \<le> length xs \<Longrightarrow>
    overwrite (overwrite xs off ys) (off + length ys) zs = overwrite xs off (ys @ zs)"
  by (cases ys) (auto simp: overwrite_def min_def ac_simps)

lemma overwrite_full [buf_simps]:
  "length ys = length xs \<Longrightarrow> overwrite xs 0 ys = ys"
  by (simp add: overwrite_def)

lemma overwrite_tail [buf_simps]:
  "off + length ys = length xs \<Longrightarrow> overwrite xs off ys = take off xs @ ys"
  by (simp add: overwrite_def)

section \<open>Exchange of two slots\<close>

definition exchange :: "'a list \<Rightarrow> nat \<Rightarrow> nat \<Rightarrow> 'a list" where
  "exchange xs i j = xs[i := xs ! j, j := xs ! i]"

lemma length_exchange [simp, array_simps]: "length (exchange xs i j) = length xs"
  by (simp add: exchange_def)

lemma exchange_same [simp, array_simps]: "exchange xs i i = xs"
  by (simp add: exchange_def)

lemma mset_exchange [simp, array_simps]:
  "i < length xs \<Longrightarrow> j < length xs \<Longrightarrow> mset (exchange xs i j) = mset xs"
  by (simp add: exchange_def mset_swap)

lemma set_exchange [simp, array_simps]:
  "i < length xs \<Longrightarrow> j < length xs \<Longrightarrow> set (exchange xs i j) = set xs"
  by (metis mset_exchange set_mset_mset)

lemma distinct_exchange [simp, array_simps]:
  "i < length xs \<Longrightarrow> j < length xs \<Longrightarrow> distinct (exchange xs i j) = distinct xs"
  by (metis mset_exchange mset_eq_imp_distinct_iff)

lemma nth_exchange [array_simps]:
  "i < length xs \<Longrightarrow> j < length xs \<Longrightarrow>
    exchange xs i j ! k = (if k = i then xs ! j else if k = j then xs ! i else xs ! k)"
  by (auto simp: exchange_def nth_list_update)

end
