(* ===== verification/Msg.thy ===== *)
theory Msg
  imports Zmq_Prelude
begin

text \<open>
  Model of \<open>src/src/msg.hpp\<close> and \<open>src/src/msg.cpp\<close>: the message object, its variants (very
  small, long, constant, zero-copy, delimiter, join, leave), and the reference counting of long
  message bodies and of metadata.

  The state \<open>mem\<close> is the memory the code works on: the message objects (\<open>msgs\<close>, by address),
  the heap blocks of type \<open>content_t\<close> (\<open>contents\<close>), the metadata objects (\<open>metas\<close>), and
  the calls made so far to user-supplied deallocation functions (\<open>ffn_calls\<close>). The n-th
  call of \<open>malloc\<close> fails when \<open>oom s n size\<close> holds; freshly allocated memory holds the
  arbitrary bytes \<open>junk s\<close>. An operation that dereferences a dead \<open>content_t\<close> or violates a
  \<open>zmq_assert\<close> returns \<open>None\<close>.

  The theorems show that the counters agree with the number of message objects that refer to a
  block, so that no operation touches freed memory, that a block is freed (and its deallocation
  function called) exactly when its last reference is closed, and that copies and moves
  preserve the bytes of every other message.
\<close>

unbundle bit_operations_syntax

section \<open>Data\<close>

datatype type_t =
    Type_none \<comment> \<open>0: the message was closed\<close>
  | Type_vsm | Type_lmsg | Type_delimiter | Type_cmsg | Type_zclmsg | Type_join | Type_leave

text \<open>
  \<open>max_vsm_size = msg_t_size - (sizeof (metadata_t *) + 3 + 16 + sizeof (uint32_t))\<close>, on a
  64 bit platform.
\<close>

definition max_vsm_size :: nat where
  "max_vsm_size = 64 - (8 + 3 + 16 + 4)"

definition sizeof_content_t :: nat where
  "sizeof_content_t = 40"

abbreviation flag_more :: "8 word" where "flag_more \<equiv> 1"
abbreviation flag_command :: "8 word" where "flag_command \<equiv> 2"
abbreviation flag_credential :: "8 word" where "flag_credential \<equiv> 32"
abbreviation flag_identity :: "8 word" where "flag_identity \<equiv> 64"
abbreviation flag_shared :: "8 word" where "flag_shared \<equiv> 128"

text \<open>
  \<open>c_data\<close> stands for the bytes that the pointer \<open>data\<close> designates, \<open>c_ffn\<close> for the
  deallocation function (\<open>None\<close> is NULL).
\<close>

record content_t =
  c_data :: "byte list"
  c_size :: nat
  c_ffn :: "nat option"
  c_hint :: nat
  c_refcnt :: "32 word"

record metadata_t =
  ref_cnt :: "32 word"
  dict :: "string \<rightharpoonup> string"

text \<open>
  The union \<open>u\<close>: the fields of \<open>base\<close>, shared by all variants, and the fields of each variant;
  which of the latter are meaningful is told by \<open>m_type\<close>.
\<close>

record msg_t =
  m_metadata :: "nat option"
  m_type :: type_t
  m_flags :: "8 word"
  m_group :: "byte list"
  m_routing_id :: "32 word"
  vsm_data :: "byte list"
  vsm_size :: nat
  m_content :: "nat option"
  cmsg_data :: "byte list"
  cmsg_size :: nat

record mem =
  msgs :: "nat \<Rightarrow> msg_t"
  contents :: "nat \<rightharpoonup> content_t"
  metas :: "nat \<rightharpoonup> metadata_t"
  next_addr :: nat
  oom :: "nat \<Rightarrow> nat \<Rightarrow> bool"
  junk :: "nat \<Rightarrow> byte"
  ffn_calls :: "(nat \<times> nat) list"

abbreviation put_msg :: "nat \<Rightarrow> msg_t \<Rightarrow> mem \<Rightarrow> mem" where
  "put_msg i m s \<equiv> s\<lparr>msgs := (msgs s)(i := m)\<rparr>"

abbreviation put_content :: "nat \<Rightarrow> content_t \<Rightarrow> mem \<Rightarrow> mem" where
  "put_content a c s \<equiv> s\<lparr>contents := (contents s)(a \<mapsto> c)\<rparr>"

abbreviation is_shared :: "msg_t \<Rightarrow> bool" where
  "is_shared m \<equiv> m_flags m AND flag_shared \<noteq> 0"

section \<open>Reference counters\<close>

text \<open>\<open>atomic_counter_t::add\<close> returns the old value, \<open>sub\<close> whether the new one is not zero.\<close>

definition counter_add :: "32 word \<Rightarrow> 32 word \<Rightarrow> 32 word \<times> 32 word" where
  "counter_add value increment = (value + increment, value)"

definition counter_sub :: "32 word \<Rightarrow> 32 word \<Rightarrow> 32 word \<times> bool" where
  "counter_sub value decrement = (value - decrement, value - decrement \<noteq> 0)"

definition metadata_add_ref :: "metadata_t \<Rightarrow> metadata_t" where
  "metadata_add_ref md = md\<lparr>ref_cnt := fst (counter_add (ref_cnt md) 1)\<rparr>"

text \<open>Returns true iff the counter drops to zero.\<close>

definition metadata_drop_ref :: "metadata_t \<Rightarrow> metadata_t \<times> bool" where
  "metadata_drop_ref md =
     (let (v, nz) = counter_sub (ref_cnt md) 1 in (md\<lparr>ref_cnt := v\<rparr>, \<not> nz))"

definition metadata_get :: "metadata_t \<Rightarrow> string \<Rightarrow> string option" where
  "metadata_get md property = dict md property"

section \<open>Construction\<close>

definition check_msg :: "msg_t \<Rightarrow> bool" where
  "check_msg m = (m_type m \<noteq> Type_none)"

definition is_zcmsg :: "msg_t \<Rightarrow> bool" where
  "is_zcmsg m = (m_type m = Type_zclmsg)"

text \<open>The assignments that every \<open>init\<close> variant makes to the shared fields.\<close>

definition init_base :: "type_t \<Rightarrow> msg_t \<Rightarrow> msg_t" where
  "init_base ty m = m\<lparr>m_metadata := None, m_type := ty, m_flags := 0,
     m_group := (m_group m)[0 := 0], m_routing_id := 0\<rparr>"

definition msg_init :: "nat \<Rightarrow> mem \<Rightarrow> mem" where
  "msg_init i s = put_msg i ((init_base Type_vsm (msgs s i))\<lparr>vsm_size := 0\<rparr>) s"

definition msg_init_delimiter :: "nat \<Rightarrow> mem \<Rightarrow> mem" where
  "msg_init_delimiter i s = put_msg i (init_base Type_delimiter (msgs s i)) s"

definition msg_init_join :: "nat \<Rightarrow> mem \<Rightarrow> mem" where
  "msg_init_join i s = put_msg i (init_base Type_join (msgs s i)) s"

definition msg_init_leave :: "nat \<Rightarrow> mem \<Rightarrow> mem" where
  "msg_init_leave i s = put_msg i (init_base Type_leave (msgs s i)) s"

text \<open>\<open>malloc (size)\<close>: an unused address, or NULL.\<close>

definition malloc_addr :: "nat \<Rightarrow> mem \<Rightarrow> nat option \<times> mem" where
  "malloc_addr sz s =
     (let a = next_addr s; s' = s\<lparr>next_addr := Suc a\<rparr>
      in if oom s a sz then (None, s') else (Some a, s'))"

definition fresh_bytes :: "mem \<Rightarrow> nat \<Rightarrow> byte list" where
  "fresh_bytes s n = map (junk s) [0..<n]"

definition msg_init_size :: "nat \<Rightarrow> nat \<Rightarrow> mem \<Rightarrow> mem \<times> unit result" where
  "msg_init_size i sz s =
     (if sz \<le> max_vsm_size then
        (put_msg i ((init_base Type_vsm (msgs s i))\<lparr>vsm_size := sz\<rparr>) s, Inr ())
      else
        let m = (init_base Type_lmsg (msgs s i))\<lparr>m_content := None\<rparr>;
            (p, s1) = (if (sizeof_content_t + sz) mod 2 ^ 64 > sz
                       then malloc_addr (sizeof_content_t + sz) s else (None, s))
        in case p of
             None \<Rightarrow> (put_msg i m s1, Inl ENOMEM)
           | Some a \<Rightarrow>
               (put_content a \<lparr>c_data = fresh_bytes s sz, c_size = sz, c_ffn = None,
                  c_hint = 0, c_refcnt = 0\<rparr>
                (put_msg i (m\<lparr>m_content := Some a\<rparr>) s1), Inr ()))"

text \<open>
  \<open>data\<close> is \<open>None\<close> for a NULL pointer and \<open>Some bs\<close> for a pointer to the bytes \<open>bs\<close>.
\<close>

definition msg_init_data ::
  "nat \<Rightarrow> byte list option \<Rightarrow> nat \<Rightarrow> nat option \<Rightarrow> nat \<Rightarrow> mem \<Rightarrow> (mem \<times> unit result) option" where
  "msg_init_data i data sz ffn hint s =
     (if data = None \<and> sz \<noteq> 0 then None
      else let bs = (case data of None \<Rightarrow> [] | Some b \<Rightarrow> b) in
      case ffn of
        None \<Rightarrow> Some (put_msg i ((init_base Type_cmsg (msgs s i))
                      \<lparr>cmsg_data := bs, cmsg_size := sz\<rparr>) s, Inr ())
      | Some f \<Rightarrow>
          let m = init_base Type_lmsg (msgs s i);
              (p, s1) = malloc_addr sizeof_content_t s
          in case p of
               None \<Rightarrow> Some (put_msg i (m\<lparr>m_content := None\<rparr>) s1, Inl ENOMEM)
             | Some a \<Rightarrow>
                 Some (put_content a \<lparr>c_data = bs, c_size = sz, c_ffn = Some f,
                         c_hint = hint, c_refcnt = 0\<rparr>
                       (put_msg i (m\<lparr>m_content := Some a\<rparr>) s1), Inr ()))"

definition msg_init_external_storage ::
  "nat \<Rightarrow> nat option \<Rightarrow> byte list option \<Rightarrow> nat \<Rightarrow> nat option \<Rightarrow> nat \<Rightarrow> mem
     \<Rightarrow> (mem \<times> unit result) option" where
  "msg_init_external_storage i content data sz ffn hint s =
     (case data of None \<Rightarrow> None | Some bs \<Rightarrow>
      case content of None \<Rightarrow> None | Some a \<Rightarrow>
        Some (put_content a \<lparr>c_data = bs, c_size = sz, c_ffn = ffn, c_hint = hint,
                c_refcnt = 0\<rparr>
              (put_msg i ((init_base Type_zclmsg (msgs s i))\<lparr>m_content := Some a\<rparr>) s), Inr ()))"

section \<open>Access\<close>

definition content_of :: "mem \<Rightarrow> msg_t \<Rightarrow> content_t option" where
  "content_of s m = (case m_content m of None \<Rightarrow> None | Some a \<Rightarrow> contents s a)"

text \<open>\<open>msg_data s m\<close> are the bytes from the pointer \<open>data ()\<close> on, \<open>msg_size s m\<close> is \<open>size ()\<close>.\<close>

definition msg_data :: "mem \<Rightarrow> msg_t \<Rightarrow> byte list option" where
  "msg_data s m = (case m_type m of
       Type_vsm \<Rightarrow> Some (vsm_data m)
     | Type_lmsg \<Rightarrow> map_option c_data (content_of s m)
     | Type_cmsg \<Rightarrow> Some (cmsg_data m)
     | Type_zclmsg \<Rightarrow> map_option c_data (content_of s m)
     | _ \<Rightarrow> None)"

definition msg_size :: "mem \<Rightarrow> msg_t \<Rightarrow> nat option" where
  "msg_size s m = (case m_type m of
       Type_vsm \<Rightarrow> Some (vsm_size m)
     | Type_lmsg \<Rightarrow> map_option c_size (content_of s m)
     | Type_zclmsg \<Rightarrow> map_option c_size (content_of s m)
     | Type_cmsg \<Rightarrow> Some (cmsg_size m)
     | _ \<Rightarrow> None)"

definition set_flags :: "8 word \<Rightarrow> msg_t \<Rightarrow> msg_t" where
  "set_flags fl m = m\<lparr>m_flags := m_flags m OR fl\<rparr>"

definition reset_flags :: "8 word \<Rightarrow> msg_t \<Rightarrow> msg_t" where
  "reset_flags fl m = m\<lparr>m_flags := m_flags m AND NOT fl\<rparr>"

definition is_identity :: "msg_t \<Rightarrow> bool" where
  "is_identity m = (m_flags m AND flag_identity = flag_identity)"

definition is_credential :: "msg_t \<Rightarrow> bool" where
  "is_credential m = (m_flags m AND flag_credential = flag_credential)"

definition is_delimiter :: "msg_t \<Rightarrow> bool" where
  "is_delimiter m = (m_type m = Type_delimiter)"

definition is_vsm :: "msg_t \<Rightarrow> bool" where
  "is_vsm m = (m_type m = Type_vsm)"

definition is_cmsg :: "msg_t \<Rightarrow> bool" where
  "is_cmsg m = (m_type m = Type_cmsg)"

definition is_join :: "msg_t \<Rightarrow> bool" where
  "is_join m = (m_type m = Type_join)"

definition is_leave :: "msg_t \<Rightarrow> bool" where
  "is_leave m = (m_type m = Type_leave)"

definition msg_set_routing_id :: "32 word \<Rightarrow> msg_t \<Rightarrow> msg_t \<times> unit result" where
  "msg_set_routing_id rid m =
     (if rid \<noteq> 0 then (m\<lparr>m_routing_id := rid\<rparr>, Inr ()) else (m, Inl EINVAL))"

definition msg_reset_routing_id :: "msg_t \<Rightarrow> msg_t \<times> unit result" where
  "msg_reset_routing_id m = (m\<lparr>m_routing_id := 0\<rparr>, Inr ())"

definition group_max_length :: nat where "group_max_length = 15"

text \<open>\<open>strncpy\<close>: the bytes up to the terminator, at most \<open>n\<close>, padded with zeros to \<open>n\<close>.\<close>

definition strncpy :: "byte list \<Rightarrow> nat \<Rightarrow> byte list" where
  "strncpy src n = (let b = takeWhile (\<lambda>x. x \<noteq> 0) (take n src) in b @ replicate (n - length b) 0)"

definition msg_set_group_len :: "byte list \<Rightarrow> nat \<Rightarrow> msg_t \<Rightarrow> msg_t \<times> unit result" where
  "msg_set_group_len grp len m =
     (if len > group_max_length then (m, Inl EINVAL)
      else (m\<lparr>m_group := (overwrite (m_group m) 0 (strncpy grp len))[len := 0]\<rparr>, Inr ()))"

definition msg_set_group :: "byte list \<Rightarrow> msg_t \<Rightarrow> msg_t \<times> unit result" where
  "msg_set_group grp m = msg_set_group_len grp (length (takeWhile (\<lambda>x. x \<noteq> 0) grp)) m"

text \<open>\<open>group ()\<close>, read as a C string.\<close>

definition msg_group :: "msg_t \<Rightarrow> byte list" where
  "msg_group m = takeWhile (\<lambda>x. x \<noteq> 0) (m_group m)"

text \<open>
  \<open>init (data, size, ffn, hint, content)\<close>. Small bodies are copied into the message;
  \<open>memcpy (data (), data_, size_)\<close> goes to the vsm array, since \<open>size_ < max_vsm_size\<close>.
\<close>

definition msg_init_buffer ::
  "nat \<Rightarrow> byte list option \<Rightarrow> nat \<Rightarrow> nat option \<Rightarrow> nat \<Rightarrow> nat option \<Rightarrow> mem
     \<Rightarrow> (mem \<times> unit result) option" where
  "msg_init_buffer i data sz ffn hint content s =
     (if sz < max_vsm_size then
        (case msg_init_size i sz s of
           (s1, Inr _) \<Rightarrow>
             let bs = (case data of None \<Rightarrow> [] | Some b \<Rightarrow> take sz b) in
             Some (put_msg i ((msgs s1 i)\<lparr>vsm_data := overwrite (vsm_data (msgs s1 i)) 0 bs\<rparr>) s1,
                   Inr ())
         | (s1, Inl e) \<Rightarrow> Some (s1, Inl e))
      else if content \<noteq> None then msg_init_external_storage i content data sz ffn hint s
      else msg_init_data i data sz ffn hint s)"

section \<open>Metadata\<close>

definition msg_set_metadata :: "nat \<Rightarrow> nat \<Rightarrow> mem \<Rightarrow> mem option" where
  "msg_set_metadata i a s =
     (if m_metadata (msgs s i) \<noteq> None then None
      else case metas s a of
             None \<Rightarrow> None
           | Some md \<Rightarrow> Some (put_msg i ((msgs s i)\<lparr>m_metadata := Some a\<rparr>)
                            (s\<lparr>metas := (metas s)(a \<mapsto> metadata_add_ref md)\<rparr>)))"

definition msg_reset_metadata :: "nat \<Rightarrow> mem \<Rightarrow> mem option" where
  "msg_reset_metadata i s =
     (case m_metadata (msgs s i) of
        None \<Rightarrow> Some s
      | Some a \<Rightarrow> (case metas s a of
            None \<Rightarrow> None
          | Some md \<Rightarrow>
              let (md', zero) = metadata_drop_ref md in
              Some (put_msg i ((msgs s i)\<lparr>m_metadata := None\<rparr>)
                     (s\<lparr>metas := (metas s)(a := (if zero then None else Some md'))\<rparr>))))"

section \<open>Close, move, copy\<close>

text \<open>Deallocation of the body: the user's function is called, and a long body's block is freed.\<close>

definition call_ffn :: "content_t \<Rightarrow> mem \<Rightarrow> mem" where
  "call_ffn c s = (case c_ffn c of None \<Rightarrow> s
     | Some f \<Rightarrow> s\<lparr>ffn_calls := ffn_calls s @ [(f, c_hint c)]\<rparr>)"

definition free_content :: "nat \<Rightarrow> mem \<Rightarrow> mem" where
  "free_content a s = s\<lparr>contents := (contents s)(a := None)\<rparr>"

definition close_lmsg :: "msg_t \<Rightarrow> mem \<Rightarrow> mem option" where
  "close_lmsg m s =
     (case m_content m of None \<Rightarrow> None | Some a \<Rightarrow>
      case contents s a of None \<Rightarrow> None | Some c \<Rightarrow>
        if \<not> is_shared m then Some (free_content a (call_ffn c s))
        else let (v, nz) = counter_sub (c_refcnt c) 1;
                 s' = put_content a (c\<lparr>c_refcnt := v\<rparr>) s
             in if nz then Some s' else Some (free_content a (call_ffn c s')))"

definition close_zclmsg :: "msg_t \<Rightarrow> mem \<Rightarrow> mem option" where
  "close_zclmsg m s =
     (case m_content m of None \<Rightarrow> None | Some a \<Rightarrow>
      case contents s a of None \<Rightarrow> None | Some c \<Rightarrow>
        if c_ffn c = None then None
        else if \<not> is_shared m then Some (call_ffn c s)
        else let (v, nz) = counter_sub (c_refcnt c) 1;
                 s' = put_content a (c\<lparr>c_refcnt := v\<rparr>) s
             in if nz then Some s' else Some (call_ffn c s'))"

definition msg_close :: "nat \<Rightarrow> mem \<Rightarrow> (mem \<times> unit result) option" where
  "msg_close i s =
     (let m = msgs s i in
      if \<not> check_msg m then Some (s, Inl EFAULT)
      else case (if m_type m = Type_lmsg then close_lmsg m s
                 else if is_zcmsg m then close_zclmsg m s
                 else Some s) of
             None \<Rightarrow> None
           | Some s1 \<Rightarrow> (case msg_reset_metadata i s1 of
                 None \<Rightarrow> None
               | Some s2 \<Rightarrow> Some (put_msg i ((msgs s2 i)\<lparr>m_type := Type_none\<rparr>) s2, Inr ())))"

definition msg_move :: "nat \<Rightarrow> nat \<Rightarrow> mem \<Rightarrow> (mem \<times> unit result) option" where
  "msg_move i src s =
     (if \<not> check_msg (msgs s src) then Some (s, Inl EFAULT)
      else case msg_close i s of
             None \<Rightarrow> None
           | Some (s1, Inl e) \<Rightarrow> Some (s1, Inl e)
           | Some (s1, Inr _) \<Rightarrow> Some (msg_init src (put_msg i (msgs s1 src) s1), Inr ()))"

text \<open>
  A further reference to the body of \<open>src\<close>: a message that is not shared yet becomes shared
  with the count set to 2.
\<close>

definition add_body_ref :: "nat \<Rightarrow> mem \<Rightarrow> mem option" where
  "add_body_ref src s =
     (case m_content (msgs s src) of None \<Rightarrow> None | Some a \<Rightarrow>
      case contents s a of None \<Rightarrow> None | Some c \<Rightarrow>
        if is_shared (msgs s src)
        then Some (put_content a (c\<lparr>c_refcnt := fst (counter_add (c_refcnt c) 1)\<rparr>) s)
        else Some (put_content a (c\<lparr>c_refcnt := 2\<rparr>)
                    (put_msg src (set_flags flag_shared (msgs s src)) s)))"

definition msg_copy :: "nat \<Rightarrow> nat \<Rightarrow> mem \<Rightarrow> (mem \<times> unit result) option" where
  "msg_copy i src s =
     (if \<not> check_msg (msgs s src) then Some (s, Inl EFAULT)
      else case msg_close i s of
             None \<Rightarrow> None
           | Some (s1, Inl e) \<Rightarrow> Some (s1, Inl e)
           | Some (s1, Inr _) \<Rightarrow>
               (case (if m_type (msgs s1 src) = Type_lmsg \<or> is_zcmsg (msgs s1 src)
                      then add_body_ref src s1 else Some s1) of
                  None \<Rightarrow> None
                | Some s2 \<Rightarrow>
                    (case m_metadata (msgs s2 src) of
                       None \<Rightarrow> Some (put_msg i (msgs s2 src) s2, Inr ())
                     | Some a \<Rightarrow> (case metas s2 a of
                           None \<Rightarrow> None
                         | Some md \<Rightarrow>
                             let s3 = s2\<lparr>metas := (metas s2)(a \<mapsto> metadata_add_ref md)\<rparr>
                             in Some (put_msg i (msgs s3 src) s3, Inr ())))))"

section \<open>Bulk references\<close>

definition msg_add_refs :: "nat \<Rightarrow> nat \<Rightarrow> mem \<Rightarrow> mem option" where
  "msg_add_refs i refs s =
     (if m_metadata (msgs s i) \<noteq> None then None
      else if refs = 0 then Some s
      else if m_type (msgs s i) = Type_lmsg \<or> is_zcmsg (msgs s i) then
        (case m_content (msgs s i) of None \<Rightarrow> None | Some a \<Rightarrow>
         case contents s a of None \<Rightarrow> None | Some c \<Rightarrow>
           if is_shared (msgs s i)
           then Some (put_content a (c\<lparr>c_refcnt := fst (counter_add (c_refcnt c) (of_nat refs))\<rparr>) s)
           else Some (put_msg i (set_flags flag_shared (msgs s i))
                       (put_content a (c\<lparr>c_refcnt := of_nat refs + 1\<rparr>) s)))
      else Some s)"

text \<open>Returns false when the message is gone.\<close>

definition msg_rm_refs :: "nat \<Rightarrow> nat \<Rightarrow> mem \<Rightarrow> (mem \<times> bool) option" where
  "msg_rm_refs i refs s =
     (let m = msgs s i in
      if m_metadata m \<noteq> None then None
      else if refs = 0 then Some (s, True)
      else if (m_type m \<noteq> Type_zclmsg \<and> m_type m \<noteq> Type_lmsg) \<or> \<not> is_shared m then
        (case msg_close i s of None \<Rightarrow> None | Some (s1, _) \<Rightarrow> Some (s1, False))
      else case m_content m of None \<Rightarrow> None | Some a \<Rightarrow>
        (case contents s a of None \<Rightarrow> None | Some c \<Rightarrow>
           let (v, nz) = counter_sub (c_refcnt c) (of_nat refs);
               s' = put_content a (c\<lparr>c_refcnt := v\<rparr>) s
           in if nz then Some (s', True)
              else if m_type m = Type_lmsg then Some (free_content a (call_ffn c s'), False)
              else Some (call_ffn c s', False)))"

section \<open>The reference counting invariant\<close>

definition long_msg :: "msg_t \<Rightarrow> bool" where
  "long_msg m \<longleftrightarrow> m_type m = Type_lmsg \<or> m_type m = Type_zclmsg"

text \<open>The message objects that refer to the body \<open>a\<close> and to the metadata \<open>a\<close>.\<close>

definition brefs :: "mem \<Rightarrow> nat \<Rightarrow> nat set" where
  "brefs s a = {i. long_msg (msgs s i) \<and> m_content (msgs s i) = Some a}"

definition mrefs :: "mem \<Rightarrow> nat \<Rightarrow> nat set" where
  "mrefs s a = {i. check_msg (msgs s i) \<and> m_metadata (msgs s i) = Some a}"

definition ref_ok :: "mem \<Rightarrow> nat \<Rightarrow> bool" where
  "ref_ok s i \<longleftrightarrow> (\<exists>a c. m_content (msgs s i) = Some a \<and> contents s a = Some c \<and>
     (m_type (msgs s i) = Type_zclmsg \<longrightarrow> c_ffn c \<noteq> None) \<and>
     (if is_shared (msgs s i)
      then c_refcnt c = of_nat (card (brefs s a)) \<and> card (brefs s a) < 2 ^ 32
      else brefs s a = {i}))"

definition body_ok :: "mem \<Rightarrow> bool" where
  "body_ok s \<longleftrightarrow> (\<forall>a. finite (brefs s a)) \<and> (\<forall>a \<ge> next_addr s. contents s a = None) \<and>
     (\<forall>i. long_msg (msgs s i) \<longrightarrow> ref_ok s i)"

text \<open>
  \<open>ext a\<close> is the number of references to the metadata object \<open>a\<close> that are held outside of
  messages (by the engine that created it).
\<close>

definition meta_ok :: "(nat \<Rightarrow> nat) \<Rightarrow> mem \<Rightarrow> bool" where
  "meta_ok ext s \<longleftrightarrow> (\<forall>a. finite (mrefs s a)) \<and>
     (\<forall>a. mrefs s a \<noteq> {} \<longrightarrow>
        (\<exists>md. metas s a = Some md \<and> unat (ref_cnt md) = card (mrefs s a) + ext a))"

definition mem_ok :: "(nat \<Rightarrow> nat) \<Rightarrow> mem \<Rightarrow> bool" where
  "mem_ok ext s \<longleftrightarrow> body_ok s \<and> meta_ok ext s"

text \<open>The bytes of a message: \<open>size ()\<close> bytes from \<open>data ()\<close> on.\<close>

definition msg_bytes :: "mem \<Rightarrow> nat \<Rightarrow> byte list option" where
  "msg_bytes s i = (case msg_data s (msgs s i) of None \<Rightarrow> None
     | Some d \<Rightarrow> map_option (\<lambda>n. take n d) (msg_size s (msgs s i)))"

lemma body_ok_refD:
  assumes "body_ok s" "long_msg (msgs s i)"
  obtains a c where "m_content (msgs s i) = Some a" "contents s a = Some c" "i \<in> brefs s a"
    "m_type (msgs s i) = Type_zclmsg \<longrightarrow> c_ffn c \<noteq> None"
    "is_shared (msgs s i) \<longrightarrow> c_refcnt c = of_nat (card (brefs s a)) \<and> card (brefs s a) < 2 ^ 32"
    "\<not> is_shared (msgs s i) \<longrightarrow> brefs s a = {i}" "finite (brefs s a)"
proof -
  from assms have "ref_ok s i" and fin: "\<And>a. finite (brefs s a)"
    by (auto simp: body_ok_def)
  then obtain a c where "m_content (msgs s i) = Some a" "contents s a = Some c"
    "m_type (msgs s i) = Type_zclmsg \<longrightarrow> c_ffn c \<noteq> None"
    "if is_shared (msgs s i)
     then c_refcnt c = of_nat (card (brefs s a)) \<and> card (brefs s a) < 2 ^ 32
     else brefs s a = {i}"
    unfolding ref_ok_def by blast
  with assms(2) fin that[of a c] show thesis
    by (auto simp: brefs_def split: if_splits)
qed

lemma of_nat_card_minus_1_eq_0:
  assumes "finite A" "i \<in> A" "card A < 2 ^ 32"
  shows "(of_nat (card A) - 1 :: 32 word) = 0 \<longleftrightarrow> A = {i}"
proof -
  have pos: "0 < card A" using assms card_gt_0_iff by blast
  then have "(of_nat (card A) - 1 :: 32 word) = of_nat (card A - 1)"
    by (simp add: of_nat_diff)
  also have "\<dots> = 0 \<longleftrightarrow> card A - 1 = 0"
    using assms(3) by (subst word_of_nat_eq_0_iff) (auto simp: dvd_imp_le dest!: dvd_imp_le)
  also have "\<dots> \<longleftrightarrow> A = {i}"
    using pos assms(1,2) card_1_singleton_iff[of A] by (auto simp: le_Suc_eq)
  finally show ?thesis .
qed

text \<open>
  What releasing the body of message \<open>i\<close> does to the heap: nothing but the block of the body
  changes, and if other messages still refer to it, only its counter.
\<close>

definition body_released :: "nat \<Rightarrow> mem \<Rightarrow> mem \<Rightarrow> bool" where
  "body_released i s s1 \<longleftrightarrow> msgs s1 = msgs s \<and> metas s1 = metas s \<and> next_addr s1 = next_addr s \<and>
     (\<exists>a c. m_content (msgs s i) = Some a \<and> contents s a = Some c \<and>
        (if brefs s a = {i}
         then (\<forall>b. b \<noteq> a \<longrightarrow> contents s1 b = contents s b) \<and>
              (m_type (msgs s i) = Type_lmsg \<longrightarrow> contents s1 a = None) \<and>
              ffn_calls s1 = ffn_calls s @ (case c_ffn c of None \<Rightarrow> [] | Some f \<Rightarrow> [(f, c_hint c)])
         else contents s1 = (contents s)(a \<mapsto> c\<lparr>c_refcnt := c_refcnt c - 1\<rparr>) \<and>
              is_shared (msgs s i) \<and> ffn_calls s1 = ffn_calls s))"

lemma body_releasedE:
  assumes "body_released i s s1"
  obtains a c where "m_content (msgs s i) = Some a" "contents s a = Some c"
    "msgs s1 = msgs s" "metas s1 = metas s" "next_addr s1 = next_addr s"
    "\<forall>b. b \<noteq> a \<longrightarrow> contents s1 b = contents s b"
    "brefs s a \<noteq> {i} \<longrightarrow> contents s1 a = Some (c\<lparr>c_refcnt := c_refcnt c - 1\<rparr>) \<and>
       ffn_calls s1 = ffn_calls s"
    "brefs s a = {i} \<longrightarrow> (m_type (msgs s i) = Type_lmsg \<longrightarrow> contents s1 a = None) \<and>
       ffn_calls s1 = ffn_calls s @ (case c_ffn c of None \<Rightarrow> [] | Some f \<Rightarrow> [(f, c_hint c)])"
proof -
  from assms obtain a c where ac: "m_content (msgs s i) = Some a" "contents s a = Some c"
    "msgs s1 = msgs s" "metas s1 = metas s" "next_addr s1 = next_addr s"
    "if brefs s a = {i}
         then (\<forall>b. b \<noteq> a \<longrightarrow> contents s1 b = contents s b) \<and>
              (m_type (msgs s i) = Type_lmsg \<longrightarrow> contents s1 a = None) \<and>
              ffn_calls s1 = ffn_calls s @ (case c_ffn c of None \<Rightarrow> [] | Some f \<Rightarrow> [(f, c_hint c)])
         else contents s1 = (contents s)(a \<mapsto> c\<lparr>c_refcnt := c_refcnt c - 1\<rparr>) \<and>
              is_shared (msgs s i) \<and> ffn_calls s1 = ffn_calls s"
    unfolding body_released_def by blast
  show thesis
    by (rule that[OF ac(1-5)]; cases "brefs s a = {i}"; use ac(6) in simp)
qed

lemma call_ffn_fields [simp]:
  "msgs (call_ffn c s) = msgs s" "metas (call_ffn c s) = metas s"
  "contents (call_ffn c s) = contents s" "next_addr (call_ffn c s) = next_addr s"
  "ffn_calls (call_ffn c s) =
     ffn_calls s @ (case c_ffn c of None \<Rightarrow> [] | Some f \<Rightarrow> [(f, c_hint c)])"
  by (simp_all add: call_ffn_def split: option.split)

lemma free_content_fields [simp]:
  "msgs (free_content a s) = msgs s" "metas (free_content a s) = metas s"
  "contents (free_content a s) = (contents s)(a := None)"
  "next_addr (free_content a s) = next_addr s" "ffn_calls (free_content a s) = ffn_calls s"
  by (simp_all add: free_content_def)

lemma close_body_released:
  assumes ok: "body_ok s" and long: "long_msg (msgs s i)"
  shows "\<exists>s1. (if m_type (msgs s i) = Type_lmsg then close_lmsg (msgs s i) s
                else close_zclmsg (msgs s i) s) = Some s1 \<and> body_released i s s1"
proof -
  obtain a c where ac: "m_content (msgs s i) = Some a" "contents s a = Some c" "i \<in> brefs s a"
    "m_type (msgs s i) = Type_zclmsg \<longrightarrow> c_ffn c \<noteq> None"
    "is_shared (msgs s i) \<longrightarrow> c_refcnt c = of_nat (card (brefs s a)) \<and> card (brefs s a) < 2 ^ 32"
    "\<not> is_shared (msgs s i) \<longrightarrow> brefs s a = {i}" "finite (brefs s a)"
    by (rule body_ok_refD [OF ok long])
  have z: "is_shared (msgs s i) \<Longrightarrow> (c_refcnt c - 1 = 0) = (brefs s a = {i})"
    using of_nat_card_minus_1_eq_0[OF ac(7,3)] ac(5) by simp
  show ?thesis
  proof (cases "is_shared (msgs s i)")
    case True
    with ac z long show ?thesis
      by (auto simp: close_lmsg_def close_zclmsg_def counter_sub_def body_released_def Let_def
          long_msg_def)
  next
    case False
    with ac long show ?thesis
      by (auto simp: close_lmsg_def close_zclmsg_def body_released_def long_msg_def)
  qed
qed

lemma is_shared_type_update [simp]:
  "is_shared (m\<lparr>m_type := t\<rparr>) = is_shared m" "is_shared (m\<lparr>m_metadata := x\<rparr>) = is_shared m"
  by simp_all

text \<open>
  Removing message \<open>i\<close> from the references after its body was released keeps the invariant:
  \<open>s2\<close> has the heap of \<open>s1\<close>, and message \<open>i\<close> no longer is a long message.
\<close>

lemma body_ok_drop:
  assumes ok: "body_ok s" and rel: "long_msg (msgs s i) \<Longrightarrow> body_released i s s1"
    and nrel: "\<not> long_msg (msgs s i) \<Longrightarrow> contents s1 = contents s \<and> next_addr s1 = next_addr s"
    and s2: "contents s2 = contents s1" "next_addr s2 = next_addr s1"
    and other: "\<And>j. j \<noteq> i \<Longrightarrow> msgs s2 j = msgs s j" and gone: "\<not> long_msg (msgs s2 i)"
  shows "body_ok s2"
proof -
  have br: "brefs s2 b = brefs s b - {i}" for b
    using other gone by (auto simp: brefs_def) (metis)+
  have fin: "finite (brefs s b)" for b
    using ok by (simp add: body_ok_def)
  have ref: "ref_ok s2 j" if lj: "long_msg (msgs s2 j)" for j
  proof -
    have ji: "j \<noteq> i" using that gone by auto
    then have mj: "msgs s2 j = msgs s j" "long_msg (msgs s j)"
      using other lj by auto
    obtain b d where bd: "m_content (msgs s j) = Some b" "contents s b = Some d" "j \<in> brefs s b"
      "m_type (msgs s j) = Type_zclmsg \<longrightarrow> c_ffn d \<noteq> None"
      "is_shared (msgs s j) \<longrightarrow> c_refcnt d = of_nat (card (brefs s b)) \<and> card (brefs s b) < 2 ^ 32"
      "\<not> is_shared (msgs s j) \<longrightarrow> brefs s b = {j}"
      by (rule body_ok_refD [OF ok mj(2)])
    show ?thesis
    proof (cases "i \<in> brefs s b")
      case False
      have "contents s2 b = Some d"
      proof (cases "long_msg (msgs s i)")
        case True
        from rel[OF this] obtain a c where r: "m_content (msgs s i) = Some a"
          "b \<noteq> a \<longrightarrow> contents s1 b = contents s b"
          by (elim body_releasedE) auto
        with False True have "b \<noteq> a" by (auto simp: brefs_def)
        with r bd s2 show ?thesis by simp
      next
        case nl: False
        with nrel bd s2 show ?thesis by simp
      qed
      with bd False mj show ?thesis
        by (auto simp: ref_ok_def br)
    next
      case True
      then have li: "long_msg (msgs s i)" and ci: "m_content (msgs s i) = Some b"
        by (auto simp: brefs_def)
      have ne: "brefs s b \<noteq> {i}" using bd(3) ji by auto
      with rel[OF li] ci bd(2) have c1: "contents s2 b = Some (d\<lparr>c_refcnt := c_refcnt d - 1\<rparr>)"
        by (elim body_releasedE) (simp add: s2)
      have shj: "is_shared (msgs s j)" using bd(6) True ji by auto
      have "card (brefs s b) > 0" using True fin[of b] card_gt_0_iff by blast
      with shj bd(5) True have "c_refcnt d - 1 = of_nat (card (brefs s b - {i}))"
        by (simp add: of_nat_diff)
      moreover have "card (brefs s b - {i}) < 2 ^ 32"
        using bd(5) shj by (meson card_Diff1_le le_less_trans)
      ultimately show ?thesis
        using c1 bd mj shj by (auto simp: ref_ok_def br)
    qed
  qed
  have "contents s2 b = None" if "b \<ge> next_addr s2" for b
  proof (cases "long_msg (msgs s i)")
    case True
    from rel[OF this] obtain a c where r: "m_content (msgs s i) = Some a" "contents s a = Some c"
      "next_addr s1 = next_addr s" "b \<noteq> a \<longrightarrow> contents s1 b = contents s b"
      by (elim body_releasedE) auto
    have "a < next_addr s" using ok r(2) by (metis body_ok_def not_le option.distinct(1))
    with r that ok s2 show ?thesis by (auto simp: body_ok_def)
  next
    case False
    with nrel s2 that ok show ?thesis by (simp add: body_ok_def)
  qed
  with ref br fin show ?thesis by (auto simp: body_ok_def)
qed

lemma meta_ok_cong: "mrefs s2 = mrefs s \<Longrightarrow> metas s2 = metas s \<Longrightarrow> meta_ok ext s2 = meta_ok ext s"
  by (simp add: meta_ok_def)

lemma meta_okD:
  assumes "meta_ok ext s" "i \<in> mrefs s a"
  obtains md where "metas s a = Some md" "unat (ref_cnt md) = card (mrefs s a) + ext a"
    "finite (mrefs s a)"
  using assms unfolding meta_ok_def by blast

lemma unat_minus_1: "unat w = Suc n \<Longrightarrow> unat (w - 1) = n" for w :: "'a :: len word"
  by (metis One_nat_def Suc_eq_plus1 add_diff_cancel_right' diff_Suc_1 nat.distinct(1) unat_0
      unat_minus_one)

lemma mrefs_insert:
  "check_msg (msgs s i) \<Longrightarrow> m_metadata (msgs s i) = Some a \<Longrightarrow> i \<in> mrefs s a"
  by (simp add: mrefs_def)

lemma reset_metadata_ok:
  assumes ok: "meta_ok ext s" and valid: "check_msg (msgs s i)"
  shows "\<exists>s2. msg_reset_metadata i s = Some s2 \<and> meta_ok ext s2 \<and>
     msgs s2 = (msgs s)(i := (msgs s i)\<lparr>m_metadata := None\<rparr>) \<and> contents s2 = contents s \<and>
     next_addr s2 = next_addr s \<and> ffn_calls s2 = ffn_calls s"
proof (cases "m_metadata (msgs s i)")
  case None
  then have "(msgs s)(i := (msgs s i)\<lparr>m_metadata := None\<rparr>) = msgs s"
    by (metis fun_upd_triv msg_t.surjective msg_t.update_convs(1))
  with None ok show ?thesis by (simp add: msg_reset_metadata_def)
next
  case (Some a)
  obtain md where md: "metas s a = Some md" "unat (ref_cnt md) = card (mrefs s a) + ext a"
    "finite (mrefs s a)"
    by (rule meta_okD [OF ok mrefs_insert [of s i a, OF valid Some]])
  let ?s2 = "put_msg i ((msgs s i)\<lparr>m_metadata := None\<rparr>) (s\<lparr>metas := (metas s)
      (a := (if ref_cnt md - 1 = 0 then None else Some (md\<lparr>ref_cnt := ref_cnt md - 1\<rparr>)))\<rparr>)"
  have eq: "msg_reset_metadata i s = Some ?s2"
    using Some md by (auto simp: msg_reset_metadata_def metadata_drop_ref_def counter_sub_def)
  have mr: "mrefs ?s2 b = (if b = a then mrefs s a - {i} else mrefs s b)" for b
    using Some by (auto simp: mrefs_def check_msg_def)
  have iin: "i \<in> mrefs s a" using valid Some by (simp add: mrefs_insert)
  define k where "k = card (mrefs s a - {i})"
  have k: "unat (ref_cnt md) = Suc (k + ext a)"
    using md card.remove[OF md(3) iin] by (simp add: k_def)
  then have k1: "unat (ref_cnt md - 1) = k + ext a" by (rule unat_minus_1)
  have "meta_ok ext ?s2"
    unfolding meta_ok_def mr
  proof (intro conjI allI impI)
    fix b show "finite (if b = a then mrefs s a - {i} else mrefs s b)"
      using ok by (simp add: meta_ok_def)
  next
    fix b assume ne: "(if b = a then mrefs s a - {i} else mrefs s b) \<noteq> {}"
    show "\<exists>md. metas ?s2 b = Some md \<and> unat (ref_cnt md) =
             card (if b = a then mrefs s a - {i} else mrefs s b) + ext b"
    proof (cases "b = a")
      case True
      with ne md(3) have "k \<noteq> 0" by (simp add: k_def)
      with k1 have "ref_cnt md - 1 \<noteq> 0" by (metis add_is_0 unat_0)
      with True k1 show ?thesis by (simp add: k_def)
    next
      case False
      with ne ok show ?thesis by (simp add: meta_ok_def)
    qed
  qed
  with eq show ?thesis by simp
qed

text \<open>Closing a valid message never touches dead memory and keeps the invariant.\<close>

lemma msg_close_ok:
  assumes ok: "mem_ok ext s" and valid: "check_msg (msgs s i)"
  obtains s1 s' where "msg_close i s = Some (s', Inr ())" "mem_ok ext s'"
    "msgs s' = (msgs s)(i := (msgs s i)\<lparr>m_metadata := None, m_type := Type_none\<rparr>)"
    "long_msg (msgs s i) \<Longrightarrow> body_released i s s1"
    "\<not> long_msg (msgs s i) \<Longrightarrow> s1 = s"
    "contents s' = contents s1" "next_addr s' = next_addr s" "ffn_calls s' = ffn_calls s1"
proof -
  have b: "body_ok s" and m: "meta_ok ext s" using ok by (simp_all add: mem_ok_def)
  let ?body = "if m_type (msgs s i) = Type_lmsg then close_lmsg (msgs s i) s
       else if is_zcmsg (msgs s i) then close_zclmsg (msgs s i) s else Some s"
  have "\<exists>s1. ?body = Some s1 \<and> (long_msg (msgs s i) \<longrightarrow> body_released i s s1) \<and>
          (\<not> long_msg (msgs s i) \<longrightarrow> s1 = s)"
    using close_body_released[OF b, of i] by (auto simp: long_msg_def is_zcmsg_def)
  then obtain s1 where s1: "?body = Some s1" "long_msg (msgs s i) \<longrightarrow> body_released i s s1"
    "\<not> long_msg (msgs s i) \<longrightarrow> s1 = s" by blast
  have f: "msgs s1 = msgs s" "metas s1 = metas s" "next_addr s1 = next_addr s"
    using s1 by (auto simp: body_released_def)
  then have "meta_ok ext s1" "check_msg (msgs s1 i)"
    using m valid meta_ok_cong[of s1 s ext] by (auto simp: mrefs_def fun_eq_iff)
  then obtain s2 where s2: "msg_reset_metadata i s1 = Some s2" "meta_ok ext s2"
    "msgs s2 = (msgs s)(i := (msgs s i)\<lparr>m_metadata := None\<rparr>)" "contents s2 = contents s1"
    "next_addr s2 = next_addr s" "ffn_calls s2 = ffn_calls s1"
    using reset_metadata_ok[of ext s1 i] f by auto
  let ?s' = "put_msg i ((msgs s2 i)\<lparr>m_type := Type_none\<rparr>) s2"
  have eq: "msg_close i s = Some (?s', Inr ())"
    using valid s1(1) s2(1) by (simp add: msg_close_def Let_def)
  have "body_ok ?s'"
    using b by (rule body_ok_drop[where i = i and ?s1.0 = s1])
      (use s1 s2 f in \<open>auto simp: long_msg_def\<close>)
  moreover have "meta_ok ext ?s'"
    using s2(2,3) by (subst meta_ok_cong[where s = s2]) (auto simp: mrefs_def fun_eq_iff check_msg_def)
  ultimately have "mem_ok ext ?s'" by (simp add: mem_ok_def)
  from that[OF eq this, of s1] s1 s2 f show thesis by auto
qed

section \<open>Construction keeps the invariant\<close>

lemma long_msg_check: "long_msg m \<Longrightarrow> check_msg m"
  by (auto simp: long_msg_def check_msg_def)

lemma mrefs_put_msg:
  "\<not> check_msg (msgs s i) \<Longrightarrow> m_metadata m = None \<Longrightarrow> mrefs (put_msg i m s) = mrefs s"
  by (auto simp: mrefs_def fun_eq_iff)

lemma brefs_put_long:
  assumes "\<not> long_msg (msgs s i)" "long_msg m" "m_content m = Some a" "msgs s' = (msgs s)(i := m)"
  shows "brefs s' b = (if b = a then insert i (brefs s a) else brefs s b)"
  using assms by (auto simp: brefs_def)

lemma ref_ok_cong:
  assumes "msgs s' j = msgs s j" "m_content (msgs s j) = Some a" "contents s' a = contents s a"
    "brefs s' a = brefs s a"
  shows "ref_ok s' j = ref_ok s j"
  using assms by (simp add: ref_ok_def)

lemma ref_ok_content: "ref_ok s j \<Longrightarrow> \<exists>a. m_content (msgs s j) = Some a"
  by (auto simp: ref_ok_def)

lemma body_ok_cong:
  assumes "msgs s' = msgs s" "contents s' = contents s" "next_addr s' = next_addr s"
  shows "body_ok s' = body_ok s"
proof -
  have "brefs s' = brefs s" using assms by (simp add: brefs_def fun_eq_iff)
  with assms show ?thesis by (simp only: body_ok_def ref_ok_def)
qed

lemma put_plain_ok:
  assumes "mem_ok ext s" "\<not> check_msg (msgs s i)" "\<not> long_msg m" "m_metadata m = None"
  shows "mem_ok ext (put_msg i m s)"
proof -
  have "brefs (put_msg i m s) = brefs s"
    using assms(2,3) long_msg_check by (auto simp: brefs_def fun_eq_iff)
  note br = this
  have "ref_ok (put_msg i m s) j" if "j \<noteq> i" "long_msg (msgs s j)" for j
  proof -
    have r: "ref_ok s j" using that assms(1) by (simp add: mem_ok_def body_ok_def)
    then obtain a where "m_content (msgs s j) = Some a" using ref_ok_content by blast
    with r that br show ?thesis using ref_ok_cong[of "put_msg i m s" j s a] by simp
  qed
  with br have "body_ok (put_msg i m s)"
    using assms(1,3) by (auto simp: mem_ok_def body_ok_def)
  moreover have "meta_ok ext (put_msg i m s)"
    using assms mrefs_put_msg[of s i m] by (simp add: mem_ok_def meta_ok_def)
  ultimately show ?thesis by (simp add: mem_ok_def)
qed

lemma put_fresh_ok:
  assumes ok: "mem_ok ext s" and inv: "\<not> check_msg (msgs s i)" and m: "long_msg m"
    "m_metadata m = None" "\<not> is_shared m" "m_content m = Some a"
    and unused: "brefs s a = {}" and c: "m_type m = Type_zclmsg \<longrightarrow> c_ffn c \<noteq> None"
    and s': "contents s' = (contents s)(a \<mapsto> c)" "msgs s' = (msgs s)(i := m)"
      "next_addr s \<le> next_addr s'" "a < next_addr s'" "metas s' = metas s"
  shows "mem_ok ext s'"
proof -
  have nl: "\<not> long_msg (msgs s i)" using inv long_msg_check by blast
  have br: "brefs s' b = (if b = a then {i} else brefs s b)" for b
    using brefs_put_long[OF nl m(1,4) s'(2), of b] unused by simp
  have "ref_ok s' j" if "long_msg (msgs s' j)" for j
  proof (cases "j = i")
    case True
    with m c s' br show ?thesis by (auto simp: ref_ok_def)
  next
    case False
    with that s' have lj: "long_msg (msgs s j)" by simp
    with ok have rj: "ref_ok s j" by (simp add: mem_ok_def body_ok_def)
    then obtain b where b: "m_content (msgs s j) = Some b" using ref_ok_content by blast
    with lj unused have "b \<noteq> a" by (auto simp: brefs_def)
    with False s' br b rj show ?thesis by (simp add: ref_ok_cong[of s' j s b])
  qed
  with ok s' br have "body_ok s'" by (auto simp: mem_ok_def body_ok_def)
  moreover have "mrefs s' = mrefs s"
    using mrefs_put_msg[OF inv m(2)] s'(2) by (simp add: mrefs_def fun_eq_iff)
  then have "meta_ok ext s'" using ok s'(5) by (simp add: mem_ok_def meta_ok_cong[of s' s])
  ultimately show ?thesis by (simp add: mem_ok_def)
qed

lemma brefs_unallocated: "mem_ok ext s \<Longrightarrow> next_addr s \<le> a \<Longrightarrow> brefs s a = {}"
  by (auto simp: mem_ok_def body_ok_def ref_ok_def brefs_def)

lemma init_base_simps [simp]:
  "m_type (init_base ty m) = ty" "m_metadata (init_base ty m) = None" "m_flags (init_base ty m) = 0"
  by (simp_all add: init_base_def)

lemma msg_init_size_ok:
  assumes ok: "mem_ok ext s" and inv: "\<not> check_msg (msgs s i)"
    and eq: "msg_init_size i sz s = (s', Inr ())"
  shows "mem_ok ext s' \<and> check_msg (msgs s' i)"
proof (cases "sz \<le> max_vsm_size")
  case True
  with eq put_plain_ok[OF ok inv] show ?thesis
    by (auto simp: msg_init_size_def long_msg_def check_msg_def)
next
  case False
  with eq have "mem_ok ext s'"
    by (intro put_fresh_ok[OF ok inv, where m = "msgs s' i" and a = "next_addr s"
        and c = "the (contents s' (next_addr s))"])
      (auto simp: msg_init_size_def malloc_addr_def long_msg_def Let_def brefs_unallocated[OF ok]
        split: if_splits)
  moreover from False eq have "check_msg (msgs s' i)"
    by (auto simp: msg_init_size_def malloc_addr_def check_msg_def Let_def split: if_splits)
  ultimately show ?thesis by simp
qed

lemma msg_init_data_ok:
  assumes ok: "mem_ok ext s" and inv: "\<not> check_msg (msgs s i)"
    and eq: "msg_init_data i data sz ffn hint s = Some (s', Inr ())"
  shows "mem_ok ext s' \<and> check_msg (msgs s' i)"
proof (cases ffn)
  case None
  with eq put_plain_ok[OF ok inv] show ?thesis
    by (auto simp: msg_init_data_def long_msg_def check_msg_def Let_def split: if_splits)
next
  case (Some f)
  with eq have "mem_ok ext s'"
    by (intro put_fresh_ok[OF ok inv, where m = "msgs s' i" and a = "next_addr s"
        and c = "the (contents s' (next_addr s))"])
      (auto simp: msg_init_data_def malloc_addr_def long_msg_def Let_def brefs_unallocated[OF ok]
        split: if_splits)
  moreover from Some eq have "check_msg (msgs s' i)"
    by (auto simp: msg_init_data_def malloc_addr_def check_msg_def Let_def split: if_splits)
  ultimately show ?thesis by simp
qed

lemma msg_init_external_ok:
  assumes ok: "mem_ok ext s" and inv: "\<not> check_msg (msgs s i)" and "ffn \<noteq> None"
    and slot: "brefs s a = {}" "a < next_addr s"
    and eq: "msg_init_external_storage i (Some a) data sz ffn hint s = Some (s', Inr ())"
  shows "mem_ok ext s' \<and> check_msg (msgs s' i)"
proof -
  from eq assms(3) have "mem_ok ext s'"
    by (intro put_fresh_ok[OF ok inv, where m = "msgs s' i" and a = a
        and c = "the (contents s' a)"])
      (auto simp: msg_init_external_storage_def long_msg_def slot split: option.splits)
  moreover from eq have "check_msg (msgs s' i)"
    by (auto simp: msg_init_external_storage_def check_msg_def split: option.splits)
  ultimately show ?thesis by simp
qed

section \<open>Copying keeps the invariant\<close>

lemma bit_flag_shared: "bit flag_shared n \<longleftrightarrow> n = 7"
proof -
  have "flag_shared = 2 ^ 7" by simp
  then show ?thesis by (simp only: bit_exp_iff) auto
qed

lemma flag_shared_iff: "x AND flag_shared \<noteq> 0 \<longleftrightarrow> bit x 7" for x :: "8 word"
proof -
  have "flag_shared = 2 ^ 7" by simp
  then show ?thesis using and_exp_eq_0_iff_not_bit[of x 7] by simp
qed

lemma is_shared_set_flags [simp]: "is_shared (set_flags flag_shared m)"
  by (simp add: set_flags_def flag_shared_iff bit_or_iff bit_flag_shared)

lemma set_flags_shared_id: "is_shared m \<Longrightarrow> set_flags flag_shared m = m"
proof -
  assume "is_shared m"
  then have "m_flags m OR flag_shared = m_flags m"
    by (intro bit_word_eqI) (metis bit_flag_shared bit_or_iff flag_shared_iff)
  then show ?thesis by (simp add: set_flags_def)
qed

lemma set_flags_simps [simp]:
  "m_type (set_flags f m) = m_type m" "m_content (set_flags f m) = m_content m"
  "m_metadata (set_flags f m) = m_metadata m" "vsm_data (set_flags f m) = vsm_data m"
  "vsm_size (set_flags f m) = vsm_size m" "cmsg_data (set_flags f m) = cmsg_data m"
  "cmsg_size (set_flags f m) = cmsg_size m" "long_msg (set_flags f m) = long_msg m"
  "check_msg (set_flags f m) = check_msg m"
  by (simp_all add: set_flags_def long_msg_def check_msg_def)

text \<open>
  Adding the references of the messages \<open>J\<close> to the body of \<open>src\<close>: the counter grows by the
  number of new references, and all of them carry the shared flag.
\<close>

lemma body_ok_share:
  assumes ok: "body_ok s" and src: "long_msg (msgs s src)" "m_content (msgs s src) = Some a"
      "contents s a = Some c"
    and J: "finite J" "src \<notin> J" "\<And>j. j \<in> J \<Longrightarrow> \<not> long_msg (msgs s j)"
    and bound: "card (brefs s a) + card J < 2 ^ 32"
    and s': "contents s' = (contents s)(a \<mapsto> c\<lparr>c_refcnt := of_nat (card (brefs s a) + card J)\<rparr>)"
      "next_addr s' = next_addr s"
      "\<And>j. msgs s' j = (if j = src \<or> j \<in> J then set_flags flag_shared (msgs s src) else msgs s j)"
  shows "body_ok s'"
proof -
  have br: "brefs s' b = (if b = a then brefs s a \<union> J else brefs s b)" for b
    using src J(3) by (auto simp: brefs_def s'(3))
  have dis: "brefs s a \<inter> J = {}" using J(3) by (auto simp: brefs_def)
  have fin: "finite (brefs s b)" for b using ok by (simp add: body_ok_def)
  have cd: "card (brefs s' a) = card (brefs s a) + card J"
    using br[of a] dis fin J(1) by (simp add: card_Un_disjoint)
  have "ref_ok s' k" if lk: "long_msg (msgs s' k)" for k
  proof (cases "k = src \<or> k \<in> J")
    case True
    obtain d where "contents s a = Some d" "m_type (msgs s src) = Type_zclmsg \<longrightarrow> c_ffn d \<noteq> None"
      using ok src by (auto simp: body_ok_def ref_ok_def)
    with True cd src bound show ?thesis
      by (auto simp: ref_ok_def s' simp del: One_nat_def)
  next
    case False
    then have mk: "msgs s' k = msgs s k" "long_msg (msgs s k)" using lk by (auto simp: s')
    obtain b d where bd: "m_content (msgs s k) = Some b" "contents s b = Some d" "k \<in> brefs s b"
      "m_type (msgs s k) = Type_zclmsg \<longrightarrow> c_ffn d \<noteq> None"
      "is_shared (msgs s k) \<longrightarrow> c_refcnt d = of_nat (card (brefs s b)) \<and> card (brefs s b) < 2 ^ 32"
      "\<not> is_shared (msgs s k) \<longrightarrow> brefs s b = {k}"
      by (rule body_ok_refD [OF ok mk(2)])
    show ?thesis
    proof (cases "b = a")
      case True
      have "src \<in> brefs s a" using src by (simp add: brefs_def)
      with True False bd(6) have "is_shared (msgs s k)" by auto
      with True bd(1,2,4) src(3) mk(1) cd bound show ?thesis by (auto simp: ref_ok_def s')
    next
      case nb: False
      with bd br mk(1) show ?thesis by (auto simp: ref_ok_def s')
    qed
  qed
  moreover have "a < next_addr s" using ok src(3) by (metis body_ok_def not_le option.distinct(1))
  ultimately show ?thesis
    using ok fin J(1) by (auto simp: body_ok_def br s'(1,2))
qed

lemma add_body_ref_ok:
  assumes ok: "body_ok s" and ne: "i \<noteq> src" and ni: "\<not> long_msg (msgs s i)"
    and src: "long_msg (msgs s src)" "m_content (msgs s src) = Some a"
    and bound: "card (brefs s a) + 1 < 2 ^ 32"
  obtains s2 c where "add_body_ref src s = Some s2" "body_ok (put_msg i (msgs s2 src) s2)"
    "msgs s2 = (msgs s)(src := set_flags flag_shared (msgs s src))" "contents s a = Some c"
    "contents s2 = (contents s)(a \<mapsto> c\<lparr>c_refcnt := of_nat (card (brefs s a) + 1)\<rparr>)"
    "metas s2 = metas s" "ffn_calls s2 = ffn_calls s"
proof -
  obtain c where c: "contents s a = Some c"
    "is_shared (msgs s src) \<longrightarrow> c_refcnt c = of_nat (card (brefs s a))"
    "\<not> is_shared (msgs s src) \<longrightarrow> brefs s a = {src}"
    using body_ok_refD[OF ok src(1)] src(2) by (metis option.inject)
  let ?s2 = "put_content a (c\<lparr>c_refcnt := of_nat (card (brefs s a) + 1)\<rparr>)
               (put_msg src (set_flags flag_shared (msgs s src)) s)"
  have eq: "add_body_ref src s = Some ?s2"
  proof (cases "is_shared (msgs s src)")
    case True
    then have "(msgs s)(src := set_flags flag_shared (msgs s src)) = msgs s"
      by (simp add: set_flags_shared_id)
    with True c src(2) show ?thesis
      by (simp add: add_body_ref_def counter_add_def add.commute)
  next
    case False
    with c src(2) show ?thesis by (simp add: add_body_ref_def)
  qed
  have "body_ok (put_msg i (msgs ?s2 src) ?s2)"
    by (rule body_ok_share[OF ok src c(1), where J = "{i}"]) (use ne ni bound in auto)
  with that[OF eq] c(1) show thesis by simp
qed

text \<open>
  \<open>same_body s j s' k\<close>: message \<open>j\<close> of \<open>s\<close> and message \<open>k\<close> of \<open>s'\<close> have the same body.
\<close>

definition same_body :: "mem \<Rightarrow> nat \<Rightarrow> mem \<Rightarrow> nat \<Rightarrow> bool" where
  "same_body s j s' k \<longleftrightarrow>
     m_type (msgs s j) = m_type (msgs s' k) \<and> vsm_data (msgs s j) = vsm_data (msgs s' k) \<and>
     vsm_size (msgs s j) = vsm_size (msgs s' k) \<and> cmsg_data (msgs s j) = cmsg_data (msgs s' k) \<and>
     cmsg_size (msgs s j) = cmsg_size (msgs s' k) \<and>
     (long_msg (msgs s j) \<longrightarrow>
        map_option (\<lambda>c. (c_data c, c_size c)) (content_of s (msgs s j)) =
        map_option (\<lambda>c. (c_data c, c_size c)) (content_of s' (msgs s' k)))"

lemma content_of_cong: "contents s' = contents s \<Longrightarrow> content_of s' = content_of s"
  by (rule ext) (simp add: content_of_def split: option.split)

lemma same_body_cong:
  assumes "msgs s' k = msgs s2 l" "contents s' = contents s2"
  shows "same_body s j s' k = same_body s j s2 l"
  using assms content_of_cong[OF assms(2)] by (simp add: same_body_def)

lemma same_body_bytes: "same_body s j s' k \<Longrightarrow> msg_bytes s j = msg_bytes s' k"
  by (cases "m_type (msgs s' k)"; cases "content_of s (msgs s j)"; cases "content_of s' (msgs s' k)")
    (auto simp: same_body_def msg_bytes_def msg_data_def msg_size_def long_msg_def)

lemma same_body_trans: "same_body s i t j \<Longrightarrow> same_body t j u k \<Longrightarrow> same_body s i u k"
  by (auto simp: same_body_def long_msg_def)

lemma same_body_eqI:
  assumes "msgs s j = msgs s' k"
    "long_msg (msgs s j) \<Longrightarrow> content_of s (msgs s j) = content_of s' (msgs s j)"
  shows "same_body s j s' k"
  using assms by (auto simp: same_body_def)

text \<open>Closing message \<open>i\<close> leaves the body of every other message alone.\<close>

lemma close_same_body:
  assumes "long_msg (msgs s i) \<Longrightarrow> body_released i s s1" "\<not> long_msg (msgs s i) \<Longrightarrow> s1 = s"
    "contents s' = contents s1" "msgs s' j = msgs s j" "j \<noteq> i"
  shows "same_body s j s' j"
proof (cases "long_msg (msgs s i)")
  case True
  from assms(1)[OF this] obtain a c where r: "m_content (msgs s i) = Some a" "contents s a = Some c"
    "\<forall>b. b \<noteq> a \<longrightarrow> contents s1 b = contents s b"
    "brefs s a \<noteq> {i} \<longrightarrow> contents s1 a = Some (c\<lparr>c_refcnt := c_refcnt c - 1\<rparr>)"
    by (elim body_releasedE) auto
  have "map_option (\<lambda>c. (c_data c, c_size c)) (content_of s (msgs s j)) =
        map_option (\<lambda>c. (c_data c, c_size c)) (content_of s' (msgs s j))"
    if "long_msg (msgs s j)"
  proof (cases "m_content (msgs s j) = Some a")
    case True
    with that assms(5) have "brefs s a \<noteq> {i}" by (auto simp: brefs_def)
    with True r assms(3) show ?thesis by (simp add: content_of_def)
  next
    case False
    with r assms(3) show ?thesis by (auto simp: content_of_def split: option.split)
  qed
  with assms(4) show ?thesis by (simp add: same_body_def)
next
  case False
  with assms show ?thesis by (simp add: same_body_def content_of_def split: option.split)
qed

text \<open>Adding one reference to a metadata object for message \<open>i\<close>.\<close>

lemma meta_ok_add:
  assumes ok: "meta_ok ext s" and a: "metas s a = Some md" "mrefs s a \<noteq> {}"
    and bound: "card (mrefs s a) + ext a + 1 < 2 ^ 32"
    and ni: "i \<notin> mrefs s a"
    and s': "metas s' = (metas s)(a \<mapsto> metadata_add_ref md)"
      "\<And>b. mrefs s' b = (if b = a then insert i (mrefs s a) else mrefs s b)"
  shows "meta_ok ext s'"
proof -
  have u: "unat (ref_cnt md) = card (mrefs s a) + ext a" and fin: "finite (mrefs s a)"
    using ok a by (auto simp: meta_ok_def)
  then have "unat (ref_cnt md + 1) = card (insert i (mrefs s a)) + ext a"
    using bound ni by (simp add: unat_word_ariths)
  then show ?thesis
    using ok fin by (auto simp: meta_ok_def s' metadata_add_ref_def counter_add_def)
qed

text \<open>The number of references stays below the range of the 32 bit counters.\<close>

definition refs_below :: "(nat \<Rightarrow> nat) \<Rightarrow> mem \<Rightarrow> nat \<Rightarrow> bool" where
  "refs_below ext s src \<longleftrightarrow>
     (\<forall>a. m_content (msgs s src) = Some a \<longrightarrow> card (brefs s a) + 1 < 2 ^ 32) \<and>
     (\<forall>a. m_metadata (msgs s src) = Some a \<longrightarrow> card (mrefs s a) + ext a + 1 < 2 ^ 32)"

lemma copy_body_ok:
  assumes ok: "body_ok s" and ne: "i \<noteq> src" and ni: "\<not> long_msg (msgs s i)"
    and bound: "\<And>a. m_content (msgs s src) = Some a \<Longrightarrow> card (brefs s a) + 1 < 2 ^ 32"
  obtains s2 where
    "(if m_type (msgs s src) = Type_lmsg \<or> is_zcmsg (msgs s src) then add_body_ref src s else Some s)
       = Some s2" "body_ok (put_msg i (msgs s2 src) s2)" "metas s2 = metas s"
    "msgs s2 = (msgs s)(src := msgs s2 src)" "m_metadata (msgs s2 src) = m_metadata (msgs s src)"
    "check_msg (msgs s2 src) = check_msg (msgs s src)"
    "\<And>j. same_body s j s2 j" "same_body s src (put_msg i (msgs s2 src) s2) i"
proof (cases "long_msg (msgs s src)")
  case True
  then obtain a where a: "m_content (msgs s src) = Some a"
    using ok ref_ok_content[of s src] by (auto simp: body_ok_def)
  obtain s2 c where s2: "add_body_ref src s = Some s2" "body_ok (put_msg i (msgs s2 src) s2)"
    "msgs s2 = (msgs s)(src := set_flags flag_shared (msgs s src))" "contents s a = Some c"
    "contents s2 = (contents s)(a \<mapsto> c\<lparr>c_refcnt := of_nat (card (brefs s a) + 1)\<rparr>)"
    "metas s2 = metas s"
    by (rule add_body_ref_ok [OF ok ne ni True a bound [OF a]])
  have sb: "same_body s j s2 j" for j
    using s2(3-5) by (auto simp: same_body_def content_of_def split: option.split)
  have "same_body s src (put_msg i (msgs s2 src) s2) i"
    using s2(3-5) a by (simp add: same_body_def content_of_def)
  with that s2 sb True show thesis by (simp add: long_msg_def is_zcmsg_def)
next
  case False
  have "brefs (put_msg i (msgs s src) s) = brefs s"
    using False ni by (auto simp: brefs_def fun_eq_iff)
  note br = this
  have "ref_ok (put_msg i (msgs s src) s) j" if "j \<noteq> i" "long_msg (msgs s j)" for j
  proof -
    have r: "ref_ok s j" using that ok by (simp add: body_ok_def)
    then obtain b where "m_content (msgs s j) = Some b" using ref_ok_content by blast
    with r that br show ?thesis using ref_ok_cong[of "put_msg i (msgs s src) s" j s b] by simp
  qed
  with False br ok have "body_ok (put_msg i (msgs s src) s)" by (simp add: body_ok_def)
  moreover have "same_body s src (put_msg i (msgs s src) s) i"
    using False by (simp add: same_body_def)
  ultimately show thesis
    using that[of s] False by (simp add: long_msg_def is_zcmsg_def same_body_def)
qed

lemma brefs_after_close:
  assumes "finite (brefs s a)" "msgs s' = (msgs s)(i := m)" "\<not> long_msg m"
  shows "card (brefs s' a) \<le> card (brefs s a)"
  using assms by (intro card_mono) (auto simp: brefs_def)

lemma mrefs_after_close:
  assumes "finite (mrefs s a)" "msgs s' = (msgs s)(i := m)" "m_metadata m = None"
  shows "card (mrefs s' a) \<le> card (mrefs s a)"
  using assms by (intro card_mono) (auto simp: mrefs_def)

lemma msg_copy_ok:
  assumes ok: "mem_ok ext s" and ne: "i \<noteq> src"
    and valid: "check_msg (msgs s i)" "check_msg (msgs s src)" and below: "refs_below ext s src"
  obtains s' where "msg_copy i src s = Some (s', Inr ())" "mem_ok ext s'"
    "same_body s src s' i" "same_body s src s' src" "m_flags (msgs s' i) = m_flags (msgs s' src)"
    "\<And>j. j \<noteq> i \<Longrightarrow> same_body s j s' j"
proof -
  obtain s0 s1 where s1: "msg_close i s = Some (s1, Inr ())" "mem_ok ext s1"
    "msgs s1 = (msgs s)(i := (msgs s i)\<lparr>m_metadata := None, m_type := Type_none\<rparr>)"
    "long_msg (msgs s i) \<Longrightarrow> body_released i s s0" "\<not> long_msg (msgs s i) \<Longrightarrow> s0 = s"
    "contents s1 = contents s0"
    using msg_close_ok [OF ok valid(1)] by metis
  have sb1: "same_body s j s1 j" if "j \<noteq> i" for j
    using s1 that by (intro close_same_body[of s i s0]) auto
  have fin: "finite (brefs s a)" "finite (mrefs s a)" for a
    using ok by (auto simp: mem_ok_def body_ok_def meta_ok_def)
  have ms: "msgs s1 src = msgs s src" using ne s1(3) by simp
  have nl: "\<not> long_msg (msgs s1 i)" and nc: "\<not> check_msg (msgs s1 i)"
    using s1(3) by (auto simp: long_msg_def check_msg_def)
  have bound: "card (brefs s1 a) + 1 < 2 ^ 32" if "m_content (msgs s1 src) = Some a" for a
    using brefs_after_close[OF fin(1) s1(3), of a] below that ms
    by (force simp: refs_below_def long_msg_def)
  have "body_ok s1" using s1(2) by (simp add: mem_ok_def)
  from copy_body_ok[OF this ne nl bound] obtain s2 where s2:
    "(if m_type (msgs s1 src) = Type_lmsg \<or> is_zcmsg (msgs s1 src) then add_body_ref src s1
      else Some s1) = Some s2" "body_ok (put_msg i (msgs s2 src) s2)" "metas s2 = metas s1"
    "msgs s2 = (msgs s1)(src := msgs s2 src)" "m_metadata (msgs s2 src) = m_metadata (msgs s1 src)"
    "check_msg (msgs s2 src) = check_msg (msgs s1 src)"
    "\<And>j. same_body s1 j s2 j" "same_body s1 src (put_msg i (msgs s2 src) s2) i"
    by blast
  have mr2: "mrefs s2 a = mrefs s1 a" for a
    using s2(4-6) by (auto simp: mrefs_def) (metis fun_upd_apply)+
  have mk2: "meta_ok ext s2"
    using s1(2) s2(3) mr2 by (simp add: mem_ok_def meta_ok_def)
  have body: "body_ok s3 \<and> same_body s src s3 i \<and> same_body s src s3 src \<and>
      m_flags (msgs s3 i) = m_flags (msgs s3 src) \<and> (\<forall>j. j \<noteq> i \<longrightarrow> same_body s j s3 j)"
    if "msgs s3 = (msgs s2)(i := msgs s2 src)" "contents s3 = contents s2"
      "next_addr s3 = next_addr s2" for s3
  proof -
    have "body_ok s3"
      using s2(2) that body_ok_cong[of s3 "put_msg i (msgs s2 src) s2"] by simp
    moreover have "same_body s1 src s3 i"
      using s2(8) that same_body_cong[of s3 i "put_msg i (msgs s2 src) s2" i] by simp
    moreover have "same_body s1 j s3 j" if "j \<noteq> i" for j
      using s2(7)[of j] that \<open>msgs s3 = _\<close> \<open>contents s3 = _\<close> same_body_cong[of s3 j s2 j]
      by simp
    ultimately show ?thesis
      using sb1 ne that(1) same_body_trans by (metis fun_upd_apply)
  qed
  show thesis
  proof (cases "m_metadata (msgs s src)")
    case None
    let ?s3 = "put_msg i (msgs s2 src) s2"
    have "mrefs ?s3 a = mrefs s2 a" for a
      using None s2(5) ms nc ne s2(4) by (auto simp: mrefs_def) (metis fun_upd_apply)+
    then have "meta_ok ext ?s3" using mk2 by (simp add: meta_ok_def)
    moreover have "msg_copy i src s = Some (?s3, Inr ())"
      using valid s1(1) s2(1,5) None ms by (simp add: msg_copy_def)
    ultimately show ?thesis using that[of ?s3] body[of ?s3] by (simp add: mem_ok_def)
  next
    case (Some a)
    have src_in: "src \<in> mrefs s2 a"
      using Some valid(2) s2(5,6) ms by (simp add: mrefs_def)
    then obtain md where md: "metas s2 a = Some md" by (rule meta_okD[OF mk2])
    let ?s3 = "put_msg i (msgs s2 src) (s2\<lparr>metas := (metas s2)(a \<mapsto> metadata_add_ref md)\<rparr>)"
    have i_out: "i \<notin> mrefs s2 b" for b
      using nc s2(4) ne by (auto simp: mrefs_def) (metis fun_upd_apply)
    have mr3: "mrefs ?s3 b = (if b = a then insert i (mrefs s2 a) else mrefs s2 b)" for b
      using i_out[of b] src_in Some s2(5) ms by (auto simp: mrefs_def)
    have "card (mrefs s2 a) + ext a + 1 < 2 ^ 32"
      using mrefs_after_close[OF fin(2) s1(3), of a] below Some by (force simp: refs_below_def mr2)
    from meta_ok_add[OF mk2 md _ this i_out, of ?s3] src_in mr3 have "meta_ok ext ?s3"
      by auto
    moreover have "msg_copy i src s = Some (?s3, Inr ())"
      using valid s1(1) s2(1,5) Some ms md by (simp add: msg_copy_def Let_def)
    ultimately show ?thesis using that[of ?s3] body[of ?s3] by (simp add: mem_ok_def)
  qed
qed

section \<open>Moving keeps the invariant\<close>

lemma card_swap_member:
  assumes "finite A" "src \<in> A" "i \<notin> A"
  shows "card (insert i (A - {src})) = card A"
  using assms card.remove[of A src] by simp

lemma swap_ok:
  assumes ok: "mem_ok ext s" and ne: "i \<noteq> src" and ni: "\<not> check_msg (msgs s i)"
    and m: "\<not> long_msg m" "m_metadata m = None"
    and s': "s' = put_msg src m (put_msg i (msgs s src) s)"
  shows "mem_ok ext s'"
proof -
  have nl: "\<not> long_msg (msgs s i)" using ni long_msg_check by blast
  have br: "brefs s' a = (if src \<in> brefs s a then insert i (brefs s a - {src}) else brefs s a)" for a
    using ne nl m by (auto simp: s' brefs_def)
  have mr: "mrefs s' a = (if src \<in> mrefs s a then insert i (mrefs s a - {src}) else mrefs s a)" for a
    using ne ni m by (auto simp: s' mrefs_def)
  have fin: "finite (brefs s a)" "finite (mrefs s a)" for a
    using ok by (auto simp: mem_ok_def body_ok_def meta_ok_def)
  have cb: "card (brefs s' a) = card (brefs s a)" for a
  proof -
    have "i \<notin> brefs s a" using nl by (simp add: brefs_def)
    then show ?thesis using card_swap_member[OF fin(1), of src a i] by (simp add: br)
  qed
  have cm: "card (mrefs s' a) = card (mrefs s a)" for a
  proof -
    have "i \<notin> mrefs s a" using ni by (simp add: mrefs_def)
    then show ?thesis using card_swap_member[OF fin(2), of src a i] by (simp add: mr)
  qed
  have ref: "ref_ok s' k" if lk: "long_msg (msgs s' k)" for k
  proof -
    define k0 where "k0 = (if k = i then src else k)"
    have k0: "msgs s' k = msgs s k0" "long_msg (msgs s k0)" "k0 \<noteq> i" "k0 = src \<Longrightarrow> k = i"
      using lk ne m by (auto simp: k0_def s' split: if_splits)
    with ok have "ref_ok s k0" by (simp add: mem_ok_def body_ok_def)
    then obtain a c where ac: "m_content (msgs s k0) = Some a" "contents s a = Some c"
      "m_type (msgs s k0) = Type_zclmsg \<longrightarrow> c_ffn c \<noteq> None"
      "is_shared (msgs s k0) \<longrightarrow> c_refcnt c = of_nat (card (brefs s a)) \<and> card (brefs s a) < 2 ^ 32"
      "\<not> is_shared (msgs s k0) \<longrightarrow> brefs s a = {k0}"
      unfolding ref_ok_def by (metis (full_types))
    have "\<not> is_shared (msgs s k0) \<longrightarrow> brefs s' a = {k}"
    proof
      assume "\<not> is_shared (msgs s k0)"
      with ac(5) have "brefs s a = {k0}" by blast
      moreover have "k = k0" if "k0 \<noteq> src" using that by (simp add: k0_def split: if_splits)
      ultimately show "brefs s' a = {k}" using k0(4) by (cases "k0 = src") (simp_all add: br)
    qed
    moreover have "contents s' = contents s" by (simp add: s')
    ultimately show ?thesis using ac(1-4) k0(1) cb by (auto simp: ref_ok_def)
  qed
  have ne': "mrefs s' a \<noteq> {} \<Longrightarrow> mrefs s a \<noteq> {}" for a by (auto simp: mr)
  have f: "contents s' = contents s" "next_addr s' = next_addr s" "metas s' = metas s"
    by (simp_all add: s')
  have finb: "finite (brefs s' a)" and finm: "finite (mrefs s' a)" for a
    using fin[of a] by (auto simp: br mr)
  from ref finb ok have "body_ok s'" by (simp add: mem_ok_def body_ok_def f)
  moreover from ok finm ne' cm have "meta_ok ext s'" by (simp add: mem_ok_def meta_ok_def f)
  ultimately show ?thesis by (simp add: mem_ok_def)
qed

lemma msg_move_ok:
  assumes ok: "mem_ok ext s" and ne: "i \<noteq> src"
    and valid: "check_msg (msgs s i)" "check_msg (msgs s src)"
  obtains s' where "msg_move i src s = Some (s', Inr ())" "mem_ok ext s'" "msgs s' i = msgs s src"
    "m_type (msgs s' src) = Type_vsm" "vsm_size (msgs s' src) = 0" "same_body s src s' i"
    "\<And>j. j \<noteq> i \<Longrightarrow> j \<noteq> src \<Longrightarrow> same_body s j s' j"
proof -
  obtain s0 s1 where s1: "msg_close i s = Some (s1, Inr ())" "mem_ok ext s1"
    "msgs s1 = (msgs s)(i := (msgs s i)\<lparr>m_metadata := None, m_type := Type_none\<rparr>)"
    "long_msg (msgs s i) \<Longrightarrow> body_released i s s0" "\<not> long_msg (msgs s i) \<Longrightarrow> s0 = s"
    "contents s1 = contents s0"
    using msg_close_ok [OF ok valid(1)] by metis
  have sb1: "same_body s j s1 j" if "j \<noteq> i" for j
    using s1 that by (intro close_same_body[of s i s0]) auto
  let ?s' = "msg_init src (put_msg i (msgs s1 src) s1)"
  have eq: "msg_move i src s = Some (?s', Inr ())"
    using valid s1(1) by (simp add: msg_move_def)
  have "mem_ok ext ?s'"
    using s1(3) by (intro swap_ok[OF s1(2) ne])
      (auto simp: msg_init_def check_msg_def long_msg_def)
  moreover have "same_body s src ?s' i"
    using sb1[of src] ne same_body_cong[of ?s' i s1 src] by (simp add: msg_init_def)
  moreover have "same_body s j ?s' j" if "j \<noteq> i" "j \<noteq> src" for j
    using sb1[of j] that same_body_cong[of ?s' j s1 j] by (simp add: msg_init_def)
  moreover have "msgs ?s' i = msgs s src" "m_type (msgs ?s' src) = Type_vsm"
    "vsm_size (msgs ?s' src) = 0"
    using ne s1(3) by (simp_all add: msg_init_def)
  ultimately show thesis using that[OF eq] by blast
qed

section \<open>Every run of message operations\<close>

text \<open>
  The operations on messages, each with the precondition its callers keep: a message is
  constructed on closed or uninitialised storage, a failed construction is followed by
  \<open>init ()\<close> (as the decoders do), flag updates leave the shared bit alone.
\<close>

inductive msg_step :: "(nat \<Rightarrow> nat) \<Rightarrow> mem \<Rightarrow> mem \<Rightarrow> bool" for ext where
  step_init: "\<not> check_msg (msgs s i) \<Longrightarrow> msg_step ext s (msg_init i s)"
| step_delimiter: "\<not> check_msg (msgs s i) \<Longrightarrow> msg_step ext s (msg_init_delimiter i s)"
| step_join: "\<not> check_msg (msgs s i) \<Longrightarrow> msg_step ext s (msg_init_join i s)"
| step_leave: "\<not> check_msg (msgs s i) \<Longrightarrow> msg_step ext s (msg_init_leave i s)"
| step_init_size: "\<not> check_msg (msgs s i) \<Longrightarrow> msg_init_size i sz s = (s', Inr ()) \<Longrightarrow> msg_step ext s s'"
| step_init_data: "\<not> check_msg (msgs s i) \<Longrightarrow> msg_init_data i data sz ffn hint s = Some (s', Inr ())
    \<Longrightarrow> msg_step ext s s'"
| step_external: "\<not> check_msg (msgs s i) \<Longrightarrow> ffn \<noteq> None \<Longrightarrow> brefs s a = {} \<Longrightarrow> a < next_addr s \<Longrightarrow>
    msg_init_external_storage i (Some a) data sz ffn hint s = Some (s', Inr ()) \<Longrightarrow> msg_step ext s s'"
| step_close: "check_msg (msgs s i) \<Longrightarrow> msg_close i s = Some (s', r) \<Longrightarrow> msg_step ext s s'"
| step_move: "i \<noteq> src \<Longrightarrow> check_msg (msgs s i) \<Longrightarrow> msg_move i src s = Some (s', r) \<Longrightarrow> msg_step ext s s'"
| step_copy: "i \<noteq> src \<Longrightarrow> check_msg (msgs s i) \<Longrightarrow> refs_below ext s src \<Longrightarrow>
    msg_copy i src s = Some (s', r) \<Longrightarrow> msg_step ext s s'"

lemma msg_init_variants_ok:
  assumes "mem_ok ext s" "\<not> check_msg (msgs s i)"
  shows "mem_ok ext (msg_init i s)" "mem_ok ext (msg_init_delimiter i s)"
    "mem_ok ext (msg_init_join i s)" "mem_ok ext (msg_init_leave i s)"
  using put_plain_ok[OF assms]
  by (simp_all add: msg_init_def msg_init_delimiter_def msg_init_join_def msg_init_leave_def
      long_msg_def)

lemma msg_step_ok: "msg_step ext s s' \<Longrightarrow> mem_ok ext s \<Longrightarrow> mem_ok ext s'"
proof (induction rule: msg_step.induct)
  case (step_move i src s s' r)
  then show ?case
    by (cases "check_msg (msgs s src)") (auto simp: msg_move_def elim: msg_move_ok[of ext s i src])
next
  case (step_copy i src s s' r)
  then show ?case
    by (cases "check_msg (msgs s src)") (auto simp: msg_copy_def elim: msg_copy_ok[of ext s i src])
next
  case (step_close s i s' r)
  then show ?case by (auto elim: msg_close_ok[of ext s i])
qed (auto intro: msg_init_variants_ok dest: msg_init_size_ok msg_init_data_ok msg_init_external_ok)

text \<open>A memory in which no message was constructed yet.\<close>

definition initial_mem :: "mem \<Rightarrow> bool" where
  "initial_mem s \<longleftrightarrow> (\<forall>i. \<not> check_msg (msgs s i)) \<and> contents s = Map.empty"

inductive msg_reachable :: "(nat \<Rightarrow> nat) \<Rightarrow> mem \<Rightarrow> bool" for ext where
  start: "initial_mem s \<Longrightarrow> msg_reachable ext s"
| step: "msg_reachable ext s \<Longrightarrow> msg_step ext s s' \<Longrightarrow> msg_reachable ext s'"

lemma initial_mem_ok: "initial_mem s \<Longrightarrow> mem_ok ext s"
proof -
  assume "initial_mem s"
  then have "\<And>i. \<not> long_msg (msgs s i)" "\<And>i. \<not> check_msg (msgs s i)" "contents s = Map.empty"
    using long_msg_check by (auto simp: initial_mem_def)
  then show ?thesis by (simp add: mem_ok_def body_ok_def meta_ok_def brefs_def mrefs_def)
qed

lemma msg_reachable_ok: "msg_reachable ext s \<Longrightarrow> mem_ok ext s"
  by (induction rule: msg_reachable.induct) (auto intro: initial_mem_ok msg_step_ok)

section \<open>Properties\<close>

text \<open>
  The memory of the witnesses: nothing constructed yet, \<open>malloc\<close> never fails.
\<close>

definition blank_msg :: msg_t where
  "blank_msg = \<lparr>m_metadata = None, m_type = Type_none, m_flags = 0, m_group = replicate 16 0,
     m_routing_id = 0, vsm_data = replicate max_vsm_size 0, vsm_size = 0, m_content = None,
     cmsg_data = [], cmsg_size = 0\<rparr>"

definition blank_mem :: mem where
  "blank_mem = \<lparr>msgs = (\<lambda>_. blank_msg), contents = Map.empty, metas = Map.empty, next_addr = 0,
     oom = (\<lambda>_ _. False), junk = (\<lambda>_. 0), ffn_calls = []\<rparr>"

text \<open>Message 0 is a 100 byte message, message 1 is initialised to the empty message.\<close>

definition two_mem :: mem where
  "two_mem = msg_init 1 (fst (msg_init_size 0 100 blank_mem))"

lemma two_mem_reachable: "msg_reachable (\<lambda>_. 0) two_mem"
proof -
  have "msg_reachable (\<lambda>_. 0) blank_mem"
    by (rule msg_reachable.start) (simp add: initial_mem_def blank_mem_def blank_msg_def check_msg_def)
  then have "msg_reachable (\<lambda>_. 0) (fst (msg_init_size 0 100 blank_mem))"
    by (rule msg_reachable.step, intro msg_step.step_init_size[of _ 0 100])
      (simp_all add: blank_mem_def blank_msg_def check_msg_def msg_init_size_def malloc_addr_def
        max_vsm_size_def sizeof_content_t_def)
  then show ?thesis unfolding two_mem_def
    by (rule msg_reachable.step, intro msg_step.step_init)
      (simp add: blank_mem_def blank_msg_def check_msg_def msg_init_size_def malloc_addr_def
        max_vsm_size_def sizeof_content_t_def)
qed

lemma two_mem_fields:
  "m_type (msgs two_mem 0) = Type_lmsg" "m_content (msgs two_mem 0) = Some 0"
  "check_msg (msgs two_mem 0)" "check_msg (msgs two_mem 1)" "m_metadata (msgs two_mem 0) = None"
  "i \<noteq> 0 \<Longrightarrow> i \<noteq> 1 \<Longrightarrow> msgs two_mem i = blank_msg" "m_type (msgs two_mem 1) = Type_vsm"
  "contents two_mem 0 = Some \<lparr>c_data = replicate 100 0, c_size = 100, c_ffn = None, c_hint = 0,
     c_refcnt = 0\<rparr>"
  by (simp_all add: two_mem_def msg_init_def blank_mem_def blank_msg_def check_msg_def
      msg_init_size_def malloc_addr_def max_vsm_size_def sizeof_content_t_def fresh_bytes_def
      init_base_def map_replicate_const)

lemma two_mem_brefs: "brefs two_mem 0 = {0}"
proof -
  have "i = 0" if "long_msg (msgs two_mem i)" for i
    using that two_mem_fields(6)[of i] two_mem_fields(7)
    by (cases "i = 1"; cases "i = 0") (simp_all add: long_msg_def blank_msg_def)
  then show ?thesis using two_mem_fields(1,2) by (auto simp: brefs_def long_msg_def)
qed

lemma two_mem_refs_below: "refs_below (\<lambda>_. 0) two_mem 0"
  by (simp add: refs_below_def two_mem_fields two_mem_brefs)



text \<open>
  Deallocation: closing a long message frees its block, and calls the user's
  deallocation function once, exactly when the message holds the only reference to it;
  otherwise it only decrements the counter.
\<close>

theorem msg_close_frees_last:
  assumes "msg_reachable ext s" "m_type (msgs s i) = Type_lmsg" "m_content (msgs s i) = Some a"
    "contents s a = Some c" "msg_close i s = Some (s', r)"
  shows "if brefs s a = {i}
     then contents s' a = None \<and>
          ffn_calls s' = ffn_calls s @ (case c_ffn c of None \<Rightarrow> [] | Some f \<Rightarrow> [(f, c_hint c)])
     else contents s' a = Some (c\<lparr>c_refcnt := c_refcnt c - 1\<rparr>) \<and> ffn_calls s' = ffn_calls s"
proof -
  have "check_msg (msgs s i)" "long_msg (msgs s i)"
    using assms(2) by (simp_all add: check_msg_def long_msg_def)
  then obtain s1 where "body_released i s s1" "contents s' = contents s1" "ffn_calls s' = ffn_calls s1"
    using msg_close_ok [OF msg_reachable_ok [OF assms(1)]] assms(5) by (metis option.inject prod.inject)
  then show ?thesis using assms(2-4) by (elim body_releasedE) auto
qed

theorem msg_close_frees_last_witness:
  "contents (fst (the (msg_close 0 two_mem))) 0 = None"
proof -
  obtain s' where "msg_close 0 two_mem = Some (s', Inr ())"
    by (rule msg_close_ok [OF msg_reachable_ok [OF two_mem_reachable] two_mem_fields(3)])
  then show ?thesis
    using msg_close_frees_last [OF two_mem_reachable two_mem_fields(1,2,8)] two_mem_brefs by simp
qed





text \<open>
  Groups: a group name is stored in the 16 byte field exactly when it is at most 15
  bytes long, and then it is read back as it was set; a longer one is refused with EINVAL.
\<close>

theorem msg_group_roundtrip:
  assumes "length (m_group m) = 16"
  shows "case msg_set_group grp m of
      (m', Inl e) \<Rightarrow> length (takeWhile (\<lambda>x. x \<noteq> 0) grp) > 15 \<and> e = EINVAL \<and> m' = m
    | (m', Inr _) \<Rightarrow> length (takeWhile (\<lambda>x. x \<noteq> 0) grp) \<le> 15 \<and> length (m_group m') = 16 \<and>
        msg_group m' = takeWhile (\<lambda>x. x \<noteq> 0) grp"
proof -
  define b where "b = takeWhile (\<lambda>x. x \<noteq> 0) grp"
  define n where "n = length b"
  have nz: "\<forall>x \<in> set b. x \<noteq> 0" by (auto simp: b_def dest: set_takeWhileD)
  have tk: "takeWhile (\<lambda>x. x \<noteq> 0) (take n grp) = b"
    by (simp add: b_def n_def takeWhile_eq_take[symmetric] takeWhile_idem)
  have st: "strncpy grp n = b" unfolding strncpy_def tk by (simp add: n_def)
  have "msg_group (m\<lparr>m_group := (overwrite (m_group m) 0 b)[n := 0]\<rparr>) = b" if "n \<le> 15"
  proof -
    have "(overwrite (m_group m) 0 b)[n := 0] = b @ 0 # drop (Suc n) (m_group m)"
      using that assms by (simp add: overwrite_def n_def list_update_append
          Cons_nth_drop_Suc[symmetric])
    then show ?thesis using nz by (simp add: msg_group_def takeWhile_tail)
  qed
  then show ?thesis
    using assms by (simp add: msg_set_group_def msg_set_group_len_def group_max_length_def st
        b_def[symmetric] n_def[symmetric])
qed

theorem msg_group_roundtrip_witness:
  "msg_group (fst (msg_set_group [65, 66] blank_msg)) = [65, 66]"
  using msg_group_roundtrip [of blank_msg "[65, 66]"]
  by (simp add: blank_msg_def msg_set_group_def msg_set_group_len_def group_max_length_def)

end
