(* ===== verification/Wire.thy ===== *)
theory Wire
  imports Zmq_Prelude
begin

text \<open>
  Model of \<open>src/src/wire.hpp\<close>: conversion of 8, 16, 32 and 64 bit integers to and from network
  byte order. A \<open>put\<close> returns the bytes it stores from the buffer position on; a \<open>get\<close> reads
  the bytes at the head of its argument, which must be long enough (the C++ code has no check
  either; its callers guarantee it).
\<close>

unbundle bit_operations_syntax

section \<open>Definitions\<close>

definition put_uint8 :: "8 word \<Rightarrow> byte list" where
  "put_uint8 value = [value]"

definition get_uint8 :: "byte list \<Rightarrow> 8 word" where
  "get_uint8 buffer = buffer ! 0"

definition put_uint16 :: "16 word \<Rightarrow> byte list" where
  "put_uint16 value =
     [ucast (drop_bit 8 value AND 0xff),
      ucast (value AND 0xff)]"

definition get_uint16 :: "byte list \<Rightarrow> 16 word" where
  "get_uint16 buffer = push_bit 8 (ucast (buffer ! 0)) OR ucast (buffer ! 1)"

definition put_uint32 :: "32 word \<Rightarrow> byte list" where
  "put_uint32 value =
     [ucast (drop_bit 24 value AND 0xff),
      ucast (drop_bit 16 value AND 0xff),
      ucast (drop_bit 8 value AND 0xff),
      ucast (value AND 0xff)]"

definition get_uint32 :: "byte list \<Rightarrow> 32 word" where
  "get_uint32 buffer =
     push_bit 24 (ucast (buffer ! 0)) OR
     push_bit 16 (ucast (buffer ! 1)) OR
     push_bit 8 (ucast (buffer ! 2)) OR
     ucast (buffer ! 3)"

definition put_uint64 :: "64 word \<Rightarrow> byte list" where
  "put_uint64 value =
     [ucast (drop_bit 56 value AND 0xff),
      ucast (drop_bit 48 value AND 0xff),
      ucast (drop_bit 40 value AND 0xff),
      ucast (drop_bit 32 value AND 0xff),
      ucast (drop_bit 24 value AND 0xff),
      ucast (drop_bit 16 value AND 0xff),
      ucast (drop_bit 8 value AND 0xff),
      ucast (value AND 0xff)]"

definition get_uint64 :: "byte list \<Rightarrow> 64 word" where
  "get_uint64 buffer =
     push_bit 56 (ucast (buffer ! 0)) OR
     push_bit 48 (ucast (buffer ! 1)) OR
     push_bit 40 (ucast (buffer ! 2)) OR
     push_bit 32 (ucast (buffer ! 3)) OR
     push_bit 24 (ucast (buffer ! 4)) OR
     push_bit 16 (ucast (buffer ! 5)) OR
     push_bit 8 (ucast (buffer ! 6)) OR
     ucast (buffer ! 7)"

section \<open>Lengths and round trips\<close>

lemma length_put [simp]:
  "length (put_uint8 a) = 1" "length (put_uint16 b) = 2"
  "length (put_uint32 c) = 4" "length (put_uint64 d) = 8"
  by (simp_all add: put_uint8_def put_uint16_def put_uint32_def put_uint64_def)

lemma ucast_low_byte: "(ucast (w AND 255) :: byte) = ucast w" for w :: "'a :: len word"
proof -
  have "w AND 255 = take_bit 8 w"
    by (simp add: take_bit_eq_mask mask_eq_exp_minus_1)
  then show ?thesis
    by (auto intro!: bit_word_eqI simp: bit_simps)
qed

lemma bit_byte_of:
  "bit (push_bit k (ucast (ucast (drop_bit k w AND 255) :: byte)) :: 'a word) n \<longleftrightarrow>
     k \<le> n \<and> n < k + 8 \<and> bit w n"
  for w :: "'a :: len word"
  unfolding ucast_low_byte by (auto simp: bit_simps dest: bit_imp_le_length)

lemma bit_byte_of_0:
  "bit (ucast (ucast (w AND 255) :: byte) :: 'a word) n \<longleftrightarrow> n < 8 \<and> bit w n"
  for w :: "'a :: len word"
  unfolding ucast_low_byte by (auto simp: bit_simps dest: bit_imp_le_length)

lemmas byte_bits = bit_or_iff bit_byte_of bit_byte_of_0

lemma get_put_uint8 [simp]: "get_uint8 (put_uint8 v @ rest) = v"
  by (simp add: get_uint8_def put_uint8_def)

lemma get_put_uint16 [simp]: "get_uint16 (put_uint16 v @ rest) = v"
proof (rule bit_word_eqI)
  fix n assume "n < LENGTH(16)"
  then show "bit (get_uint16 (put_uint16 v @ rest)) n = bit v n"
    by (simp add: get_uint16_def put_uint16_def byte_bits) linarith
qed

lemma get_put_uint32 [simp]: "get_uint32 (put_uint32 v @ rest) = v"
proof (rule bit_word_eqI)
  fix n assume "n < LENGTH(32)"
  then show "bit (get_uint32 (put_uint32 v @ rest)) n = bit v n"
    by (simp add: get_uint32_def put_uint32_def byte_bits numeral_3_eq_3) linarith
qed

lemma get_put_uint64 [simp]: "get_uint64 (put_uint64 v @ rest) = v"
proof (rule bit_word_eqI)
  fix n assume "n < LENGTH(64)"
  then show "bit (get_uint64 (put_uint64 v @ rest)) n = bit v n"
    by (simp add: get_uint64_def put_uint64_def byte_bits) linarith
qed

end
