(* ===== verification/Encoder.thy ===== *)
theory Encoder
  imports Msg_View Wire
begin

text \<open>
  Model of the encoders: the state machine of \<open>src/src/encoder.hpp\<close> (\<open>encoder_base_t\<close>) with
  the actions of \<open>v1_encoder.cpp\<close>, \<open>v2_encoder.cpp\<close> and \<open>raw_encoder.cpp\<close>.

  \<open>write_pos\<close> stands for the bytes from the pointer \<open>write_pos\<close> on (in \<open>tmpbuf\<close> or in the
  message), the function pointer \<open>next\<close> is a value of \<open>enc_step\<close>. The theorem of this theory
  is that the calls of \<open>encode\<close>, whatever buffers they are given, emit exactly the frame of
  the loaded message.
\<close>

unbundle bit_operations_syntax

section \<open>State\<close>

datatype enc_step =
    V1_message_ready | V1_size_ready
  | V2_message_ready | V2_size_ready
  | Raw_message_ready

record encoder =
  write_pos :: "byte list"
  to_write :: nat
  e_next :: enc_step
  new_msg_flag :: bool
  bufsize :: nat
  in_progress :: "msg option"

definition enc_next_step :: "byte list \<Rightarrow> nat \<Rightarrow> enc_step \<Rightarrow> bool \<Rightarrow> encoder \<Rightarrow> encoder" where
  "enc_next_step wp tw nxt fl e =
     e\<lparr>write_pos := wp, to_write := tw, e_next := nxt, new_msg_flag := fl\<rparr>"

definition encoder_base :: "enc_step \<Rightarrow> nat \<Rightarrow> encoder" where
  "encoder_base nxt bsz =
     \<lparr>write_pos = [], to_write = 0, e_next = nxt, new_msg_flag = False, bufsize = bsz,
      in_progress = None\<rparr>"

definition v1_encoder :: "nat \<Rightarrow> encoder" where
  "v1_encoder bsz = enc_next_step [] 0 V1_message_ready True (encoder_base V1_message_ready bsz)"

definition v2_encoder :: "nat \<Rightarrow> encoder" where
  "v2_encoder bsz = enc_next_step [] 0 V2_message_ready True (encoder_base V2_message_ready bsz)"

definition raw_encoder :: "nat \<Rightarrow> encoder" where
  "raw_encoder bsz = enc_next_step [] 0 Raw_message_ready True (encoder_base Raw_message_ready bsz)"

section \<open>Actions\<close>

text \<open>ZMTP/1.0.\<close>

definition v1_size_ready :: "msg \<Rightarrow> encoder \<Rightarrow> encoder" where
  "v1_size_ready m e = enc_next_step (mdata m) (length (mdata m)) V1_message_ready True e"

definition v1_message_ready :: "msg \<Rightarrow> encoder \<Rightarrow> encoder" where
  "v1_message_ready m e =
     (let sz = length (mdata m) + 1 in
      if sz < 255 then
        enc_next_step [of_nat sz, flags m AND flag_more] 2 V1_size_ready False e
      else
        enc_next_step (0xff # put_uint64 (of_nat sz) @ [flags m AND flag_more]) 10
          V1_size_ready False e)"

text \<open>ZMTP/2.x, with the flags of \<open>v2_protocol.hpp\<close>.\<close>

abbreviation more_flag :: "8 word" where "more_flag \<equiv> 1"
abbreviation large_flag :: "8 word" where "large_flag \<equiv> 2"
abbreviation command_flag :: "8 word" where "command_flag \<equiv> 4"

definition v2_protocol_flags :: "msg \<Rightarrow> 8 word" where
  "v2_protocol_flags m =
     (if flags m AND flag_more \<noteq> 0 then more_flag else 0) OR
     (if length (mdata m) > 255 then large_flag else 0) OR
     (if flags m AND flag_command \<noteq> 0 then command_flag else 0)"

definition v2_message_ready :: "msg \<Rightarrow> encoder \<Rightarrow> encoder" where
  "v2_message_ready m e =
     (let protocol_flags = v2_protocol_flags m; sz = length (mdata m) in
      if sz > 255 then
        enc_next_step (protocol_flags # put_uint64 (of_nat sz)) 9 V2_size_ready False e
      else
        enc_next_step [protocol_flags, of_nat sz] 2 V2_size_ready False e)"

definition v2_size_ready :: "msg \<Rightarrow> encoder \<Rightarrow> encoder" where
  "v2_size_ready m e = enc_next_step (mdata m) (length (mdata m)) V2_message_ready True e"

definition raw_message_ready :: "msg \<Rightarrow> encoder \<Rightarrow> encoder" where
  "raw_message_ready m e = enc_next_step (mdata m) (length (mdata m)) Raw_message_ready True e"

text \<open>The call through the member pointer \<open>next\<close>.\<close>

fun enc_run :: "enc_step \<Rightarrow> msg \<Rightarrow> encoder \<Rightarrow> encoder" where
  "enc_run V1_message_ready m e = v1_message_ready m e"
| "enc_run V1_size_ready m e = v1_size_ready m e"
| "enc_run V2_message_ready m e = v2_message_ready m e"
| "enc_run V2_size_ready m e = v2_size_ready m e"
| "enc_run Raw_message_ready m e = raw_message_ready m e"

definition load_msg :: "msg \<Rightarrow> encoder \<Rightarrow> encoder option" where
  "load_msg m e = (if in_progress e \<noteq> None then None
     else Some (enc_run (e_next e) m (e\<lparr>in_progress := Some m\<rparr>)))"

section \<open>The encoding loop\<close>

text \<open>
  How many state machine actions are left before the message is complete; it bounds the
  iterations that emit nothing.
\<close>

fun enc_rank :: "enc_step \<Rightarrow> nat" where
  "enc_rank V1_message_ready = 2"
| "enc_rank V1_size_ready = 1"
| "enc_rank V2_message_ready = 2"
| "enc_rank V2_size_ready = 1"
| "enc_rank Raw_message_ready = 1"

definition enc_left :: "encoder \<Rightarrow> nat" where
  "enc_left e = (if new_msg_flag e then 0 else enc_rank (e_next e))"

lemma enc_left_update [simp]: "enc_left (e\<lparr>write_pos := a, to_write := b\<rparr>) = enc_left e"
  by (simp add: enc_left_def)

lemma enc_run_left: "\<not> new_msg_flag e \<Longrightarrow> enc_left (enc_run (e_next e) m e) < enc_left e"
  by (cases "e_next e")
    (auto simp: enc_left_def v1_message_ready_def v1_size_ready_def v2_message_ready_def
      v2_size_ready_def raw_message_ready_def enc_next_step_def Let_def)

text \<open>
  The loop of \<open>encode\<close>: \<open>supplied\<close> tells whether the caller passed a buffer (\<open>*data_\<close> is not
  NULL), \<open>bsz\<close> is \<open>buffersize\<close>, \<open>out\<close> the bytes copied so far (\<open>pos\<close> of them). The result
  is the new encoder and the bytes handed to the caller. A loop left by \<open>break\<close> has closed the
  message.
\<close>

function encode_loop ::
  "bool \<Rightarrow> nat \<Rightarrow> msg \<Rightarrow> nat \<Rightarrow> byte list \<Rightarrow> encoder \<Rightarrow> encoder \<times> byte list" where
  "encode_loop supplied bsz m pos out e =
     (if pos < bsz then
        if to_write e = 0 \<and> new_msg_flag e then (e\<lparr>in_progress := None\<rparr>, out)
        else
          let e1 = (if to_write e = 0 then enc_run (e_next e) m e else e) in
          if pos = 0 \<and> \<not> supplied \<and> to_write e1 \<ge> bsz then
            (e1\<lparr>write_pos := [], to_write := 0\<rparr>, take (to_write e1) (write_pos e1))
          else
            let to_copy = min (to_write e1) (bsz - pos) in
            encode_loop supplied bsz m (pos + to_copy) (out @ take to_copy (write_pos e1))
              (e1\<lparr>write_pos := drop to_copy (write_pos e1), to_write := to_write e1 - to_copy\<rparr>)
      else (e, out))"
  by pat_completeness auto
termination
proof (relation "measure (\<lambda>(supplied, bsz, m, pos, out, e). enc_left e + (bsz - pos))", goal_cases)
  case 1
  show ?case by simp
next
  case (2 supplied bsz m pos out e e1 to_copy)
  show ?case
  proof (cases "to_write e = 0")
    case True
    with 2 have "enc_left e1 < enc_left e" using enc_run_left[of e m] by simp
    with 2 show ?thesis by simp
  next
    case False
    with 2 show ?thesis by simp
  qed
qed

declare encode_loop.simps [simp del]

lemma encode_loop_full: "\<not> pos < bsz \<Longrightarrow> encode_loop supplied bsz m pos out e = (e, out)"
  by (subst encode_loop.simps) simp

lemma encode_loop_break:
  "pos < bsz \<Longrightarrow> to_write e = 0 \<Longrightarrow> new_msg_flag e \<Longrightarrow>
    encode_loop supplied bsz m pos out e = (e\<lparr>in_progress := None\<rparr>, out)"
  by (subst encode_loop.simps) simp

lemma encode_loop_zero_copy:
  assumes "pos < bsz" "\<not> (to_write e = 0 \<and> new_msg_flag e)"
    "e1 = (if to_write e = 0 then enc_run (e_next e) m e else e)"
    "pos = 0 \<and> \<not> supplied \<and> to_write e1 \<ge> bsz"
  shows "encode_loop supplied bsz m pos out e =
    (e1\<lparr>write_pos := [], to_write := 0\<rparr>, take (to_write e1) (write_pos e1))"
  using assms by (subst encode_loop.simps) (simp only: Let_def if_True if_False simp_thms)

lemma encode_loop_copy:
  assumes "pos < bsz" "\<not> (to_write e = 0 \<and> new_msg_flag e)"
    "e1 = (if to_write e = 0 then enc_run (e_next e) m e else e)"
    "\<not> (pos = 0 \<and> \<not> supplied \<and> to_write e1 \<ge> bsz)" "k = min (to_write e1) (bsz - pos)"
  shows "encode_loop supplied bsz m pos out e =
    encode_loop supplied bsz m (pos + k) (out @ take k (write_pos e1))
      (e1\<lparr>write_pos := drop k (write_pos e1), to_write := to_write e1 - k\<rparr>)"
  using assms by (subst encode_loop.simps) (simp only: Let_def if_True if_False)

text \<open>
  \<open>encode (data_, size_)\<close>; \<open>buffer\<close> is \<open>None\<close> when \<open>*data_\<close> is NULL and the size of the caller's
  buffer otherwise.
\<close>

definition encode :: "nat option \<Rightarrow> encoder \<Rightarrow> encoder \<times> byte list" where
  "encode buffer e =
     (let bsz = (case buffer of None \<Rightarrow> bufsize e | Some n \<Rightarrow> n) in
      case in_progress e of
        None \<Rightarrow> (e, [])
      | Some m \<Rightarrow> encode_loop (buffer \<noteq> None) bsz m 0 [] e)"

section \<open>Frames\<close>

text \<open>What each protocol puts on the wire for a message.\<close>

definition v1_header :: "msg \<Rightarrow> byte list" where
  "v1_header m = (let sz = length (mdata m) + 1 in
     (if sz < 255 then [of_nat sz] else 0xff # put_uint64 (of_nat sz)) @ [flags m AND flag_more])"

definition v2_header :: "msg \<Rightarrow> byte list" where
  "v2_header m = (let sz = length (mdata m) in
     v2_protocol_flags m # (if sz > 255 then put_uint64 (of_nat sz) else [of_nat sz]))"

fun enc_frame :: "enc_step \<Rightarrow> msg \<Rightarrow> byte list" where
  "enc_frame V1_message_ready m = v1_header m @ mdata m"
| "enc_frame V1_size_ready m = mdata m"
| "enc_frame V2_message_ready m = v2_header m @ mdata m"
| "enc_frame V2_size_ready m = mdata m"
| "enc_frame Raw_message_ready m = mdata m"

text \<open>The action that starts the next message of the same protocol.\<close>

fun enc_home :: "enc_step \<Rightarrow> enc_step" where
  "enc_home V1_size_ready = V1_message_ready"
| "enc_home V2_size_ready = V2_message_ready"
| "enc_home st = st"

lemma enc_home_idem [simp]: "enc_home (enc_home st) = enc_home st"
  by (cases st) simp_all

section \<open>Correctness of the loop\<close>

text \<open>The bytes an encoder still has to emit for its message.\<close>

definition enc_rest :: "msg \<Rightarrow> encoder \<Rightarrow> byte list" where
  "enc_rest m e = write_pos e @ (if new_msg_flag e then [] else enc_frame (e_next e) m)"

definition enc_pending :: "encoder \<Rightarrow> byte list" where
  "enc_pending e = (case in_progress e of None \<Rightarrow> [] | Some m \<Rightarrow> enc_rest m e)"

definition enc_wf :: "encoder \<Rightarrow> bool" where
  "enc_wf e \<longleftrightarrow> to_write e = length (write_pos e) \<and>
     (new_msg_flag e \<longrightarrow> enc_home (e_next e) = e_next e) \<and>
     (in_progress e = None \<longrightarrow> write_pos e = [] \<and> new_msg_flag e)"

lemmas enc_action_defs = v1_message_ready_def v1_size_ready_def v2_message_ready_def
  v2_size_ready_def raw_message_ready_def enc_next_step_def v1_header_def v2_header_def Let_def

lemma enc_run_props:
  "enc_rest m (enc_run st m e) = enc_frame st m"
  "to_write (enc_run st m e) = length (write_pos (enc_run st m e))"
  "in_progress (enc_run st m e) = in_progress e" "bufsize (enc_run st m e) = bufsize e"
  "enc_home (e_next (enc_run st m e)) = enc_home st"
  "new_msg_flag (enc_run st m e) \<Longrightarrow> enc_home (e_next (enc_run st m e)) = e_next (enc_run st m e)"
  by (cases st; simp add: enc_rest_def enc_action_defs split: if_splits)+

lemma encode_loop_props:
  assumes "in_progress e = Some m" "enc_wf e" "pos = length out"
    "encode_loop supplied bsz m pos out e = (e', res)"
  shows "out @ enc_rest m e = res @ enc_pending e' \<and> enc_wf e' \<and> bufsize e' = bufsize e \<and>
    enc_home (e_next e') = enc_home (e_next e) \<and> in_progress e' \<in> {None, Some m} \<and>
    (length res < bsz \<longrightarrow> in_progress e' = None) \<and>
    (pos < bsz \<longrightarrow> out @ enc_rest m e \<noteq> [] \<longrightarrow> res \<noteq> [])"
  using assms
proof (induction supplied bsz m pos out e arbitrary: e' res rule: encode_loop.induct)
  case (1 supplied bsz m pos out e)
  show ?case
  proof (cases "pos < bsz \<and> \<not> (to_write e = 0 \<and> new_msg_flag e)")
    case False
    show ?thesis
    proof (cases "pos < bsz")
      case True
      with False 1(5) have "e' = e\<lparr>in_progress := None\<rparr>" "res = out"
        by (simp_all add: encode_loop_break)
      with True False 1(2-4) show ?thesis
        by (simp add: enc_rest_def enc_pending_def enc_wf_def)
    next
      case full: False
      with 1(5) have "e' = e" "res = out" by (simp_all add: encode_loop_full)
      with full 1(2-4) show ?thesis by (simp add: enc_pending_def)
    qed
  next
    case loop: True
    define e1 where "e1 = (if to_write e = 0 then enc_run (e_next e) m e else e)"
    have e1: "enc_rest m e1 = enc_rest m e" "to_write e1 = length (write_pos e1)"
      "in_progress e1 = Some m" "bufsize e1 = bufsize e" "enc_home (e_next e1) = enc_home (e_next e)"
      "new_msg_flag e1 \<longrightarrow> enc_home (e_next e1) = e_next e1"
      using loop 1(2,3) enc_run_props[where m = m and st = "e_next e" and e = e]
      by (auto simp: e1_def enc_wf_def enc_rest_def[of m e])
    define k where "k = min (to_write e1) (bsz - pos)"
    define e2 where "e2 = e1\<lparr>write_pos := drop k (write_pos e1), to_write := to_write e1 - k\<rparr>"
    show ?thesis
    proof (cases "pos = 0 \<and> \<not> supplied \<and> to_write e1 \<ge> bsz")
      case True
      have "e' = e1\<lparr>write_pos := [], to_write := 0\<rparr>" "res = write_pos e1" "out = []"
        using encode_loop_zero_copy[OF _ _ e1_def True, of out] loop 1(4,5) e1(2) True by auto
      with e1 True loop show ?thesis
        by (auto simp: enc_wf_def enc_pending_def enc_rest_def)
    next
      case False
      have rec: "encode_loop supplied bsz m (pos + k) (out @ take k (write_pos e1)) e2 = (e', res)"
        using encode_loop_copy[OF _ _ e1_def False k_def, of out] loop 1(5) by (auto simp: e2_def)
      have wf2: "enc_wf e2" "in_progress e2 = Some m" "bufsize e2 = bufsize e"
        "enc_home (e_next e2) = enc_home (e_next e)"
        using e1 by (auto simp: e2_def enc_wf_def)
      have len: "pos + k = length (out @ take k (write_pos e1))"
        using 1(4) e1(2) by (simp add: k_def)
      have rest: "(out @ take k (write_pos e1)) @ enc_rest m e2 = out @ enc_rest m e"
        unfolding e1(1)[symmetric] by (simp add: enc_rest_def e2_def)
      have ih: "(out @ take k (write_pos e1)) @ enc_rest m e2 = res @ enc_pending e' \<and> enc_wf e' \<and>
          bufsize e' = bufsize e2 \<and> enc_home (e_next e') = enc_home (e_next e2) \<and>
          in_progress e' \<in> {None, Some m} \<and> (length res < bsz \<longrightarrow> in_progress e' = None) \<and>
          (pos + k < bsz \<longrightarrow> (out @ take k (write_pos e1)) @ enc_rest m e2 \<noteq> [] \<longrightarrow> res \<noteq> [])"
        by (rule 1(1)[OF conjunct1[OF loop] conjunct2[OF loop] e1_def False k_def, folded e2_def,
              OF wf2(2,1) len rec])
      have "res \<noteq> []" if "out @ enc_rest m e \<noteq> []"
      proof (cases "pos + k < bsz")
        case True
        with ih rest that show ?thesis by metis
      next
        case False
        with rec have "res = out @ take k (write_pos e1)"
          by (simp add: encode_loop_full)
        with len loop False show ?thesis by (cases res) auto
      qed
      with ih wf2 rest show ?thesis by simp
    qed
  qed
qed

lemma encode_props:
  assumes "enc_wf e" "encode buffer e = (e', res)"
  shows "enc_pending e = res @ enc_pending e'" "enc_wf e'" "bufsize e' = bufsize e"
    "enc_home (e_next e') = enc_home (e_next e)"
    "length res < (case buffer of None \<Rightarrow> bufsize e | Some n \<Rightarrow> n) \<Longrightarrow> in_progress e' = None"
    "0 < (case buffer of None \<Rightarrow> bufsize e | Some n \<Rightarrow> n) \<Longrightarrow> enc_pending e \<noteq> [] \<Longrightarrow> res \<noteq> []"
proof -
  let ?bsz = "case buffer of None \<Rightarrow> bufsize e | Some n \<Rightarrow> n"
  have "enc_pending e = res @ enc_pending e' \<and> enc_wf e' \<and> bufsize e' = bufsize e \<and>
    enc_home (e_next e') = enc_home (e_next e) \<and> (length res < ?bsz \<longrightarrow> in_progress e' = None) \<and>
    (0 < ?bsz \<longrightarrow> enc_pending e \<noteq> [] \<longrightarrow> res \<noteq> [])"
  proof (cases "in_progress e")
    case None
    with assms show ?thesis by (simp add: encode_def enc_pending_def)
  next
    case (Some m)
    with assms(2) have run: "encode_loop (buffer \<noteq> None) ?bsz m 0 [] e = (e', res)"
      by (simp add: encode_def Let_def)
    have pend: "enc_pending e = [] @ enc_rest m e" using Some by (simp add: enc_pending_def)
    show ?thesis
      unfolding pend using encode_loop_props[OF Some assms(1) _ run] list.size(3)[symmetric] by blast
  qed
  then show "enc_pending e = res @ enc_pending e'" "enc_wf e'" "bufsize e' = bufsize e"
    "enc_home (e_next e') = enc_home (e_next e)"
    "length res < ?bsz \<Longrightarrow> in_progress e' = None"
    "0 < ?bsz \<Longrightarrow> enc_pending e \<noteq> [] \<Longrightarrow> res \<noteq> []"
    by blast+
qed

section \<open>A message and its frame\<close>

text \<open>Successive calls of \<open>encode\<close>, as the engine's \<open>out_event\<close> makes them, and their output.\<close>

fun drain :: "nat option list \<Rightarrow> encoder \<Rightarrow> encoder \<times> byte list" where
  "drain [] e = (e, [])"
| "drain (b # bs) e =
     (let (e1, o1) = encode b e; (e2, o2) = drain bs e1 in (e2, o1 @ o2))"

text \<open>Every call can make progress: no buffer is empty.\<close>

definition buffers_ok :: "encoder \<Rightarrow> nat option list \<Rightarrow> bool" where
  "buffers_ok e bs \<longleftrightarrow> (\<forall>b \<in> set bs. 0 < (case b of None \<Rightarrow> bufsize e | Some n \<Rightarrow> n))"

lemma buffers_ok_cong: "bufsize e' = bufsize e \<Longrightarrow> buffers_ok e' bs = buffers_ok e bs"
  by (simp add: buffers_ok_def split: option.split)

lemma drain_idle: "in_progress e = None \<Longrightarrow> drain bs e = (e, [])"
  by (induction bs) (simp_all add: encode_def)

lemma drain_all:
  assumes "enc_wf e" "buffers_ok e bs" "length (enc_pending e) < length bs"
  shows "\<exists>e'. drain bs e = (e', enc_pending e) \<and> in_progress e' = None \<and> enc_wf e' \<and>
    enc_home (e_next e') = enc_home (e_next e) \<and> bufsize e' = bufsize e"
  using assms
proof (induction bs arbitrary: e)
  case Nil
  then show ?case by simp
next
  case (Cons b bs)
  obtain e1 o1 where enc: "encode b e = (e1, o1)" by fastforce
  note p = encode_props[OF Cons.prems(1) enc]
  have pos: "0 < (case b of None \<Rightarrow> bufsize e | Some n \<Rightarrow> n)" and bok: "buffers_ok e1 bs"
    using Cons.prems(2) buffers_ok_cong[OF p(3), of bs] by (simp_all add: buffers_ok_def)
  show ?case
  proof (cases "in_progress e1")
    case None
    then have "enc_pending e1 = []" by (simp add: enc_pending_def)
    with None p(1-4) enc show ?thesis by (simp add: drain_idle)
  next
    case (Some m)
    then have "o1 \<noteq> []" using p(5) pos by force
    then have "length (enc_pending e1) < length bs"
      using p(1) Cons.prems(3) by (cases o1) simp_all
    from Cons.IH[OF p(2) bok this] obtain e' where
      "drain bs e1 = (e', enc_pending e1)" "in_progress e' = None" "enc_wf e'"
      "enc_home (e_next e') = enc_home (e_next e1)" "bufsize e' = bufsize e1" by blast
    with enc p(1,3,4) show ?thesis by simp
  qed
qed

text \<open>An encoder between two messages.\<close>

definition enc_idle :: "encoder \<Rightarrow> bool" where
  "enc_idle e \<longleftrightarrow> in_progress e = None \<and> enc_wf e"

lemma encoders_idle: "enc_idle (v1_encoder n)" "enc_idle (v2_encoder n)" "enc_idle (raw_encoder n)"
  by (simp_all add: enc_idle_def enc_wf_def v1_encoder_def v2_encoder_def raw_encoder_def
      encoder_base_def enc_next_step_def)

lemma drain_frame:
  assumes "enc_idle e" "load_msg m e = Some e1" "buffers_ok e bs"
    "length (enc_frame (e_next e) m) < length bs"
  shows "\<exists>e'. drain bs e1 = (e', enc_frame (e_next e) m) \<and> enc_idle e' \<and> e_next e' = e_next e \<and>
    bufsize e' = bufsize e"
proof -
  let ?e0 = "e\<lparr>in_progress := Some m\<rparr>"
  have e1: "e1 = enc_run (e_next e) m ?e0"
    using assms(1,2) by (simp add: load_msg_def enc_idle_def)
  note r = enc_run_props[where m = m and st = "e_next e" and e = ?e0, folded e1]
  have home: "enc_home (e_next e) = e_next e"
    using assms(1) by (simp add: enc_idle_def enc_wf_def)
  have wf: "enc_wf e1" using r(2,3,6) by (simp add: enc_wf_def)
  have pend: "enc_pending e1 = enc_frame (e_next e) m"
    using r(1,3) by (simp add: enc_pending_def)
  have "buffers_ok e1 bs" using assms(3) r(4) buffers_ok_cong[of e1 e bs] by simp
  from drain_all[OF wf this] assms(4) obtain e' where
    d: "drain bs e1 = (e', enc_frame (e_next e) m)" "in_progress e' = None" "enc_wf e'"
      "enc_home (e_next e') = enc_home (e_next e1)" "bufsize e' = bufsize e1"
    unfolding pend by blast
  moreover have "e_next e' = e_next e"
    using d(2-4) r(5) home by (simp add: enc_wf_def)
  ultimately show ?thesis using r(4) by (simp add: enc_idle_def)
qed

text \<open>
  Claim C8. Encoding: when a message is loaded into an idle encoder (ZMTP/1.0, ZMTP/2.x or raw),
  the following calls of \<open>encode\<close>, with whatever non-empty buffers, emit the frame of the
  message exactly once, and after at most one call more than the frame has bytes the
  encoder is idle again.
\<close>

theorem encode_emits_frame:
  assumes "enc_idle e" "load_msg m e = Some e1" "buffers_ok e bs"
    "length (enc_frame (e_next e) m) < length bs"
  shows "\<exists>e'. drain bs e1 = (e', enc_frame (e_next e) m) \<and> enc_idle e' \<and> e_next e' = e_next e \<and>
    bufsize e' = bufsize e"
  using assms by (rule drain_frame)

theorem encode_emits_frame_witness:
  "\<exists>e'. drain (replicate 20 (Some 2))
      (the (load_msg \<lparr>kind = Kdata, flags = 1, mdata = [7, 8, 9]\<rparr> (v2_encoder 8192)))
    = (e', [1, 3, 7, 8, 9]) \<and> enc_idle e'"
proof -
  let ?m = "\<lparr>kind = Kdata, flags = 1, mdata = [7, 8, 9]\<rparr>"
  have nxt: "e_next (v2_encoder 8192) = V2_message_ready" "in_progress (v2_encoder 8192) = None"
    by (simp_all add: v2_encoder_def enc_next_step_def encoder_base_def)
  have frame: "enc_frame V2_message_ready ?m = [1, 3, 7, 8, 9]"
    by (simp add: v2_header_def v2_protocol_flags_def)
  show ?thesis
    using encode_emits_frame [OF encoders_idle(2) _, of ?m 8192 _ "replicate 20 (Some 2)"] frame nxt
    by (auto simp: load_msg_def buffers_ok_def)
qed

end
