(* ===== verification/Decoder.thy ===== *)
theory Decoder
  imports Encoder
begin

text \<open>
  Model of the decoders: the state machine of \<open>src/src/decoder.hpp\<close> (\<open>decoder_base_t\<close>) with the
  actions of \<open>v1_decoder.cpp\<close>, \<open>v2_decoder.cpp\<close> and \<open>raw_decoder.cpp\<close>.

  \<open>read_pos\<close> points into \<open>tmpbuf\<close> or into the body of the message under construction; a message
  body that was just allocated holds the arbitrary bytes \<open>uninit\<close>, and \<open>alloc_fails n\<close> tells
  whether the allocation of a body of \<open>n\<close> bytes fails. The reception buffer of \<open>v2_decoder_t\<close>
  has the address \<open>buf_addr\<close> (the pointer \<open>data ()\<close>) and \<open>buf_len\<close> bytes; pointers are 64 bit
  words, so that pointer arithmetic wraps around as it does in the machine. A message whose body
  would lie outside of the buffer is the outcome \<open>Rc_overrun\<close>. \<open>d_max_size\<close> is the \<open>max_size\<close> of
  \<open>shared_message_memory_allocator\<close> (the allocator of \<open>v2_decoder_t\<close>) and \<open>None\<close> for
  \<open>c_single_allocator\<close> (that of \<open>v1_decoder_t\<close>).
\<close>

unbundle bit_operations_syntax

section \<open>State\<close>

datatype dec_step =
    D1_one_byte_size_ready | D1_eight_byte_size_ready | D1_flags_ready | D1_message_ready
  | D2_flags_ready | D2_one_byte_size_ready | D2_eight_byte_size_ready | D2_message_ready

datatype rpos = In_tmpbuf nat | In_msg nat

record decoder =
  d_next :: dec_step
  tmpbuf :: "byte list"
  read_pos :: rpos
  to_read :: nat
  msg_flags :: "8 word"
  d_msg :: msg
  maxmsgsize :: int
  alloc_fails :: "nat \<Rightarrow> bool"
  uninit :: "nat \<Rightarrow> byte"
  buf_addr :: "64 word"
  buf_len :: nat
  d_max_size :: "nat option"
  zc_used :: nat
  buf_refs :: nat

text \<open>
  The result of an action or of \<open>decode\<close>: 0 (more data is needed), 1 (a message is complete),
  -1 with an error number, or a message laid over memory outside of the buffer.
\<close>

datatype dec_rc = Rc_more | Rc_done | Rc_err errno | Rc_overrun

definition dec_next_step :: "rpos \<Rightarrow> nat \<Rightarrow> dec_step \<Rightarrow> decoder \<Rightarrow> decoder" where
  "dec_next_step rp n nxt d = d\<lparr>read_pos := rp, to_read := n, d_next := nxt\<rparr>"

definition decoder_base ::
  "dec_step \<Rightarrow> int \<Rightarrow> (nat \<Rightarrow> bool) \<Rightarrow> (nat \<Rightarrow> byte) \<Rightarrow> 64 word \<Rightarrow> nat \<Rightarrow> nat option \<Rightarrow> decoder" where
  "decoder_base nxt maxsz fails un addr len mx =
     \<lparr>d_next = nxt, tmpbuf = replicate 8 0, read_pos = In_tmpbuf 0, to_read = 0, msg_flags = 0,
      d_msg = empty_msg, maxmsgsize = maxsz, alloc_fails = fails, uninit = un,
      buf_addr = addr, buf_len = len, d_max_size = mx, zc_used = 0, buf_refs = 1\<rparr>"

definition v1_decoder ::
  "int \<Rightarrow> (nat \<Rightarrow> bool) \<Rightarrow> (nat \<Rightarrow> byte) \<Rightarrow> 64 word \<Rightarrow> nat \<Rightarrow> decoder" where
  "v1_decoder maxsz fails un addr len = dec_next_step (In_tmpbuf 0) 1 D1_one_byte_size_ready
     (decoder_base D1_one_byte_size_ready maxsz fails un addr len None)"

definition v2_decoder ::
  "int \<Rightarrow> (nat \<Rightarrow> bool) \<Rightarrow> (nat \<Rightarrow> byte) \<Rightarrow> 64 word \<Rightarrow> nat \<Rightarrow> decoder" where
  "v2_decoder maxsz fails un addr len = dec_next_step (In_tmpbuf 0) 1 D2_flags_ready
     (decoder_base D2_flags_ready maxsz fails un addr len (Some len))"

text \<open>\<open>in_progress.init_size (n)\<close>, with the decoders' recovery from a failed allocation.\<close>

definition dec_init_size :: "nat \<Rightarrow> decoder \<Rightarrow> decoder \<times> bool" where
  "dec_init_size n d =
     (if n > max_vsm_size \<and> alloc_fails d n then (d\<lparr>d_msg := empty_msg\<rparr>, False)
      else (d\<lparr>d_msg := \<lparr>kind = Kdata, flags = 0, mdata = map (uninit d) [0..<n]\<rparr>\<rparr>, True))"

section \<open>Actions of the ZMTP/1.0 decoder\<close>

definition d1_one_byte_size_ready :: "decoder \<Rightarrow> decoder \<times> dec_rc" where
  "d1_one_byte_size_ready d =
     (let b = tmpbuf d ! 0 in
      if b = 0xff then (dec_next_step (In_tmpbuf 0) 8 D1_eight_byte_size_ready d, Rc_more)
      else if b = 0 then (d, Rc_err EPROTO)
      else if maxmsgsize d \<ge> 0 \<and> uint b - 1 > maxmsgsize d then (d, Rc_err EMSGSIZE)
      else case dec_init_size (unat b - 1) d of
             (d', False) \<Rightarrow> (d', Rc_err ENOMEM)
           | (d', True) \<Rightarrow> (dec_next_step (In_tmpbuf 0) 1 D1_flags_ready d', Rc_more))"

definition d1_eight_byte_size_ready :: "decoder \<Rightarrow> decoder \<times> dec_rc" where
  "d1_eight_byte_size_ready d =
     (let payload_length = get_uint64 (tmpbuf d) in
      if payload_length = 0 then (d, Rc_err EPROTO)
      else if maxmsgsize d \<ge> 0 \<and> uint (payload_length - 1) > maxmsgsize d then (d, Rc_err EMSGSIZE)
      else if unat (payload_length - 1) > 2 ^ 64 - 1 then (d, Rc_err EMSGSIZE)
      else case dec_init_size (unat (payload_length - 1)) d of
             (d', False) \<Rightarrow> (d', Rc_err ENOMEM)
           | (d', True) \<Rightarrow> (dec_next_step (In_tmpbuf 0) 1 D1_flags_ready d', Rc_more))"

definition d1_flags_ready :: "decoder \<Rightarrow> decoder \<times> dec_rc" where
  "d1_flags_ready d =
     (let m = (d_msg d)\<lparr>flags := flags (d_msg d) OR (tmpbuf d ! 0 AND flag_more)\<rparr> in
      (dec_next_step (In_msg 0) (length (mdata m)) D1_message_ready (d\<lparr>d_msg := m\<rparr>), Rc_more))"

definition d1_message_ready :: "decoder \<Rightarrow> decoder \<times> dec_rc" where
  "d1_message_ready d = (dec_next_step (In_tmpbuf 0) 1 D1_one_byte_size_ready d, Rc_done)"

section \<open>Actions of the ZMTP/2.x decoder\<close>

definition d2_flags_ready :: "decoder \<Rightarrow> decoder \<times> dec_rc" where
  "d2_flags_ready d =
     (let fl = (if tmpbuf d ! 0 AND more_flag \<noteq> 0 then flag_more else 0) OR
               (if tmpbuf d ! 0 AND command_flag \<noteq> 0 then flag_command else 0);
          d' = d\<lparr>msg_flags := fl\<rparr>
      in (if tmpbuf d ! 0 AND large_flag \<noteq> 0
          then dec_next_step (In_tmpbuf 0) 8 D2_eight_byte_size_ready d'
          else dec_next_step (In_tmpbuf 0) 1 D2_one_byte_size_ready d', Rc_more))"

text \<open>
  \<open>size_ready (msg_size, read_pos)\<close>; \<open>rest\<close> are the bytes of the buffer from \<open>read_pos\<close> to its end,
  so \<open>read_pos\<close> is \<open>data () + (size () - length rest)\<close>. In the second branch the message is
  built on the buffer (\<open>init\<close> with the deallocation function \<open>call_dec_ref\<close>): a body shorter
  than \<open>max_vsm_size\<close> is copied, any other becomes a zero-copy message, which uses up one
  \<open>content_t\<close> slot and holds a reference to the buffer.
\<close>

definition d2_size_ready :: "64 word \<Rightarrow> byte list \<Rightarrow> decoder \<Rightarrow> decoder \<times> dec_rc" where
  "d2_size_ready sz rest d =
     (let rpos = buf_addr d + of_nat (buf_len d - length rest) in
      if maxmsgsize d \<ge> 0 \<and> uint sz > maxmsgsize d then (d, Rc_err EMSGSIZE)
      else if sz \<noteq> ucast (ucast sz :: 64 word) then (d, Rc_err EMSGSIZE)
      else
        let n = unat sz;
            finish = (\<lambda>d'. dec_next_step (In_msg 0) (length (mdata (d_msg d'))) D2_message_ready
                       (d'\<lparr>d_msg := (d_msg d')\<lparr>flags := flags (d_msg d') OR msg_flags d'\<rparr>\<rparr>))
        in
        if rpos + sz > buf_addr d + of_nat (buf_len d) then
          (case dec_init_size n d of
             (d', False) \<Rightarrow> (d', Rc_err ENOMEM)
           | (d', True) \<Rightarrow> (finish d', Rc_more))
        else if length rest < n then (d, Rc_overrun)
        else
          let d1 = d\<lparr>d_msg := \<lparr>kind = Kdata, flags = 0, mdata = take n rest\<rparr>\<rparr>;
              d2 = (if n < max_vsm_size then d1
                    else d1\<lparr>zc_used := zc_used d1 + 1, buf_refs := buf_refs d1 + 1\<rparr>)
          in (finish d2, Rc_more))"

definition d2_one_byte_size_ready :: "byte list \<Rightarrow> decoder \<Rightarrow> decoder \<times> dec_rc" where
  "d2_one_byte_size_ready rest d = d2_size_ready (ucast (tmpbuf d ! 0)) rest d"

definition d2_eight_byte_size_ready :: "byte list \<Rightarrow> decoder \<Rightarrow> decoder \<times> dec_rc" where
  "d2_eight_byte_size_ready rest d = d2_size_ready (get_uint64 (tmpbuf d)) rest d"

definition d2_message_ready :: "decoder \<Rightarrow> decoder \<times> dec_rc" where
  "d2_message_ready d = (dec_next_step (In_tmpbuf 0) 1 D2_flags_ready d, Rc_done)"

section \<open>The decoding loop\<close>

text \<open>The call through the member pointer \<open>next\<close>; \<open>rest\<close> is the buffer from \<open>data_ + bytes_used_\<close> on.\<close>

fun dec_run :: "dec_step \<Rightarrow> byte list \<Rightarrow> decoder \<Rightarrow> decoder \<times> dec_rc" where
  "dec_run D1_one_byte_size_ready rest d = d1_one_byte_size_ready d"
| "dec_run D1_eight_byte_size_ready rest d = d1_eight_byte_size_ready d"
| "dec_run D1_flags_ready rest d = d1_flags_ready d"
| "dec_run D1_message_ready rest d = d1_message_ready d"
| "dec_run D2_flags_ready rest d = d2_flags_ready d"
| "dec_run D2_one_byte_size_ready rest d = d2_one_byte_size_ready rest d"
| "dec_run D2_eight_byte_size_ready rest d = d2_eight_byte_size_ready rest d"
| "dec_run D2_message_ready rest d = d2_message_ready d"

fun dec_rank :: "dec_step \<Rightarrow> nat" where
  "dec_rank D1_one_byte_size_ready = 3"
| "dec_rank D1_eight_byte_size_ready = 2"
| "dec_rank D1_flags_ready = 1"
| "dec_rank D1_message_ready = 0"
| "dec_rank D2_flags_ready = 3"
| "dec_rank D2_one_byte_size_ready = 2"
| "dec_rank D2_eight_byte_size_ready = 2"
| "dec_rank D2_message_ready = 0"

lemmas dec_action_defs = d1_one_byte_size_ready_def d1_eight_byte_size_ready_def
  d1_flags_ready_def d1_message_ready_def d2_flags_ready_def d2_size_ready_def
  d2_one_byte_size_ready_def d2_eight_byte_size_ready_def d2_message_ready_def
  dec_init_size_def dec_next_step_def Let_def

lemma dec_run_rank:
  "dec_run st rest d = (d', Rc_more) \<Longrightarrow> dec_rank (d_next d') < dec_rank st"
  by (cases st) (auto simp: dec_action_defs split: if_splits prod.splits)

text \<open>
  \<open>while (!to_read) { rc = next (); if (rc != 0) return rc; }\<close>: the inner loop of \<open>decode\<close>,
  with \<open>Rc_more\<close> when it is left because there is room for data.
\<close>

function dec_next_loop :: "byte list \<Rightarrow> decoder \<Rightarrow> decoder \<times> dec_rc" where
  "dec_next_loop rest d =
     (if to_read d \<noteq> 0 then (d, Rc_more)
      else case dec_run (d_next d) rest d of
             (d', Rc_more) \<Rightarrow> dec_next_loop rest d'
           | (d', rc) \<Rightarrow> (d', rc))"
  by pat_completeness auto
termination
  by (relation "measure (\<lambda>(rest, d). dec_rank (d_next d))") (auto dest!: sym dec_run_rank)

declare dec_next_loop.simps [simp del]

text \<open>\<open>memcpy (read_pos, data_ + bytes_used_, to_copy)\<close> and the three updates that follow it.\<close>

definition dec_absorb :: "byte list \<Rightarrow> decoder \<Rightarrow> decoder" where
  "dec_absorb bs d =
     (case read_pos d of
        In_tmpbuf off \<Rightarrow> d\<lparr>tmpbuf := overwrite (tmpbuf d) off bs,
          read_pos := In_tmpbuf (off + length bs), to_read := to_read d - length bs\<rparr>
      | In_msg off \<Rightarrow> d\<lparr>d_msg := (d_msg d)\<lparr>mdata := overwrite (mdata (d_msg d)) off bs\<rparr>,
          read_pos := In_msg (off + length bs), to_read := to_read d - length bs\<rparr>)"

lemma dec_next_loop_more: "dec_next_loop rest d = (d', Rc_more) \<Longrightarrow> to_read d' \<noteq> 0"
  by (induction rest d rule: dec_next_loop.induct)
    (subst (asm) (2) dec_next_loop.simps, auto split: if_splits prod.splits dec_rc.splits)

text \<open>
  The outer loop of \<open>decode\<close>: \<open>data\<close> are the bytes not yet processed, \<open>slack\<close> the rest of the
  reception buffer behind them, \<open>used\<close> is \<open>bytes_used_\<close>. Where source and destination of the
  copy coincide the code skips it, which stores the same bytes.
\<close>

function decode_loop :: "byte list \<Rightarrow> byte list \<Rightarrow> nat \<Rightarrow> decoder \<Rightarrow> decoder \<times> nat \<times> dec_rc" where
  "decode_loop slack data used d =
     (if data = [] then (d, used, Rc_more)
      else
        let to_copy = min (to_read d) (length data);
            d1 = dec_absorb (take to_copy data) d
        in case dec_next_loop (drop to_copy data @ slack) d1 of
             (d2, Rc_more) \<Rightarrow> decode_loop slack (drop to_copy data) (used + to_copy) d2
           | (d2, rc) \<Rightarrow> (d2, used + to_copy, rc))"
  by pat_completeness auto
termination
  by (relation "measures [\<lambda>(slack, data, used, d). length data,
      \<lambda>(slack, data, used, d). if to_read d = 0 then 1 else 0]")
    (auto dest!: sym[of _ "dec_next_loop _ _"] dec_next_loop_more)

declare decode_loop.simps [simp del]

text \<open>
  \<open>decode (data_, size_, bytes_used_)\<close>. \<open>in_place\<close> tells that \<open>data_ == read_pos\<close>: the caller
  read the bytes directly into the message body, as \<open>get_buffer\<close> offered; \<open>None\<close> is a violated
  \<open>zmq_assert (size_ <= to_read)\<close>.
\<close>

definition decode :: "bool \<Rightarrow> byte list \<Rightarrow> byte list \<Rightarrow> decoder \<Rightarrow> (decoder \<times> nat \<times> dec_rc) option" where
  "decode in_place slack data d =
     (if in_place then
        (if length data \<le> to_read d then
           (case dec_next_loop [] (dec_absorb data d) of (d', rc) \<Rightarrow> Some (d', length data, rc))
         else None)
      else Some (decode_loop slack data 0 d))"

text \<open>
  \<open>get_buffer\<close>: whether the caller is to fill the destination \<open>read_pos\<close> itself, and how many bytes
  it may read. \<open>allocate ()\<close> hands out the buffer; for \<open>v2_decoder_t\<close> a buffer that messages still
  refer to is released and replaced by a new one at \<open>fresh\<close>, and the buffer has its full
  size again. \<open>resize_buffer\<close> is called with the number of bytes that were read.
\<close>

definition dec_allocate :: "64 word \<Rightarrow> decoder \<Rightarrow> decoder" where
  "dec_allocate fresh d =
     (case d_max_size d of
        None \<Rightarrow> d
      | Some mx \<Rightarrow> d\<lparr>buf_addr := (if buf_refs d - 1 \<noteq> 0 then fresh else buf_addr d), buf_len := mx,
                     buf_refs := 1, zc_used := 0\<rparr>)"

definition get_buffer :: "64 word \<Rightarrow> decoder \<Rightarrow> decoder \<times> bool \<times> nat" where
  "get_buffer fresh d =
     (let d' = dec_allocate fresh d in
      if to_read d' \<ge> buf_len d' then (d', True, to_read d') else (d', False, buf_len d'))"

definition resize_buffer :: "nat \<Rightarrow> decoder \<Rightarrow> decoder" where
  "resize_buffer n d = d\<lparr>buf_len := n\<rparr>"

text \<open>\<open>raw_decoder_t::decode\<close>: the received bytes are one message.\<close>

definition raw_decode :: "byte list \<Rightarrow> msg \<times> nat \<times> dec_rc" where
  "raw_decode data = (\<lparr>kind = Kdata, flags = 0, mdata = data\<rparr>, length data, Rc_done)"

end
