(* ===== verification/Codec.thy ===== *)
theory Codec
  imports Decoder
begin

text \<open>
  The reading side of \<open>stream_engine_t::in_event\<close> (\<open>src/src/stream_engine.cpp\<close>) over the decoders,
  and the wire protocol as a whole: what the encoders of one peer emit is what the decoders of the
  other deliver, however the network cuts the byte stream into pieces.

  The locale \<open>codec\<close> is the contract between a frame format and its decoder: positions inside
  of a frame, and what one state machine action makes of them. Its lemmas lift the contract to
  \<open>decode\<close>, to \<open>in_event\<close> and to a whole connection; it is interpreted for ZMTP/1.0
  and for ZMTP/2.x.
\<close>

unbundle bit_operations_syntax

section \<open>The input loop of the engine\<close>

lemma dec_next_loop_simps:
  "to_read d \<noteq> 0 \<Longrightarrow> dec_next_loop rest d = (d, Rc_more)"
  "to_read d = 0 \<Longrightarrow> dec_run (d_next d) rest d = (d', rc) \<Longrightarrow>
    dec_next_loop rest d = (if rc = Rc_more then dec_next_loop rest d' else (d', rc))"
  by (subst dec_next_loop.simps, simp) (subst dec_next_loop.simps, simp split: dec_rc.split)

lemma dec_next_loop_stop:
  "to_read d = 0 \<Longrightarrow> dec_run (d_next d) rest d = (d', Rc_more) \<Longrightarrow> to_read d' \<noteq> 0 \<Longrightarrow>
    dec_next_loop rest d = (d', Rc_more)"
  "to_read d = 0 \<Longrightarrow> dec_run (d_next d) rest d = (d', rc) \<Longrightarrow> rc \<noteq> Rc_more \<Longrightarrow>
    dec_next_loop rest d = (d', rc)"
  by (simp_all add: dec_next_loop_simps)

lemma dec_run_done: "dec_run st rest d = (d', Rc_done) \<Longrightarrow> to_read d' = 1"
  by (cases st) (auto simp: dec_action_defs split: if_splits prod.splits)

lemma dec_next_loop_done: "dec_next_loop rest d = (d', Rc_done) \<Longrightarrow> to_read d' = 1"
proof (induction rest d rule: dec_next_loop.induct)
  case (1 rest d)
  obtain d1 rc where run: "dec_run (d_next d) rest d = (d1, rc)" by fastforce
  show ?case
    using 1(1)[OF _ run[symmetric]] 1(2) run dec_run_done
    by (cases "to_read d = 0"; cases rc) (auto simp: dec_next_loop_simps)
qed

lemma decode_loop_Nil [simp]: "decode_loop slack [] used d = (d, used, Rc_more)"
  by (subst decode_loop.simps) simp

lemma decode_loop_step:
  assumes "data \<noteq> []" "to_copy = min (to_read d) (length data)"
    "dec_next_loop (drop to_copy data @ slack) (dec_absorb (take to_copy data) d) = (d2, rc)"
  shows "decode_loop slack data used d =
    (if rc = Rc_more then decode_loop slack (drop to_copy data) (used + to_copy) d2
     else (d2, used + to_copy, rc))"
  using assms by (subst decode_loop.simps) (simp add: Let_def split: dec_rc.split)

lemma decode_loop_used:
  "decode_loop slack data used d = (d', used', rc) \<Longrightarrow>
    used \<le> used' \<and> used' \<le> used + length data \<and> (rc = Rc_done \<longrightarrow> to_read d' = 1) \<and>
    (data \<noteq> [] \<longrightarrow> to_read d \<noteq> 0 \<longrightarrow> used < used')"
proof (induction slack data used d rule: decode_loop.induct)
  case (1 slack data used d)
  show ?case
  proof (cases "data = []")
    case False
    define k where "k = min (to_read d) (length data)"
    have k: "to_read d \<noteq> 0 \<longrightarrow> 0 < k" "k \<le> length data" using False by (simp_all add: k_def)
    obtain d2 rc2 where nl:
      "dec_next_loop (drop k data @ slack) (dec_absorb (take k data) d) = (d2, rc2)" by fastforce
    note step = decode_loop_step[OF False k_def nl, of used]
    show ?thesis
    proof (cases "rc2 = Rc_more")
      case True
      have "used + k \<le> used' \<and> used' \<le> used + k + length (drop k data) \<and>
          (rc = Rc_done \<longrightarrow> to_read d' = 1)"
        using 1(1)[OF False k_def refl nl[symmetric] True] 1(2) step True by simp
      with k show ?thesis by auto
    next
      case False
      with 1(2) step nl dec_next_loop_done k show ?thesis by auto
    qed
  qed (use 1 in simp)
qed

text \<open>
  \<open>while (insize > 0) { decode; process_msg }\<close>: the messages handed to \<open>process_msg\<close>, which takes
  over their content and leaves an empty message behind.
\<close>

function process_input :: "byte list \<Rightarrow> byte list \<Rightarrow> decoder \<Rightarrow> decoder \<times> msg list \<times> dec_rc" where
  "process_input slack inpos d =
     (if inpos = [] then (d, [], Rc_more)
      else case decode_loop slack inpos 0 d of
             (d1, processed, Rc_done) \<Rightarrow>
               (case process_input slack (drop processed inpos) (d1\<lparr>d_msg := empty_msg\<rparr>) of
                  (d2, ms, rc) \<Rightarrow> (d2, d_msg d1 # ms, rc))
           | (d1, processed, rc) \<Rightarrow> (d1, [], rc))"
  by pat_completeness auto
termination
  by (relation "measures [\<lambda>(slack, inpos, d). length inpos,
      \<lambda>(slack, inpos, d). if to_read d = 0 then 1 else 0]")
    (auto dest!: sym[of _ "decode_loop _ _ _ _"] dest: decode_loop_used)

declare process_input.simps [simp del]

text \<open>
  \<open>in_event\<close> without a handshake in progress and with no data left over: \<open>get_buffer\<close>, one read
  from the socket that returns \<open>n\<close> of the available \<open>stream\<close>, \<open>resize_buffer\<close>, and the input loop. A
  read that returns nothing (\<open>EAGAIN\<close>) leaves the engine as it is. \<open>fresh\<close> is the address of a new
  buffer. The result has the rest of the stream.
\<close>

definition in_event ::
  "64 word \<Rightarrow> nat \<Rightarrow> byte list \<Rightarrow> decoder \<Rightarrow> decoder \<times> byte list \<times> msg list \<times> dec_rc" where
  "in_event fresh n stream d =
     (case get_buffer fresh d of (d1, in_place, avail) \<Rightarrow>
        let data = take (min n avail) stream; rest = drop (min n avail) stream in
        if data = [] then (d1, stream, [], Rc_more)
        else
          let d2 = resize_buffer (length data) d1 in
          if in_place then
            (case decode True [] data d2 of
               Some (d3, _, Rc_done) \<Rightarrow> (d3\<lparr>d_msg := empty_msg\<rparr>, rest, [d_msg d3], Rc_more)
             | Some (d3, _, rc) \<Rightarrow> (d3, rest, [], rc)
             | None \<Rightarrow> (d2, stream, [], Rc_overrun))
          else
            (case process_input [] data d2 of (d3, ms, rc) \<Rightarrow> (d3, rest, ms, rc)))"

text \<open>A sequence of \<open>in_event\<close> calls on a connection; it ends at the first decoding error.\<close>

fun receive :: "(64 word \<times> nat) list \<Rightarrow> byte list \<Rightarrow> decoder \<Rightarrow> decoder \<times> byte list \<times> msg list \<times> dec_rc"
where
  "receive [] stream d = (d, stream, [], Rc_more)"
| "receive ((fresh, n) # reads) stream d =
     (case in_event fresh n stream d of
        (d1, rest, ms, rc) \<Rightarrow>
          if rc = Rc_more then
            (case receive reads rest d1 of (d2, rest2, ms2, rc2) \<Rightarrow> (d2, rest2, ms @ ms2, rc2))
          else (d1, rest, ms, rc))"

section \<open>Limits of a decoder\<close>

text \<open>
  What a decoder accepts: the message is within \<open>maxmsgsize\<close>, its body can be allocated, and
  addresses stay in the 47 bit user space, so that \<open>read_pos + msg_size\<close> does not wrap.
\<close>

definition dec_env :: "decoder \<Rightarrow> int \<times> (nat \<Rightarrow> bool) \<times> 64 word \<times> nat \<times> nat option" where
  "dec_env d = (maxmsgsize d, alloc_fails d, buf_addr d, buf_len d, d_max_size d)"

definition dec_env_ok :: "decoder \<Rightarrow> bool" where
  "dec_env_ok d \<longleftrightarrow> unat (buf_addr d) < 2 ^ 47 \<and> 0 < buf_len d \<and> buf_len d \<le> 2 ^ 47 \<and>
     (case d_max_size d of None \<Rightarrow> True | Some mx \<Rightarrow> 8 < mx \<and> mx \<le> 2 ^ 47)"

definition dec_accepts :: "msg \<Rightarrow> decoder \<Rightarrow> bool" where
  "dec_accepts m d \<longleftrightarrow> (0 \<le> maxmsgsize d \<longrightarrow> int (length (mdata m)) \<le> maxmsgsize d) \<and>
     (max_vsm_size < length (mdata m) \<longrightarrow> \<not> alloc_fails d (length (mdata m))) \<and>
     length (mdata m) < 2 ^ 63"

lemma dec_env_simps [simp]:
  "dec_env (d\<lparr>d_msg := m\<rparr>) = dec_env d" "dec_env (dec_absorb bs d) = dec_env d"
  by (simp_all add: dec_env_def dec_absorb_def split: rpos.split)

lemma dec_env_eqD:
  assumes "dec_env d = dec_env d'"
  shows "dec_env_ok d = dec_env_ok d'" "dec_accepts m d = dec_accepts m d'"
    "buf_len d = buf_len d'" "d_max_size d = d_max_size d'"
  using assms by (simp_all add: dec_env_def dec_env_ok_def dec_accepts_def)

lemma dec_run_env: "dec_run st rest d = (d', rc) \<Longrightarrow> dec_env d' = dec_env d"
  by (cases st) (auto simp: dec_env_def dec_action_defs split: if_splits prod.splits)

lemma dec_next_loop_env: "dec_next_loop rest d = (d', rc) \<Longrightarrow> dec_env d' = dec_env d"
proof (induction rest d rule: dec_next_loop.induct)
  case (1 rest d)
  obtain d1 rc1 where run: "dec_run (d_next d) rest d = (d1, rc1)" by fastforce
  show ?case
    using 1(1)[OF _ run[symmetric]] 1(2) dec_run_env[OF run]
    by (cases "to_read d = 0"; cases rc1) (auto simp: dec_next_loop_simps(1) dec_next_loop_simps(2)[OF _ run])
qed

lemma dec_accepts_buffer [simp]:
  "dec_accepts m (d\<lparr>buf_addr := a, buf_len := l, buf_refs := r, zc_used := u\<rparr>) = dec_accepts m d"
  by (simp add: dec_accepts_def)

text \<open>\<open>get_buffer\<close> and \<open>resize_buffer\<close> change nothing but the buffer.\<close>

lemma get_buffer_props:
  assumes "get_buffer fresh d = (d1, in_place, avail)" "dec_env_ok d" "unat fresh < 2 ^ 47"
    "0 < to_read d"
  obtains a l r u where "d1 = d\<lparr>buf_addr := a, buf_len := l, buf_refs := r, zc_used := u\<rparr>"
    "unat a < 2 ^ 47" "0 < l" "l \<le> 2 ^ 47" "dec_env_ok d1" "0 < avail"
    "avail = (if in_place then to_read d else l)"
proof -
  let ?d = "dec_allocate fresh d"
  obtain a l r u where g: "?d = d\<lparr>buf_addr := a, buf_len := l, buf_refs := r, zc_used := u\<rparr>"
    "unat a < 2 ^ 47" "0 < l" "l \<le> 2 ^ 47" "dec_env_ok ?d"
  proof (cases "d_max_size d")
    case None
    with assms(2) that[where a = "buf_addr d" and l = "buf_len d" and r = "buf_refs d" and u = "zc_used d"] show thesis
      by (simp add: dec_allocate_def dec_env_ok_def)
  next
    case (Some mx)
    with assms(2,3) that[where a = "if buf_refs d - 1 \<noteq> 0 then fresh else buf_addr d" and l = mx and r = 1 and u = 0] show thesis
      by (simp add: dec_allocate_def dec_env_ok_def)
  qed
  have d1: "d1 = ?d" "avail = (if in_place then to_read ?d else buf_len ?d)"
    using assms(1) by (auto simp: get_buffer_def Let_def split: if_splits)
  have "to_read ?d = to_read d" "buf_len ?d = l" by (simp_all add: g(1))
  with d1 g assms(4) show thesis by (intro that[where a = a and l = l and r = r and u = u]) (simp_all split: if_split)
qed

lemma dec_absorb_Nil [simp]: "dec_absorb [] d = d"
  by (cases d) (simp add: dec_absorb_def split: rpos.split)

lemma dec_absorb_to_read [simp]: "to_read (dec_absorb bs d) = to_read d - length bs"
  by (simp add: dec_absorb_def split: rpos.split)

section \<open>The contract of a frame format and its decoder\<close>

text \<open>
  \<open>at m k d\<close>: the decoder has consumed the first \<open>k\<close> bytes of the frame of \<open>m\<close>.
\<close>

locale codec =
  fixes frame :: "msg \<Rightarrow> byte list"
    and received :: "msg \<Rightarrow> msg"
    and at :: "msg \<Rightarrow> nat \<Rightarrow> decoder \<Rightarrow> bool"
  assumes at_room: "at m k d \<Longrightarrow> 0 < to_read d \<and> k + to_read d \<le> length (frame m)"
    and at_absorb: "at m k d \<Longrightarrow> j < to_read d \<Longrightarrow>
      at m (k + j) (dec_absorb (take j (drop k (frame m))) d)"
    and at_more: "at m k d \<Longrightarrow> dec_env_ok d \<Longrightarrow> dec_accepts m d \<Longrightarrow> length rest \<le> buf_len d \<Longrightarrow>
      k + to_read d < length (frame m) \<Longrightarrow>
      \<exists>d'. dec_next_loop rest (dec_absorb (take (to_read d) (drop k (frame m))) d) = (d', Rc_more) \<and>
        at m (k + to_read d) d'"
    and at_done: "at m k d \<Longrightarrow> dec_env_ok d \<Longrightarrow> dec_accepts m d \<Longrightarrow> length rest \<le> buf_len d \<Longrightarrow>
      k + to_read d = length (frame m) \<Longrightarrow>
      \<exists>d'. dec_next_loop rest (dec_absorb (take (to_read d) (drop k (frame m))) d) = (d', Rc_done) \<and>
        d_msg d' = received m \<and> (\<forall>m'. at m' 0 d')"
    and at_buffer: "at m k d \<Longrightarrow>
      at m k (d\<lparr>buf_addr := a, buf_len := l, buf_refs := r, zc_used := u\<rparr>)"
    and at_start: "at m 0 d \<Longrightarrow> at m 0 (d\<lparr>d_msg := m'\<rparr>)"
begin

lemma decode_partial:
  assumes "at m k d" "dec_env_ok d" "dec_accepts m d" "length data \<le> buf_len d"
    "drop k (frame m) = data @ rest" "rest \<noteq> []"
  shows "\<exists>d'. decode_loop [] data used d = (d', used + length data, Rc_more) \<and>
    at m (k + length data) d' \<and> dec_env d' = dec_env d"
  using assms
proof (induction "length data" arbitrary: k d data used rule: less_induct)
  case less
  let ?f = "drop k (frame m)" and ?t = "to_read d"
  note room = at_room[OF less.prems(1)]
  have len: "k + length data < length (frame m)"
    using arg_cong[OF less.prems(5), of length] less.prems(6) room by (cases rest) auto
  show ?case
  proof (cases "data = [] \<or> length data < ?t")
    case True
    have dat: "data = take (length data) ?f" using less.prems(5) by simp
    show ?thesis
    proof (cases "data = []")
      case False
      with True have "length data < ?t" by simp
      moreover from this have "dec_next_loop [] (dec_absorb data d) = (dec_absorb data d, Rc_more)"
        by (intro dec_next_loop_simps) simp
      moreover have "at m (k + length data) (dec_absorb data d)"
        using at_absorb[OF less.prems(1), of "length data"] \<open>length data < ?t\<close> dat by simp
      ultimately show ?thesis
        using decode_loop_step[OF False refl, of d "[]" "dec_absorb data d" Rc_more used] by simp
    qed (use less.prems in simp)
  next
    case False
    then have ne: "data \<noteq> []" and t: "?t \<le> length data" by auto
    have tk: "take ?t ?f = take ?t data" using t less.prems(5) by simp
    have "length (drop ?t data) \<le> buf_len d" "k + ?t < length (frame m)"
      using less.prems(4) len t by auto
    from at_more[OF less.prems(1-3) this] obtain d1 where
      d1: "dec_next_loop (drop ?t data) (dec_absorb (take ?t data) d) = (d1, Rc_more)"
        "at m (k + ?t) d1"
      unfolding tk by blast
    have env: "dec_env d1 = dec_env d" using dec_next_loop_env[OF d1(1)] by simp
    have "\<exists>d'. decode_loop [] (drop ?t data) (used + ?t) d1 =
        (d', (used + ?t) + length (drop ?t data), Rc_more) \<and>
      at m ((k + ?t) + length (drop ?t data)) d' \<and> dec_env d' = dec_env d1"
    proof (rule less.hyps[OF _ d1(2)])
      show "drop (k + ?t) (frame m) = drop ?t data @ rest"
        using arg_cong[OF less.prems(5), of "drop ?t"] t by (simp add: add.commute)
    qed (use less.prems room t ne dec_env_eqD[OF env] in auto)
    moreover have "decode_loop [] data used d = decode_loop [] (drop ?t data) (used + ?t) d1"
      using decode_loop_step[OF ne refl, of d "[]" d1 Rc_more used] d1(1) t by (simp add: min_absorb1)
    ultimately show ?thesis using t env by auto
  qed
qed

lemma decode_complete:
  assumes "at m k d" "dec_env_ok d" "dec_accepts m d" "length data \<le> buf_len d"
    "data = drop k (frame m) @ tail"
  shows "\<exists>d'. decode_loop [] data used d = (d', used + (length (frame m) - k), Rc_done) \<and>
    d_msg d' = received m \<and> (\<forall>m'. at m' 0 d') \<and> dec_env d' = dec_env d"
  using assms
proof (induction "length data" arbitrary: k d data used rule: less_induct)
  case less
  let ?t = "to_read d"
  note room = at_room[OF less.prems(1)]
  have t: "?t \<le> length data" "data \<noteq> []" using room less.prems(5) by auto
  have tk: "take ?t data = take ?t (drop k (frame m))" using room less.prems(5) by simp
  have rest: "length (drop ?t data) \<le> buf_len d" using less.prems(4) by simp
  show ?case
  proof (cases "k + ?t = length (frame m)")
    case True
    from at_done[OF less.prems(1-3) rest True] obtain d' where d':
      "dec_next_loop (drop ?t data) (dec_absorb (take ?t data) d) = (d', Rc_done)"
      "d_msg d' = received m" "\<forall>m'. at m' 0 d'"
      unfolding tk by blast
    with decode_loop_step[OF t(2) refl, of d "[]" d' Rc_done used] t(1) True
      dec_next_loop_env[OF d'(1)] show ?thesis
      by (auto simp: min_absorb1)
  next
    case False
    with room have "k + ?t < length (frame m)" by simp
    from at_more[OF less.prems(1-3) rest this] obtain d1 where d1:
      "dec_next_loop (drop ?t data) (dec_absorb (take ?t data) d) = (d1, Rc_more)"
      "at m (k + ?t) d1"
      unfolding tk by blast
    have env: "dec_env d1 = dec_env d" using dec_next_loop_env[OF d1(1)] by simp
    have "\<exists>d'. decode_loop [] (drop ?t data) (used + ?t) d1 =
        (d', (used + ?t) + (length (frame m) - (k + ?t)), Rc_done) \<and>
      d_msg d' = received m \<and> (\<forall>m'. at m' 0 d') \<and> dec_env d' = dec_env d1"
    proof (rule less.hyps[OF _ d1(2)])
      show "drop ?t data = drop (k + ?t) (frame m) @ tail"
        using less.prems(5) room by (simp add: add.commute)
    qed (use less.prems room t dec_env_eqD[OF env] rest in auto)
    moreover have "decode_loop [] data used d = decode_loop [] (drop ?t data) (used + ?t) d1"
      using decode_loop_step[OF t(2) refl, of d "[]" d1 Rc_more used] d1(1) t(1)
      by (simp add: min_absorb1)
    ultimately show ?thesis using room env by auto
  qed
qed

lemma decode_in_place:
  assumes "at m k d" "dec_env_ok d" "dec_accepts m d" "length data \<le> to_read d"
    "drop k (frame m) = data @ rest"
  obtains d' where "decode True [] data d = Some (d', length data, Rc_more)"
      "rest \<noteq> []" "at m (k + length data) d'" "dec_env d' = dec_env d"
    | d' where "decode True [] data d = Some (d', length data, Rc_done)"
      "rest = []" "d_msg d' = received m" "\<forall>m'. at m' 0 d'" "dec_env d' = dec_env d"
proof -
  note room = at_room[OF assms(1)]
  have len: "length (frame m) - k = length data + length rest"
    using arg_cong[OF assms(5), of length] by simp
  have dat: "data = take (length data) (drop k (frame m))" using assms(5) by simp
  show thesis
  proof (cases "length data < to_read d")
    case True
    have "dec_next_loop [] (dec_absorb data d) = (dec_absorb data d, Rc_more)"
      using True by (intro dec_next_loop_simps) simp
    moreover have "at m (k + length data) (dec_absorb data d)"
      using at_absorb[OF assms(1) True] dat by simp
    moreover have "rest \<noteq> []" using True room len by auto
    ultimately show thesis using that(1)[of "dec_absorb data d"] True by (simp add: decode_def)
  next
    case False
    with assms(4) have t: "to_read d = length data" by simp
    with assms(5) have dat: "take (to_read d) (drop k (frame m)) = data" by simp
    show thesis
    proof (cases "rest = []")
      case True
      with len t room have "k + to_read d = length (frame m)" by auto
      from at_done[OF assms(1-3) _ this, of "[]", unfolded dat] obtain d' where
        d': "dec_next_loop [] (dec_absorb data d) = (d', Rc_done)" "d_msg d' = received m"
          "\<forall>m'. at m' 0 d'" by auto
      with True dec_next_loop_env[OF d'(1)] t show thesis
        by (intro that(2)[of d']) (simp_all add: decode_def)
    next
      case rest: False
      with len t room have "k + to_read d < length (frame m)" by (cases rest) simp_all
      from at_more[OF assms(1-3) _ this, of "[]", unfolded dat] t obtain d' where
        d': "dec_next_loop [] (dec_absorb data d) = (d', Rc_more)" "at m (k + length data) d'" by auto
      with rest dec_next_loop_env[OF d'(1)] t show thesis
        by (intro that(1)[of d']) (simp_all add: decode_def)
    qed
  qed
qed

text \<open>
  \<open>expects ms d S\<close>: \<open>S\<close> is what is still to arrive for the messages \<open>ms\<close> to be delivered.
\<close>

definition expects :: "msg list \<Rightarrow> decoder \<Rightarrow> byte list \<Rightarrow> bool" where
  "expects ms d S \<longleftrightarrow> (case ms of
       [] \<Rightarrow> (\<forall>m. at m 0 d) \<and> S = []
     | m # ms' \<Rightarrow> (\<exists>k. at m k d \<and> S = drop k (frame m) @ concat (map frame ms')))"

lemma expects_start: "(\<forall>m. at m 0 d) \<Longrightarrow> expects ms d (concat (map frame ms))"
  by (cases ms) (auto simp: expects_def intro: exI[of _ 0])

lemma expects_stream: "expects ms d S \<Longrightarrow> S = [] \<longleftrightarrow> ms = []"
  by (auto simp: expects_def split: list.splits dest!: at_room)

lemma expects_room: "expects ms d S \<Longrightarrow> 0 < to_read d"
  by (auto simp: expects_def split: list.splits dest!: at_room)

lemma expects_buffer:
  "expects ms d S \<Longrightarrow> expects ms (d\<lparr>buf_addr := a, buf_len := l, buf_refs := r, zc_used := u\<rparr>) S"
  using at_buffer by (auto simp: expects_def split: list.splits) blast

lemma process_input_stream:
  assumes "expects ms d (data @ S)" "dec_env_ok d" "\<forall>m\<in>set ms. dec_accepts m d" "length data \<le> buf_len d"
  shows "\<exists>d' ms1 ms2. ms = ms1 @ ms2 \<and> process_input [] data d = (d', map received ms1, Rc_more) \<and>
    expects ms2 d' S \<and> dec_env d' = dec_env d"
  using assms
proof (induction ms arbitrary: d data)
  case Nil
  then have "data = []" "S = []" by (simp_all add: expects_def)
  with Nil show ?case by (simp add: process_input.simps)
next
  case (Cons m ms)
  from Cons.prems(1) obtain k where at: "at m k d"
    and str: "data @ S = drop k (frame m) @ concat (map frame ms)"
    by (auto simp: expects_def)
  have acc: "dec_accepts m d" using Cons.prems(3) by simp
  consider "data = []"
    | r where "drop k (frame m) = data @ r" "r \<noteq> []" "S = r @ concat (map frame ms)" "data \<noteq> []"
    | tail where "data = drop k (frame m) @ tail" "tail @ S = concat (map frame ms)" "data \<noteq> []"
    using str at_room[OF at] by (fastforce simp: append_eq_append_conv2)
  then show ?case
  proof cases
    case 1
    with Cons.prems show ?thesis
      by (intro exI[of _ d] exI[of _ "[]"] exI[of _ "m # ms"]) (simp add: process_input.simps)
  next
    case 2
    from decode_partial[OF at Cons.prems(2) acc Cons.prems(4) 2(1,2), of 0] obtain d' where
      d': "decode_loop [] data 0 d = (d', length data, Rc_more)" "at m (k + length data) d'"
        "dec_env d' = dec_env d" by auto
    have "drop (k + length data) (frame m) = r"
      using arg_cong[OF 2(1), of "drop (length data)"] by (simp add: add.commute)
    with d' 2 have "expects (m # ms) d' S" by (auto simp: expects_def)
    with d' 2(4) show ?thesis
      by (intro exI[of _ d'] exI[of _ "[]"] exI[of _ "m # ms"]) (simp add: process_input.simps)
  next
    case 3
    from decode_complete[OF at Cons.prems(2) acc Cons.prems(4) 3(1), of 0] obtain d1 where
      d1: "decode_loop [] data 0 d = (d1, length (frame m) - k, Rc_done)" "d_msg d1 = received m"
        "\<forall>m'. at m' 0 d1" "dec_env d1 = dec_env d" by auto
    let ?d1 = "d1\<lparr>d_msg := empty_msg\<rparr>"
    have env: "dec_env ?d1 = dec_env d" using d1(4) by simp
    have "expects ms ?d1 (tail @ S)"
      using expects_start[of ?d1 ms] d1(3) at_start 3(2) by simp
    from Cons.IH[OF this] dec_env_eqD[OF env] Cons.prems 3(1) obtain d' ms1 ms2 where
      "ms = ms1 @ ms2" "process_input [] tail ?d1 = (d', map received ms1, Rc_more)"
      "expects ms2 d' S" "dec_env d' = dec_env ?d1" by auto
    moreover have "drop (length (frame m) - k) data = tail" using 3(1) by simp
    ultimately show ?thesis using d1 3(3)
      by (intro exI[of _ d'] exI[of _ "m # ms1"] exI[of _ ms2])
        (simp add: process_input.simps[of "[]" data])
  qed
qed

lemma in_event_stream:
  assumes "expects ms d S" "dec_env_ok d" "\<forall>m\<in>set ms. dec_accepts m d" "unat fresh < 2 ^ 47" "n < 2 ^ 31"
  shows "\<exists>d' S' ms1 ms2. ms = ms1 @ ms2 \<and> in_event fresh n S d = (d', S', map received ms1, Rc_more) \<and>
    expects ms2 d' S' \<and> dec_env_ok d' \<and> (\<forall>m. dec_accepts m d' = dec_accepts m d) \<and>
    (0 < n \<longrightarrow> S \<noteq> [] \<longrightarrow> length S' < length S)"
proof -
  obtain d1 in_place avail where gb: "get_buffer fresh d = (d1, in_place, avail)"
    by (metis prod_cases3)
  from get_buffer_props[OF gb assms(2,4) expects_room[OF assms(1)]] obtain a l r u where
    d1: "d1 = d\<lparr>buf_addr := a, buf_len := l, buf_refs := r, zc_used := u\<rparr>" "unat a < 2 ^ 47" "0 < l"
      "l \<le> 2 ^ 47" "dec_env_ok d1" "0 < avail" "avail = (if in_place then to_read d else l)" .
  define data rest where "data = take (min n avail) S" and "rest = drop (min n avail) S"
  define d2 where "d2 = resize_buffer (length data) d1"
  have S: "S = data @ rest" by (simp add: data_def rest_def)
  have d2: "d2 = d\<lparr>buf_addr := a, buf_len := length data, buf_refs := r, zc_used := u\<rparr>"
    by (simp add: d2_def resize_buffer_def d1(1))
  note ex = expects_buffer[OF assms(1)]
  have acc2: "\<forall>m\<in>set ms. dec_accepts m d2" "\<forall>m. dec_accepts m d2 = dec_accepts m d"
    using assms(3) by (simp_all add: d2)
  have red: "in_event fresh n S d =
      (if data = [] then (d1, S, [], Rc_more)
       else if in_place then
         (case decode True [] data d2 of
            Some (d3, _, Rc_done) \<Rightarrow> (d3\<lparr>d_msg := empty_msg\<rparr>, rest, [d_msg d3], Rc_more)
          | Some (d3, _, rc) \<Rightarrow> (d3, rest, [], rc)
          | None \<Rightarrow> (d2, S, [], Rc_overrun))
       else (case process_input [] data d2 of (d3, ms, rc) \<Rightarrow> (d3, rest, ms, rc)))"
    unfolding in_event_def gb prod.case Let_def d2_def data_def rest_def by (rule refl)
  show ?thesis
  proof (cases "data = []")
    case True
    have "n = 0 \<or> S = []" using True d1(6) by (auto simp: data_def)
    with True red ex d1(1,5) show ?thesis
      by (intro exI[of _ d1] exI[of _ S] exI[of _ "[]"] exI[of _ ms]) auto
  next
    case False
    have shorter: "length rest < length S" using False S by simp
    have "length data \<le> avail" by (simp add: data_def)
    have "length data \<le> n" by (simp add: data_def)
    then have env2: "dec_env_ok d2"
      using d1(2) False assms(2,5) by (simp add: d2 dec_env_ok_def)
    show ?thesis
    proof (cases in_place)
      case ip: False
      with \<open>length data \<le> avail\<close> d1(7) have "length data \<le> buf_len d2" by (simp add: d2)
      from process_input_stream[OF _ env2 acc2(1) this, of rest] ex S obtain d' ms1 ms2 where
        "ms = ms1 @ ms2" "process_input [] data d2 = (d', map received ms1, Rc_more)"
        "expects ms2 d' rest" "dec_env d' = dec_env d2" by (auto simp: d2)
      with red False ip dec_env_eqD[of d' d2] env2 acc2(2) shorter show ?thesis
        by (intro exI[of _ d'] exI[of _ rest] exI[of _ ms1] exI[of _ ms2]) simp
    next
      case True
      then have "data @ rest \<noteq> []" and len: "length data \<le> to_read d2"
        using False d1(7) \<open>length data \<le> avail\<close> by (simp_all add: d2)
      then obtain m ms' k where ms: "ms = m # ms'" and at: "at m k d2"
        and str: "data @ rest = drop k (frame m) @ concat (map frame ms')"
        using ex[where a = a and l = "length data" and r = r and u = u] S by (auto simp: expects_def d2 split: list.splits)
      have "length data \<le> length (drop k (frame m))" using at_room[OF at] len by auto
      then have "take (length data) (drop k (frame m)) = data"
        using arg_cong[OF str, of "take (length data)"] by simp
      then obtain r where r1: "drop k (frame m) = data @ r" by (metis append_take_drop_id)
      with str have r: "drop k (frame m) = data @ r" "rest = r @ concat (map frame ms')" by simp_all
      have acc: "dec_accepts m d2" using acc2 ms by simp
      show ?thesis
      proof (rule decode_in_place[OF at env2 acc len r(1)], goal_cases)
        case (1 d')
        have "drop (k + length data) (frame m) = r"
          using arg_cong[OF r(1), of "drop (length data)"] by (simp add: add.commute)
        with 1 r ms have "expects ms d' rest" by (auto simp: expects_def)
        with 1 red False True dec_env_eqD[OF 1(4)] env2 acc2(2) shorter show ?case
          by (intro exI[of _ d'] exI[of _ rest] exI[of _ "[]"] exI[of _ ms]) simp
      next
        case (2 d')
        let ?d = "d'\<lparr>d_msg := empty_msg\<rparr>"
        have "expects ms' ?d rest" using expects_start[of ?d ms'] at_start 2 r(2) by simp
        with 2 red False True dec_env_eqD[of ?d d2] env2 acc2(2) shorter ms show ?case
          by (intro exI[of _ ?d] exI[of _ rest] exI[of _ "[m]"] exI[of _ ms']) simp
      qed
    qed
  qed
qed

text \<open>
  A connection: whatever the reads return, the messages delivered are a prefix of those sent,
  and all of them once as many bytes as were sent could be read.
\<close>

lemma receive_stream:
  assumes "expects ms d S" "dec_env_ok d" "\<forall>m\<in>set ms. dec_accepts m d"
    "\<forall>(fresh, n)\<in>set reads. unat fresh < 2 ^ 47 \<and> 0 < n \<and> n < 2 ^ 31"
  shows "\<exists>d' S' ms1 ms2. ms = ms1 @ ms2 \<and> receive reads S d = (d', S', map received ms1, Rc_more) \<and>
    expects ms2 d' S' \<and> length S' \<le> length S - length reads"
  using assms
proof (induction reads arbitrary: ms d S)
  case Nil
  then show ?case by (intro exI[of _ d] exI[of _ S] exI[of _ "[]"] exI[of _ ms]) simp
next
  case (Cons rd reads)
  obtain fresh n where rd: "rd = (fresh, n)" by fastforce
  with Cons.prems(4) have "unat fresh < 2 ^ 47" "n < 2 ^ 31" "0 < n" by auto
  from in_event_stream[OF Cons.prems(1-3) this(1,2)] obtain d1 S1 ms1 ms2 where
    1: "ms = ms1 @ ms2" "in_event fresh n S d = (d1, S1, map received ms1, Rc_more)"
      "expects ms2 d1 S1" "dec_env_ok d1" "\<forall>m. dec_accepts m d1 = dec_accepts m d"
      "0 < n \<longrightarrow> S \<noteq> [] \<longrightarrow> length S1 < length S" by blast
  from Cons.IH[OF 1(3,4)] 1(1,5) Cons.prems(3,4) obtain d' S' ms3 ms4 where
    2: "ms2 = ms3 @ ms4" "receive reads S1 d1 = (d', S', map received ms3, Rc_more)"
      "expects ms4 d' S'" "length S' \<le> length S1 - length reads" by auto
  have "length S' \<le> length S - length (rd # reads)"
  proof (cases "S = []")
    case True
    then have "ms = []" using expects_stream[OF Cons.prems(1)] by simp
    with 1 2 have "S' = []" using expects_stream[OF 2(3)] by simp
    then show ?thesis by simp
  qed (use 1(6) 2(4) \<open>0 < n\<close> in auto)
  with 1 2 rd show ?case
    by (intro exI[of _ d'] exI[of _ S'] exI[of _ "ms1 @ ms3"] exI[of _ ms4]) simp
qed

lemma receive_all:
  assumes "\<forall>m. at m 0 d" "dec_env_ok d" "\<forall>m\<in>set ms. dec_accepts m d"
    "\<forall>(fresh, n)\<in>set reads. unat fresh < 2 ^ 47 \<and> 0 < n \<and> n < 2 ^ 31"
    "length (concat (map frame ms)) \<le> length reads"
  shows "\<exists>d'. receive reads (concat (map frame ms)) d = (d', [], map received ms, Rc_more) \<and>
    (\<forall>m. at m 0 d')"
proof -
  from receive_stream[OF expects_start[OF assms(1)] assms(2-4)] obtain d' S' ms1 ms2 where
    r: "ms = ms1 @ ms2" "receive reads (concat (map frame ms)) d = (d', S', map received ms1, Rc_more)"
      "expects ms2 d' S'" "length S' \<le> length (concat (map frame ms)) - length reads" by blast
  with assms(5) have "S' = []" by simp
  with expects_stream[OF r(3)] have "ms2 = []" by simp
  with r \<open>S' = []\<close> show ?thesis by (simp add: expects_def)
qed

end

end
