(* ===== verification/Zmtp.thy ===== *)
theory Zmtp
  imports Codec
begin

text \<open>
  The two framing protocols as codecs: ZMTP/1.0 (\<open>v1_encoder.cpp\<close>, \<open>v1_decoder.cpp\<close>) and ZMTP/2.x
  (\<open>v2_encoder.cpp\<close>, \<open>v2_decoder.cpp\<close>). Both interpret the locale \<open>codec\<close>; the theorems state the
  round trip from \<open>encode\<close> to the messages \<open>in_event\<close> delivers, the errors of
  the decoders, and the size limit.
\<close>

unbundle bit_operations_syntax

section \<open>Fields\<close>

text \<open>
  A decoder that fills a field of \<open>tot\<close> bytes of \<open>tmpbuf\<close>, or the body of a message, and has
  the bytes \<open>done\<close> of it.
\<close>

definition tmp_at :: "dec_step \<Rightarrow> nat \<Rightarrow> byte list \<Rightarrow> decoder \<Rightarrow> bool" where
  "tmp_at st tot done d \<longleftrightarrow> d_next d = st \<and> read_pos d = In_tmpbuf (length done) \<and>
     to_read d = tot - length done \<and> length done < tot \<and> tot \<le> 8 \<and> length (tmpbuf d) = 8 \<and>
     take (length done) (tmpbuf d) = done"

definition body_at :: "dec_step \<Rightarrow> msg \<Rightarrow> byte list \<Rightarrow> decoder \<Rightarrow> bool" where
  "body_at st m done d \<longleftrightarrow> d_next d = st \<and> read_pos d = In_msg (length done) \<and>
     to_read d = length (mdata m) - length done \<and> length done < length (mdata m) \<and>
     length (mdata (d_msg d)) = length (mdata m) \<and> take (length done) (mdata (d_msg d)) = done \<and>
     kind (d_msg d) = kind m \<and> flags (d_msg d) = flags m \<and> length (tmpbuf d) = 8"

lemma at_buffer_simps [simp]:
  "tmp_at st tot done (d\<lparr>buf_addr := a, buf_len := l, buf_refs := r, zc_used := u\<rparr>) = tmp_at st tot done d"
  "body_at st m done (d\<lparr>buf_addr := a, buf_len := l, buf_refs := r, zc_used := u\<rparr>) = body_at st m done d"
  by (simp_all add: tmp_at_def body_at_def)

lemma tmp_at_start:
  "length (tmpbuf d) = 8 \<Longrightarrow> 0 < tot \<Longrightarrow> tot \<le> 8 \<Longrightarrow>
    tmp_at st tot [] (dec_next_step (In_tmpbuf 0) tot st d)"
  by (simp add: tmp_at_def dec_next_step_def)

lemma tmp_at_absorb:
  "tmp_at st tot done d \<Longrightarrow> length done + length bs < tot \<Longrightarrow>
    tmp_at st tot (done @ bs) (dec_absorb bs d)"
  using take_overwrite[of "length done" bs "tmpbuf d"] by (auto simp: tmp_at_def dec_absorb_def)

lemma tmp_at_full:
  assumes "tmp_at st tot done d" "length done + length bs = tot"
  obtains t where "dec_absorb bs d = d\<lparr>tmpbuf := t, read_pos := In_tmpbuf tot, to_read := 0\<rparr>"
    "length t = 8" "take tot t = done @ bs"
proof (rule that[of "overwrite (tmpbuf d) (length done) bs"])
  show "take tot (overwrite (tmpbuf d) (length done) bs) = done @ bs"
    using assms take_overwrite[of "length done" bs "tmpbuf d"] by (simp add: tmp_at_def)
qed (use assms in \<open>simp_all add: tmp_at_def dec_absorb_def\<close>)

lemma body_at_absorb:
  "body_at st m done d \<Longrightarrow> length done + length bs < length (mdata m) \<Longrightarrow>
    body_at st m (done @ bs) (dec_absorb bs d)"
  using take_overwrite[of "length done" bs "mdata (d_msg d)"]
  by (auto simp: body_at_def dec_absorb_def)

lemma body_at_full:
  assumes "body_at st m done d" "done @ bs = mdata m"
  obtains "dec_absorb bs d = d\<lparr>d_msg := m, read_pos := In_msg (length (mdata m)), to_read := 0\<rparr>"
proof -
  have len: "length done + length bs = length (mdata m)"
    using arg_cong[OF assms(2), of length] by simp
  have "overwrite (mdata (d_msg d)) (length done) bs = mdata m"
    using assms len by (simp add: body_at_def overwrite_tail)
  with assms(1) len have "(d_msg d)\<lparr>mdata := overwrite (mdata (d_msg d)) (length done) bs\<rparr> = m"
    by (simp add: body_at_def)
  with assms(1) len that show thesis by (simp add: body_at_def dec_absorb_def)
qed

lemma dec_init_size_ok:
  assumes "dec_accepts m d" "n = length (mdata m)"
  obtains bs where "dec_init_size n d = (d\<lparr>d_msg := \<lparr>kind = Kdata, flags = 0, mdata = bs\<rparr>\<rparr>, True)"
    "length bs = n"
  using assms that[of "map (uninit d) [0..<n]"] by (simp add: dec_init_size_def dec_accepts_def)

section \<open>ZMTP/1.0\<close>

definition v1_received :: "msg \<Rightarrow> msg" where
  "v1_received m = \<lparr>kind = Kdata, flags = flags m AND flag_more, mdata = mdata m\<rparr>"

lemma v1_received_simps [simp]:
  "mdata (v1_received m) = mdata m" "kind (v1_received m) = Kdata"
  "flags (v1_received m) = flags m AND flag_more"
  by (simp_all add: v1_received_def)

inductive v1_at :: "msg \<Rightarrow> nat \<Rightarrow> decoder \<Rightarrow> bool" where
  one: "tmp_at D1_one_byte_size_ready 1 [] d \<Longrightarrow> v1_at m 0 d"
| eight: "tmp_at D1_eight_byte_size_ready 8 (take j (put_uint64 (of_nat (length (mdata m) + 1)))) d \<Longrightarrow>
    \<not> length (mdata m) + 1 < 255 \<Longrightarrow> j < 8 \<Longrightarrow> v1_at m (Suc j) d"
| flags: "tmp_at D1_flags_ready 1 [] d \<Longrightarrow> Suc k = length (v1_header m) \<Longrightarrow>
    kind (d_msg d) = Kdata \<Longrightarrow> flags (d_msg d) = 0 \<Longrightarrow> length (mdata (d_msg d)) = length (mdata m) \<Longrightarrow>
    v1_at m k d"
| body: "body_at D1_message_ready (v1_received m) (take j (mdata m)) d \<Longrightarrow> j < length (mdata m) \<Longrightarrow>
    k = length (v1_header m) + j \<Longrightarrow> v1_at m k d"

lemma length_v1_header: "length (v1_header m) = (if length (mdata m) + 1 < 255 then 2 else 10)"
  by (simp add: v1_header_def Let_def)

abbreviation v1_frame :: "msg \<Rightarrow> byte list" where
  "v1_frame \<equiv> enc_frame V1_message_ready"

lemma v1_at_room: "v1_at m k d \<Longrightarrow> 0 < to_read d \<and> k + to_read d \<le> length (v1_frame m)"
  by (induction rule: v1_at.induct)
    (auto simp: tmp_at_def body_at_def v1_received_def length_v1_header split: if_splits)

lemma v1_at_0: "v1_at m 0 d \<longleftrightarrow> tmp_at D1_one_byte_size_ready 1 [] d"
  by (subst v1_at.simps) (auto simp: length_v1_header)

lemma v1_at_absorb:
  "v1_at m k d \<Longrightarrow> j < to_read d \<Longrightarrow> v1_at m (k + j) (dec_absorb (take j (drop k (v1_frame m))) d)"
proof (induction rule: v1_at.induct)
  case (one d m)
  then show ?case by (auto simp: tmp_at_def intro: v1_at.one)
next
  case (eight i m d)
  let ?p = "put_uint64 (of_nat (length (mdata m) + 1))"
  have j: "i + j < 8" using eight by (simp add: tmp_at_def)
  have "take j (drop (Suc i) (v1_frame m)) = take j (drop i ?p)"
    using eight(2) j by (simp add: v1_header_def Let_def)
  moreover have "tmp_at D1_eight_byte_size_ready 8 (take i ?p @ take j (drop i ?p))
      (dec_absorb (take j (drop i ?p)) d)"
    using eight(1,3) j by (intro tmp_at_absorb) auto
  ultimately show ?case using v1_at.eight[of "i + j" m] eight(2) j by (simp add: take_add)
next
  case (flags d k m)
  then show ?case by (auto simp: tmp_at_def intro: v1_at.flags)
next
  case (body m i d k)
  have j: "i + j < length (mdata m)" using body by (simp add: body_at_def v1_received_def)
  have "take j (drop k (v1_frame m)) = take j (drop i (mdata m))" using body(3) by simp
  moreover have "body_at D1_message_ready (v1_received m) (take i (mdata m) @ take j (drop i (mdata m)))
      (dec_absorb (take j (drop i (mdata m))) d)"
    using body(1,2) j by (intro body_at_absorb) (auto simp: v1_received_def)
  ultimately show ?case using v1_at.body[of m "i + j"] body(3) j by (simp add: take_add add.assoc)
qed

text \<open>What the completed fields of the header make the decoder do.\<close>

definition steps_to :: "(msg \<Rightarrow> nat \<Rightarrow> decoder \<Rightarrow> bool) \<Rightarrow> nat \<Rightarrow> msg \<Rightarrow> msg \<Rightarrow> nat \<Rightarrow> decoder \<times> dec_rc \<Rightarrow> bool"
where
  "steps_to at len m received k r \<longleftrightarrow>
     (if k < len then snd r = Rc_more \<and> at m k (fst r)
      else snd r = Rc_done \<and> d_msg (fst r) = received \<and> (\<forall>m'. at m' 0 (fst r)))"

lemma v1_start: "length (tmpbuf d) = 8 \<Longrightarrow>
    v1_at m 0 (dec_next_step (In_tmpbuf 0) 1 D1_one_byte_size_ready d)"
  by (intro v1_at.one tmp_at_start) simp_all

lemma v1_one_byte_step:
  assumes "tmp_at D1_one_byte_size_ready 1 [] d" "dec_accepts m d" "bs = take 1 (v1_frame m)"
  shows "steps_to v1_at (length (v1_frame m)) m (v1_received m) 1 (dec_next_loop rest (dec_absorb bs d))"
proof -
  let ?n = "length (mdata m)"
  have "length bs = 1" using assms(3) by (simp add: v1_header_def Let_def)
  then obtain t where ab: "dec_absorb bs d = d\<lparr>tmpbuf := t, read_pos := In_tmpbuf 1, to_read := 0\<rparr>"
    and t: "length t = 8" "take 1 t = bs"
    using tmp_at_full[OF assms(1), of bs] by auto
  have nxt: "d_next d = D1_one_byte_size_ready" using assms(1) by (simp add: tmp_at_def)
  show ?thesis
  proof (cases "?n + 1 < 255")
    case True
    have t0: "t ! 0 = of_nat (?n + 1)"
      using t assms(3) True by (cases t) (simp_all add: v1_header_def Let_def)
    have un: "unat (of_nat (?n + 1) :: byte) = ?n + 1"
      using True by (simp only: unat_of_nat) simp
    let ?d = "d\<lparr>tmpbuf := t, read_pos := In_tmpbuf 1, to_read := 0\<rparr>"
    have "dec_accepts m ?d" using assms(2) by (simp add: dec_accepts_def)
    then obtain b where b: "dec_init_size ?n ?d = (?d\<lparr>d_msg := \<lparr>kind = Kdata, flags = 0, mdata = b\<rparr>\<rparr>, True)"
      "length b = ?n" using dec_init_size_ok[of m ?d ?n] by blast
    let ?d' = "dec_next_step (In_tmpbuf 0) 1 D1_flags_ready
      (?d\<lparr>d_msg := \<lparr>kind = Kdata, flags = 0, mdata = b\<rparr>\<rparr>)"
    have ne: "(of_nat (?n + 1) :: byte) \<noteq> 0xff" "(of_nat (?n + 1) :: byte) \<noteq> 0"
      using un True by (auto simp flip: unat_arith_simps(3))
    have "uint (of_nat (?n + 1) :: byte) = int ?n + 1" using un by (metis of_nat_1 of_nat_add uint_nat)
    with assms(2) have sz: "\<not> (0 \<le> maxmsgsize d \<and> uint (of_nat (?n + 1) :: byte) - 1 > maxmsgsize d)"
      by (auto simp: dec_accepts_def)
    have "d1_one_byte_size_ready ?d = (?d', Rc_more)"
      using t0 ne sz un b(1) by (simp add: d1_one_byte_size_ready_def Let_def)
    then have "dec_next_loop rest ?d = (?d', Rc_more)"
      using nxt by (intro dec_next_loop_stop) (simp_all add: dec_next_step_def)
    moreover have "v1_at m 1 ?d'"
      using b(2) t(1) True
      by (intro v1_at.flags tmp_at_start) (simp_all add: dec_next_step_def length_v1_header)
    ultimately show ?thesis using True by (simp add: ab steps_to_def length_v1_header)
  next
    case False
    let ?d = "d\<lparr>tmpbuf := t, read_pos := In_tmpbuf 1, to_read := 0\<rparr>"
    let ?d' = "dec_next_step (In_tmpbuf 0) 8 D1_eight_byte_size_ready ?d"
    have "t ! 0 = 0xff"
      using t assms(3) False by (cases t) (simp_all add: v1_header_def Let_def)
    then have "dec_next_loop rest ?d = (?d', Rc_more)"
      using nxt by (intro dec_next_loop_stop) (simp_all add: d1_one_byte_size_ready_def dec_next_step_def)
    moreover have "v1_at m (Suc 0) ?d'"
      using t(1) False by (intro v1_at.eight) (simp_all add: tmp_at_start)
    ultimately show ?thesis using False by (simp add: ab steps_to_def length_v1_header)
  qed
qed

lemma v1_eight_byte_step:
  assumes "tmp_at D1_eight_byte_size_ready 8 got d" "dec_accepts m d"
    "got @ bs = put_uint64 (of_nat (length (mdata m) + 1))" "\<not> length (mdata m) + 1 < 255"
  shows "steps_to v1_at (length (v1_frame m)) m (v1_received m) 9 (dec_next_loop rest (dec_absorb bs d))"
proof -
  let ?n = "length (mdata m)"
  have "length got + length bs = 8" using arg_cong[OF assms(3), of length] by simp
  from tmp_at_full[OF assms(1) this] obtain t where
    ab: "dec_absorb bs d = d\<lparr>tmpbuf := t, read_pos := In_tmpbuf 8, to_read := 0\<rparr>"
    and t: "length t = 8" "take 8 t = got @ bs" .
  let ?d = "d\<lparr>tmpbuf := t, read_pos := In_tmpbuf 8, to_read := 0\<rparr>"
  have n: "?n < 2 ^ 63" and "dec_accepts m ?d" using assms(2) by (simp_all add: dec_accepts_def)
  from dec_init_size_ok[OF this(2) refl] obtain b where
    b: "dec_init_size ?n ?d = (?d\<lparr>d_msg := \<lparr>kind = Kdata, flags = 0, mdata = b\<rparr>\<rparr>, True)" "length b = ?n" .
  let ?d' = "dec_next_step (In_tmpbuf 0) 1 D1_flags_ready
    (?d\<lparr>d_msg := \<lparr>kind = Kdata, flags = 0, mdata = b\<rparr>\<rparr>)"
  have "t = put_uint64 (of_nat (?n + 1))" using t assms(3) by simp
  then have len: "get_uint64 t = of_nat (?n + 1)" using get_put_uint64[of _ "[]"] by simp
  have un: "unat (of_nat (?n + 1) :: 64 word) = ?n + 1" "unat (of_nat ?n :: 64 word) = ?n"
    using n by (simp_all only: unat_of_nat) simp_all
  have ne: "(of_nat (?n + 1) :: 64 word) \<noteq> 0" using un(1) by (metis Suc_eq_plus1 unat_0 nat.simps(3))
  have sub: "(of_nat (?n + 1) :: 64 word) - 1 = of_nat ?n" by simp
  have "uint (of_nat ?n :: 64 word) = int ?n" using un(2) by (metis uint_nat)
  with assms(2) have sz: "\<not> (0 \<le> maxmsgsize d \<and> uint (of_nat ?n :: 64 word) > maxmsgsize d)"
    by (auto simp: dec_accepts_def)
  have small: "\<not> unat (of_nat ?n :: 64 word) > 2 ^ 64 - 1" using n un(2) by simp
  have "d1_eight_byte_size_ready ?d = (?d', Rc_more)"
    unfolding d1_eight_byte_size_ready_def Let_def
    using len ne sz small b(1) un(2) by (simp only: decoder.simps sub if_False simp_thms) simp
  then have "dec_next_loop rest ?d = (?d', Rc_more)"
    using assms(1) by (intro dec_next_loop_stop) (simp_all add: dec_next_step_def tmp_at_def)
  moreover have "v1_at m 9 ?d'"
    using b(2) t(1) assms(4)
    by (intro v1_at.flags tmp_at_start) (simp_all add: dec_next_step_def length_v1_header)
  ultimately show ?thesis using assms(4) by (simp add: ab steps_to_def length_v1_header)
qed

lemma v1_message_step:
  assumes "d_next d = D1_message_ready" "to_read d = 0" "d_msg d = v1_received m" "length (tmpbuf d) = 8"
  shows "steps_to v1_at (length (v1_frame m)) m (v1_received m) (length (v1_frame m)) (dec_next_loop rest d)"
proof -
  let ?d' = "dec_next_step (In_tmpbuf 0) 1 D1_one_byte_size_ready d"
  have "dec_next_loop rest d = (?d', Rc_done)"
    using assms(1,2) by (intro dec_next_loop_stop(2)) (simp_all add: d1_message_ready_def)
  moreover have "d_msg ?d' = d_msg d" by (simp add: dec_next_step_def)
  ultimately show ?thesis using assms(3) v1_start[OF assms(4)] by (simp add: steps_to_def)
qed

lemma v1_flags_step:
  assumes "tmp_at D1_flags_ready 1 [] d" "kind (d_msg d) = Kdata" "flags (d_msg d) = 0"
    "length (mdata (d_msg d)) = length (mdata m)" "bs = [flags m AND flag_more]"
  shows "steps_to v1_at (length (v1_frame m)) m (v1_received m) (length (v1_header m))
    (dec_next_loop rest (dec_absorb bs d))"
proof -
  from tmp_at_full[OF assms(1), of bs] assms(5) obtain t where
    ab: "dec_absorb bs d = d\<lparr>tmpbuf := t, read_pos := In_tmpbuf 1, to_read := 0\<rparr>"
    and t: "length t = 8" "take 1 t = bs" by auto
  let ?d = "d\<lparr>tmpbuf := t, read_pos := In_tmpbuf 1, to_read := 0\<rparr>"
  let ?m = "(d_msg d)\<lparr>flags := flags m AND flag_more\<rparr>"
  let ?d' = "dec_next_step (In_msg 0) (length (mdata m)) D1_message_ready (?d\<lparr>d_msg := ?m\<rparr>)"
  have "t ! 0 = flags m AND flag_more" using t assms(5) by (cases t) simp_all
  then have run: "dec_run (d_next ?d) rest ?d = (?d', Rc_more)"
    using assms(1,3,4) by (simp add: tmp_at_def d1_flags_ready_def Let_def)
  show ?thesis
  proof (cases "mdata m = []")
    case True
    have "dec_next_loop rest ?d = dec_next_loop rest ?d'"
      using dec_next_loop_simps(2)[OF _ run] by simp
    moreover have "d_msg ?d' = v1_received m"
      using assms(2,4) True by (cases "d_msg d") (simp add: v1_received_def dec_next_step_def)
    ultimately show ?thesis
      using v1_message_step[of ?d' m rest] True t(1) by (simp add: ab dec_next_step_def)
  next
    case False
    have "dec_next_loop rest ?d = (?d', Rc_more)"
      using dec_next_loop_stop(1)[OF _ run] False by (simp add: dec_next_step_def)
    moreover have "body_at D1_message_ready (v1_received m) (take 0 (mdata m)) ?d'"
      using assms(2,4) False t(1) by (simp add: body_at_def v1_received_def dec_next_step_def)
    ultimately show ?thesis
      using False v1_at.body[of m 0 ?d' "length (v1_header m)"] by (simp add: ab steps_to_def)
  qed
qed

lemma v1_at_step:
  assumes "v1_at m k d" "dec_accepts m d"
  shows "steps_to v1_at (length (v1_frame m)) m (v1_received m) (k + to_read d)
    (dec_next_loop rest (dec_absorb (take (to_read d) (drop k (v1_frame m))) d))"
  using assms
proof (induction rule: v1_at.induct)
  case (one d m)
  then show ?case using v1_one_byte_step[of d m _ rest] by (simp add: tmp_at_def)
next
  case (eight j m d)
  let ?p = "put_uint64 (of_nat (length (mdata m) + 1))"
  have t: "to_read d = 8 - j" using eight(1,3) by (simp add: tmp_at_def)
  have "take (8 - j) (drop (Suc j) (v1_frame m)) = drop j ?p"
    using eight(2,3) by (simp add: v1_header_def Let_def)
  moreover have "take j ?p @ drop j ?p = ?p" by simp
  ultimately show ?case
    using v1_eight_byte_step[OF eight(1) eight(4) _ eight(2), of "drop j ?p" rest] eight(3) t by simp
next
  case (flags d k m)
  have t: "to_read d = 1" using flags(1) by (simp add: tmp_at_def)
  have "take 1 (drop k (v1_frame m)) = [flags m AND flag_more]"
    using flags(2) by (auto simp: v1_header_def Let_def split: if_splits)
  with v1_flags_step[OF flags(1,3-5), of "[flags m AND flag_more]" rest] flags(2) t show ?case by simp
next
  case (body m j d k)
  have t: "to_read d = length (mdata m) - j" using body(1,2) by (simp add: body_at_def v1_received_def)
  have "take (length (mdata m) - j) (drop k (v1_frame m)) = drop j (mdata m)" using body(3) by simp
  moreover have "take j (mdata m) @ drop j (mdata m) = mdata (v1_received m)" by (simp add: v1_received_def)
  from body_at_full[OF body(1) this] have "dec_absorb (drop j (mdata m)) d =
    d\<lparr>d_msg := v1_received m, read_pos := In_msg (length (mdata (v1_received m))), to_read := 0\<rparr>" .
  ultimately show ?case
    using body t v1_message_step[of "d\<lparr>d_msg := v1_received m, read_pos := In_msg (length (mdata m)),
      to_read := 0\<rparr>" m rest] by (simp add: body_at_def)
qed

interpretation v1: codec v1_frame v1_received v1_at
proof (unfold_locales, goal_cases)
  case (1 m k d)
  then show ?case by (rule v1_at_room)
next
  case (2 m k d j)
  then show ?case by (rule v1_at_absorb)
next
  case (3 m k d rest)
  from v1_at_step[OF 3(1,3), of rest] 3(5) show ?case
    by (simp add: steps_to_def) (metis prod.collapse)
next
  case (4 m k d rest)
  from v1_at_step[OF 4(1,3), of rest] 4(5) show ?case
    by (simp add: steps_to_def) (metis prod.collapse)
next
  case (5 m k d a l r u)
  then show ?case by (induction rule: v1_at.induct) (auto intro: v1_at.intros)
next
  case (6 m d m')
  then show ?case by (simp add: v1_at_0 tmp_at_def)
qed

section \<open>ZMTP/2.x\<close>

definition v2_received :: "msg \<Rightarrow> msg" where
  "v2_received m = \<lparr>kind = Kdata,
     flags = (if has_more m then flag_more else 0) OR (if has_command m then flag_command else 0),
     mdata = mdata m\<rparr>"

lemma v2_received_simps [simp]:
  "mdata (v2_received m) = mdata m" "kind (v2_received m) = Kdata"
  by (simp_all add: v2_received_def)

abbreviation v2_frame :: "msg \<Rightarrow> byte list" where
  "v2_frame \<equiv> enc_frame V2_message_ready"

inductive v2_at :: "msg \<Rightarrow> nat \<Rightarrow> decoder \<Rightarrow> bool" where
  flags: "tmp_at D2_flags_ready 1 [] d \<Longrightarrow> v2_at m 0 d"
| one: "tmp_at D2_one_byte_size_ready 1 [] d \<Longrightarrow> \<not> length (mdata m) > 255 \<Longrightarrow>
    msg_flags d = flags (v2_received m) \<Longrightarrow> v2_at m 1 d"
| eight: "tmp_at D2_eight_byte_size_ready 8 (take j (put_uint64 (of_nat (length (mdata m))))) d \<Longrightarrow>
    length (mdata m) > 255 \<Longrightarrow> j < 8 \<Longrightarrow> msg_flags d = flags (v2_received m) \<Longrightarrow> v2_at m (Suc j) d"
| body: "body_at D2_message_ready (v2_received m) (take j (mdata m)) d \<Longrightarrow> j < length (mdata m) \<Longrightarrow>
    k = length (v2_header m) + j \<Longrightarrow> v2_at m k d"

lemma length_v2_header: "length (v2_header m) = (if length (mdata m) > 255 then 9 else 2)"
  by (simp add: v2_header_def Let_def)

lemma v2_at_0: "v2_at m 0 d \<longleftrightarrow> tmp_at D2_flags_ready 1 [] d"
  by (subst v2_at.simps) (auto simp: length_v2_header)

lemma v2_at_room: "v2_at m k d \<Longrightarrow> 0 < to_read d \<and> k + to_read d \<le> length (v2_frame m)"
  by (induction rule: v2_at.induct)
    (auto simp: tmp_at_def body_at_def length_v2_header split: if_splits)

lemma v2_at_absorb:
  "v2_at m k d \<Longrightarrow> j < to_read d \<Longrightarrow> v2_at m (k + j) (dec_absorb (take j (drop k (v2_frame m))) d)"
proof (induction rule: v2_at.induct)
  case (flags d m)
  then show ?case by (auto simp: tmp_at_def intro: v2_at.flags)
next
  case (one d m)
  then have "j = 0" by (simp add: tmp_at_def)
  with one show ?case by (auto intro: v2_at.one[simplified])
next
  case (eight i m d)
  let ?p = "put_uint64 (of_nat (length (mdata m)))"
  have j: "i + j < 8" using eight by (simp add: tmp_at_def)
  have "take j (drop (Suc i) (v2_frame m)) = take j (drop i ?p)"
    using eight(2) j by (simp add: v2_header_def Let_def)
  moreover have "tmp_at D2_eight_byte_size_ready 8 (take i ?p @ take j (drop i ?p))
      (dec_absorb (take j (drop i ?p)) d)"
    using eight(1,3) j by (intro tmp_at_absorb) auto
  moreover have "msg_flags (dec_absorb (take j (drop i ?p)) d) = msg_flags d"
    by (simp add: dec_absorb_def split: rpos.split)
  ultimately show ?case using v2_at.eight[of "i + j" m] eight(2,4) j by (simp add: take_add)
next
  case (body m i d k)
  have j: "i + j < length (mdata m)" using body by (simp add: body_at_def)
  have "take j (drop k (v2_frame m)) = take j (drop i (mdata m))" using body(3) by simp
  moreover have "body_at D2_message_ready (v2_received m) (take i (mdata m) @ take j (drop i (mdata m)))
      (dec_absorb (take j (drop i (mdata m))) d)"
    using body(1,2) j by (intro body_at_absorb) auto
  ultimately show ?case using v2_at.body[of m "i + j"] body(3) j by (simp add: take_add add.assoc)
qed

text \<open>
  In the user address space the test of \<open>size_ready\<close> tells exactly whether the body reaches over the
  end of the buffer.
\<close>

lemma size_ready_test:
  fixes a :: "64 word"
  assumes "unat a < 2 ^ 47" "len \<le> 2 ^ 47" "r \<le> len" "n < 2 ^ 63"
  shows "a + of_nat (len - r) + of_nat n > a + of_nat len \<longleftrightarrow> r < n"
proof -
  define k where "k = len - r"
  have "unat (a + of_nat len) = unat a + len"
    using assms by (simp add: unat_word_ariths unat_of_nat)
  moreover have "k \<le> 2 ^ 47" using assms(2) by (simp add: k_def)
  then have "unat (a + of_nat k + of_nat n) = unat a + k + n"
    using assms(1,4) by (simp add: unat_word_ariths unat_of_nat)
  ultimately show ?thesis unfolding k_def using assms(3) by (auto simp: word_less_nat_alt)
qed

lemma d2_size_ready_ok:
  assumes "dec_env_ok d" "dec_accepts m d" "length rest \<le> buf_len d" "n = length (mdata m)"
  obtains d' where "d2_size_ready (of_nat n) rest d = (d', Rc_more)" "d_next d' = D2_message_ready"
    "read_pos d' = In_msg 0" "to_read d' = n" "length (mdata (d_msg d')) = n" "kind (d_msg d') = Kdata"
    "flags (d_msg d') = msg_flags d" "tmpbuf d' = tmpbuf d"
proof -
  have n: "n < 2 ^ 63" using assms(2,4) by (simp add: dec_accepts_def)
  have un: "unat (of_nat n :: 64 word) = n" using n by (simp only: unat_of_nat) simp
  then have "uint (of_nat n :: 64 word) = int n" by (metis uint_nat)
  with assms(2,4) have sz: "\<not> (0 \<le> maxmsgsize d \<and> uint (of_nat n :: 64 word) > maxmsgsize d)"
    by (auto simp: dec_accepts_def)
  have test: "buf_addr d + of_nat (buf_len d - length rest) + of_nat n > buf_addr d + of_nat (buf_len d)
      \<longleftrightarrow> length rest < n"
    using assms(1,3) n by (intro size_ready_test) (simp_all add: dec_env_ok_def)
  from dec_init_size_ok[OF assms(2,4)] obtain b where
    b: "dec_init_size n d = (d\<lparr>d_msg := \<lparr>kind = Kdata, flags = 0, mdata = b\<rparr>\<rparr>, True)" "length b = n" .
  obtain d' rc where d': "d2_size_ready (of_nat n) rest d = (d', rc)" by fastforce
  show thesis
  proof (cases "length rest < n")
    case True
    with sz test un b d' show thesis
      by (intro that[of d']) (auto simp: d2_size_ready_def Let_def dec_next_step_def)
  next
    case False
    with sz test un d' show thesis
      by (intro that[of d']) (auto simp: d2_size_ready_def Let_def dec_next_step_def split: if_splits)
  qed
qed

lemma v2_start: "length (tmpbuf d) = 8 \<Longrightarrow>
    v2_at m 0 (dec_next_step (In_tmpbuf 0) 1 D2_flags_ready d)"
  by (intro v2_at.flags tmp_at_start) simp_all

lemma v2_message_step:
  assumes "d_next d = D2_message_ready" "to_read d = 0" "d_msg d = v2_received m" "length (tmpbuf d) = 8"
  shows "steps_to v2_at (length (v2_frame m)) m (v2_received m) (length (v2_frame m)) (dec_next_loop rest d)"
proof -
  let ?d' = "dec_next_step (In_tmpbuf 0) 1 D2_flags_ready d"
  have "dec_next_loop rest d = (?d', Rc_done)"
    using assms(1,2) by (intro dec_next_loop_stop(2)) (simp_all add: d2_message_ready_def)
  moreover have "d_msg ?d' = d_msg d" by (simp add: dec_next_step_def)
  ultimately show ?thesis using assms(3) v2_start[OF assms(4)] by (simp add: steps_to_def)
qed

lemma v2_size_step:
  assumes "dec_run (d_next d) rest d = d2_size_ready (of_nat (length (mdata m))) rest d" "to_read d = 0"
    "dec_env_ok d" "dec_accepts m d" "length rest \<le> buf_len d" "msg_flags d = flags (v2_received m)"
    "length (tmpbuf d) = 8"
  shows "steps_to v2_at (length (v2_frame m)) m (v2_received m) (length (v2_header m)) (dec_next_loop rest d)"
proof -
  from d2_size_ready_ok[OF assms(3-5) refl] obtain d' where
    d': "d2_size_ready (of_nat (length (mdata m))) rest d = (d', Rc_more)" "d_next d' = D2_message_ready"
      "read_pos d' = In_msg 0" "to_read d' = length (mdata m)" "length (mdata (d_msg d')) = length (mdata m)"
      "kind (d_msg d') = Kdata" "flags (d_msg d') = msg_flags d" "tmpbuf d' = tmpbuf d" .
  have run: "dec_run (d_next d) rest d = (d', Rc_more)" using assms(1) d'(1) by simp
  show ?thesis
  proof (cases "mdata m = []")
    case True
    have "dec_next_loop rest d = dec_next_loop rest d'"
      using dec_next_loop_simps(2)[OF assms(2) run] by simp
    moreover have "d_msg d' = v2_received m"
      using d'(5-7) assms(6) True by (cases "d_msg d'") (simp add: v2_received_def)
    ultimately show ?thesis
      using v2_message_step[of d' m rest] True d'(2,4,8) assms(7) by simp
  next
    case False
    have "dec_next_loop rest d = (d', Rc_more)"
      using dec_next_loop_stop(1)[OF assms(2) run] False d'(4) by simp
    moreover have "body_at D2_message_ready (v2_received m) (take 0 (mdata m)) d'"
      using d' False assms(6,7) by (simp add: body_at_def)
    ultimately show ?thesis
      using False v2_at.body[of m 0 d' "length (v2_header m)"] by (simp add: steps_to_def)
  qed
qed

lemma v2_protocol_flags_bits:
  "v2_protocol_flags m AND more_flag \<noteq> 0 \<longleftrightarrow> has_more m"
  "v2_protocol_flags m AND large_flag \<noteq> 0 \<longleftrightarrow> length (mdata m) > 255"
  "v2_protocol_flags m AND command_flag \<noteq> 0 \<longleftrightarrow> has_command m"
  by (auto simp: v2_protocol_flags_def has_more_def has_command_def)

lemma v2_flags_step:
  assumes "tmp_at D2_flags_ready 1 [] d"
  shows "steps_to v2_at (length (v2_frame m)) m (v2_received m) 1
    (dec_next_loop rest (dec_absorb [v2_protocol_flags m] d))"
proof -
  from tmp_at_full[OF assms, of "[v2_protocol_flags m]"] obtain t where
    ab: "dec_absorb [v2_protocol_flags m] d = d\<lparr>tmpbuf := t, read_pos := In_tmpbuf 1, to_read := 0\<rparr>"
    and t: "length t = 8" "take 1 t = [v2_protocol_flags m]" by auto
  have t0: "t ! 0 = v2_protocol_flags m" using t by (cases t) simp_all
  let ?fl = "flags (v2_received m)"
  let ?d = "d\<lparr>tmpbuf := t, read_pos := In_tmpbuf 1, to_read := 0\<rparr>"
  let ?big = "length (mdata m) > 255"
  let ?d' = "dec_next_step (In_tmpbuf 0) (if ?big then 8 else 1)
    (if ?big then D2_eight_byte_size_ready else D2_one_byte_size_ready) (?d\<lparr>msg_flags := ?fl\<rparr>)"
  have "dec_run (d_next ?d) rest ?d = (?d', Rc_more)"
    using assms by (simp add: tmp_at_def d2_flags_ready_def Let_def t0 v2_protocol_flags_bits v2_received_def)
  then have "dec_next_loop rest ?d = (?d', Rc_more)"
    by (intro dec_next_loop_stop) (simp_all add: dec_next_step_def)
  moreover have "v2_at m 1 ?d'"
  proof (cases ?big)
    case True
    with t(1) v2_at.eight[of 0 m ?d'] show ?thesis by (simp add: tmp_at_start) (simp add: dec_next_step_def)
  next
    case False
    with t(1) v2_at.one[of ?d' m] show ?thesis by (simp add: tmp_at_start) (simp add: dec_next_step_def)
  qed
  ultimately show ?thesis by (simp add: ab steps_to_def length_v2_header)
qed

lemma v2_at_step:
  assumes "v2_at m k d" "dec_env_ok d" "dec_accepts m d" "length rest \<le> buf_len d"
  shows "steps_to v2_at (length (v2_frame m)) m (v2_received m) (k + to_read d)
    (dec_next_loop rest (dec_absorb (take (to_read d) (drop k (v2_frame m))) d))"
  using assms
proof (induction rule: v2_at.induct)
  case (flags d m)
  then show ?case using v2_flags_step[OF flags(1), of m rest] by (simp add: tmp_at_def v2_header_def Let_def)
next
  case (one d m)
  let ?n = "length (mdata m)" and ?bs = "[of_nat (length (mdata m)) :: byte]"
  from tmp_at_full[OF one(1), of ?bs] obtain t where
    ab: "dec_absorb ?bs d = d\<lparr>tmpbuf := t, read_pos := In_tmpbuf 1, to_read := 0\<rparr>"
    and t: "length t = 8" "take 1 t = ?bs" by auto
  let ?d = "d\<lparr>tmpbuf := t, read_pos := In_tmpbuf 1, to_read := 0\<rparr>"
  have "t ! 0 = of_nat ?n" using t by (cases t) simp_all
  moreover have "(ucast (of_nat ?n :: byte) :: 64 word) = of_nat ?n"
    using one(2) by (simp add: unsigned_of_nat take_bit_nat_eq_self)
  ultimately have "dec_run (d_next ?d) rest ?d = d2_size_ready (of_nat ?n) rest ?d"
    using one(1) by (simp add: tmp_at_def d2_one_byte_size_ready_def)
  from v2_size_step[OF this] one t(1) have "steps_to v2_at (length (v2_frame m)) m (v2_received m)
      (length (v2_header m)) (dec_next_loop rest ?d)"
    by (simp add: dec_env_ok_def dec_accepts_def)
  moreover have "take 1 (drop 1 (v2_frame m)) = ?bs" using one(2) by (simp add: v2_header_def Let_def)
  ultimately show ?case using ab one(1,2) by (simp add: tmp_at_def length_v2_header numeral_2_eq_2)
next
  case (eight j m d)
  let ?n = "length (mdata m)" and ?p = "put_uint64 (of_nat (length (mdata m)))"
  from tmp_at_full[OF eight(1), of "drop j ?p"] eight(3) obtain t where
    ab: "dec_absorb (drop j ?p) d = d\<lparr>tmpbuf := t, read_pos := In_tmpbuf 8, to_read := 0\<rparr>"
    and t: "length t = 8" "take 8 t = take j ?p @ drop j ?p" by auto
  let ?d = "d\<lparr>tmpbuf := t, read_pos := In_tmpbuf 8, to_read := 0\<rparr>"
  have "t = ?p" using t by simp
  then have "get_uint64 t = of_nat ?n" using get_put_uint64[of _ "[]"] by simp
  then have "dec_run (d_next ?d) rest ?d = d2_size_ready (of_nat ?n) rest ?d"
    using eight(1) by (simp add: tmp_at_def d2_eight_byte_size_ready_def)
  from v2_size_step[OF this] eight t(1) have "steps_to v2_at (length (v2_frame m)) m (v2_received m)
      (length (v2_header m)) (dec_next_loop rest ?d)"
    by (simp add: dec_env_ok_def dec_accepts_def)
  moreover have "take (8 - j) (drop (Suc j) (v2_frame m)) = drop j ?p"
    using eight(2,3) by (simp add: v2_header_def Let_def)
  ultimately show ?case using ab eight(1,2,3) by (simp add: tmp_at_def length_v2_header)
next
  case (body m j d k)
  have t: "to_read d = length (mdata m) - j" using body(1,2) by (simp add: body_at_def)
  have "take (length (mdata m) - j) (drop k (v2_frame m)) = drop j (mdata m)" using body(3) by simp
  moreover have "take j (mdata m) @ drop j (mdata m) = mdata (v2_received m)" by simp
  from body_at_full[OF body(1) this] have "dec_absorb (drop j (mdata m)) d =
    d\<lparr>d_msg := v2_received m, read_pos := In_msg (length (mdata (v2_received m))), to_read := 0\<rparr>" .
  ultimately show ?case
    using body t v2_message_step[of "d\<lparr>d_msg := v2_received m, read_pos := In_msg (length (mdata m)),
      to_read := 0\<rparr>" m rest] by (simp add: body_at_def)
qed

interpretation v2: codec v2_frame v2_received v2_at
proof (unfold_locales, goal_cases)
  case (1 m k d)
  then show ?case by (rule v2_at_room)
next
  case (2 m k d j)
  then show ?case by (rule v2_at_absorb)
next
  case (3 m k d rest)
  from v2_at_step[OF 3(1-4)] 3(5) show ?case
    by (simp add: steps_to_def) (metis prod.collapse)
next
  case (4 m k d rest)
  from v2_at_step[OF 4(1-4)] 4(5) show ?case
    by (simp add: steps_to_def) (metis prod.collapse)
next
  case (5 m k d a l r u)
  then show ?case by (induction rule: v2_at.induct) (auto intro: v2_at.intros v2_at.one[simplified])
next
  case (6 m d m')
  then show ?case by (simp add: v2_at_0 tmp_at_def)
qed

section \<open>Round trips\<close>

text \<open>
  The sending side of an engine: load a message into the encoder and call \<open>encode\<close> until the
  message is out, with the buffers \<open>bufs\<close>.
\<close>

fun send_all :: "nat option list \<Rightarrow> msg list \<Rightarrow> encoder \<Rightarrow> byte list option" where
  "send_all bufs [] e = Some []"
| "send_all bufs (m # ms) e = (case load_msg m e of
     None \<Rightarrow> None
   | Some e1 \<Rightarrow> (case drain bufs e1 of (e2, out) \<Rightarrow> map_option ((@) out) (send_all bufs ms e2)))"

lemma send_all_frames:
  assumes "enc_idle e" "buffers_ok e bufs" "\<forall>m\<in>set ms. length (enc_frame (e_next e) m) < length bufs"
  shows "send_all bufs ms e = Some (concat (map (enc_frame (e_next e)) ms))"
  using assms
proof (induction ms arbitrary: e)
  case (Cons m ms)
  obtain e1 where e1: "load_msg m e = Some e1" using Cons.prems(1) by (simp add: load_msg_def enc_idle_def)
  have "length (enc_frame (e_next e) m) < length bufs" using Cons.prems(3) by simp
  from drain_frame[OF Cons.prems(1) e1 Cons.prems(2) this] obtain e2 where
    e2: "drain bufs e1 = (e2, enc_frame (e_next e) m)" "enc_idle e2" "e_next e2 = e_next e" "bufsize e2 = bufsize e"
    by blast
  moreover have "buffers_ok e2 bufs" using buffers_ok_cong[OF e2(4)] Cons.prems(2) by simp
  ultimately show ?case using Cons.IH[of e2] Cons.prems(3) e1 by simp
qed simp

definition reads_ok :: "(64 word \<times> nat) list \<Rightarrow> bool" where
  "reads_ok reads \<longleftrightarrow> (\<forall>(fresh, n)\<in>set reads. unat fresh < 2 ^ 47 \<and> 0 < n \<and> n < 2 ^ 31)"

text \<open>
  Claim C4. ZMTP/2.x round trip: a sequence of data and command messages sent through a
  \<open>v2_encoder_t\<close> (with whatever output buffers) and received through a \<open>v2_decoder_t\<close> (with whatever
  sizes the reads return) arrives complete, in order, and with flags and bodies unchanged, and the
  decoder is ready for the next message.
\<close>

theorem v2_roundtrip:
  assumes "dec_env_ok (v2_decoder mx fails un addr len)"
    "\<forall>m\<in>set ms. kind m = Kdata \<and> flags m \<in> {0, flag_more, flag_command, flag_more OR flag_command} \<and>
       dec_accepts m (v2_decoder mx fails un addr len) \<and> length (v2_frame m) < length bufs"
    "buffers_ok (v2_encoder bsz) bufs" "reads_ok reads"
    "send_all bufs ms (v2_encoder bsz) = Some S" "length S \<le> length reads"
  shows "\<exists>d'. receive reads S (v2_decoder mx fails un addr len) = (d', [], ms, Rc_more) \<and> (\<forall>m. v2_at m 0 d')"
proof -
  have "e_next (v2_encoder bsz) = V2_message_ready"
    by (simp add: v2_encoder_def enc_next_step_def)
  then have S: "S = concat (map v2_frame ms)"
    using send_all_frames[OF encoders_idle(2) assms(3)] assms(2,5) by simp
  have "v2_received m = m" if "m \<in> set ms" for m
    using assms(2) that by (cases m) (auto simp: v2_received_def has_more_def has_command_def)
  then have ms: "map v2_received ms = ms" by (simp add: map_idI)
  have "\<forall>m. v2_at m 0 (v2_decoder mx fails un addr len)"
    unfolding v2_decoder_def by (intro allI v2_start) (simp add: decoder_base_def)
  from v2.receive_all[OF this assms(1), of ms reads] assms(2,4,6) show ?thesis
    unfolding S ms by (simp add: reads_ok_def)
qed

theorem v2_roundtrip_witness:
  "\<exists>S d'. send_all (replicate 20 None) [\<lparr>kind = Kdata, flags = 1, mdata = [1, 2, 3]\<rparr>, \<lparr>kind = Kdata, flags = 0, mdata = []\<rparr>]
      (v2_encoder 8192) = Some S \<and>
    receive (replicate 7 (0, 2)) S (v2_decoder (-1) (\<lambda>_. False) (\<lambda>_. 0) 4096 8192) =
      (d', [], [\<lparr>kind = Kdata, flags = 1, mdata = [1, 2, 3]\<rparr>, \<lparr>kind = Kdata, flags = 0, mdata = []\<rparr>], Rc_more)"
proof -
  let ?ms = "[\<lparr>kind = Kdata, flags = 1, mdata = [1, 2, 3]\<rparr>, \<lparr>kind = Kdata, flags = 0, mdata = []\<rparr>]"
  let ?d = "v2_decoder (-1) (\<lambda>_. False) (\<lambda>_. 0) 4096 8192"
  have b: "buffers_ok (v2_encoder 8192) (replicate 20 None)"
    by (simp add: buffers_ok_def v2_encoder_def enc_next_step_def encoder_base_def)
  have n: "e_next (v2_encoder 8192) = V2_message_ready" by (simp add: v2_encoder_def enc_next_step_def)
  have S: "send_all (replicate 20 None) ?ms (v2_encoder 8192) = Some (concat (map v2_frame ?ms))"
    using send_all_frames[OF encoders_idle(2) b, of ?ms] n by (simp add: length_v2_header)
  have d: "maxmsgsize ?d = -1" "alloc_fails ?d = (\<lambda>_. False)" "dec_env_ok ?d"
    by (simp_all add: v2_decoder_def decoder_base_def dec_next_step_def dec_env_ok_def)
  have "\<exists>d'. receive (replicate 7 (0, 2)) (concat (map v2_frame ?ms)) ?d = (d', [], ?ms, Rc_more) \<and> (\<forall>m. v2_at m 0 d')"
    by (rule v2_roundtrip[OF d(3) _ b _ S])
      (simp_all add: reads_ok_def d(1,2) dec_accepts_def length_v2_header)
  with S show ?thesis by blast
qed

text \<open>
  Claim C5. ZMTP/1.0 round trip: the same for \<open>v1_encoder_t\<close> and \<open>v1_decoder_t\<close>, whose only flag is
  \<open>more\<close>, with frames of both length formats.
\<close>

theorem v1_roundtrip:
  assumes "dec_env_ok (v1_decoder mx fails un addr len)"
    "\<forall>m\<in>set ms. kind m = Kdata \<and> flags m \<in> {0, flag_more} \<and>
       dec_accepts m (v1_decoder mx fails un addr len) \<and> length (v1_frame m) < length bufs"
    "buffers_ok (v1_encoder bsz) bufs" "reads_ok reads"
    "send_all bufs ms (v1_encoder bsz) = Some S" "length S \<le> length reads"
  shows "\<exists>d'. receive reads S (v1_decoder mx fails un addr len) = (d', [], ms, Rc_more) \<and> (\<forall>m. v1_at m 0 d')"
proof -
  have "e_next (v1_encoder bsz) = V1_message_ready"
    by (simp add: v1_encoder_def enc_next_step_def)
  then have S: "S = concat (map v1_frame ms)"
    using send_all_frames[OF encoders_idle(1) assms(3)] assms(2,5) by simp
  have "v1_received m = m" if "m \<in> set ms" for m
    using assms(2) that by (cases m) (auto simp: v1_received_def)
  then have ms: "map v1_received ms = ms" by (simp add: map_idI)
  have "\<forall>m. v1_at m 0 (v1_decoder mx fails un addr len)"
    unfolding v1_decoder_def by (intro allI v1_start) (simp add: decoder_base_def)
  from v1.receive_all[OF this assms(1), of ms reads] assms(2,4,6) show ?thesis
    unfolding S ms by (simp add: reads_ok_def)
qed

theorem v1_roundtrip_witness:
  "\<exists>S d'. send_all (replicate 300 None) [\<lparr>kind = Kdata, flags = 1, mdata = replicate 260 9\<rparr>, \<lparr>kind = Kdata, flags = 0, mdata = [5]\<rparr>]
      (v1_encoder 8192) = Some S \<and>
    receive (replicate 273 (0, 2)) S (v1_decoder 1000 (\<lambda>_. False) (\<lambda>_. 0) 4096 8192) =
      (d', [], [\<lparr>kind = Kdata, flags = 1, mdata = replicate 260 9\<rparr>, \<lparr>kind = Kdata, flags = 0, mdata = [5]\<rparr>], Rc_more)"
proof -
  let ?ms = "[\<lparr>kind = Kdata, flags = 1, mdata = replicate 260 9\<rparr>, \<lparr>kind = Kdata, flags = 0, mdata = [5]\<rparr>]"
  let ?d = "v1_decoder 1000 (\<lambda>_. False) (\<lambda>_. 0) 4096 8192"
  have b: "buffers_ok (v1_encoder 8192) (replicate 300 None)"
    by (simp add: buffers_ok_def v1_encoder_def enc_next_step_def encoder_base_def)
  have n: "e_next (v1_encoder 8192) = V1_message_ready" by (simp add: v1_encoder_def enc_next_step_def)
  have S: "send_all (replicate 300 None) ?ms (v1_encoder 8192) = Some (concat (map v1_frame ?ms))"
    using send_all_frames[OF encoders_idle(1) b, of ?ms] n by (simp add: length_v1_header)
  have d: "maxmsgsize ?d = 1000" "alloc_fails ?d = (\<lambda>_. False)" "dec_env_ok ?d"
    by (simp_all add: v1_decoder_def decoder_base_def dec_next_step_def dec_env_ok_def)
  have "\<exists>d'. receive (replicate 273 (0, 2)) (concat (map v1_frame ?ms)) ?d = (d', [], ?ms, Rc_more) \<and> (\<forall>m. v1_at m 0 d')"
    by (rule v1_roundtrip[OF d(3) _ b _ S])
      (simp_all add: reads_ok_def d(1,2) dec_accepts_def length_v1_header)
  with S show ?thesis by blast
qed

end
