(* ===== verification/Decoder_Safety.thy ===== *)
theory Decoder_Safety
  imports Zmtp
begin

text \<open>
  The decoders on arbitrary input: whatever bytes a peer sends and however they arrive, the
  decoders write inside of \<open>tmpbuf\<close> and of the message body only, deliver no message above
  \<open>maxmsgsize\<close>, and, when \<open>maxmsgsize\<close> is set, never lay a message over memory behind the
  reception buffer. Without the limit they do: the pointer arithmetic of \<open>size_ready\<close>
  wraps around.
\<close>

unbundle bit_operations_syntax

section \<open>Safety of the decoders on arbitrary input\<close>

text \<open>
  The destination of the next copy lies inside of \<open>tmpbuf\<close> or of the message body, and no message
  under construction is larger than \<open>maxmsgsize\<close>.
\<close>

definition dec_wf :: "decoder \<Rightarrow> bool" where
  "dec_wf d \<longleftrightarrow> length (tmpbuf d) = 8 \<and>
     (case read_pos d of In_tmpbuf off \<Rightarrow> off + to_read d \<le> 8
      | In_msg off \<Rightarrow> off + to_read d = length (mdata (d_msg d))) \<and>
     (0 \<le> maxmsgsize d \<longrightarrow> int (length (mdata (d_msg d))) \<le> maxmsgsize d)"

lemma decoders_wf: "dec_wf (v1_decoder mx fails un addr len)" "dec_wf (v2_decoder mx fails un addr len)"
  by (simp_all add: dec_wf_def v1_decoder_def v2_decoder_def decoder_base_def dec_next_step_def empty_msg_def)

lemma dec_absorb_wf: "dec_wf d \<Longrightarrow> length bs \<le> to_read d \<Longrightarrow> dec_wf (dec_absorb bs d)"
  by (auto simp: dec_wf_def dec_absorb_def split: rpos.splits)

text \<open>Every action but \<open>message_ready\<close> runs when a field of \<open>tmpbuf\<close> is complete.\<close>

fun reads_tmpbuf :: "dec_step \<Rightarrow> bool" where
  "reads_tmpbuf D1_message_ready = False"
| "reads_tmpbuf D2_message_ready = False"
| "reads_tmpbuf st = True"

definition dec_inv :: "decoder \<Rightarrow> bool" where
  "dec_inv d \<longleftrightarrow> dec_wf d \<and> (case read_pos d of In_tmpbuf off \<Rightarrow> reads_tmpbuf (d_next d)
     | In_msg off \<Rightarrow> \<not> reads_tmpbuf (d_next d))"

lemma dec_inv_next_tmp:
  "dec_wf d \<Longrightarrow> n \<le> 8 \<Longrightarrow> reads_tmpbuf st \<Longrightarrow> dec_inv (dec_next_step (In_tmpbuf 0) n st d)"
  by (simp add: dec_inv_def dec_wf_def dec_next_step_def)

lemma dec_inv_next_msg:
  "dec_wf d \<Longrightarrow> \<not> reads_tmpbuf st \<Longrightarrow> n = length (mdata (d_msg d)) \<Longrightarrow>
    dec_inv (dec_next_step (In_msg 0) n st d)"
  by (simp add: dec_inv_def dec_wf_def dec_next_step_def)

lemma dec_wf_msg:
  assumes "dec_inv d" "reads_tmpbuf (d_next d)" "0 \<le> maxmsgsize d \<longrightarrow> int (length (mdata m)) \<le> maxmsgsize d"
  shows "dec_wf (d\<lparr>d_msg := m\<rparr>)"
  using assms by (auto simp: dec_inv_def dec_wf_def split: rpos.splits)

lemma dec_init_size_wf:
  assumes "dec_init_size n d = (d', ok)" "dec_inv d" "reads_tmpbuf (d_next d)"
    "0 \<le> maxmsgsize d \<longrightarrow> int n \<le> maxmsgsize d"
  shows "dec_inv d'" "dec_wf d'"
proof -
  have "dec_wf d'"
  proof (cases "n > max_vsm_size \<and> alloc_fails d n")
    case True
    then have "d' = d\<lparr>d_msg := empty_msg\<rparr>" using assms(1) by (simp add: dec_init_size_def)
    then show ?thesis using dec_wf_msg[OF assms(2,3), of empty_msg] by (simp add: empty_msg_def)
  next
    case False
    let ?m = "\<lparr>kind = Kdata, flags = 0, mdata = map (uninit d) [0..<n]\<rparr>"
    have "d' = d\<lparr>d_msg := ?m\<rparr>" using False assms(1) unfolding dec_init_size_def by (simp split: if_splits)
    then show ?thesis using dec_wf_msg[OF assms(2,3), of ?m] assms(4) by simp
  qed
  moreover have "read_pos d' = read_pos d" "d_next d' = d_next d"
    using assms(1) by (auto simp: dec_init_size_def split: if_splits)
  ultimately show "dec_wf d'" "dec_inv d'" using assms(2) by (simp_all add: dec_inv_def split: rpos.splits)
qed

lemma dec_wf_flags: "dec_wf (d\<lparr>d_msg := (d_msg d)\<lparr>flags := f\<rparr>\<rparr>) = dec_wf d"
  by (simp add: dec_wf_def split: rpos.split)

lemma dec_wf_refs [simp]: "dec_wf (d\<lparr>zc_used := u, buf_refs := r\<rparr>) = dec_wf d"
  by (simp add: dec_wf_def split: rpos.split)

lemma dec_wf_msg_flags [simp]: "dec_wf (d\<lparr>msg_flags := f\<rparr>) = dec_wf d"
  by (simp add: dec_wf_def split: rpos.split)

lemma d2_size_ready_inv:
  assumes "dec_inv d" "reads_tmpbuf (d_next d)" "d2_size_ready sz rest d = (d', rc)"
  shows "dec_inv d' \<and> (dec_env_ok d \<longrightarrow> length rest \<le> buf_len d \<longrightarrow>
    0 \<le> maxmsgsize d \<longrightarrow> maxmsgsize d < 2 ^ 63 \<longrightarrow> rc \<noteq> Rc_overrun)"
proof -
  let ?fin = "\<lambda>d'. dec_next_step (In_msg 0) (length (mdata (d_msg d'))) D2_message_ready
    (d'\<lparr>d_msg := (d_msg d')\<lparr>flags := flags (d_msg d') OR msg_flags d'\<rparr>\<rparr>)"
  have fin: "dec_inv (?fin d')" if "dec_wf d'" for d'
    using that by (intro dec_inv_next_msg) (simp_all add: dec_wf_flags)
  let ?over = "buf_addr d + of_nat (buf_len d - length rest) + sz > buf_addr d + of_nat (buf_len d)"
  consider "0 \<le> maxmsgsize d \<and> uint sz > maxmsgsize d"
    | (copy) "\<not> (0 \<le> maxmsgsize d \<and> uint sz > maxmsgsize d)" ?over
    | (zero) "\<not> (0 \<le> maxmsgsize d \<and> uint sz > maxmsgsize d)" "\<not> ?over"
    by blast
  then show ?thesis
  proof cases
    case 1
    with assms show ?thesis by (auto simp: d2_size_ready_def Let_def)
  next
    case copy
    then have le: "0 \<le> maxmsgsize d \<longrightarrow> int (unat sz) \<le> maxmsgsize d" by auto
    obtain d1 ok where init: "dec_init_size (unat sz) d = (d1, ok)" by fastforce
    have "(d', rc) = (if ok then (?fin d1, Rc_more) else (d1, Rc_err ENOMEM))"
      using assms(3) copy by (cases ok) (simp_all add: d2_size_ready_def Let_def init)
    with dec_init_size_wf[OF init assms(1,2) le] fin[of d1] show ?thesis by (cases ok) simp_all
  next
    case zero
    then have le: "0 \<le> maxmsgsize d \<longrightarrow> int (unat sz) \<le> maxmsgsize d" by auto
    show ?thesis
    proof (cases "length rest < unat sz")
      case True
      have "sz = of_nat (unat sz)" by simp
      moreover have "unat sz < 2 ^ 63" if "0 \<le> maxmsgsize d" "maxmsgsize d < 2 ^ 63"
        using mp[OF le that(1)] that(2) by (subst of_nat_less_iff[where 'a = int, symmetric]) simp
      ultimately have "\<not> (dec_env_ok d \<and> length rest \<le> buf_len d \<and> 0 \<le> maxmsgsize d \<and> maxmsgsize d < 2 ^ 63)"
        using zero(2) True size_ready_test[of "buf_addr d" "buf_len d" "length rest" "unat sz"]
        unfolding dec_env_ok_def by (metis (no_types))
      moreover have "d' = d" using assms(3) zero True by (auto simp: d2_size_ready_def Let_def)
      ultimately show ?thesis using assms(1) by blast
    next
      case False
      let ?d1 = "d\<lparr>d_msg := \<lparr>kind = Kdata, flags = 0, mdata = take (unat sz) rest\<rparr>\<rparr>"
      let ?d2 = "if unat sz < max_vsm_size then ?d1
        else ?d1\<lparr>zc_used := zc_used ?d1 + 1, buf_refs := buf_refs ?d1 + 1\<rparr>"
      have "d' = ?fin ?d2 \<and> rc = Rc_more" using assms(3) zero False by (auto simp: d2_size_ready_def Let_def)
      moreover have "dec_wf ?d1" using dec_wf_msg[OF assms(1,2)] le False by simp
      then have "dec_wf ?d2" by simp
      ultimately show ?thesis using fin[of ?d2] by simp
    qed
  qed
qed

definition dec_bounded :: "decoder \<Rightarrow> bool" where
  "dec_bounded d \<longleftrightarrow> dec_env_ok d \<and> 0 \<le> maxmsgsize d \<and> maxmsgsize d < 2 ^ 63"

lemma dec_bounded_cong: "dec_env d = dec_env d' \<Longrightarrow> dec_bounded d = dec_bounded d'"
  by (simp add: dec_bounded_def dec_env_def dec_env_ok_def)

lemma dec_run_inv:
  assumes "dec_inv d" "to_read d = 0" "dec_run (d_next d) rest d = (d', rc)"
  shows "dec_inv d' \<and> (dec_bounded d \<longrightarrow> length rest \<le> buf_len d \<longrightarrow> rc \<noteq> Rc_overrun)"
proof -
  have wf: "dec_wf d" using assms(1) by (simp add: dec_inv_def)
  show ?thesis
  proof (cases "d_next d")
    case D1_one_byte_size_ready
    let ?n = "unat (tmpbuf d ! 0) - 1" and ?b = "tmpbuf d ! 0"
    obtain d1 ok where init: "dec_init_size ?n d = (d1, ok)" by fastforce
    have n: "int ?n = uint ?b - 1" if "?b \<noteq> 0"
      using that by (simp add: unat_gt_0 of_nat_diff Suc_leI)
    consider "?b = 0xff" | "?b = 0" | "?b \<noteq> 0" "0 \<le> maxmsgsize d" "uint ?b - 1 > maxmsgsize d" "?b \<noteq> 0xff"
      | (ok) "?b \<noteq> 0" "?b \<noteq> 0xff" "0 \<le> maxmsgsize d \<longrightarrow> uint ?b - 1 \<le> maxmsgsize d" by force
    then show ?thesis
    proof cases
      case ok
      have "(d', rc) = (if ok then (dec_next_step (In_tmpbuf 0) 1 D1_flags_ready d1, Rc_more) else (d1, Rc_err ENOMEM))"
        using ok assms(3) D1_one_byte_size_ready
        by (cases ok) (auto simp: d1_one_byte_size_ready_def Let_def init[simplified])
      moreover have "0 \<le> maxmsgsize d \<longrightarrow> int ?n \<le> maxmsgsize d" using ok(3) by (simp only: n[OF ok(1)])
      then have "dec_inv d1" "dec_wf d1"
        using dec_init_size_wf[OF init assms(1)] by (simp_all add: D1_one_byte_size_ready)
      ultimately show ?thesis by (cases ok) (simp_all add: dec_inv_next_tmp)
    qed (use assms wf D1_one_byte_size_ready in
        \<open>auto simp: d1_one_byte_size_ready_def Let_def dec_inv_next_tmp\<close>)
  next
    case D1_eight_byte_size_ready
    let ?w = "get_uint64 (tmpbuf d)"
    let ?n = "unat (?w - 1)"
    obtain d1 ok where init: "dec_init_size ?n d = (d1, ok)" by fastforce
    have n: "int ?n = uint (?w - 1)" by simp
    have fits: "\<not> ?n > 2 ^ 64 - 1" using unsigned_less[of "?w - 1", where 'a = nat] by simp
    consider "?w = 0" | "?w \<noteq> 0" "0 \<le> maxmsgsize d" "uint (?w - 1) > maxmsgsize d"
      | (ok) "?w \<noteq> 0" "0 \<le> maxmsgsize d \<longrightarrow> uint (?w - 1) \<le> maxmsgsize d" by force
    then show ?thesis
    proof cases
      case ok
      have "(d', rc) = (if ok then (dec_next_step (In_tmpbuf 0) 1 D1_flags_ready d1, Rc_more) else (d1, Rc_err ENOMEM))"
        using ok assms(3) D1_eight_byte_size_ready fits
        by (cases ok) (auto simp: d1_eight_byte_size_ready_def Let_def init)
      moreover have "0 \<le> maxmsgsize d \<longrightarrow> int ?n \<le> maxmsgsize d" using ok(2) by (simp only: n)
      then have "dec_inv d1" "dec_wf d1"
        using dec_init_size_wf[OF init assms(1)] by (simp_all add: D1_eight_byte_size_ready)
      ultimately show ?thesis by (cases ok) (simp_all add: dec_inv_next_tmp)
    qed (use assms D1_eight_byte_size_ready in \<open>auto simp: d1_eight_byte_size_ready_def Let_def\<close>)
  next
    case D1_flags_ready
    with assms wf show ?thesis
      by (auto simp: d1_flags_ready_def Let_def dec_wf_flags intro!: dec_inv_next_msg)
  next
    case D2_one_byte_size_ready
    with assms d2_size_ready_inv[OF assms(1)] show ?thesis
      by (simp add: d2_one_byte_size_ready_def dec_bounded_def)
  next
    case D2_eight_byte_size_ready
    with assms d2_size_ready_inv[OF assms(1)] show ?thesis
      by (simp add: d2_eight_byte_size_ready_def dec_bounded_def)
  next
    case D2_flags_ready
    with wf assms(3) show ?thesis
      by (auto simp: d2_flags_ready_def Let_def dec_inv_next_tmp)
  qed (use assms wf in \<open>auto simp: d1_message_ready_def d2_message_ready_def dec_inv_next_tmp\<close>)
qed

lemma dec_next_loop_inv:
  "dec_inv d \<Longrightarrow> dec_next_loop rest d = (d', rc) \<Longrightarrow>
    dec_inv d' \<and> (dec_bounded d \<longrightarrow> length rest \<le> buf_len d \<longrightarrow> rc \<noteq> Rc_overrun)"
proof (induction rest d rule: dec_next_loop.induct)
  case (1 rest d)
  obtain d1 rc1 where run: "dec_run (d_next d) rest d = (d1, rc1)" by fastforce
  show ?case
  proof (cases "to_read d = 0")
    case True
    note inv = dec_run_inv[OF 1(2) True run] and env = dec_run_env[OF run]
    show ?thesis
    proof (cases "rc1 = Rc_more")
      case more: True
      with 1(1)[OF _ run[symmetric] more] 1(3) True inv dec_bounded_cong[OF env] dec_env_eqD(3)[OF env]
      show ?thesis by (simp add: dec_next_loop_simps(2)[OF True run])
    qed (use 1(3) inv dec_next_loop_simps(2)[OF True run] in auto)
  qed (use 1(2,3) in \<open>auto simp: dec_next_loop_simps\<close>)
qed

lemma dec_inv_absorb: "dec_inv d \<Longrightarrow> length bs \<le> to_read d \<Longrightarrow> dec_inv (dec_absorb bs d)"
  using dec_absorb_wf[of d bs] by (auto simp: dec_inv_def dec_absorb_def split: rpos.splits)

lemma decode_loop_inv:
  "dec_inv d \<Longrightarrow> decode_loop [] data used d = (d', used', rc) \<Longrightarrow>
    dec_inv d' \<and> dec_env d' = dec_env d \<and>
    (dec_bounded d \<longrightarrow> length data \<le> buf_len d \<longrightarrow> rc \<noteq> Rc_overrun)"
proof (induction "[] :: byte list" data used d rule: decode_loop.induct)
  case (1 data used d)
  show ?case
  proof (cases "data = []")
    case False
    define k where "k = min (to_read d) (length data)"
    obtain d2 rc2 where nl: "dec_next_loop (drop k data @ []) (dec_absorb (take k data) d) = (d2, rc2)"
      by fastforce
    note step = decode_loop_step[OF False k_def nl, of used]
    have env: "dec_env d2 = dec_env d" using dec_next_loop_env[OF nl] by simp
    note inv = dec_next_loop_inv[OF dec_inv_absorb[OF 1(2)] nl]
    have i2: "dec_inv d2" "dec_bounded d \<longrightarrow> length data \<le> buf_len d \<longrightarrow> rc2 \<noteq> Rc_overrun"
      using inv dec_bounded_cong[of "dec_absorb (take k data) d" d]
        dec_env_eqD(3)[of "dec_absorb (take k data) d" d] by (auto simp: k_def)
    show ?thesis
    proof (cases "rc2 = Rc_more")
      case True
      with 1(1)[OF False k_def refl nl[symmetric] True i2(1)] 1(3) step env
        dec_bounded_cong[OF env] dec_env_eqD(3)[OF env] show ?thesis by auto
    qed (use 1(3) i2 step env in auto)
  qed (use 1 in auto)
qed

lemma dec_run_done_tmp: "dec_run st rest d = (d', Rc_done) \<Longrightarrow> read_pos d' = In_tmpbuf 0"
  by (cases st) (auto simp: dec_action_defs split: if_splits prod.splits)

lemma dec_next_loop_done_tmp: "dec_next_loop rest d = (d', Rc_done) \<Longrightarrow> read_pos d' = In_tmpbuf 0"
proof (induction rest d rule: dec_next_loop.induct)
  case (1 rest d)
  obtain d1 rc where run: "dec_run (d_next d) rest d = (d1, rc)" by fastforce
  show ?case
    using 1(1)[OF _ run[symmetric]] 1(2) run dec_run_done_tmp
    by (cases "to_read d = 0"; cases rc) (auto simp: dec_next_loop_simps)
qed

lemma decode_loop_done_tmp: "decode_loop slack data used d = (d', used', Rc_done) \<Longrightarrow> read_pos d' = In_tmpbuf 0"
proof (induction slack data used d rule: decode_loop.induct)
  case (1 slack data used d)
  show ?case
  proof (cases "data = []")
    case False
    define k where "k = min (to_read d) (length data)"
    obtain d2 rc2 where nl: "dec_next_loop (drop k data @ slack) (dec_absorb (take k data) d) = (d2, rc2)"
      by fastforce
    note step = decode_loop_step[OF False k_def nl, of used]
    show ?thesis
      using 1(1)[OF False k_def refl nl[symmetric]] 1(2) step nl dec_next_loop_done_tmp
      by (cases "rc2 = Rc_more") auto
  qed (use 1 in simp)
qed

lemma dec_inv_taken: "dec_inv d \<Longrightarrow> read_pos d = In_tmpbuf off \<Longrightarrow> dec_inv (d\<lparr>d_msg := empty_msg\<rparr>)"
  by (simp add: dec_inv_def dec_wf_def empty_msg_def)

text \<open>Messages within the limit.\<close>

abbreviation within :: "int \<Rightarrow> msg \<Rightarrow> bool" where
  "within mx m \<equiv> 0 \<le> mx \<longrightarrow> int (length (mdata m)) \<le> mx"

lemma dec_inv_within: "dec_inv d \<Longrightarrow> within (maxmsgsize d) (d_msg d)"
  by (simp add: dec_inv_def dec_wf_def)

lemma process_input_inv:
  "dec_inv d \<Longrightarrow> process_input [] data d = (d', ms, rc) \<Longrightarrow>
    dec_inv d' \<and> dec_env d' = dec_env d \<and> (\<forall>m\<in>set ms. within (maxmsgsize d) m) \<and>
    (dec_bounded d \<longrightarrow> length data \<le> buf_len d \<longrightarrow> rc \<noteq> Rc_overrun)"
proof (induction "[] :: byte list" data d arbitrary: d' ms rc rule: process_input.induct)
  case (1 data d)
  show ?case
  proof (cases "data = []")
    case False
    obtain d1 used rc1 where dl: "decode_loop [] data 0 d = (d1, used, rc1)" by (metis prod_cases3)
    note inv = decode_loop_inv[OF 1(2) dl]
    show ?thesis
    proof (cases "rc1 = Rc_done")
      case True
      let ?d1 = "d1\<lparr>d_msg := empty_msg\<rparr>"
      obtain d2 ms2 rc2 where pi: "process_input [] (drop used data) ?d1 = (d2, ms2, rc2)"
        by (metis prod_cases3)
      have res: "d' = d2" "ms = d_msg d1 # ms2" "rc = rc2"
        using 1(3) False dl True pi by (auto simp: process_input.simps[of "[]" data])
      have inv1: "dec_inv ?d1"
        using inv decode_loop_done_tmp[of "[]" data 0 d d1 used] dl True by (auto intro: dec_inv_taken)
      have env: "dec_env ?d1 = dec_env d" and mx: "maxmsgsize d1 = maxmsgsize d"
        using inv by (simp_all add: dec_env_def)
      have ih: "dec_inv d2 \<and> dec_env d2 = dec_env ?d1 \<and> (\<forall>m\<in>set ms2. within (maxmsgsize ?d1) m) \<and>
          (dec_bounded ?d1 \<longrightarrow> length (drop used data) \<le> buf_len ?d1 \<longrightarrow> rc2 \<noteq> Rc_overrun)"
        using 1(1)[OF False dl[symmetric] refl True inv1 pi] .
      moreover have "within (maxmsgsize d) (d_msg d1)" using dec_inv_within[of d1] inv mx by simp
      ultimately show ?thesis
        using res env mx dec_bounded_cong[OF env] dec_env_eqD(3)[OF env] by auto
    qed (use 1(3) False dl inv in \<open>auto simp: process_input.simps[of "[]" data] split: dec_rc.splits\<close>)
  qed (use 1 in \<open>auto simp: process_input.simps\<close>)
qed

lemma decode_loop_to_read:
  "decode_loop slack data used d = (d', used', Rc_more) \<Longrightarrow> 0 < to_read d \<Longrightarrow> 0 < to_read d'"
proof (induction slack data used d rule: decode_loop.induct)
  case (1 slack data used d)
  show ?case
  proof (cases "data = []")
    case False
    define k where "k = min (to_read d) (length data)"
    obtain d2 rc2 where nl: "dec_next_loop (drop k data @ slack) (dec_absorb (take k data) d) = (d2, rc2)"
      by fastforce
    show ?thesis
      using 1(1)[OF False k_def refl nl[symmetric]] 1(2) decode_loop_step[OF False k_def nl, of used]
        dec_next_loop_more nl by (cases "rc2 = Rc_more") auto
  qed (use 1 in simp)
qed

lemma process_input_to_read:
  "process_input slack data d = (d', ms, Rc_more) \<Longrightarrow> 0 < to_read d \<Longrightarrow> 0 < to_read d'"
proof (induction slack data d arbitrary: d' ms rule: process_input.induct)
  case (1 slack data d)
  show ?case
  proof (cases "data = []")
    case False
    obtain d1 used rc1 where dl: "decode_loop slack data 0 d = (d1, used, rc1)" by (metis prod_cases3)
    show ?thesis
    proof (cases "rc1 = Rc_done")
      case True
      obtain d2 ms2 rc2 where pi:
        "process_input slack (drop used data) (d1\<lparr>d_msg := empty_msg\<rparr>) = (d2, ms2, rc2)"
        by (metis prod_cases3)
      have "d' = d2" "rc2 = Rc_more"
        using 1(2) False dl True pi by (auto simp: process_input.simps[of slack data])
      moreover have "0 < to_read d1" using decode_loop_used[of slack data 0 d d1 used] dl True by simp
      ultimately show ?thesis using 1(1)[OF False dl[symmetric] refl True, of d2 ms2] pi by simp
    next
      case other: False
      with 1(2) False dl have "d' = d1" "rc1 = Rc_more"
        by (auto simp: process_input.simps[of slack data] split: dec_rc.splits)
      with decode_loop_to_read[of slack data 0 d d1 used] dl 1(3) show ?thesis by simp
    qed
  qed (use 1 in \<open>auto simp: process_input.simps\<close>)
qed

text \<open>A decoder between two calls of \<open>in_event\<close>.\<close>

definition dec_good :: "decoder \<Rightarrow> bool" where
  "dec_good d \<longleftrightarrow> dec_inv d \<and> dec_env_ok d \<and> 0 < to_read d"

lemma dec_inv_buffer [simp]:
  "dec_inv (d\<lparr>buf_addr := a, buf_len := l, buf_refs := r, zc_used := u\<rparr>) = dec_inv d"
  by (simp add: dec_inv_def dec_wf_def split: rpos.split)

lemma in_event_inv:
  assumes "dec_good d" "unat fresh < 2 ^ 47" "n < 2 ^ 31" "in_event fresh n S d = (d', S', ms, rc)"
  shows "dec_inv d' \<and> maxmsgsize d' = maxmsgsize d \<and> (\<forall>m\<in>set ms. within (maxmsgsize d) m) \<and>
    (rc = Rc_more \<longrightarrow> dec_good d') \<and>
    (0 \<le> maxmsgsize d \<and> maxmsgsize d < 2 ^ 63 \<longrightarrow> rc \<noteq> Rc_overrun)"
proof -
  have g: "dec_inv d" "dec_env_ok d" "0 < to_read d" using assms(1) by (simp_all add: dec_good_def)
  obtain d1 in_place avail where gb: "get_buffer fresh d = (d1, in_place, avail)" by (metis prod_cases3)
  from get_buffer_props[OF gb g(2) assms(2) g(3)] obtain a l r u where
    d1: "d1 = d\<lparr>buf_addr := a, buf_len := l, buf_refs := r, zc_used := u\<rparr>" "unat a < 2 ^ 47" "0 < l"
      "l \<le> 2 ^ 47" "dec_env_ok d1" "0 < avail" "avail = (if in_place then to_read d else l)" .
  define data where "data = take (min n avail) S"
  define d2 where "d2 = resize_buffer (length data) d1"
  have d2: "d2 = d\<lparr>buf_addr := a, buf_len := length data, buf_refs := r, zc_used := u\<rparr>"
    by (simp add: d2_def resize_buffer_def d1(1))
  note ev = assms(4)[unfolded in_event_def gb prod.case Let_def, folded data_def, folded d2_def]
  have inv2: "dec_inv d2" "maxmsgsize d2 = maxmsgsize d" "to_read d2 = to_read d" using g(1) by (simp_all add: d2)
  show ?thesis
  proof (cases "data = []")
    case True
    with ev have "d' = d1" "ms = []" "rc = Rc_more" by simp_all
    with d1(1,5) g show ?thesis by (simp add: dec_good_def)
  next
    case False
    have len: "length data \<le> avail" "length data \<le> n" by (simp_all add: data_def)
    have env2: "dec_env_ok d2" using d1(2) False g(2) assms(3) len(2) by (simp add: d2 dec_env_ok_def)
    show ?thesis
    proof (cases in_place)
      case ip: False
      obtain d3 ms3 rc3 where pi: "process_input [] data d2 = (d3, ms3, rc3)" by (metis prod_cases3)
      have res: "d' = d3" "ms = ms3" "rc = rc3" using ev False ip pi by simp_all
      note inv = process_input_inv[OF inv2(1) pi]
      have "maxmsgsize d3 = maxmsgsize d" "dec_env_ok d3"
        using inv inv2(2) dec_env_eqD(1)[of d3 d2] env2 by (simp_all add: dec_env_def)
      with res inv inv2 env2 process_input_to_read[of "[]" data d2 d3 ms3] pi g(3) show ?thesis
        by (auto simp: dec_good_def dec_bounded_def d2)
    next
      case True
      then have le: "length data \<le> to_read d2" using len(1) d1(7) inv2(3) by simp
      obtain d3 rc3 where nl: "dec_next_loop [] (dec_absorb data d2) = (d3, rc3)" by fastforce
      have env: "dec_env d3 = dec_env d2" using dec_next_loop_env[OF nl] by simp
      have ok3: "dec_env_ok d3" "maxmsgsize d3 = maxmsgsize d" using dec_env_eqD(1)[OF env] env2 env inv2(2)
        by (simp_all add: dec_env_def)
      note inv = dec_next_loop_inv[OF dec_inv_absorb[OF inv2(1) le] nl]
      have b: "dec_bounded (dec_absorb data d2) = dec_bounded d2" by (rule dec_bounded_cong) simp
      have dec: "decode True [] data d2 = Some (d3, length data, rc3)" using le nl by (simp add: decode_def)
      have over: "0 \<le> maxmsgsize d \<and> maxmsgsize d < 2 ^ 63 \<longrightarrow> rc3 \<noteq> Rc_overrun"
        using inv b env2 inv2(2) by (simp add: dec_bounded_def)
      show ?thesis
      proof (cases "rc3 = Rc_done")
        case d: True
        have "dec_inv (d3\<lparr>d_msg := empty_msg\<rparr>)" "0 < to_read d3"
          using inv dec_next_loop_done_tmp[of "[]"] dec_next_loop_done[of "[]"] nl d by (auto intro: dec_inv_taken)
        moreover have "within (maxmsgsize d) (d_msg d3)" using dec_inv_within[of d3] inv ok3(2) by simp
        moreover have "d' = d3\<lparr>d_msg := empty_msg\<rparr>" "ms = [d_msg d3]" "rc = Rc_more"
          using ev False True dec d by simp_all
        moreover have "dec_env_ok (d3\<lparr>d_msg := empty_msg\<rparr>)" using ok3(1) by (simp add: dec_env_ok_def)
        ultimately show ?thesis using ok3(2) by (simp add: dec_good_def)
      next
        case nd: False
        then have "d' = d3" "ms = []" "rc = rc3"
          using ev False True dec by (auto split: dec_rc.splits)
        moreover have "rc3 = Rc_more \<longrightarrow> 0 < to_read d3"
          using nl by (auto dest: dec_next_loop_more)
        ultimately show ?thesis using inv ok3 over by (simp add: dec_good_def)
      qed
    qed
  qed
qed

lemma receive_inv:
  assumes "dec_good d" "\<forall>(fresh, n)\<in>set reads. unat fresh < 2 ^ 47 \<and> n < 2 ^ 31"
    "receive reads S d = (d', S', ms, rc)"
  shows "dec_inv d' \<and> (\<forall>m\<in>set ms. within (maxmsgsize d) m) \<and>
    (0 \<le> maxmsgsize d \<and> maxmsgsize d < 2 ^ 63 \<longrightarrow> rc \<noteq> Rc_overrun)"
  using assms
proof (induction reads arbitrary: d S d' S' ms rc)
  case Nil
  then show ?case by (auto simp: dec_good_def)
next
  case (Cons rd reads)
  obtain fresh n where rd: "rd = (fresh, n)" by fastforce
  obtain d1 S1 ms1 rc1 where ev: "in_event fresh n S d = (d1, S1, ms1, rc1)" by (metis prod_cases4)
  have "unat fresh < 2 ^ 47" "n < 2 ^ 31" using Cons.prems(2) rd by simp_all
  note inv = in_event_inv[OF Cons.prems(1) this ev]
  show ?case
  proof (cases "rc1 = Rc_more")
    case True
    obtain d2 S2 ms2 rc2 where rec: "receive reads S1 d1 = (d2, S2, ms2, rc2)" by (metis prod_cases4)
    have "d' = d2" "ms = ms1 @ ms2" "rc = rc2" using Cons.prems(3) rd ev True rec by simp_all
    with Cons.IH[OF _ _ rec] inv True Cons.prems(2) show ?thesis by auto
  next
    case False
    then have "d' = d1" "ms = ms1" "rc = rc1" using Cons.prems(3) rd ev by simp_all
    with inv show ?thesis by simp
  qed
qed

section \<open>Properties\<close>

lemma v2_decoder_good:
  "unat addr < 2 ^ 47 \<Longrightarrow> 8 < len \<Longrightarrow> len \<le> 2 ^ 47 \<Longrightarrow> dec_good (v2_decoder mx fails un addr len)"
  using decoders_wf(2)[of mx fails un addr len]
  by (simp add: dec_good_def dec_inv_def dec_env_ok_def v2_decoder_def decoder_base_def dec_next_step_def)

lemma v1_decoder_good:
  "unat addr < 2 ^ 47 \<Longrightarrow> 0 < len \<Longrightarrow> len \<le> 2 ^ 47 \<Longrightarrow> dec_good (v1_decoder mx fails un addr len)"
  using decoders_wf(1)[of mx fails un addr len]
  by (simp add: dec_good_def dec_inv_def dec_env_ok_def v1_decoder_def decoder_base_def dec_next_step_def)

text \<open>
  Claim C6. With a limit on the message size, a ZMTP/2.x decoder is safe on every byte stream: the
  destination of its next copy stays inside of its buffers (\<open>dec_wf\<close>), every message it delivers
  respects the limit, and no message is laid over memory outside of the reception buffer.
\<close>

theorem v2_decoder_safe:
  assumes "unat addr < 2 ^ 47" "8 < len" "len \<le> 2 ^ 47" "0 \<le> mx" "mx < 2 ^ 63"
    "\<forall>(fresh, n)\<in>set reads. unat fresh < 2 ^ 47 \<and> n < 2 ^ 31"
    "receive reads S (v2_decoder mx fails un addr len) = (d', S', ms, rc)"
  shows "dec_wf d' \<and> (\<forall>m\<in>set ms. int (length (mdata m)) \<le> mx) \<and> rc \<noteq> Rc_overrun"
proof -
  have "maxmsgsize (v2_decoder mx fails un addr len) = mx"
    by (simp add: v2_decoder_def decoder_base_def dec_next_step_def)
  with receive_inv[OF v2_decoder_good assms(6,7)] assms(1-5) show ?thesis
    by (auto simp: dec_inv_def)
qed

theorem v2_decoder_safe_witness:
  "\<exists>d' S' ms rc. receive [(0, 5)] [0, 2, 7, 8, 9] (v2_decoder 100 (\<lambda>_. False) (\<lambda>_. 0) 4096 8192) = (d', S', ms, rc) \<and>
    dec_wf d' \<and> (\<forall>m\<in>set ms. int (length (mdata m)) \<le> 100) \<and> rc \<noteq> Rc_overrun"
proof -
  obtain d' S' ms rc where r:
    "receive [(0, 5)] [0, 2, 7, 8, 9] (v2_decoder 100 (\<lambda>_. False) (\<lambda>_. 0) 4096 8192) = (d', S', ms, rc)"
    by (metis prod_cases4)
  show ?thesis using v2_decoder_safe[OF _ _ _ _ _ _ r] r by auto
qed

text \<open>The header of a large frame, decoded at once.\<close>

lemma v2_large_header:
  assumes "tmp_at D2_flags_ready 1 [] d" "f AND large_flag \<noteq> 0"
  obtains d' where "dec_env d' = dec_env d"
    "\<And>rc d''. d2_size_ready sz (tail @ []) d' = (d'', rc) \<Longrightarrow> rc \<noteq> Rc_more \<Longrightarrow>
       decode_loop [] (f # put_uint64 sz @ tail) 0 d = (d'', 9, rc)"
proof -
  from tmp_at_full[OF assms(1), of "[f]"] obtain t where
    ab: "dec_absorb [f] d = d\<lparr>tmpbuf := t, read_pos := In_tmpbuf 1, to_read := 0\<rparr>"
    and t: "length t = 8" "take 1 t = [f]" by auto
  have t0: "t ! 0 = f" using t by (cases t) simp_all
  let ?fl = "(if f AND more_flag \<noteq> 0 then flag_more else 0) OR (if f AND command_flag \<noteq> 0 then flag_command else 0)"
  define d3 where "d3 = dec_next_step (In_tmpbuf 0) 8 D2_eight_byte_size_ready
    (d\<lparr>tmpbuf := t, read_pos := In_tmpbuf 1, to_read := 0, msg_flags := ?fl\<rparr>)"
  have one: "to_read d = 1" "d_next d = D2_flags_ready" using assms(1) by (simp_all add: tmp_at_def)
  have "dec_next_loop (put_uint64 sz @ tail) (dec_absorb [f] d) = (d3, Rc_more)"
    unfolding ab d3_def using one assms(2)
    by (intro dec_next_loop_stop) (simp_all add: dec_next_step_def d2_flags_ready_def Let_def t0)
  then have s1: "decode_loop [] (f # put_uint64 sz @ tail) 0 d = decode_loop [] (put_uint64 sz @ tail) 1 d3"
    using decode_loop_step[of "f # put_uint64 sz @ tail" 1 d "[]" d3 Rc_more 0] one by simp
  have at3: "tmp_at D2_eight_byte_size_ready 8 [] d3" using t unfolding d3_def by (intro tmp_at_start) simp_all
  from tmp_at_full[OF at3, of "put_uint64 sz"] obtain t' where
    ab3: "dec_absorb (put_uint64 sz) d3 = d3\<lparr>tmpbuf := t', read_pos := In_tmpbuf 8, to_read := 0\<rparr>" and
    t': "length t' = 8" "take 8 t' = put_uint64 sz" by auto
  have sz': "get_uint64 t' = sz" using t' get_put_uint64[of sz "[]"] by simp
  define d4 where "d4 = d3\<lparr>tmpbuf := t', read_pos := In_tmpbuf 8, to_read := 0\<rparr>"
  show thesis
  proof (rule that[of d4])
    show "dec_env d4 = dec_env d" by (simp add: dec_env_def d4_def d3_def dec_next_step_def)
    fix d'' rc assume r: "d2_size_ready sz (tail @ []) d4 = (d'', rc)" "rc \<noteq> Rc_more"
    have "dec_next_loop tail (dec_absorb (put_uint64 sz) d3) = (d'', rc)"
      unfolding ab3 d4_def[symmetric] using r sz' at3
      by (intro dec_next_loop_stop(2)) (simp_all add: d2_eight_byte_size_ready_def d4_def tmp_at_def)
    moreover have "put_uint64 sz \<noteq> []" by (simp add: put_uint64_def)
    ultimately have "decode_loop [] (put_uint64 sz @ tail) 1 d3 = (d'', 9, rc)"
      using decode_loop_step[of "put_uint64 sz @ tail" 8 d3 "[]" d'' rc 1] at3 r(2) by (simp add: tmp_at_def)
    with s1 show "decode_loop [] (f # put_uint64 sz @ tail) 0 d = (d'', 9, rc)" by simp
  qed
qed

text \<open>
  Claim C7. Without a limit (\<open>maxmsgsize\<close> is -1, the default of \<open>ZMQ_MAXMSGSIZE\<close>) the ZMTP/2.x decoder
  is not safe: wherever its buffer lies, there is a frame header of nine bytes for which
  \<open>read_pos + msg_size\<close> wraps around, so that \<open>size_ready\<close> builds a message over
  memory far outside of the reception buffer.
\<close>

theorem v2_unlimited_overrun:
  assumes "unat addr < 2 ^ 47" "9 \<le> len" "len \<le> 2 ^ 47"
  shows "\<exists>hdr d' rest. length hdr = 9 \<and>
    in_event fresh 9 hdr (v2_decoder (-1) fails un addr len) = (d', rest, [], Rc_overrun)"
proof -
  define sz where "sz = - (addr + 9)"
  let ?d = "v2_decoder (-1) fails un addr len"
  let ?hdr = "large_flag # put_uint64 sz @ []"
  define d2 where "d2 = ?d\<lparr>buf_addr := addr, buf_len := 9, buf_refs := 1, zc_used := 0\<rparr>"
  have gb: "get_buffer fresh ?d = (?d\<lparr>buf_addr := addr, buf_len := len, buf_refs := 1, zc_used := 0\<rparr>, False, len)"
    using assms(2) by (simp add: get_buffer_def dec_allocate_def v2_decoder_def decoder_base_def dec_next_step_def)
  have at: "tmp_at D2_flags_ready 1 [] d2"
    by (simp add: d2_def tmp_at_def v2_decoder_def decoder_base_def dec_next_step_def)
  have "large_flag AND large_flag \<noteq> 0" by simp
  from v2_large_header[OF at this, of sz "[]"] obtain d4 where d4: "dec_env d4 = dec_env d2"
    "\<And>rc d''. d2_size_ready sz ([] @ []) d4 = (d'', rc) \<Longrightarrow> rc \<noteq> Rc_more \<Longrightarrow> decode_loop [] ?hdr 0 d2 = (d'', 9, rc)"
    by blast
  have f4: "buf_addr d4 = addr" "buf_len d4 = 9" "maxmsgsize d4 = -1"
    using d4(1) by (simp_all add: dec_env_def d2_def v2_decoder_def decoder_base_def dec_next_step_def)
  have "unat (addr + 9) = unat addr + 9" using assms(1) by (simp add: unat_word_ariths)
  then have "addr + 9 \<noteq> 0" by (metis add_is_0 unat_0 zero_neq_numeral)
  then have "sz \<noteq> 0" unfolding sz_def by (simp only: neg_equal_0_iff_equal not_False_eq_True)
  then have "0 < unat sz" by (simp add: unat_gt_0)
  moreover have "\<not> addr + of_nat 9 + sz > addr + of_nat 9" by (simp add: sz_def)
  ultimately have "d2_size_ready sz ([] @ []) d4 = (d4, Rc_overrun)" using f4
    by (simp add: d2_size_ready_def Let_def)
  from d4(2)[OF this] have "process_input [] ?hdr d2 = (d4, [], Rc_overrun)" by (simp add: process_input.simps)
  moreover have "resize_buffer 9 (?d\<lparr>buf_addr := addr, buf_len := len, buf_refs := 1, zc_used := 0\<rparr>) = d2"
    by (simp add: resize_buffer_def d2_def)
  ultimately have "in_event fresh 9 ?hdr ?d = (d4, [], [], Rc_overrun)"
    using gb assms(2) by (simp add: in_event_def min_def)
  then show ?thesis by (intro exI[of _ ?hdr]) simp
qed

theorem v2_unlimited_overrun_witness:
  "\<exists>hdr d' rest. length hdr = 9 \<and>
    in_event 0 9 hdr (v2_decoder (-1) (\<lambda>_. False) (\<lambda>_. 0) 4096 8192) = (d', rest, [], Rc_overrun)"
  using v2_unlimited_overrun[of 4096 8192] by simp

text \<open>
  The size limit is enforced: when a peer announces a ZMTP/2.x message above \<open>maxmsgsize\<close> in
  a large frame, the decoder reports \<open>EMSGSIZE\<close> as soon as the header is complete, whatever
  follows it, delivers nothing and leaves the limits of the connection as they were.
\<close>

theorem v2_size_limit_enforced:
  assumes "v2_at m 0 d" "0 \<le> maxmsgsize d" "maxmsgsize d < int (length (mdata m))"
    "255 < length (mdata m)" "length (mdata m) < 2 ^ 64"
  shows "\<exists>d'. process_input [] (v2_frame m @ tail) d = (d', [], Rc_err EMSGSIZE) \<and> dec_env d' = dec_env d"
proof -
  let ?n = "length (mdata m)"
  have at: "tmp_at D2_flags_ready 1 [] d" using assms(1) by (simp add: v2_at_0)
  have "v2_protocol_flags m AND large_flag \<noteq> 0" using assms(4) by (simp add: v2_protocol_flags_bits)
  from v2_large_header[OF at this, of "of_nat ?n" "mdata m @ tail"] obtain d' where
    d': "dec_env d' = dec_env d"
      "\<And>rc d''. d2_size_ready (of_nat ?n) ((mdata m @ tail) @ []) d' = (d'', rc) \<Longrightarrow> rc \<noteq> Rc_more \<Longrightarrow>
       decode_loop [] (v2_protocol_flags m # put_uint64 (of_nat ?n) @ mdata m @ tail) 0 d = (d'', 9, rc)"
    by blast
  have "uint (of_nat ?n :: 64 word) = int ?n" using assms(5) by (simp add: unsigned_of_nat take_bit_nat_eq_self)
  then have "d2_size_ready (of_nat ?n) ((mdata m @ tail) @ []) d' = (d', Rc_err EMSGSIZE)"
    using assms(2,3) d'(1) by (simp add: d2_size_ready_def Let_def dec_env_def)
  from d'(2)[OF this] d'(1) assms(4) show ?thesis
    by (simp add: process_input.simps v2_header_def Let_def)
qed

theorem v2_size_limit_enforced_witness:
  "\<exists>d'. process_input [] (v2_frame \<lparr>kind = Kdata, flags = 0, mdata = replicate 300 7\<rparr>)
      (v2_decoder 256 (\<lambda>_. False) (\<lambda>_. 0) 4096 8192) = (d', [], Rc_err EMSGSIZE)"
proof -
  let ?m = "\<lparr>kind = Kdata, flags = 0, mdata = replicate 300 7\<rparr>" and ?d = "v2_decoder 256 (\<lambda>_. False) (\<lambda>_. 0) 4096 8192"
  have "v2_at ?m 0 ?d" unfolding v2_decoder_def by (rule v2_start) (simp add: decoder_base_def)
  moreover have "maxmsgsize ?d = 256" by (simp add: v2_decoder_def decoder_base_def dec_next_step_def)
  ultimately show ?thesis using v2_size_limit_enforced[of ?m ?d "[]"] by auto
qed

end
