(* ===== verification/Yqueue.thy ===== *)
theory Yqueue
  imports Zmq_Prelude
begin

text \<open>
  Model of \<open>src/src/yqueue.hpp\<close>: the queue of chunks of \<open>N\<close> elements, at the level of chunk memory.
  \<open>chunks q a\<close> is the chunk allocated at the address \<open>a\<close>, \<open>None\<close> where no chunk is allocated;
  an operation that follows a pointer to no chunk is \<open>None\<close>. Where the code allocates, the address
  \<open>a\<close> and the uninitialised content \<open>blank\<close> of the new chunk are parameters; \<open>malloc\<close>
  returns memory not in use, which may be memory that was freed before. (An allocation that fails
  ends in \<open>alloc_assert\<close>.) The address of an element is its chunk and its position.

  The lemmas show that the operations implement those of a list of elements with pairwise
  distinct addresses, that they follow no dangling pointer, and that the chunks allocated are
  exactly those of the queue and the spare one.
\<close>

section \<open>Definitions\<close>

record 'a chunk =
  vals :: "nat \<Rightarrow> 'a"
  prev :: "nat option"
  nxt :: "nat option"

record 'a yqueue =
  chunks :: "nat \<Rightarrow> 'a chunk option"
  begin_chunk :: nat
  begin_pos :: nat
  back_chunk :: "nat option"
  back_pos :: nat
  end_chunk :: nat
  end_pos :: nat
  spare_chunk :: "nat option"

type_synonym slot_addr = "nat \<times> nat"

definition yqueue :: "nat \<Rightarrow> 'a chunk \<Rightarrow> 'a yqueue" where
  "yqueue a blank = \<lparr>chunks = Map.empty(a \<mapsto> blank), begin_chunk = a, begin_pos = 0, back_chunk = None,
     back_pos = 0, end_chunk = a, end_pos = 0, spare_chunk = None\<rparr>"

definition yq_front_addr :: "'a yqueue \<Rightarrow> slot_addr" where
  "yq_front_addr q = (begin_chunk q, begin_pos q)"

definition yq_front :: "'a yqueue \<Rightarrow> 'a option" where
  "yq_front q = map_option (\<lambda>c. vals c (begin_pos q)) (chunks q (begin_chunk q))"

definition yq_back_addr :: "'a yqueue \<Rightarrow> slot_addr option" where
  "yq_back_addr q = map_option (\<lambda>a. (a, back_pos q)) (back_chunk q)"

definition yq_back :: "'a yqueue \<Rightarrow> 'a option" where
  "yq_back q = Option.bind (back_chunk q) (\<lambda>a. map_option (\<lambda>c. vals c (back_pos q)) (chunks q a))"

text \<open>\<open>queue.back () = value_\<close>.\<close>

definition yq_set_back :: "'a \<Rightarrow> 'a yqueue \<Rightarrow> 'a yqueue option" where
  "yq_set_back v q = Option.bind (back_chunk q) (\<lambda>a. map_option
     (\<lambda>c. q\<lparr>chunks := (chunks q)(a \<mapsto> c\<lparr>vals := (vals c)(back_pos q := v)\<rparr>)\<rparr>) (chunks q a))"

definition yq_push :: "nat \<Rightarrow> nat \<Rightarrow> 'a chunk \<Rightarrow> 'a yqueue \<Rightarrow> 'a yqueue option" where
  "yq_push N a blank q =
     (let q1 = q\<lparr>back_chunk := Some (end_chunk q), back_pos := end_pos q, end_pos := end_pos q + 1\<rparr> in
      if end_pos q1 \<noteq> N then Some q1
      else case chunks q (end_chunk q) of
             None \<Rightarrow> None
           | Some ec \<Rightarrow>
               (case spare_chunk q of
                  Some sc \<Rightarrow> map_option (\<lambda>s. q1\<lparr>spare_chunk := None,
                      chunks := (chunks q)(end_chunk q \<mapsto> ec\<lparr>nxt := Some sc\<rparr>,
                        sc \<mapsto> s\<lparr>prev := Some (end_chunk q)\<rparr>),
                      end_chunk := sc, end_pos := 0\<rparr>) (chunks q sc)
                | None \<Rightarrow> Some (q1\<lparr>
                      chunks := (chunks q)(end_chunk q \<mapsto> ec\<lparr>nxt := Some a\<rparr>,
                        a \<mapsto> blank\<lparr>prev := Some (end_chunk q)\<rparr>),
                      end_chunk := a, end_pos := 0\<rparr>)))"

definition yq_unpush :: "nat \<Rightarrow> 'a yqueue \<Rightarrow> 'a yqueue option" where
  "yq_unpush N q =
     Option.bind
       (if back_pos q \<noteq> 0 then Some (q\<lparr>back_pos := back_pos q - 1\<rparr>)
        else Option.bind (back_chunk q) (\<lambda>b. map_option
          (\<lambda>c. q\<lparr>back_pos := N - 1, back_chunk := prev c\<rparr>) (chunks q b)))
       (\<lambda>q1. if end_pos q1 \<noteq> 0 then Some (q1\<lparr>end_pos := end_pos q1 - 1\<rparr>)
        else Option.bind (chunks q1 (end_chunk q1)) (\<lambda>ec.
          Option.bind (prev ec) (\<lambda>p.
          Option.bind (chunks q1 p) (\<lambda>pc.
          Option.bind (nxt pc) (\<lambda>o_chunk.
            Some (q1\<lparr>end_pos := N - 1, end_chunk := p,
              chunks := (chunks q1)(o_chunk := None, p \<mapsto> pc\<lparr>nxt := None\<rparr>)\<rparr>))))))"

text \<open>The old spare chunk, if any, is freed.\<close>

definition free_chunk :: "nat option \<Rightarrow> (nat \<Rightarrow> 'a chunk option) \<Rightarrow> nat \<Rightarrow> 'a chunk option" where
  "free_chunk cs m = (case cs of None \<Rightarrow> m | Some s \<Rightarrow> m(s := None))"

definition yq_pop :: "nat \<Rightarrow> 'a yqueue \<Rightarrow> 'a yqueue option" where
  "yq_pop N q =
     (if begin_pos q + 1 \<noteq> N then Some (q\<lparr>begin_pos := begin_pos q + 1\<rparr>)
      else Option.bind (chunks q (begin_chunk q)) (\<lambda>oc.
        Option.bind (nxt oc) (\<lambda>b.
        Option.bind (chunks q b) (\<lambda>bc.
          Some (q\<lparr>begin_chunk := b, begin_pos := 0, spare_chunk := Some (begin_chunk q),
            chunks := free_chunk (spare_chunk q) ((chunks q)(b \<mapsto> bc\<lparr>prev := None\<rparr>))\<rparr>)))))"

text \<open>The destructor: the loop over the chain, then the spare chunk.\<close>

partial_function (option) yq_free_loop :: "'a yqueue \<Rightarrow> 'a yqueue option" where
  "yq_free_loop q =
     (if begin_chunk q = end_chunk q then Some (q\<lparr>chunks := (chunks q)(begin_chunk q := None)\<rparr>)
      else Option.bind (chunks q (begin_chunk q)) (\<lambda>c.
        Option.bind (nxt c) (\<lambda>n.
          yq_free_loop (q\<lparr>begin_chunk := n, chunks := (chunks q)(begin_chunk q := None)\<rparr>))))"

definition yq_destroy :: "'a yqueue \<Rightarrow> 'a yqueue option" where
  "yq_destroy q = map_option
     (\<lambda>q1. q1\<lparr>spare_chunk := None, chunks := free_chunk (spare_chunk q1) (chunks q1)\<rparr>) (yq_free_loop q)"

section \<open>Representation\<close>

text \<open>
  \<open>cs\<close> is the chain of chunks from \<open>begin_chunk\<close> to \<open>end_chunk\<close>; elements are numbered from the start
  of the first chunk.
\<close>

definition yq_end :: "nat \<Rightarrow> nat list \<Rightarrow> 'a yqueue \<Rightarrow> nat" where
  "yq_end N cs q = (length cs - 1) * N + end_pos q"

definition slot :: "nat \<Rightarrow> nat list \<Rightarrow> nat \<Rightarrow> slot_addr" where
  "slot N cs i = (cs ! (i div N), i mod N)"

definition linked :: "(nat \<Rightarrow> 'a chunk option) \<Rightarrow> nat list \<Rightarrow> bool" where
  "linked m cs \<longleftrightarrow> (\<forall>i. Suc i < length cs \<longrightarrow>
     map_option nxt (m (cs ! i)) = Some (Some (cs ! Suc i)) \<and>
     map_option prev (m (cs ! Suc i)) = Some (Some (cs ! i)))"

definition yq_inv :: "nat \<Rightarrow> nat list \<Rightarrow> 'a yqueue \<Rightarrow> bool" where
  "yq_inv N cs q \<longleftrightarrow> 0 < N \<and> cs \<noteq> [] \<and> distinct cs \<and> linked (chunks q) cs \<and>
     begin_chunk q = hd cs \<and> end_chunk q = last cs \<and> begin_pos q < N \<and> end_pos q < N \<and>
     begin_pos q \<le> yq_end N cs q \<and>
     (begin_pos q < yq_end N cs q \<longrightarrow> yq_back_addr q = Some (slot N cs (yq_end N cs q - 1))) \<and>
     set_option (spare_chunk q) \<inter> set cs = {} \<and>
     dom (chunks q) = set cs \<union> set_option (spare_chunk q)"

definition slot_value :: "(nat \<Rightarrow> 'a chunk option) \<Rightarrow> slot_addr \<Rightarrow> 'a" where
  "slot_value m s = vals (the (m (fst s))) (snd s)"

definition yq_slots :: "nat \<Rightarrow> nat list \<Rightarrow> 'a yqueue \<Rightarrow> (slot_addr \<times> 'a) list" where
  "yq_slots N cs q = map (\<lambda>i. (slot N cs i, slot_value (chunks q) (slot N cs i))) [begin_pos q..<yq_end N cs q]"

definition yq_rep :: "nat \<Rightarrow> 'a yqueue \<Rightarrow> (slot_addr \<times> 'a) list \<Rightarrow> bool" where
  "yq_rep N q xs \<longleftrightarrow> (\<exists>cs. yq_inv N cs q \<and> xs = yq_slots N cs q)"

lemma slot_inj:
  "0 < N \<Longrightarrow> distinct cs \<Longrightarrow> i div N < length cs \<Longrightarrow> j div N < length cs \<Longrightarrow>
    slot N cs i = slot N cs j \<longleftrightarrow> i = j"
  by (metis slot_def Pair_inject distinct_conv_nth div_mult_mod_eq)

lemma yq_end_div: "yq_inv N cs q \<Longrightarrow> i < yq_end N cs q \<Longrightarrow> i div N < length cs"
proof -
  assume inv: "yq_inv N cs q" and i: "i < yq_end N cs q"
  have "0 < N" "0 < length cs" "end_pos q < N" using inv by (auto simp: yq_inv_def)
  then have "yq_end N cs q < length cs * N"
    by (cases "length cs") (simp_all add: yq_end_def)
  with i \<open>0 < N\<close> show "i div N < length cs" by (simp add: div_less_iff_less_mult)
qed

lemma slot_end:
  assumes "yq_inv N cs q"
  shows "slot N cs (yq_end N cs q) = (end_chunk q, end_pos q)"
  using assms by (auto simp: yq_inv_def yq_end_def slot_def last_conv_nth)

lemma slot_begin:
  assumes "yq_inv N cs q"
  shows "slot N cs (begin_pos q) = (begin_chunk q, begin_pos q)"
  using assms by (auto simp: yq_inv_def slot_def hd_conv_nth)

lemma yq_invD:
  assumes "yq_inv N cs q"
  shows "0 < N" "cs \<noteq> []" "distinct cs" "linked (chunks q) cs" "begin_chunk q = hd cs" "end_chunk q = last cs"
    "begin_pos q < N" "end_pos q < N" "begin_pos q \<le> yq_end N cs q"
    "begin_pos q < yq_end N cs q \<Longrightarrow> yq_back_addr q = Some (slot N cs (yq_end N cs q - 1))"
    "set_option (spare_chunk q) \<inter> set cs = {}" "dom (chunks q) = set cs \<union> set_option (spare_chunk q)"
  using assms by (auto simp: yq_inv_def)

lemma yq_rep_distinct:
  assumes "yq_rep N q xs"
  shows "distinct (map fst xs)"
proof -
  from assms obtain cs where inv: "yq_inv N cs q" and xs: "xs = yq_slots N cs q" by (auto simp: yq_rep_def)
  have "slot N cs i = slot N cs j \<longleftrightarrow> i = j" if "i < yq_end N cs q" "j < yq_end N cs q" for i j
    using yq_end_div[OF inv] that yq_invD[OF inv] by (intro slot_inj) simp_all
  then show ?thesis by (auto simp: xs yq_slots_def distinct_map inj_on_def o_def)
qed

lemma yq_repI: "yq_inv N cs q \<Longrightarrow> yq_slots N cs q = xs \<Longrightarrow> yq_rep N q xs"
  by (auto simp: yq_rep_def)

lemma yq_slots_Nil: "yq_inv N cs q \<Longrightarrow> yq_slots N cs q = [] \<longleftrightarrow> begin_pos q = yq_end N cs q"
  by (auto simp: yq_slots_def dest: yq_invD(9))

lemma slot_append: "i div N < length cs \<Longrightarrow> slot N (cs @ ds) i = slot N cs i"
  by (simp add: slot_def nth_append)

lemma slot_tl: "0 < N \<Longrightarrow> Suc (i div N) < length cs \<Longrightarrow> slot N (tl cs) i = slot N cs (i + N)"
  by (simp add: slot_def nth_tl div_add_self2)

lemma slot_butlast: "Suc (i div N) < length cs \<Longrightarrow> slot N (butlast cs) i = slot N cs i"
  by (simp add: slot_def nth_butlast)

section \<open>Creation and access\<close>

lemma yqueue_rep: "0 < N \<Longrightarrow> yq_rep N (yqueue a blank) []"
  by (rule yq_rep_def[THEN iffD2], rule exI[of _ "[a]"])
    (simp add: yqueue_def yq_inv_def linked_def yq_end_def yq_slots_def)

lemma yq_front_rep:
  assumes "yq_rep N q (s # xs)"
  shows "yq_front_addr q = fst s" "yq_front q = Some (snd s)"
proof -
  from assms obtain cs where inv: "yq_inv N cs q" and xs: "s # xs = yq_slots N cs q" by (auto simp: yq_rep_def)
  note d = yq_invD[OF inv]
  have "begin_pos q < yq_end N cs q" using xs yq_slots_Nil[OF inv] d(9) by auto
  then have s: "s = (slot N cs (begin_pos q), slot_value (chunks q) (slot N cs (begin_pos q)))"
    using xs by (simp add: yq_slots_def upt_conv_Cons)
  show "yq_front_addr q = fst s" using s slot_begin[OF inv] by (simp add: yq_front_addr_def)
  have "begin_chunk q \<in> dom (chunks q)" using d by simp
  then show "yq_front q = Some (snd s)" using s slot_begin[OF inv] by (auto simp: yq_front_def slot_value_def)
qed

lemma yq_back_rep:
  assumes "yq_rep N q (xs @ [s])"
  shows "yq_back_addr q = Some (fst s)" "yq_back q = Some (snd s)"
    "\<exists>q'. yq_set_back v q = Some q' \<and> yq_rep N q' (xs @ [(fst s, v)]) \<and> dom (chunks q') = dom (chunks q)"
proof -
  from assms obtain cs where inv: "yq_inv N cs q" and xs: "xs @ [s] = yq_slots N cs q" by (auto simp: yq_rep_def)
  note d = yq_invD[OF inv]
  let ?e = "yq_end N cs q - 1"
  have ne: "begin_pos q < yq_end N cs q" using xs yq_slots_Nil[OF inv] d(9) by auto
  then have upt: "[begin_pos q..<yq_end N cs q] = [begin_pos q..<?e] @ [?e]"
    by (metis Suc_pred' less_Suc_eq_le not_less_zero upt_Suc zero_less_iff_neq_zero less_nat_zero_code)
  then have s: "s = (slot N cs ?e, slot_value (chunks q) (slot N cs ?e))"
    and xs': "xs = map (\<lambda>i. (slot N cs i, slot_value (chunks q) (slot N cs i))) [begin_pos q..<?e]"
    using xs by (simp_all add: yq_slots_def)
  show addr: "yq_back_addr q = Some (fst s)" using d(10)[OF ne] s by simp
  have dv: "?e div N < length cs" using ne by (intro yq_end_div[OF inv]) simp
  obtain b where b: "back_chunk q = Some b" "slot N cs ?e = (b, back_pos q)"
    using d(10)[OF ne] by (auto simp: yq_back_addr_def)
  have "b \<in> set cs" using b(2) dv by (auto simp: slot_def)
  then obtain c where c: "chunks q b = Some c" using d(12) by auto
  show "yq_back q = Some (snd s)" using s b c by (simp add: yq_back_def slot_value_def)
  let ?m = "(chunks q)(b \<mapsto> c\<lparr>vals := (vals c)(back_pos q := v)\<rparr>)"
  let ?q = "q\<lparr>chunks := ?m\<rparr>"
  have set: "yq_set_back v q = Some ?q" using b c by (simp add: yq_set_back_def)
  have dom: "dom ?m = dom (chunks q)" using c by auto
  have e: "yq_end N cs ?q = yq_end N cs q" by (simp add: yq_end_def)
  have "linked ?m cs" using d(4) c by (auto simp: linked_def)
  then have inv': "yq_inv N cs ?q" using inv dom e by (simp add: yq_inv_def yq_back_addr_def)
  have other: "slot_value ?m (slot N cs i) = slot_value (chunks q) (slot N cs i)" if "i < ?e" for i
  proof -
    have "slot N cs i \<noteq> slot N cs ?e"
      using slot_inj[OF d(1,3) _ dv, of i] yq_end_div[OF inv, of i] that by simp
    then show ?thesis using b c by (auto simp: slot_value_def slot_def)
  qed
  have "slot_value ?m (slot N cs ?e) = v" using b c by (simp add: slot_value_def)
  then have "yq_slots N cs ?q = xs @ [(fst s, v)]"
    unfolding yq_slots_def e using xs' other s upt by simp
  with inv' set dom show "\<exists>q'. yq_set_back v q = Some q' \<and> yq_rep N q' (xs @ [(fst s, v)]) \<and> dom (chunks q') = dom (chunks q)"
    by (auto simp: yq_rep_def intro!: exI[of _ cs])
qed

section \<open>Changing the queue\<close>

text \<open>
  A change of the memory that keeps the elements of the old chunks keeps the values of the slots.
\<close>

lemma slot_value_cong:
  "map_option vals (m' (fst s)) = map_option vals (m (fst s)) \<Longrightarrow> m (fst s) \<noteq> None \<Longrightarrow>
    slot_value m' s = slot_value m s"
  by (auto simp: slot_value_def)

lemma slot_in_chain: "i div N < length cs \<Longrightarrow> fst (slot N cs i) \<in> set cs"
  by (simp add: slot_def)

text \<open>Appending the chunk \<open>a\<close> to the chain, as \<open>push\<close> does when the last chunk is full.\<close>

lemma linked_append:
  assumes "linked m cs" "cs \<noteq> []" "distinct cs" "a \<notin> set cs" "m (last cs) = Some ec"
  shows "linked (m(last cs \<mapsto> ec\<lparr>nxt := Some a\<rparr>, a \<mapsto> b\<lparr>prev := Some (last cs)\<rparr>)) (cs @ [a])"
  unfolding linked_def
proof (intro allI impI)
  let ?m = "m(last cs \<mapsto> ec\<lparr>nxt := Some a\<rparr>, a \<mapsto> b\<lparr>prev := Some (last cs)\<rparr>)"
  fix i assume i: "Suc i < length (cs @ [a])"
  show "map_option nxt (?m ((cs @ [a]) ! i)) = Some (Some ((cs @ [a]) ! Suc i)) \<and>
    map_option prev (?m ((cs @ [a]) ! Suc i)) = Some (Some ((cs @ [a]) ! i))"
  proof (cases "Suc i = length cs")
    case True
    then have "cs ! i = last cs" using assms(2) by (metis diff_Suc_1 last_conv_nth)
    moreover have "last cs \<noteq> a" using assms(2,4) by (metis last_in_set)
    ultimately show ?thesis using True by (simp add: nth_append)
  next
    case False
    with i have i: "Suc i < length cs" by simp
    then have "cs ! i \<noteq> last cs" using assms(2,3) by (simp add: last_conv_nth nth_eq_iff_index_eq)
    moreover have "cs ! i \<noteq> a" "cs ! Suc i \<noteq> a" using i assms(4) by (metis Suc_lessD nth_mem)+
    ultimately show ?thesis using assms(1,5) i by (auto simp: linked_def nth_append)
  qed
qed

lemma yq_slots_push:
  assumes inv: "yq_inv N cs q" and end': "yq_end N cs' q' = Suc (yq_end N cs q)" "begin_pos q' = begin_pos q"
    and old: "\<And>i. i < yq_end N cs q \<Longrightarrow> slot N cs' i = slot N cs i"
      "\<And>c. c \<in> set cs \<Longrightarrow> map_option vals (chunks q' c) = map_option vals (chunks q c)"
    and new: "slot N cs' (yq_end N cs q) = p"
  shows "yq_slots N cs' q' = yq_slots N cs q @ [(p, slot_value (chunks q') p)]"
proof -
  note d = yq_invD[OF inv]
  have "slot_value (chunks q') (slot N cs i) = slot_value (chunks q) (slot N cs i)" if "i < yq_end N cs q" for i
    using that slot_in_chain[OF yq_end_div[OF inv that]] d(12) by (intro slot_value_cong old(2)) auto
  with old(1) new d(9) show ?thesis unfolding yq_slots_def end' by (simp add: upt_Suc_append)
qed

lemma yq_push_rep:
  assumes "yq_rep N q xs" "chunks q a = None"
  obtains q' p v where "yq_push N a blank q = Some q'" "yq_rep N q' (xs @ [(p, v)])"
    "begin_chunk q' = begin_chunk q" "begin_pos q' = begin_pos q"
proof -
  from assms obtain cs where inv: "yq_inv N cs q" and xs: "xs = yq_slots N cs q" by (auto simp: yq_rep_def)
  note d = yq_invD[OF inv]
  let ?q1 = "q\<lparr>back_chunk := Some (end_chunk q), back_pos := end_pos q, end_pos := end_pos q + 1\<rparr>"
  have dv: "i div N < length cs" if "i \<le> yq_end N cs q" for i
  proof (cases "i = yq_end N cs q")
    case True
    then show ?thesis using d(1,2,8) by (simp add: yq_end_def)
  qed (use that yq_end_div[OF inv] in simp)
  have pos: "begin_pos q < Suc (yq_end N cs q)" using d(9) by simp
  show thesis
  proof (cases "end_pos q + 1 = N")
    case False
    have e: "yq_end N cs ?q1 = Suc (yq_end N cs q)" by (simp add: yq_end_def)
    have "yq_inv N cs ?q1"
      using inv False e slot_end[OF inv] d(8) by (auto simp: yq_inv_def yq_back_addr_def)
    moreover have "yq_slots N cs ?q1 = xs @ [((end_chunk q, end_pos q), slot_value (chunks ?q1) (end_chunk q, end_pos q))]"
      unfolding xs using e slot_end[OF inv] by (intro yq_slots_push[OF inv]) simp_all
    ultimately have "yq_rep N ?q1 (xs @ [((end_chunk q, end_pos q), slot_value (chunks ?q1) (end_chunk q, end_pos q))])"
      by (auto simp: yq_rep_def intro!: exI[of _ cs])
    with that[of ?q1] False show thesis by (simp add: yq_push_def)
  next
    case True
    obtain ec where ec: "chunks q (end_chunk q) = Some ec" using d(2,6,12) by (metis UnI1 domD last_in_set)
    obtain n b sp where nb: "n \<notin> set cs" "set_option sp = set_option (spare_chunk q) - {n}"
      and push: "yq_push N a blank q = Some (?q1\<lparr>spare_chunk := sp,
        chunks := (chunks q)(end_chunk q \<mapsto> ec\<lparr>nxt := Some n\<rparr>, n \<mapsto> b\<lparr>prev := Some (end_chunk q)\<rparr>),
        end_chunk := n, end_pos := 0\<rparr>)"
    proof (cases "spare_chunk q")
      case None
      have "a \<notin> set cs" using assms(2) d(12) by auto
      with that[of a None blank] True None ec show thesis by (simp add: yq_push_def)
    next
      case (Some sc)
      then obtain sb where sb: "chunks q sc = Some sb" using d(12) by force
      have "sc \<notin> set cs" using Some d(11) by auto
      with that[of sc None sb] True Some ec sb show thesis by (simp add: yq_push_def)
    qed
    let ?m = "(chunks q)(end_chunk q \<mapsto> ec\<lparr>nxt := Some n\<rparr>, n \<mapsto> b\<lparr>prev := Some (end_chunk q)\<rparr>)"
    let ?q' = "?q1\<lparr>spare_chunk := sp, chunks := ?m, end_chunk := n, end_pos := 0\<rparr>"
    have e: "yq_end N (cs @ [n]) ?q' = Suc (yq_end N cs q)"
      using True d(2) by (cases "length cs") (simp_all add: yq_end_def)
    have old: "slot N (cs @ [n]) i = slot N cs i" if "i \<le> yq_end N cs q" for i using dv[OF that] by (rule slot_append)
    have vals: "map_option vals (?m c) = map_option vals (chunks q c)" if "c \<in> set cs" for c
      using that nb(1) ec by auto
    have "end_chunk q \<in> dom (chunks q)" using ec by auto
    then have dom: "dom ?m = set (cs @ [n]) \<union> set_option sp" using d(12) nb(2) by auto
    have lnk: "linked ?m (cs @ [n])" unfolding d(6) using linked_append[OF d(4,2,3) nb(1)] ec d(6) by simp
    have "set_option sp \<inter> set (cs @ [n]) = {}" using nb d(11) by auto
    with lnk dom e d nb(1) old[of "yq_end N cs q"] slot_end[OF inv] have "yq_inv N (cs @ [n]) ?q'"
      by (simp add: yq_inv_def yq_back_addr_def)
    moreover have "yq_slots N (cs @ [n]) ?q' =
        xs @ [((end_chunk q, end_pos q), slot_value (chunks ?q') (end_chunk q, end_pos q))]"
      unfolding xs using e old slot_end[OF inv] vals by (intro yq_slots_push[OF inv]) simp_all
    ultimately have "yq_rep N ?q' (xs @ [((end_chunk q, end_pos q), slot_value (chunks ?q') (end_chunk q, end_pos q))])"
      by (auto simp: yq_rep_def intro!: exI[of _ "cs @ [n]"])
    then show thesis using that[OF push] by simp
  qed
qed

lemma slot_pred:
  assumes "0 < N" "0 < i"
  shows "slot N cs (i - 1) =
    (if i mod N \<noteq> 0 then (cs ! (i div N), i mod N - 1) else (cs ! (i div N - 1), N - 1))"
proof -
  obtain j where j: "i = Suc j" using assms(2) by (cases i) auto
  show ?thesis
    using assms(1) by (auto simp: slot_def j mod_Suc div_Suc)
qed

text \<open>The first half of \<open>unpush\<close>: \<open>back\<close> moves one position backwards.\<close>

lemma yq_back_pred:
  assumes inv: "yq_inv N cs q" and "begin_pos q + 1 < yq_end N cs q"
  obtains b p where "(if back_pos q \<noteq> 0 then Some (q\<lparr>back_pos := back_pos q - 1\<rparr>)
        else Option.bind (back_chunk q) (\<lambda>b. map_option
          (\<lambda>c. q\<lparr>back_pos := N - 1, back_chunk := prev c\<rparr>) (chunks q b))) =
      Some (q\<lparr>back_chunk := Some b, back_pos := p\<rparr>)" "(b, p) = slot N cs (yq_end N cs q - 2)"
proof -
  note d = yq_invD[OF inv]
  let ?i = "yq_end N cs q - 1"
  have "yq_back_addr q = Some (slot N cs ?i)" using d(10) assms(2) by simp
  then have b: "back_chunk q = Some (cs ! (?i div N))" "back_pos q = ?i mod N"
    by (auto simp: yq_back_addr_def slot_def)
  have dv: "?i div N < length cs" using assms(2) by (intro yq_end_div[OF inv]) simp
  have i: "0 < ?i" "?i - 1 = yq_end N cs q - 2" using assms(2) by simp_all
  note sp = slot_pred[OF d(1) i(1), of cs, unfolded i(2)]
  show thesis
  proof (cases "?i mod N = 0")
    case False
    have eq: "q\<lparr>back_pos := back_pos q - 1\<rparr> = q\<lparr>back_chunk := Some (cs ! (?i div N)), back_pos := ?i mod N - 1\<rparr>"
      using b by (cases q) simp
    have "back_pos q \<noteq> 0" using False b(2) by simp
    then show thesis using eq False sp by (intro that[where b = "cs ! (?i div N)" and p = "?i mod N - 1"]) (simp_all only: if_True if_False simp_thms)
  next
    case True
    have "?i div N \<noteq> 0"
    proof
      assume "?i div N = 0"
      with True div_mult_mod_eq[of ?i N] have "?i = 0" by (simp only: mult_0 add_0)
      with i(1) show False by simp
    qed
    then obtain k where k: "?i div N = Suc k" using not0_implies_Suc by blast
    then obtain c where "chunks q (cs ! Suc k) = Some c" "prev c = Some (cs ! k)"
      using d(4) dv by (auto simp: linked_def)
    with that[where b = "cs ! k" and p = "N - 1"] True b sp k show thesis by simp
  qed
qed

lemma yq_slots_unpush:
  assumes inv: "yq_inv N cs q" and end': "yq_end N cs q = Suc (yq_end N cs' q')" "begin_pos q' = begin_pos q"
    and ne: "begin_pos q < yq_end N cs q"
    and old: "\<And>i. i < yq_end N cs' q' \<Longrightarrow> slot N cs' i = slot N cs i"
      "\<And>i. i < yq_end N cs' q' \<Longrightarrow> map_option vals (chunks q' (fst (slot N cs i))) = map_option vals (chunks q (fst (slot N cs i)))"
  shows "yq_slots N cs' q' = butlast (yq_slots N cs q)"
proof -
  note d = yq_invD[OF inv]
  have "slot_value (chunks q') (slot N cs i) = slot_value (chunks q) (slot N cs i)" if i: "i < yq_end N cs' q'" for i
  proof -
    have "i < yq_end N cs q" using i end' by simp
    then show ?thesis
      using slot_in_chain[OF yq_end_div[OF inv]] d(12) by (intro slot_value_cong old(2) i) auto
  qed
  with old(1) ne show ?thesis unfolding yq_slots_def end' by (simp add: butlast_append map_butlast[symmetric])
qed

lemma yq_unpush_rep:
  assumes "yq_rep N q xs" "2 \<le> length xs"
  obtains q' where "yq_unpush N q = Some q'" "yq_rep N q' (butlast xs)"
    "begin_chunk q' = begin_chunk q" "begin_pos q' = begin_pos q"
proof -
  from assms obtain cs where inv: "yq_inv N cs q" and xs: "xs = yq_slots N cs q" by (auto simp: yq_rep_def)
  note d = yq_invD[OF inv]
  have two: "begin_pos q + 1 < yq_end N cs q" using assms(2) xs by (simp add: yq_slots_def)
  from yq_back_pred[OF inv two] obtain b p where
    b1: "(if back_pos q \<noteq> 0 then Some (q\<lparr>back_pos := back_pos q - 1\<rparr>)
        else Option.bind (back_chunk q) (\<lambda>b. map_option
          (\<lambda>c. q\<lparr>back_pos := N - 1, back_chunk := prev c\<rparr>) (chunks q b))) =
      Some (q\<lparr>back_chunk := Some b, back_pos := p\<rparr>)" and b2: "(b, p) = slot N cs (yq_end N cs q - 2)" .
  let ?q1 = "q\<lparr>back_chunk := Some b, back_pos := p\<rparr>"
  show thesis
  proof (cases "end_pos q = 0")
    case False
    let ?q' = "?q1\<lparr>end_pos := end_pos q - 1\<rparr>"
    have e: "yq_end N cs q = Suc (yq_end N cs ?q')" using False by (simp add: yq_end_def)
    then have "yq_end N cs ?q' - 1 = yq_end N cs q - 2" "begin_pos q < yq_end N cs ?q'" using two by simp_all
    with d b2 have "yq_inv N cs ?q'" by (auto simp: yq_inv_def yq_back_addr_def)
    moreover have "yq_slots N cs ?q' = butlast xs"
      unfolding xs using e two by (intro yq_slots_unpush[OF inv]) simp_all
    ultimately have "yq_rep N ?q' (butlast xs)" by (rule yq_repI)
    moreover have "yq_unpush N q = Some ?q'" unfolding yq_unpush_def b1 using False by simp
    ultimately show thesis using that[of ?q'] by simp
  next
    case True
    have "length cs \<noteq> 0" "length cs \<noteq> 1" using d(2) two True by (auto simp: yq_end_def)
    then have "cs \<noteq> []" "butlast cs \<noteq> []" by (auto simp flip: length_greater_0_conv)
    then obtain ds a c where cs: "cs = ds @ [a, c]"
      by (metis append_butlast_last_id append.assoc append_Cons append_Nil)
    have lnk: "map_option nxt (chunks q a) = Some (Some c) \<and> map_option prev (chunks q c) = Some (Some a)"
      using d(4)[unfolded linked_def, rule_format, of "length ds"] by (simp add: cs nth_append)
    then obtain ec pc where ec: "chunks q c = Some ec" "prev ec = Some a"
      and pc: "chunks q a = Some pc" "nxt pc = Some c" by auto
    let ?m = "(chunks q)(c := None, a \<mapsto> pc\<lparr>nxt := None\<rparr>)"
    let ?q' = "?q1\<lparr>end_pos := N - 1, end_chunk := a, chunks := ?m\<rparr>" and ?cs = "ds @ [a]"
    have unp: "yq_unpush N q = Some ?q'"
      unfolding yq_unpush_def b1 using True ec pc d(6) by (simp add: cs)
    have e: "yq_end N cs q = Suc (yq_end N ?cs ?q')" using True d(1) by (simp add: yq_end_def cs)
    then have e2: "yq_end N ?cs ?q' - 1 = yq_end N cs q - 2" "begin_pos q < yq_end N ?cs ?q'"
      using two by simp_all
    have dv: "i div N < length ?cs" if "i < yq_end N ?cs ?q'" for i
    proof -
      have "i < length ?cs * N" using that d(1) by (simp add: yq_end_def)
      then show ?thesis using d(1) by (simp add: div_less_iff_less_mult)
    qed
    have old: "slot N ?cs i = slot N cs i" if "i < yq_end N ?cs ?q'" for i
      using slot_append[OF dv[OF that], of "[c]"] by (simp add: cs)
    have sp: "set_option (spare_chunk q) \<inter> set ?cs = {}" "c \<notin> set_option (spare_chunk q)"
      using d(11) by (auto simp: cs)
    have dist: "distinct ?cs" "c \<notin> set ?cs" using d(3) by (auto simp: cs)
    have "a \<in> dom (chunks q)" using pc by auto
    then have dom: "dom ?m = set ?cs \<union> set_option (spare_chunk q)"
      using d(12) sp(2) dist by (auto simp: cs)
    have "linked ?m ?cs"
      unfolding linked_def
    proof (intro allI impI)
      fix i assume i: "Suc i < length ?cs"
      have "?cs ! i \<in> set ds" using i by (simp add: nth_append)
      then have "?cs ! i \<noteq> a" "?cs ! i \<noteq> c" "?cs ! Suc i \<noteq> c" using dist i by (auto simp: nth_append)
      with d(4)[unfolded linked_def, rule_format, of i] i pc show
        "map_option nxt (?m (?cs ! i)) = Some (Some (?cs ! Suc i)) \<and> map_option prev (?m (?cs ! Suc i)) = Some (Some (?cs ! i))"
        by (auto simp: cs nth_append split: if_splits)
    qed
    moreover have "hd ?cs = hd cs" by (cases ds) (simp_all add: cs)
    moreover have "yq_back_addr ?q' = Some (slot N ?cs (yq_end N ?cs ?q' - 1))"
      using b2 e2 old[of "yq_end N ?cs ?q' - 1"] by (simp add: yq_back_addr_def)
    ultimately have "yq_inv N ?cs ?q'"
      using d e2 dom sp(1) dist by (simp add: yq_inv_def)
    moreover have "yq_slots N ?cs ?q' = butlast xs"
      unfolding xs
    proof (rule yq_slots_unpush[OF inv e])
      fix i assume i: "i < yq_end N ?cs ?q'"
      show "map_option vals (chunks ?q' (fst (slot N cs i))) = map_option vals (chunks q (fst (slot N cs i)))"
        using slot_in_chain[OF dv[OF i]] dist(2) pc unfolding old[OF i] by auto
    qed (use old two in simp_all)
    ultimately have "yq_rep N ?q' (butlast xs)" by (rule yq_repI)
    then show thesis using that[OF unp] by simp
  qed
qed

lemma yq_pop_rep:
  assumes "yq_rep N q (x # xs)"
  obtains q' where "yq_pop N q = Some q'" "yq_rep N q' xs"
    "back_chunk q' = back_chunk q" "back_pos q' = back_pos q"
proof -
  from assms obtain cs where inv: "yq_inv N cs q" and xs: "x # xs = yq_slots N cs q" by (auto simp: yq_rep_def)
  note d = yq_invD[OF inv]
  have ne: "begin_pos q < yq_end N cs q" using xs yq_slots_Nil[OF inv] d(9) by auto
  have xs': "xs = map (\<lambda>i. (slot N cs i, slot_value (chunks q) (slot N cs i))) [Suc (begin_pos q)..<yq_end N cs q]"
    using xs ne by (simp add: yq_slots_def upt_conv_Cons)
  show thesis
  proof (cases "begin_pos q + 1 = N")
    case False
    let ?q' = "q\<lparr>begin_pos := begin_pos q + 1\<rparr>"
    have e: "yq_end N cs ?q' = yq_end N cs q" by (simp add: yq_end_def)
    have "yq_inv N cs ?q'" using d ne False e by (auto simp: yq_inv_def yq_back_addr_def)
    moreover have "yq_slots N cs ?q' = xs" unfolding xs' yq_slots_def e by simp
    ultimately have "yq_rep N ?q' xs" by (rule yq_repI)
    with that[of ?q'] False show thesis by (simp add: yq_pop_def)
  next
    case True
    have "length cs \<noteq> 1" using ne True d(8) by (auto simp: yq_end_def)
    then obtain a b ds where cs: "cs = a # b # ds" using d(2) by (metis length_Cons list.exhaust list.size(3) One_nat_def)
    obtain ac bc where ac: "chunks q a = Some ac" "nxt ac = Some b" and bc: "chunks q b = Some bc" "prev bc = Some a"
      using d(4)[unfolded linked_def, rule_format, of 0] by (auto simp: cs)
    let ?m = "free_chunk (spare_chunk q) ((chunks q)(b \<mapsto> bc\<lparr>prev := None\<rparr>))"
    let ?q' = "q\<lparr>begin_chunk := b, begin_pos := 0, spare_chunk := Some a, chunks := ?m\<rparr>" and ?cs = "b # ds"
    have pop: "yq_pop N q = Some ?q'" using True ac bc d(5) by (simp add: yq_pop_def cs)
    have e: "yq_end N cs q = yq_end N ?cs ?q' + N" by (simp add: yq_end_def cs)
    have m: "?m c = (if c = b then Some (bc\<lparr>prev := None\<rparr>) else chunks q c)" if "c \<in> set cs" for c
      using that d(11) by (auto simp: free_chunk_def cs split: option.splits)
    have dist: "distinct ?cs" "a \<notin> set ?cs" using d(3) by (auto simp: cs)
    have "b \<in> dom (chunks q)" using bc by auto
    then have dom: "dom ?m = set ?cs \<union> {a}" using d(11,12)
      by (auto simp: free_chunk_def cs split: option.splits if_splits)
    have "linked ?m ?cs"
      unfolding linked_def
    proof (intro allI impI)
      fix i assume i: "Suc i < length ?cs"
      then have in_cs: "?cs ! i \<in> set cs" "?cs ! Suc i \<in> set cs"
        using nth_mem[of i ?cs] nth_mem[of "Suc i" ?cs] by (auto simp: cs)
      have "ds ! i \<noteq> b" using i dist(1) by auto
      with d(4)[unfolded linked_def, rule_format, of "Suc i"] i bc m[OF in_cs(1)] m[OF in_cs(2)]
      show "map_option nxt (?m (?cs ! i)) = Some (Some (?cs ! Suc i)) \<and> map_option prev (?m (?cs ! Suc i)) = Some (Some (?cs ! i))"
        by (auto simp: cs)
    qed
    moreover have sl: "slot N ?cs i = slot N cs (i + N)" if "i < yq_end N ?cs ?q'" for i
    proof -
      have "(i + N) div N < length cs" using that e by (intro yq_end_div[OF inv]) simp
      then show ?thesis using slot_tl[OF d(1), of i cs] d(1) by (simp add: cs div_add_self2)
    qed
    moreover have "yq_back_addr ?q' = Some (slot N ?cs (yq_end N ?cs ?q' - 1))" if "0 < yq_end N ?cs ?q'"
      using d(10)[OF ne] sl[of "yq_end N ?cs ?q' - 1"] that e by (simp add: yq_back_addr_def)
    ultimately have "yq_inv N ?cs ?q'"
      using d dom dist by (auto simp: yq_inv_def cs)
    moreover have "slot_value ?m (slot N ?cs i) = slot_value (chunks q) (slot N cs (i + N))"
      if "i < yq_end N ?cs ?q'" for i
    proof -
      have "i + N < yq_end N cs q" using that e by simp
      from slot_in_chain[OF yq_end_div[OF inv this]] have c: "fst (slot N cs (i + N)) \<in> set cs" .
      then have "chunks q (fst (slot N cs (i + N))) \<noteq> None" using d(12) by auto
      then show ?thesis unfolding sl[OF that] using m[OF c] bc by (intro slot_value_cong) auto
    qed
    then have "yq_slots N ?cs ?q' = xs"
      unfolding xs' yq_slots_def e using sl True
      by (auto intro!: nth_equalityI simp: add.commute simp del: upt_Suc)
    ultimately have "yq_rep N ?q' xs" by (rule yq_repI)
    then show thesis using that[OF pop] by simp
  qed
qed

lemma linked_Cons: "linked m (a # b # cs) \<longleftrightarrow>
    map_option nxt (m a) = Some (Some b) \<and> map_option prev (m b) = Some (Some a) \<and> linked m (b # cs)"
  by (auto simp: linked_def nth_Cons split: nat.splits)

lemma linked_cong: "\<forall>c\<in>set cs. m c = m' c \<Longrightarrow> linked m cs \<Longrightarrow> linked m' cs"
  by (simp add: linked_def)

lemma yq_free_loop_chain:
  assumes "linked (chunks q) cs" "cs \<noteq> []" "distinct cs" "begin_chunk q = hd cs" "end_chunk q = last cs"
  shows "\<exists>q'. yq_free_loop q = Some q' \<and> spare_chunk q' = spare_chunk q \<and>
    (\<forall>c. chunks q' c = (if c \<in> set cs then None else chunks q c))"
  using assms
proof (induction cs arbitrary: q)
  case (Cons a cs)
  show ?case
  proof (cases cs)
    case Nil
    with Cons.prems show ?thesis by (auto simp: yq_free_loop.simps)
  next
    case (Cons b ds)
    let ?q = "q\<lparr>begin_chunk := b, chunks := (chunks q)(a := None)\<rparr>"
    have lnk: "map_option nxt (chunks q a) = Some (Some b)" "linked (chunks q) cs"
      using Cons.prems(1) Cons by (simp_all add: linked_Cons)
    have "a \<notin> set cs" using Cons.prems(3) by simp
    then have "linked (chunks ?q) cs" using lnk(2) by (auto intro: linked_cong[of cs "chunks q"])
    from Cons.IH[OF this] Cons Cons.prems obtain q' where
      q': "yq_free_loop ?q = Some q'" "spare_chunk q' = spare_chunk ?q"
        "\<forall>c. chunks q' c = (if c \<in> set cs then None else chunks ?q c)" by auto
    have "a \<noteq> last cs" using \<open>a \<notin> set cs\<close> Cons by (metis last_in_set list.distinct(1))
    moreover obtain c where "chunks q a = Some c" "nxt c = Some b" using lnk(1) by auto
    ultimately have "yq_free_loop q = yq_free_loop ?q"
      using Cons.prems Cons by (subst yq_free_loop.simps) simp
    with q' show ?thesis by (intro exI[of _ q']) auto
  qed
qed simp

lemma yq_destroy_rep:
  assumes "yq_rep N q xs"
  shows "\<exists>q'. yq_destroy q = Some q' \<and> dom (chunks q') = {}"
proof -
  from assms obtain cs where inv: "yq_inv N cs q" by (auto simp: yq_rep_def)
  note d = yq_invD[OF inv]
  from yq_free_loop_chain[OF d(4,2,3,5,6)] obtain q' where
    q': "yq_free_loop q = Some q'" "spare_chunk q' = spare_chunk q"
      "\<forall>c. chunks q' c = (if c \<in> set cs then None else chunks q c)" by blast
  have "dom (free_chunk (spare_chunk q) (chunks q')) = {}"
    using q'(3) d(12) by (auto simp: free_chunk_def dom_def split: option.splits if_splits)
  with q'(1,2) show ?thesis by (simp add: yq_destroy_def)
qed

section \<open>Properties\<close>

text \<open>
  The queue as its users see it: every sequence of operations that respects the documented
  preconditions (no \<open>pop\<close> on the empty queue, and \<open>unpush\<close> only of an element behind the first), with
  the list of element addresses and values it stands for.
\<close>

inductive yq_reach :: "nat \<Rightarrow> 'a yqueue \<Rightarrow> (slot_addr \<times> 'a) list \<Rightarrow> bool" for N where
  create: "yq_reach N (yqueue a blank) []"
| push: "yq_reach N q xs \<Longrightarrow> chunks q a = None \<Longrightarrow> yq_push N a blank q = Some q' \<Longrightarrow>
    yq_back_addr q' = Some p \<Longrightarrow> yq_back q' = Some v \<Longrightarrow> yq_reach N q' (xs @ [(p, v)])"
| set_back: "yq_reach N q (xs @ [(p, u)]) \<Longrightarrow> yq_set_back v q = Some q' \<Longrightarrow> yq_reach N q' (xs @ [(p, v)])"
| unpush: "yq_reach N q xs \<Longrightarrow> 2 \<le> length xs \<Longrightarrow> yq_unpush N q = Some q' \<Longrightarrow> yq_reach N q' (butlast xs)"
| pop: "yq_reach N q (x # xs) \<Longrightarrow> yq_pop N q = Some q' \<Longrightarrow> yq_reach N q' xs"

lemma yq_reach_rep: "yq_reach N q xs \<Longrightarrow> 0 < N \<Longrightarrow> yq_rep N q xs"
proof (induction rule: yq_reach.induct)
  case (push q xs a blank q' p v)
  then obtain p' v' where "yq_rep N q' (xs @ [(p', v')])"
    using yq_push_rep[of N q xs a blank] by (metis option.inject)
  moreover from yq_back_rep(1,2)[OF this] push have "p' = p" "v' = v" by simp_all
  ultimately show ?case by simp
next
  case (set_back q xs p u v q')
  then show ?case using yq_back_rep(3)[of N q xs "(p, u)" v] by auto
next
  case (unpush q xs q')
  then show ?case using yq_unpush_rep[of N q xs] by (metis option.inject)
next
  case (pop q x xs q')
  then show ?case using yq_pop_rep[of N q x xs] by (metis option.inject)
qed (simp add: yqueue_rep)

lemma yq_inv_chunks:
  assumes "yq_inv N cs q"
  shows "card (dom (chunks q)) \<le> (length (yq_slots N cs q) + N - 1) div N + 2"
proof -
  note d = yq_invD[OF assms]
  have "card (dom (chunks q)) \<le> length cs + 1"
    unfolding d(12) using card_Un_le[of "set cs" "set_option (spare_chunk q)"] card_length[of cs]
    by (cases "spare_chunk q") auto
  moreover have "(length cs - 1) * N \<le> length (yq_slots N cs q) + N - 1"
    using d(7,9) by (simp add: yq_slots_def yq_end_def)
  then have "length cs - 1 \<le> (length (yq_slots N cs q) + N - 1) div N"
    using d(1) by (simp add: less_eq_div_iff_mult_less_eq)
  ultimately show ?thesis by simp
qed

text \<open>
  Claim C16. The chunked queue implements a list: in every state reached by its operations the elements
  have pairwise distinct addresses, \<open>front\<close> and \<open>back\<close> are the ends of the list, no operation
  follows a dangling pointer, the number of chunks held is bounded by the number of elements
  (nothing leaks), and the destructor frees every chunk.
\<close>

theorem yqueue_implements_list:
  assumes "yq_reach N q xs" "0 < N"
  shows "distinct (map fst xs) \<and>
    (xs \<noteq> [] \<longrightarrow> yq_front_addr q = fst (hd xs) \<and> yq_front q = Some (snd (hd xs)) \<and>
       yq_back_addr q = Some (fst (last xs)) \<and> yq_back q = Some (snd (last xs)) \<and>
       yq_set_back v q \<noteq> None \<and> yq_pop N q \<noteq> None) \<and>
    (2 \<le> length xs \<longrightarrow> yq_unpush N q \<noteq> None) \<and>
    (chunks q a = None \<longrightarrow> yq_push N a blank q \<noteq> None) \<and>
    card (dom (chunks q)) \<le> (length xs + N - 1) div N + 2 \<and>
    (\<exists>q'. yq_destroy q = Some q' \<and> dom (chunks q') = {})"
proof -
  note rep = yq_reach_rep[OF assms]
  have "yq_front_addr q = fst (hd xs) \<and> yq_front q = Some (snd (hd xs)) \<and>
      yq_back_addr q = Some (fst (last xs)) \<and> yq_back q = Some (snd (last xs)) \<and>
      yq_set_back v q \<noteq> None \<and> yq_pop N q \<noteq> None" if "xs \<noteq> []"
  proof -
    from that obtain x ys where c: "xs = x # ys" by (cases xs) auto
    from that obtain z zs where s: "xs = zs @ [z]" by (metis append_butlast_last_id)
    show ?thesis
      using yq_front_rep[OF rep[unfolded c]] yq_back_rep(1,2)[OF rep[unfolded s]]
        yq_back_rep(3)[OF rep[unfolded s], of v] yq_pop_rep[OF rep[unfolded c]]
      by (metis c s last_snoc list.sel(1) option.distinct(1))
  qed
  moreover have "card (dom (chunks q)) \<le> (length xs + N - 1) div N + 2"
    using rep yq_inv_chunks by (auto simp: yq_rep_def)
  moreover have "2 \<le> length xs \<longrightarrow> yq_unpush N q \<noteq> None"
    using yq_unpush_rep[OF rep] by (metis option.distinct(1))
  moreover have "chunks q a = None \<longrightarrow> yq_push N a blank q \<noteq> None"
    using yq_push_rep[OF rep] by (metis option.distinct(1))
  ultimately show ?thesis using yq_rep_distinct[OF rep] yq_destroy_rep[OF rep] by blast
qed

theorem yqueue_implements_list_witness:
  "\<exists>q. yq_push 256 9 \<lparr>vals = (\<lambda>_. 5 :: nat), prev = None, nxt = None\<rparr>
      (yqueue 7 \<lparr>vals = (\<lambda>_. 5), prev = None, nxt = None\<rparr>) = Some q \<and>
    yq_front q = Some 5 \<and> yq_pop 256 q \<noteq> None \<and> (\<exists>q'. yq_destroy q = Some q' \<and> dom (chunks q') = {})"
proof -
  let ?b = "\<lparr>vals = (\<lambda>_. 5 :: nat), prev = None, nxt = None\<rparr>"
  let ?q = "(yqueue 7 ?b)\<lparr>back_chunk := Some 7, back_pos := 0, end_pos := 1\<rparr>"
  have p: "yq_push 256 9 ?b (yqueue 7 ?b) = Some ?q" by (simp add: yq_push_def yqueue_def Let_def)
  have "yq_reach 256 ?q ([] @ [((7, 0), 5)])"
    by (rule yq_reach.push[OF yq_reach.create _ p]) (simp_all add: yqueue_def yq_back_addr_def yq_back_def)
  from yqueue_implements_list[OF this] p show ?thesis by auto
qed

end
