(* ===== verification/Ypipe.thy ===== *)
theory Ypipe
  imports Yqueue
begin

text \<open>
  Model of \<open>src/src/ypipe.hpp\<close>, the lock-free pipe between a writer and a reader thread, over the
  chunked queue, and of the interface \<open>src/src/ypipe_base.hpp\<close>.

  \<open>fifo\<close> is the specification: what the reader can see (\<open>flushed\<close>), complete items not yet
  flushed (\<open>staged\<close>), items of an incomplete message (\<open>partial\<close>), and whether the reader found the
  pipe empty and went to sleep. The locale \<open>ypipe_base\<close> states that a pipe implements it; \<open>ypipe_t\<close>,
  whose state are pointers into the queue, is shown to do so, and the theorems on
  order and wake-ups follow for it from the specification.
\<close>

section \<open>Specification\<close>

record 'a fifo =
  flushed :: "'a list"
  staged :: "'a list"
  partial :: "'a list"
  asleep :: bool

definition fifo_empty :: "'a fifo" where
  "fifo_empty = \<lparr>flushed = [], staged = [], partial = [], asleep = False\<rparr>"

definition fifo_write :: "'a \<Rightarrow> bool \<Rightarrow> 'a fifo \<Rightarrow> 'a fifo" where
  "fifo_write v incomplete s =
     (if incomplete then s\<lparr>partial := partial s @ [v]\<rparr>
      else s\<lparr>staged := staged s @ partial s @ [v], partial := []\<rparr>)"

definition fifo_unwrite :: "'a fifo \<Rightarrow> 'a fifo \<times> 'a option" where
  "fifo_unwrite s = (if partial s = [] then (s, None)
     else (s\<lparr>partial := butlast (partial s)\<rparr>, Some (last (partial s))))"

definition fifo_flush :: "'a fifo \<Rightarrow> 'a fifo \<times> bool" where
  "fifo_flush s = (if staged s = [] then (s, True)
     else (s\<lparr>flushed := flushed s @ staged s, staged := [], asleep := False\<rparr>, \<not> asleep s))"

definition fifo_check_read :: "'a fifo \<Rightarrow> 'a fifo \<times> bool" where
  "fifo_check_read s = (if flushed s = [] then (s\<lparr>asleep := True\<rparr>, False) else (s, True))"

definition fifo_read :: "'a fifo \<Rightarrow> 'a fifo \<times> 'a option" where
  "fifo_read s = (case flushed s of [] \<Rightarrow> (s\<lparr>asleep := True\<rparr>, None)
     | v # vs \<Rightarrow> (s\<lparr>flushed := vs\<rparr>, Some v))"

section \<open>The pipe\<close>

text \<open>
  \<open>w\<close>, \<open>r\<close>, \<open>f\<close> and \<open>c\<close> of the class; a NULL pointer is \<open>None\<close>. \<open>alloc\<close> is the memory allocator, which
  maps the addresses in use to a new one, \<open>blank\<close> the content of fresh memory.
\<close>

record 'a ypipe =
  queue :: "'a yqueue"
  w_ptr :: "slot_addr option"
  r_ptr :: "slot_addr option"
  f_ptr :: "slot_addr option"
  c_ptr :: "slot_addr option"
  alloc :: "nat set \<Rightarrow> nat"
  blank :: "'a chunk"

definition queue_push :: "nat \<Rightarrow> 'a ypipe \<Rightarrow> 'a ypipe option" where
  "queue_push N p = map_option (\<lambda>q. p\<lparr>queue := q\<rparr>)
     (yq_push N (alloc p (dom (chunks (queue p)))) (blank p) (queue p))"

definition ypipe :: "nat \<Rightarrow> (nat set \<Rightarrow> nat) \<Rightarrow> 'a chunk \<Rightarrow> 'a ypipe option" where
  "ypipe N al bl =
     map_option (\<lambda>p. let b = yq_back_addr (queue p) in p\<lparr>r_ptr := b, w_ptr := b, f_ptr := b, c_ptr := b\<rparr>)
       (queue_push N \<lparr>queue = yqueue (al {}) bl, w_ptr = None, r_ptr = None, f_ptr = None, c_ptr = None,
          alloc = al, blank = bl\<rparr>)"

definition ypipe_write :: "nat \<Rightarrow> 'a \<Rightarrow> bool \<Rightarrow> 'a ypipe \<Rightarrow> 'a ypipe option" where
  "ypipe_write N v incomplete p =
     Option.bind (yq_set_back v (queue p)) (\<lambda>q.
     Option.bind (queue_push N (p\<lparr>queue := q\<rparr>)) (\<lambda>p1.
       Some (if \<not> incomplete then p1\<lparr>f_ptr := yq_back_addr (queue p1)\<rparr> else p1)))"

definition ypipe_unwrite :: "nat \<Rightarrow> 'a ypipe \<Rightarrow> ('a ypipe \<times> 'a option) option" where
  "ypipe_unwrite N p =
     (if f_ptr p = yq_back_addr (queue p) then Some (p, None)
      else Option.bind (yq_unpush N (queue p)) (\<lambda>q.
        Option.bind (yq_back q) (\<lambda>v. Some (p\<lparr>queue := q\<rparr>, Some v))))"

text \<open>
  \<open>c.cas (cmp, val)\<close>: the new value of \<open>c\<close> and the old one.
\<close>

definition cas :: "'b option \<Rightarrow> 'b option \<Rightarrow> 'b option \<Rightarrow> 'b option \<times> 'b option" where
  "cas c cmp val = (if c = cmp then val else c, c)"

definition ypipe_flush :: "'a ypipe \<Rightarrow> 'a ypipe \<times> bool" where
  "ypipe_flush p =
     (if w_ptr p = f_ptr p then (p, True)
      else case cas (c_ptr p) (w_ptr p) (f_ptr p) of (c, old) \<Rightarrow>
        if old \<noteq> w_ptr p then (p\<lparr>c_ptr := f_ptr p, w_ptr := f_ptr p\<rparr>, False)
        else (p\<lparr>c_ptr := c, w_ptr := f_ptr p\<rparr>, True))"

definition ypipe_check_read :: "'a ypipe \<Rightarrow> 'a ypipe \<times> bool" where
  "ypipe_check_read p =
     (let front = Some (yq_front_addr (queue p)) in
      if front \<noteq> r_ptr p \<and> r_ptr p \<noteq> None then (p, True)
      else case cas (c_ptr p) front None of (c, old) \<Rightarrow>
        (p\<lparr>c_ptr := c, r_ptr := old\<rparr>, \<not> (front = old \<or> old = None)))"

definition ypipe_read :: "nat \<Rightarrow> 'a ypipe \<Rightarrow> ('a ypipe \<times> 'a option) option" where
  "ypipe_read N p =
     (case ypipe_check_read p of
        (p1, False) \<Rightarrow> Some (p1, None)
      | (p1, True) \<Rightarrow> Option.bind (yq_front (queue p1)) (\<lambda>v.
          map_option (\<lambda>q. (p1\<lparr>queue := q\<rparr>, Some v)) (yq_pop N (queue p1))))"

text \<open>\<open>probe\<close>; \<open>None\<close> is the violated \<open>zmq_assert\<close> or a dangling pointer.\<close>

definition ypipe_probe :: "('a \<Rightarrow> bool) \<Rightarrow> 'a ypipe \<Rightarrow> ('a ypipe \<times> bool) option" where
  "ypipe_probe fn p = (case ypipe_check_read p of
      (p1, rc) \<Rightarrow> if rc then map_option (\<lambda>v. (p1, fn v)) (yq_front (queue p1)) else None)"

section \<open>The interface\<close>

text \<open>The abstract class \<open>ypipe_base_t\<close>, with the contract that an implementation simulates \<open>fifo\<close>.\<close>

locale ypipe_base =
  fixes rep :: "'p \<Rightarrow> 'a fifo \<Rightarrow> bool"
    and p_write :: "'a \<Rightarrow> bool \<Rightarrow> 'p \<Rightarrow> 'p option"
    and p_unwrite :: "'p \<Rightarrow> ('p \<times> 'a option) option"
    and p_flush :: "'p \<Rightarrow> 'p \<times> bool"
    and p_check_read :: "'p \<Rightarrow> 'p \<times> bool"
    and p_read :: "'p \<Rightarrow> ('p \<times> 'a option) option"
    and p_probe :: "('a \<Rightarrow> bool) \<Rightarrow> 'p \<Rightarrow> ('p \<times> bool) option"
  assumes write_sim: "rep p s \<Longrightarrow> \<exists>p'. p_write v i p = Some p' \<and> rep p' (fifo_write v i s)"
    and unwrite_sim: "rep p s \<Longrightarrow>
      \<exists>p'. p_unwrite p = Some (p', snd (fifo_unwrite s)) \<and> rep p' (fst (fifo_unwrite s))"
    and flush_sim: "rep p s \<Longrightarrow>
      snd (p_flush p) = snd (fifo_flush s) \<and> rep (fst (p_flush p)) (fst (fifo_flush s))"
    and check_read_sim: "rep p s \<Longrightarrow>
      snd (p_check_read p) = snd (fifo_check_read s) \<and> rep (fst (p_check_read p)) (fst (fifo_check_read s))"
    and read_sim: "rep p s \<Longrightarrow> \<exists>p'. p_read p = Some (p', snd (fifo_read s)) \<and> rep p' (fst (fifo_read s))"
    and probe_sim: "rep p s \<Longrightarrow> flushed s \<noteq> [] \<Longrightarrow>
      \<exists>p'. p_probe g p = Some (p', g (hd (flushed s))) \<and> rep p' s"
begin

text \<open>A reader that reads until the pipe is empty gets what was flushed, in order.\<close>

lemma reads_sim:
  assumes "rep p s" "flushed s = vs @ us"
  shows "\<exists>p'. fold (\<lambda>v st. Option.bind st (\<lambda>(p, out).
      map_option (\<lambda>(p', r). (p', out @ [r])) (p_read p))) vs (Some (p, out)) =
      Some (p', out @ map Some vs) \<and> rep p' (s\<lparr>flushed := us\<rparr>)"
  using assms
proof (induction vs arbitrary: p s out)
  case Nil
  then show ?case by (cases s) simp
next
  case (Cons v vs)
  then have r: "fifo_read s = (s\<lparr>flushed := vs @ us\<rparr>, Some v)" by (simp add: fifo_read_def)
  from read_sim[OF Cons.prems(1)] obtain p1 where "p_read p = Some (p1, Some v)" "rep p1 (s\<lparr>flushed := vs @ us\<rparr>)"
    unfolding r by auto
  with Cons.IH[of p1 "s\<lparr>flushed := vs @ us\<rparr>" "out @ [Some v]"] show ?case by auto
qed

text \<open>A message of several parts, written and flushed, can be read part by part.\<close>

lemma write_flush_sim:
  assumes "rep p s" "partial s = []" "staged s = []"
  shows "\<exists>p1. p_write v False p = Some p1 \<and>
    rep (fst (p_flush p1)) (s\<lparr>flushed := flushed s @ [v], asleep := False\<rparr>) \<and> snd (p_flush p1) = (\<not> asleep s)"
proof -
  from write_sim[OF assms(1), of v False] obtain p1 where
    p1: "p_write v False p = Some p1" "rep p1 (s\<lparr>staged := [v]\<rparr>)"
    using assms(2,3) by (cases s) (auto simp: fifo_write_def)
  from flush_sim[OF p1(2)] p1(1) assms(3) show ?thesis
    by (cases s) (auto simp: fifo_flush_def)
qed

end

section \<open>\<open>ypipe_t\<close> implements the interface\<close>

text \<open>
  The slots of the queue are the items and the terminator; \<open>w\<close> points behind the flushed items, \<open>f\<close>
  behind the staged ones, \<open>c\<close> is \<open>w\<close> unless the reader sleeps, and \<open>r\<close> is NULL or points at or
  behind the first item, and not behind the flushed ones.
\<close>

definition ypipe_slots :: "nat \<Rightarrow> 'a ypipe \<Rightarrow> 'a fifo \<Rightarrow> (slot_addr \<times> 'a) list \<Rightarrow> 'a \<Rightarrow> bool" where
  "ypipe_slots N p s xs t \<longleftrightarrow> 0 < N \<and> (\<forall>A. finite A \<longrightarrow> alloc p A \<notin> A) \<and>
     yq_rep N (queue p) xs \<and> map snd xs = flushed s @ staged s @ partial s @ [t] \<and>
     w_ptr p = Some (fst (xs ! length (flushed s))) \<and>
     f_ptr p = Some (fst (xs ! (length (flushed s) + length (staged s)))) \<and>
     c_ptr p = (if asleep s then None else w_ptr p) \<and> (asleep s \<longrightarrow> flushed s = []) \<and>
     (r_ptr p = None \<or> (\<exists>k\<le>length (flushed s). r_ptr p = Some (fst (xs ! k))))"

definition ypipe_rep :: "nat \<Rightarrow> 'a ypipe \<Rightarrow> 'a fifo \<Rightarrow> bool" where
  "ypipe_rep N p s \<longleftrightarrow> (\<exists>xs t. ypipe_slots N p s xs t)"

lemma yq_rep_finite: "yq_rep N q xs \<Longrightarrow> finite (dom (chunks q))"
  by (auto simp: yq_rep_def yq_inv_def)

lemma yq_rep_nth_eq:
  "yq_rep N q xs \<Longrightarrow> i < length xs \<Longrightarrow> j < length xs \<Longrightarrow> fst (xs ! i) = fst (xs ! j) \<longleftrightarrow> i = j"
  using yq_rep_distinct[of N q xs] nth_eq_iff_index_eq[of "map fst xs" i j] by simp

lemma ypipe_slotsD:
  assumes "ypipe_slots N p s xs t"
  shows "0 < N" "finite A \<Longrightarrow> alloc p A \<notin> A" "yq_rep N (queue p) xs"
    "map snd xs = flushed s @ staged s @ partial s @ [t]"
    "length xs = length (flushed s) + length (staged s) + length (partial s) + 1"
    "w_ptr p = Some (fst (xs ! length (flushed s)))"
    "f_ptr p = Some (fst (xs ! (length (flushed s) + length (staged s))))"
    "c_ptr p = (if asleep s then None else w_ptr p)" "asleep s \<Longrightarrow> flushed s = []"
    "r_ptr p = None \<or> (\<exists>k\<le>length (flushed s). r_ptr p = Some (fst (xs ! k)))"
    "yq_back_addr (queue p) = Some (fst (xs ! (length xs - 1)))" "yq_front_addr (queue p) = fst (xs ! 0)"
proof -
  have r: "0 < N" "\<forall>A. finite A \<longrightarrow> alloc p A \<notin> A" "yq_rep N (queue p) xs"
    "map snd xs = flushed s @ staged s @ partial s @ [t]"
    "w_ptr p = Some (fst (xs ! length (flushed s)))"
    "f_ptr p = Some (fst (xs ! (length (flushed s) + length (staged s))))"
    "c_ptr p = (if asleep s then None else w_ptr p)" "asleep s \<longrightarrow> flushed s = []"
    "r_ptr p = None \<or> (\<exists>k\<le>length (flushed s). r_ptr p = Some (fst (xs ! k)))"
    using assms unfolding ypipe_slots_def by blast+
  have len: "length xs = length (flushed s) + length (staged s) + length (partial s) + 1"
    using arg_cong[OF r(4), of length] by simp
  then obtain x ys where c: "xs = x # ys" by (cases xs) auto
  have ne: "xs \<noteq> []" using c by simp
  have sn: "xs = butlast xs @ [last xs]" using ne by simp
  show "yq_front_addr (queue p) = fst (xs ! 0)" using yq_front_rep(1)[of N "queue p" x ys] r(3) c by simp
  show "yq_back_addr (queue p) = Some (fst (xs ! (length xs - 1)))"
    using yq_back_rep(1)[of N "queue p" "butlast xs" "last xs"] r(3) sn last_conv_nth[OF ne] by simp
  show "length xs = length (flushed s) + length (staged s) + length (partial s) + 1" by (rule len)
qed (use assms in \<open>auto simp: ypipe_slots_def\<close>)

lemma ypipe_repI:
  assumes "0 < N" "\<And>A. finite A \<Longrightarrow> alloc p A \<notin> A" "yq_rep N (queue p) xs"
    "map snd xs = flushed s @ staged s @ partial s @ [t]"
    "w_ptr p = Some (fst (xs ! length (flushed s)))"
    "f_ptr p = Some (fst (xs ! (length (flushed s) + length (staged s))))"
    "c_ptr p = (if asleep s then None else w_ptr p)" "asleep s \<longrightarrow> flushed s = []"
    "r_ptr p = None \<or> (\<exists>k\<le>length (flushed s). r_ptr p = Some (fst (xs ! k)))"
  shows "ypipe_rep N p s"
  using assms unfolding ypipe_rep_def ypipe_slots_def by blast

lemma ypipe_write_sim:
  assumes "ypipe_rep N p s"
  shows "\<exists>p'. ypipe_write N v i p = Some p' \<and> ypipe_rep N p' (fifo_write v i s)"
proof -
  obtain xs t where sl: "ypipe_slots N p s xs t"
    using assms by (auto simp: ypipe_rep_def)
  note r = ypipe_slotsD[OF sl]
  define ys y where "ys = butlast xs" and "y = last xs"
  have xs: "xs = ys @ [y]" using r(5) by (cases xs) (simp_all add: ys_def y_def)
  from yq_back_rep(3)[OF r(3)[unfolded xs], of v] obtain q where
    q: "yq_set_back v (queue p) = Some q" "yq_rep N q (ys @ [(fst y, v)])" by blast
  have "chunks q (alloc p (dom (chunks q))) = None"
    using r(2)[OF yq_rep_finite[OF q(2)]] by auto
  from yq_push_rep[OF q(2) this] obtain q' a u where
    q': "yq_push N (alloc p (dom (chunks q))) (blank p) q = Some q'" "yq_rep N q' ((ys @ [(fst y, v)]) @ [(a, u)])"
    by blast
  let ?zs = "(ys @ [(fst y, v)]) @ [(a, u)]"
  have fst: "fst (?zs ! k) = fst (xs ! k)" if "k < length xs" for k
    using that by (auto simp: xs nth_append)
  let ?p1 = "p\<lparr>queue := q'\<rparr>"
  have b: "yq_back_addr q' = Some (fst (?zs ! length xs))" using yq_back_rep(1)[OF q'(2)] by (simp add: xs nth_append)
  have vals: "map snd ys = flushed s @ staged s @ partial s" using r(4) by (simp add: xs)
  have w: "ypipe_write N v i p = Some (if i then ?p1 else ?p1\<lparr>f_ptr := yq_back_addr q'\<rparr>)"
    using q q' by (simp add: ypipe_write_def queue_push_def)
  have "ypipe_rep N (if i then ?p1 else ?p1\<lparr>f_ptr := yq_back_addr q'\<rparr>) (fifo_write v i s)"
  proof (rule ypipe_repI[where xs = ?zs and t = u])
    show "r_ptr (if i then ?p1 else ?p1\<lparr>f_ptr := yq_back_addr q'\<rparr>) = None \<or>
      (\<exists>k\<le>length (flushed (fifo_write v i s)). r_ptr (if i then ?p1 else ?p1\<lparr>f_ptr := yq_back_addr q'\<rparr>) = Some (fst (?zs ! k)))"
      using r(10) fst r(5) by (auto simp: fifo_write_def)
    show "f_ptr (if i then ?p1 else ?p1\<lparr>f_ptr := yq_back_addr q'\<rparr>) =
      Some (fst (?zs ! (length (flushed (fifo_write v i s)) + length (staged (fifo_write v i s)))))"
      using r(5,7) fst b by (simp add: fifo_write_def add.assoc)
  qed (use r q'(2) fst vals in \<open>auto simp: fifo_write_def\<close>)
  with w show ?thesis by blast
qed

lemma ypipe_unwrite_sim:
  assumes "ypipe_rep N p s"
  shows "\<exists>p'. ypipe_unwrite N p = Some (p', snd (fifo_unwrite s)) \<and> ypipe_rep N p' (fst (fifo_unwrite s))"
proof -
  obtain xs t where sl: "ypipe_slots N p s xs t"
    using assms by (auto simp: ypipe_rep_def)
  note r = ypipe_slotsD[OF sl]
  have eq: "f_ptr p = yq_back_addr (queue p) \<longleftrightarrow> partial s = []"
    using yq_rep_nth_eq[OF r(3), of "length (flushed s) + length (staged s)" "length xs - 1"] r(5,7,11) by auto
  show ?thesis
  proof (cases "partial s = []")
    case True
    with eq assms show ?thesis by (simp add: ypipe_unwrite_def fifo_unwrite_def)
  next
    case False
    then have "2 \<le> length xs" using r(5) by (cases "partial s") auto
    from yq_unpush_rep[OF r(3) this] obtain q where q: "yq_unpush N (queue p) = Some q" "yq_rep N q (butlast xs)"
      by blast
    have vals: "map snd (butlast xs) = (flushed s @ staged s @ butlast (partial s)) @ [last (partial s)]"
      using r(4) False by (simp add: map_butlast butlast_append)
    then have "butlast xs \<noteq> []" by auto
    then have sn: "yq_rep N q (butlast (butlast xs) @ [last (butlast xs)])" using q(2) by simp
    have "snd (last (butlast xs)) = last (partial s)" using vals \<open>butlast xs \<noteq> []\<close>
      by (metis last_map last_snoc)
    then have b: "yq_back q = Some (last (partial s))" using yq_back_rep(2)[OF sn] by simp
    have len: "length (butlast xs) = length (flushed s) + length (staged s) + length (partial s)" using r(5) by simp
    have nth: "butlast xs ! k = xs ! k" if "k \<le> length (flushed s) + length (staged s)" for k
      using that len False by (intro nth_butlast) (cases "partial s", simp_all)
    have "ypipe_rep N (p\<lparr>queue := q\<rparr>) (s\<lparr>partial := butlast (partial s)\<rparr>)"
    proof (rule ypipe_repI[where xs = "butlast xs" and t = "last (partial s)"])
      show "r_ptr (p\<lparr>queue := q\<rparr>) = None \<or> (\<exists>k\<le>length (flushed (s\<lparr>partial := butlast (partial s)\<rparr>)).
        r_ptr (p\<lparr>queue := q\<rparr>) = Some (fst (butlast xs ! k)))"
        using r(10) nth by auto
    qed (use r q(2) vals nth in simp_all)
    with q b eq False show ?thesis by (simp add: ypipe_unwrite_def fifo_unwrite_def)
  qed
qed

lemma ypipe_flush_sim:
  assumes "ypipe_rep N p s"
  shows "snd (ypipe_flush p) = snd (fifo_flush s) \<and> ypipe_rep N (fst (ypipe_flush p)) (fst (fifo_flush s))"
proof -
  obtain xs t where sl: "ypipe_slots N p s xs t"
    using assms by (auto simp: ypipe_rep_def)
  note r = ypipe_slotsD[OF sl]
  have eq: "w_ptr p = f_ptr p \<longleftrightarrow> staged s = []"
    using yq_rep_nth_eq[OF r(3), of "length (flushed s)" "length (flushed s) + length (staged s)"] r(5,6,7) by auto
  show ?thesis
  proof (cases "staged s = []")
    case True
    with eq assms show ?thesis by (simp add: ypipe_flush_def fifo_flush_def)
  next
    case False
    have fl: "ypipe_flush p = (p\<lparr>c_ptr := f_ptr p, w_ptr := f_ptr p\<rparr>, \<not> asleep s)"
      using eq False r(6,8) by (auto simp: ypipe_flush_def cas_def)
    have "ypipe_rep N (p\<lparr>c_ptr := f_ptr p, w_ptr := f_ptr p\<rparr>)
        (s\<lparr>flushed := flushed s @ staged s, staged := [], asleep := False\<rparr>)"
    proof (rule ypipe_repI[where xs = xs and t = t])
      show "r_ptr (p\<lparr>c_ptr := f_ptr p, w_ptr := f_ptr p\<rparr>) = None \<or>
        (\<exists>k\<le>length (flushed (s\<lparr>flushed := flushed s @ staged s, staged := [], asleep := False\<rparr>)).
          r_ptr (p\<lparr>c_ptr := f_ptr p, w_ptr := f_ptr p\<rparr>) = Some (fst (xs ! k)))"
        using r(10) by (auto intro: trans_le_add1)
    qed (use r in simp_all)
    with fl False show ?thesis by (simp add: fifo_flush_def)
  qed
qed

lemma ypipe_check_read_sim:
  assumes "ypipe_rep N p s"
  shows "snd (ypipe_check_read p) = snd (fifo_check_read s) \<and>
    ypipe_rep N (fst (ypipe_check_read p)) (fst (fifo_check_read s)) \<and>
    (snd (ypipe_check_read p) \<longrightarrow> r_ptr (fst (ypipe_check_read p)) \<noteq> None \<and>
      r_ptr (fst (ypipe_check_read p)) \<noteq> Some (yq_front_addr (queue p))) \<and>
    queue (fst (ypipe_check_read p)) = queue p"
proof -
  obtain xs t where sl: "ypipe_slots N p s xs t"
    using assms by (auto simp: ypipe_rep_def)
  note r = ypipe_slotsD[OF sl]
  let ?front = "Some (yq_front_addr (queue p))"
  have eq: "w_ptr p = ?front \<longleftrightarrow> flushed s = []"
    using yq_rep_nth_eq[OF r(3), of "length (flushed s)" 0] r(5,6,12) by auto
  have wn: "\<exists>a b. w_ptr p = Some (a, b)" using r(6) by (metis surj_pair)
  have pre: "flushed s \<noteq> []" if "?front \<noteq> r_ptr p" "r_ptr p \<noteq> None"
    using that r(10,12) by auto
  show ?thesis
  proof (cases "?front \<noteq> r_ptr p \<and> r_ptr p \<noteq> None")
    case True
    with pre assms show ?thesis by (auto simp: ypipe_check_read_def fifo_check_read_def Let_def)
  next
    case False
    have cr: "ypipe_check_read p =
        (p\<lparr>c_ptr := (if flushed s = [] then None else c_ptr p), r_ptr := c_ptr p\<rparr>, flushed s \<noteq> [])"
      using False eq r(8,9) wn by (cases "asleep s") (auto simp: ypipe_check_read_def cas_def Let_def)
    have "ypipe_rep N (p\<lparr>c_ptr := (if flushed s = [] then None else c_ptr p), r_ptr := c_ptr p\<rparr>)
        (fst (fifo_check_read s))"
    proof (rule ypipe_repI[where xs = xs and t = t])
      show "r_ptr (p\<lparr>c_ptr := (if flushed s = [] then None else c_ptr p), r_ptr := c_ptr p\<rparr>) = None \<or>
        (\<exists>k\<le>length (flushed (fst (fifo_check_read s))).
          r_ptr (p\<lparr>c_ptr := (if flushed s = [] then None else c_ptr p), r_ptr := c_ptr p\<rparr>) = Some (fst (xs ! k)))"
        using r(6,8) by (auto simp: fifo_check_read_def)
    qed (use r in \<open>auto simp: fifo_check_read_def\<close>)
    with cr eq r(6,8,9) show ?thesis by (auto simp: fifo_check_read_def)
  qed
qed

lemma ypipe_read_sim:
  assumes "ypipe_rep N p s"
  shows "\<exists>p'. ypipe_read N p = Some (p', snd (fifo_read s)) \<and> ypipe_rep N p' (fst (fifo_read s))"
proof -
  obtain p1 rc where cr: "ypipe_check_read p = (p1, rc)" by fastforce
  note sim = ypipe_check_read_sim[OF assms, unfolded cr fst_conv snd_conv]
  show ?thesis
  proof (cases "flushed s")
    case Nil
    with sim cr show ?thesis by (simp add: ypipe_read_def fifo_read_def fifo_check_read_def)
  next
    case (Cons v vs)
    then have rc: "rc" and rep: "ypipe_rep N p1 s" using sim by (simp_all add: fifo_check_read_def)
    obtain xs t where sl: "ypipe_slots N p1 s xs t"
    using rep by (auto simp: ypipe_rep_def)
  note r = ypipe_slotsD[OF sl]
    obtain y ys where xs: "xs = y # ys" using r(5) by (cases xs) auto
    have y: "snd y = v" "map snd ys = vs @ staged s @ partial s @ [t]" using r(4) Cons xs by simp_all
    from yq_pop_rep[OF r(3)[unfolded xs]] obtain q where q: "yq_pop N (queue p1) = Some q" "yq_rep N q ys" by blast
    have f: "yq_front (queue p1) = Some v" using yq_front_rep(2)[OF r(3)[unfolded xs]] y by simp
    have rd: "ypipe_read N p = Some (p1\<lparr>queue := q\<rparr>, Some v)"
      using cr rc f q by (simp add: ypipe_read_def)
    obtain k where k: "k \<le> length (flushed s)" "r_ptr p1 = Some (fst (xs ! k))" using r(10) sim rc by auto
    have "k \<noteq> 0" using k(2) r(12) sim rc by (cases k) auto
    then obtain j where j: "k = Suc j" by (cases k) auto
    have "ypipe_rep N (p1\<lparr>queue := q\<rparr>) (s\<lparr>flushed := vs\<rparr>)"
    proof (rule ypipe_repI[where xs = ys and t = t])
      show "r_ptr (p1\<lparr>queue := q\<rparr>) = None \<or> (\<exists>k\<le>length (flushed (s\<lparr>flushed := vs\<rparr>)).
        r_ptr (p1\<lparr>queue := q\<rparr>) = Some (fst (ys ! k)))"
        using k j Cons xs by auto
    qed (use r q(2) y Cons xs in auto)
    with rd Cons show ?thesis by (simp add: fifo_read_def)
  qed
qed

lemma ypipe_probe_sim:
  assumes "ypipe_rep N p s" "flushed s \<noteq> []"
  shows "\<exists>p'. ypipe_probe g p = Some (p', g (hd (flushed s))) \<and> ypipe_rep N p' s"
proof -
  obtain p1 rc where cr: "ypipe_check_read p = (p1, rc)" by fastforce
  note sim = ypipe_check_read_sim[OF assms(1), unfolded cr fst_conv snd_conv]
  then have rc: "rc" and rep: "ypipe_rep N p1 s" using assms(2) by (simp_all add: fifo_check_read_def)
  obtain xs t where sl: "ypipe_slots N p1 s xs t"
    using rep by (auto simp: ypipe_rep_def)
  note r = ypipe_slotsD[OF sl]
  obtain y ys where xs: "xs = y # ys" using r(5) by (cases xs) auto
  have "yq_front (queue p1) = Some (hd (flushed s))"
    using yq_front_rep(2)[OF r(3)[unfolded xs]] r(4) xs assms(2) by (cases "flushed s") auto
  with cr rc rep show ?thesis by (simp add: ypipe_probe_def)
qed

interpretation ypipe: ypipe_base "ypipe_rep N" "ypipe_write N" "ypipe_unwrite N" ypipe_flush ypipe_check_read
  "ypipe_read N" ypipe_probe for N
proof (unfold_locales, goal_cases)
  case 1
  then show ?case by (rule ypipe_write_sim)
next
  case 2
  then show ?case by (rule ypipe_unwrite_sim)
next
  case 3
  then show ?case by (rule ypipe_flush_sim)
next
  case 4
  then show ?case using ypipe_check_read_sim by blast
next
  case 5
  then show ?case by (rule ypipe_read_sim)
next
  case 6
  then show ?case by (rule ypipe_probe_sim)
qed

lemma ypipe_create:
  assumes "0 < N" "\<And>A. finite A \<Longrightarrow> al A \<notin> A"
  shows "\<exists>p. ypipe N al bl = Some p \<and> ypipe_rep N p fifo_empty"
proof -
  let ?q = "yqueue (al {}) bl"
  have rep: "yq_rep N ?q []" using yqueue_rep[OF assms(1)] .
  have "chunks ?q (al (dom (chunks ?q))) = None"
    using assms(2)[OF yq_rep_finite[OF rep]] by auto
  from yq_push_rep[OF rep this] obtain q' a v where
    q': "yq_push N (al (dom (chunks ?q))) bl ?q = Some q'" "yq_rep N q' ([] @ [(a, v)])" by blast
  have "yq_back_addr q' = Some a" using yq_back_rep(1)[OF q'(2)] by simp
  let ?p = "\<lparr>queue = q', w_ptr = Some a, r_ptr = Some a, f_ptr = Some a, c_ptr = Some a, alloc = al, blank = bl\<rparr>"
  have "ypipe N al bl = Some ?p"
    using q'(1) \<open>yq_back_addr q' = Some a\<close> by (simp add: ypipe_def queue_push_def Let_def)
  moreover have "ypipe_rep N ?p fifo_empty"
    using assms q'(2) by (intro ypipe_repI[where xs = "[(a, v)]" and t = v]) (simp_all add: fifo_empty_def)
  ultimately show ?thesis by blast
qed

end
