(* ===== verification/Ypipe_Threads.thy ===== *)
theory Ypipe_Threads
  imports Ypipe "HOL-Library.Sublist"
begin

text \<open>
  The pipe of \<open>src/src/ypipe.hpp\<close> between two threads: a writer and a reader whose steps interleave in any
  order. The only shared variable both change is \<open>c\<close>; \<open>flush\<close> is therefore split at its
  compare-and-swap: when that fails, the reader may run before the writer stores \<open>c\<close>. A reader that
  found the pipe empty waits for a signal, which the writer sends when \<open>flush\<close> returned false.
\<close>

section \<open>The two halves of \<open>flush\<close>\<close>

text \<open>The result is \<open>None\<close> when the compare-and-swap failed and \<open>c.set (f)\<close> is still to be done.\<close>

definition flush_cas :: "'a ypipe \<Rightarrow> 'a ypipe \<times> bool option" where
  "flush_cas p =
     (if w_ptr p = f_ptr p then (p, Some True)
      else case cas (c_ptr p) (w_ptr p) (f_ptr p) of (c, old) \<Rightarrow>
        if old \<noteq> w_ptr p then (p, None) else (p\<lparr>c_ptr := c, w_ptr := f_ptr p\<rparr>, Some True))"

definition flush_set :: "'a ypipe \<Rightarrow> 'a ypipe" where
  "flush_set p = p\<lparr>c_ptr := f_ptr p, w_ptr := f_ptr p\<rparr>"

lemma ypipe_flush_split:
  "ypipe_flush p = (case flush_cas p of (p', Some r) \<Rightarrow> (p', r) | (p', None) \<Rightarrow> (flush_set p', False))"
  by (auto simp: ypipe_flush_def flush_cas_def flush_set_def split: prod.splits)

section \<open>Interleaved steps\<close>

text \<open>
  \<open>pending\<close>, \<open>inp\<close> and \<open>out\<close> record what was written of an unfinished message, all items of complete
  messages written, and the items read.
\<close>

record 'a ysys =
  pipe :: "'a ypipe"
  setting :: bool
  signal :: bool
  blocked :: bool
  pending :: "'a list"
  inp :: "'a list"
  out :: "'a list"

inductive yp_step :: "nat \<Rightarrow> 'a ysys \<Rightarrow> 'a ysys \<Rightarrow> bool" for N where
  write_part: "\<not> setting y \<Longrightarrow> ypipe_write N v True (pipe y) = Some p \<Longrightarrow>
    yp_step N y (y\<lparr>pipe := p, pending := pending y @ [v]\<rparr>)"
| write_last: "\<not> setting y \<Longrightarrow> ypipe_write N v False (pipe y) = Some p \<Longrightarrow>
    yp_step N y (y\<lparr>pipe := p, inp := inp y @ pending y @ [v], pending := []\<rparr>)"
| unwrite: "\<not> setting y \<Longrightarrow> ypipe_unwrite N (pipe y) = Some (p, r) \<Longrightarrow>
    yp_step N y (y\<lparr>pipe := p, pending := (if r = None then pending y else butlast (pending y))\<rparr>)"
| flush: "\<not> setting y \<Longrightarrow> flush_cas (pipe y) = (p, Some r) \<Longrightarrow> yp_step N y (y\<lparr>pipe := p\<rparr>)"
| flush_fails: "\<not> setting y \<Longrightarrow> flush_cas (pipe y) = (p, None) \<Longrightarrow> yp_step N y (y\<lparr>pipe := p, setting := True\<rparr>)"
| flush_set: "setting y \<Longrightarrow> yp_step N y (y\<lparr>pipe := flush_set (pipe y), setting := False, signal := True\<rparr>)"
| check_read: "\<not> blocked y \<Longrightarrow> ypipe_check_read (pipe y) = (p, r) \<Longrightarrow> yp_step N y (y\<lparr>pipe := p, blocked := (\<not> r)\<rparr>)"
| read: "\<not> blocked y \<Longrightarrow> ypipe_read N (pipe y) = Some (p, r) \<Longrightarrow>
    yp_step N y (y\<lparr>pipe := p, out := (case r of None \<Rightarrow> out y | Some v \<Rightarrow> out y @ [v]), blocked := (r = None)\<rparr>)"
| wake: "signal y \<Longrightarrow> yp_step N y (y\<lparr>signal := False, blocked := False\<rparr>)"

definition ysys_init :: "'a ypipe \<Rightarrow> 'a ysys" where
  "ysys_init p = \<lparr>pipe = p, setting = False, signal = False, blocked = False, pending = [], inp = [], out = []\<rparr>"

inductive yp_reachable :: "nat \<Rightarrow> 'a ypipe \<Rightarrow> 'a ysys \<Rightarrow> bool" for N p where
  start: "yp_reachable N p (ysys_init p)"
| step: "yp_reachable N p y \<Longrightarrow> yp_step N y y' \<Longrightarrow> yp_reachable N p y'"

section \<open>Invariant\<close>

definition yp_inv :: "nat \<Rightarrow> 'a ysys \<Rightarrow> 'a fifo \<Rightarrow> bool" where
  "yp_inv N y s \<longleftrightarrow> ypipe_rep N (pipe y) s \<and> partial s = pending y \<and> out y @ flushed s @ staged s = inp y \<and>
     (setting y \<longrightarrow> asleep s \<and> staged s \<noteq> []) \<and> (asleep s \<longrightarrow> blocked y \<and> \<not> signal y) \<and>
     (blocked y \<longrightarrow> asleep s \<or> signal y) \<and> (signal y \<longrightarrow> blocked y)"

lemma ypipe_rep_staged: "ypipe_rep N p s \<Longrightarrow> w_ptr p = f_ptr p \<longleftrightarrow> staged s = []"
proof -
  assume "ypipe_rep N p s"
  then obtain xs t where "ypipe_slots N p s xs t" by (auto simp: ypipe_rep_def)
  note r = ypipe_slotsD[OF this]
  show ?thesis
    using yq_rep_nth_eq[OF r(3), of "length (flushed s)" "length (flushed s) + length (staged s)"] r(5-7) by auto
qed

lemma ypipe_rep_asleep:
  assumes "ypipe_rep N p s"
  shows "asleep s \<longleftrightarrow> c_ptr p \<noteq> w_ptr p" "asleep s \<Longrightarrow> flushed s = []"
proof -
  obtain xs t where "ypipe_slots N p s xs t" using assms by (auto simp: ypipe_rep_def)
  note r = ypipe_slotsD[OF this]
  show "asleep s \<longleftrightarrow> c_ptr p \<noteq> w_ptr p" using r(6,8) by (cases "asleep s") simp_all
  show "asleep s \<Longrightarrow> flushed s = []" by (rule r(9))
qed

text \<open>The compare-and-swap fails exactly when there is something to flush and the reader sleeps.\<close>

lemma flush_cas_sim:
  assumes "ypipe_rep N p s"
  shows "staged s \<noteq> [] \<and> asleep s \<longleftrightarrow> flush_cas p = (p, None)"
    "\<not> (staged s \<noteq> [] \<and> asleep s) \<Longrightarrow> \<exists>p'. flush_cas p = (p', Some True) \<and> ypipe_rep N p' (fst (fifo_flush s))"
proof -
  have "flush_cas p = (if staged s = [] then (p, Some True) else if asleep s then (p, None)
      else (p\<lparr>c_ptr := f_ptr p, w_ptr := f_ptr p\<rparr>, Some True))"
    using ypipe_rep_staged[OF assms] ypipe_rep_asleep(1)[OF assms] by (simp add: flush_cas_def cas_def)
  moreover from this ypipe_flush_sim[OF assms] show
    "\<not> (staged s \<noteq> [] \<and> asleep s) \<Longrightarrow> \<exists>p'. flush_cas p = (p', Some True) \<and> ypipe_rep N p' (fst (fifo_flush s))"
    by (auto simp: ypipe_flush_split split: if_splits)
  ultimately show "staged s \<noteq> [] \<and> asleep s \<longleftrightarrow> flush_cas p = (p, None)" by simp
qed

lemma flush_set_sim:
  assumes "ypipe_rep N p s" "staged s \<noteq> []" "asleep s"
  shows "ypipe_rep N (flush_set p) (fst (fifo_flush s))"
  using ypipe_flush_sim[OF assms(1)] flush_cas_sim(1)[OF assms(1)] assms(2,3)
  by (simp add: ypipe_flush_split)

lemma yp_step_inv:
  assumes "yp_step N y y'" "yp_inv N y s"
  shows "\<exists>s'. yp_inv N y' s'"
  using assms
proof (induction rule: yp_step.induct)
  case (write_part y v p)
  then have "ypipe_rep N p (fifo_write v True s)"
    using ypipe_write_sim[of N "pipe y" s v True] by (auto simp: yp_inv_def)
  with write_part show ?case by (intro exI[of _ "fifo_write v True s"]) (auto simp: yp_inv_def fifo_write_def)
next
  case (write_last y v p)
  then have "ypipe_rep N p (fifo_write v False s)"
    using ypipe_write_sim[of N "pipe y" s v False] by (auto simp: yp_inv_def)
  with write_last show ?case by (intro exI[of _ "fifo_write v False s"]) (auto simp: yp_inv_def fifo_write_def)
next
  case (unwrite y p r)
  then have "ypipe_rep N p (fst (fifo_unwrite s))" "r = snd (fifo_unwrite s)"
    using ypipe_unwrite_sim[of N "pipe y" s] by (auto simp: yp_inv_def)
  with unwrite show ?case by (intro exI[of _ "fst (fifo_unwrite s)"]) (auto simp: yp_inv_def fifo_unwrite_def)
next
  case (flush y p r)
  then have rep: "ypipe_rep N (pipe y) s" by (simp add: yp_inv_def)
  have na: "\<not> (staged s \<noteq> [] \<and> asleep s)" using flush_cas_sim(1)[OF rep] flush(2) by auto
  with flush_cas_sim(2)[OF rep] flush(2) have "ypipe_rep N p (fst (fifo_flush s))" by auto
  with flush na show ?case by (intro exI[of _ "fst (fifo_flush s)"]) (auto simp: yp_inv_def fifo_flush_def)
next
  case (flush_fails y p)
  then have rep: "ypipe_rep N (pipe y) s" by (simp add: yp_inv_def)
  have st: "staged s \<noteq> [] \<and> asleep s" "p = pipe y"
    using flush_cas_sim[OF rep] flush_fails(2) by (cases "staged s \<noteq> [] \<and> asleep s"; auto)+
  with flush_fails show ?case by (intro exI[of _ s]) (auto simp: yp_inv_def)
next
  case (flush_set y)
  then have "ypipe_rep N (Ypipe_Threads.flush_set (pipe y)) (fst (fifo_flush s))"
    by (intro flush_set_sim) (auto simp: yp_inv_def)
  with flush_set show ?case by (intro exI[of _ "fst (fifo_flush s)"]) (auto simp: yp_inv_def fifo_flush_def)
next
  case (check_read y p r)
  then have rep: "ypipe_rep N (pipe y) s" by (simp add: yp_inv_def)
  with ypipe_check_read_sim[OF rep] check_read(2)
  have "ypipe_rep N p (fst (fifo_check_read s))" "r = snd (fifo_check_read s)" by auto
  with check_read show ?case
    by (intro exI[of _ "fst (fifo_check_read s)"]) (auto simp: yp_inv_def fifo_check_read_def)
next
  case (read y p r)
  then have "ypipe_rep N p (fst (fifo_read s))" "r = snd (fifo_read s)"
    using ypipe_read_sim[of N "pipe y" s] by (auto simp: yp_inv_def)
  with read show ?case
    by (intro exI[of _ "fst (fifo_read s)"]) (auto simp: yp_inv_def fifo_read_def split: list.splits)
next
  case (wake y)
  then show ?case by (intro exI[of _ s]) (auto simp: yp_inv_def)
qed

lemma yp_reachable_inv:
  assumes "yp_reachable N p y" "ypipe N al bl = Some p" "0 < N" "\<And>A. finite A \<Longrightarrow> al A \<notin> A"
  shows "\<exists>s. yp_inv N y s"
  using assms(1)
proof (induction rule: yp_reachable.induct)
  case start
  have "ypipe_rep N p fifo_empty" using ypipe_create[OF assms(3,4), of bl] assms(2) by auto
  then show ?case by (intro exI[of _ fifo_empty]) (simp add: yp_inv_def ysys_init_def fifo_empty_def)
next
  case (step y y')
  then show ?case using yp_step_inv by blast
qed

section \<open>Properties\<close>


text \<open>
  Claim C10. No lost wake-up: whenever the reader waits and no signal is on its way, it has read
  everything that was flushed; if all complete messages are flushed it has read all of them; and
  if some are not, the compare-and-swap of the next \<open>flush\<close> fails, so that the writer will send the signal.
\<close>

theorem ypipe_no_lost_wakeup:
  assumes "ypipe N al bl = Some p" "0 < N" "\<forall>A. finite A \<longrightarrow> al A \<notin> A" "yp_reachable N p y"
    "blocked y" "\<not> signal y"
  shows "if w_ptr (pipe y) = f_ptr (pipe y) then out y = inp y
    else flush_cas (pipe y) = (pipe y, None) \<and> snd (ypipe_flush (pipe y)) = False"
proof -
  from yp_reachable_inv[OF assms(4,1,2)] assms(3) obtain s where inv: "yp_inv N y s" by blast
  then have rep: "ypipe_rep N (pipe y) s" and io: "out y @ flushed s @ staged s = inp y" and "asleep s"
    using assms(5,6) by (auto simp: yp_inv_def)
  with ypipe_rep_asleep(2)[OF rep] ypipe_rep_staged[OF rep] flush_cas_sim(1)[OF rep] show ?thesis
    by (auto simp: ypipe_flush_split)
qed

text \<open>A fresh pipe whose reader has looked at it once.\<close>

definition demo_alloc :: "nat set \<Rightarrow> nat" where
  "demo_alloc A = Suc (Max (insert 0 A))"

lemma demo_alloc_fresh: "\<forall>A. finite A \<longrightarrow> demo_alloc A \<notin> A"
proof (intro allI impI notI)
  fix A :: "nat set"
  assume "finite A" "demo_alloc A \<in> A"
  then have "demo_alloc A \<le> Max (insert 0 A)" by (intro Max_ge) simp_all
  then show False by (simp add: demo_alloc_def)
qed

definition demo_chunk :: "nat chunk" where
  "demo_chunk = \<lparr>vals = (\<lambda>_. 0), prev = None, nxt = None\<rparr>"

lemma demo_pipe:
  obtains p where "ypipe 256 demo_alloc demo_chunk = Some p" "snd (ypipe_check_read p) = False"
proof -
  obtain p where p: "ypipe 256 demo_alloc demo_chunk = Some p" "ypipe_rep 256 p fifo_empty"
    using ypipe_create[of 256 demo_alloc demo_chunk] demo_alloc_fresh by auto
  have "snd (ypipe_check_read p) = False"
    using ypipe_check_read_sim[OF p(2)] by (simp add: fifo_check_read_def fifo_empty_def)
  with p(1) that show thesis by blast
qed


theorem ypipe_no_lost_wakeup_witness:
  "\<exists>p y. ypipe 256 demo_alloc demo_chunk = Some p \<and> yp_reachable 256 p y \<and> blocked y \<and> \<not> signal y \<and>
    (if w_ptr (pipe y) = f_ptr (pipe y) then out y = inp y
     else flush_cas (pipe y) = (pipe y, None) \<and> snd (ypipe_flush (pipe y)) = False)"
proof -
  obtain p where p: "ypipe 256 demo_alloc demo_chunk = Some p" "snd (ypipe_check_read p) = False"
    using demo_pipe by blast
  let ?y = "(ysys_init p)\<lparr>pipe := fst (ypipe_check_read p), blocked := (\<not> False)\<rparr>"
  have "yp_step 256 (ysys_init p) ?y"
    using p(2) by (intro yp_step.check_read) (simp_all add: ysys_init_def prod_eq_iff)
  then have r: "yp_reachable 256 p ?y" by (rule yp_reachable.step[OF yp_reachable.start])
  have "blocked ?y" "\<not> signal ?y" by (simp_all add: ysys_init_def)
  with ypipe_no_lost_wakeup[OF p(1) _ demo_alloc_fresh r] p r show ?thesis by (intro exI[of _ p] exI[of _ ?y]) simp
qed

end
