(* ===== verification/Ypipe_Conflate.thy ===== *)
theory Ypipe_Conflate
  imports Msg_View
begin

text \<open>
  Model of \<open>src/src/ypipe_conflate.hpp\<close> and of the double buffer \<open>src/src/dbuffer.hpp\<close> it adapts: a pipe that keeps
  only the last message. \<open>storage\<close> are the two messages, \<open>front_ix\<close> tells which of them the
  pointer \<open>front\<close> refers to (\<open>back\<close> is the other one). A write swaps the buffers when it
  gets the mutex; \<open>locked\<close> tells that the reader holds it.
\<close>

section \<open>Double buffer\<close>

record dbuffer =
  storage :: "msg \<times> msg"
  front_ix :: bool
  has_msg :: bool

definition dbuffer_t :: dbuffer where
  "dbuffer_t = \<lparr>storage = (empty_msg, empty_msg), front_ix = True, has_msg = False\<rparr>"

definition db_get :: "bool \<Rightarrow> dbuffer \<Rightarrow> msg" where
  "db_get ix b = (if ix then snd (storage b) else fst (storage b))"

definition db_set :: "bool \<Rightarrow> msg \<Rightarrow> dbuffer \<Rightarrow> dbuffer" where
  "db_set ix m b = b\<lparr>storage := (if ix then (fst (storage b), m) else (m, snd (storage b)))\<rparr>"

text \<open>\<open>back->move (xvalue)\<close>, then the swap if \<open>try_lock\<close> succeeds.\<close>

definition dbuffer_write :: "bool \<Rightarrow> msg \<Rightarrow> dbuffer \<Rightarrow> dbuffer" where
  "dbuffer_write locked v b =
     (let b1 = db_set (\<not> front_ix b) v b in
      if \<not> locked then b1\<lparr>front_ix := \<not> front_ix b1, has_msg := True\<rparr> else b1)"

definition dbuffer_read :: "dbuffer \<Rightarrow> dbuffer \<times> msg option" where
  "dbuffer_read b = (if \<not> has_msg b then (b, None)
     else ((db_set (front_ix b) empty_msg b)\<lparr>has_msg := False\<rparr>, Some (db_get (front_ix b) b)))"

definition dbuffer_check_read :: "dbuffer \<Rightarrow> bool" where
  "dbuffer_check_read b = has_msg b"

definition dbuffer_probe :: "(msg \<Rightarrow> bool) \<Rightarrow> dbuffer \<Rightarrow> bool" where
  "dbuffer_probe fn b = fn (db_get (front_ix b) b)"

section \<open>Conflating pipe\<close>

record ypipe_conflate =
  dbuf :: dbuffer
  reader_awake :: bool

definition ypipe_conflate_t :: ypipe_conflate where
  "ypipe_conflate_t = \<lparr>dbuf = dbuffer_t, reader_awake = False\<rparr>"

definition conflate_write :: "bool \<Rightarrow> msg \<Rightarrow> bool \<Rightarrow> ypipe_conflate \<Rightarrow> ypipe_conflate" where
  "conflate_write locked v incomplete p = p\<lparr>dbuf := dbuffer_write locked v (dbuf p)\<rparr>"

definition conflate_unwrite :: "ypipe_conflate \<Rightarrow> ypipe_conflate \<times> msg option" where
  "conflate_unwrite p = (p, None)"

definition conflate_flush :: "ypipe_conflate \<Rightarrow> ypipe_conflate \<times> bool" where
  "conflate_flush p = (p, reader_awake p)"

definition conflate_check_read :: "ypipe_conflate \<Rightarrow> ypipe_conflate \<times> bool" where
  "conflate_check_read p =
     (let res = dbuffer_check_read (dbuf p) in
      (if \<not> res then p\<lparr>reader_awake := False\<rparr> else p, res))"

definition conflate_read :: "ypipe_conflate \<Rightarrow> ypipe_conflate \<times> msg option" where
  "conflate_read p =
     (case conflate_check_read p of
        (p1, False) \<Rightarrow> (p1, None)
      | (p1, True) \<Rightarrow> (case dbuffer_read (dbuf p1) of (b, r) \<Rightarrow> (p1\<lparr>dbuf := b\<rparr>, r)))"

definition conflate_probe :: "(msg \<Rightarrow> bool) \<Rightarrow> ypipe_conflate \<Rightarrow> bool" where
  "conflate_probe fn p = dbuffer_probe fn (dbuf p)"

section \<open>Runs\<close>

datatype conflate_op = Cwrite bool msg bool | Cunwrite | Cflush | Ccheck_read | Cread

fun conflate_step :: "conflate_op \<Rightarrow> ypipe_conflate \<Rightarrow> ypipe_conflate" where
  "conflate_step (Cwrite locked v i) p = conflate_write locked v i p"
| "conflate_step Cunwrite p = fst (conflate_unwrite p)"
| "conflate_step Cflush p = fst (conflate_flush p)"
| "conflate_step Ccheck_read p = fst (conflate_check_read p)"
| "conflate_step Cread p = fst (conflate_read p)"

definition conflate_run :: "conflate_op list \<Rightarrow> ypipe_conflate" where
  "conflate_run ops = fold conflate_step ops ypipe_conflate_t"

text \<open>The message a reader should get: the last one whose write got the mutex and that was not read since.\<close>

fun latest :: "conflate_op list \<Rightarrow> msg option \<Rightarrow> msg option" where
  "latest [] l = l"
| "latest (Cwrite locked v i # ops) l = latest ops (if locked then l else Some v)"
| "latest (Cread # ops) l = latest ops None"
| "latest (op # ops) l = latest ops l"

definition conflate_rep :: "msg option \<Rightarrow> ypipe_conflate \<Rightarrow> bool" where
  "conflate_rep l p \<longleftrightarrow> \<not> reader_awake p \<and>
     (case l of None \<Rightarrow> \<not> has_msg (dbuf p) | Some v \<Rightarrow> has_msg (dbuf p) \<and> db_get (front_ix (dbuf p)) (dbuf p) = v)"

lemmas conflate_defs = conflate_write_def conflate_unwrite_def conflate_flush_def conflate_check_read_def
  conflate_read_def dbuffer_write_def dbuffer_read_def dbuffer_check_read_def db_get_def db_set_def Let_def

lemma conflate_step_rep: "conflate_rep l p \<Longrightarrow> conflate_rep (latest [op] l) (conflate_step op p)"
  by (cases op) (auto simp: conflate_rep_def conflate_defs split: option.splits)

lemma latest_append: "latest (ops @ ops') l = latest ops' (latest ops l)"
  by (induction ops l rule: latest.induct) auto

lemma conflate_run_rep: "conflate_rep (latest ops None) (conflate_run ops)"
proof (induction ops rule: rev_induct)
  case Nil
  show ?case by (simp add: conflate_rep_def conflate_run_def ypipe_conflate_t_def dbuffer_t_def)
next
  case (snoc op ops)
  from conflate_step_rep[OF snoc, of op] show ?case
    by (simp add: conflate_run_def latest_append)
qed

text \<open>
  A conflating pipe delivers the most recent message: after any sequence of operations a read
  returns the last message whose write got the mutex, if it has not been read yet, and nothing
  otherwise. Its \<open>flush\<close> always asks for a wake-up of the reader: although \<open>reader_awake\<close> is
  meant to mimic the sleeping state of the ordinary pipe, no operation ever sets it.
\<close>

theorem conflate_latest:
  "snd (conflate_read (conflate_run ops)) = latest ops None \<and> snd (conflate_flush (conflate_run ops)) = False"
  using conflate_run_rep[of ops]
  by (auto simp: conflate_rep_def conflate_defs split: option.splits)

end
