(* ===== verification/Pipe.thy ===== *)
theory Pipe
  imports Ypipe Ypipe_Conflate "HOL-Library.Monad_Syntax"
begin

text \<open>
  Model of \<open>src/src/pipe.cpp\<close> and \<open>pipe.hpp\<close>: the pair of pipe objects created by \<open>pipepair\<close>, which live
  in two threads, read and write the two underlying pipes (\<open>upipe_t\<close>) and send each other commands
  (\<open>object.cpp\<close>). The world has the two objects (\<open>None\<close> once deallocated), the underlying pipes by
  address, the commands on their way to each object, in order, and the events reported to the sinks.

  An underlying pipe is the specification \<open>fifo\<close> that \<open>ypipe_t\<close> implements, or a conflating pipe. An
  operation is \<open>None\<close> when a \<open>zmq_assert\<close> is violated or a pointer is NULL or dangling.
\<close>

unbundle bit_operations_syntax

section \<open>State\<close>

datatype upipe = Normal "msg fifo" | Conflate ypipe_conflate

datatype pipe_state =
    Active | Delimiter_received | Waiting_for_delimiter
  | Term_ack_sent | Term_req_sent1 | Term_req_sent2

datatype side = P0 | P1

fun other :: "side \<Rightarrow> side" where
  "other P0 = P1"
| "other P1 = P0"

lemma other_other [simp]: "other (other s) = s" and other_neq [simp]: "other s \<noteq> s" "s \<noteq> other s"
  by (cases s; simp)+

lemma other_cases: "(t :: side) = s \<or> t = other s"
  by (cases s; cases t) simp_all

record pipe_t =
  inpipe :: "nat option"
  outpipe :: "nat option"
  in_active :: bool
  out_active :: bool
  hwm :: int
  lwm :: int
  inhwmboost :: int
  outhwmboost :: int
  msgs_read :: "64 word"
  msgs_written :: "64 word"
  peers_msgs_read :: "64 word"
  state :: pipe_state
  delay :: bool
  identity :: "byte list"
  routing_id :: "32 word"
  credential :: "byte list"
  conflate :: bool
  has_sink :: bool

datatype command = Activate_read | Activate_write "64 word" | Hiccup nat | Pipe_term | Pipe_term_ack

datatype event = Read_activated | Write_activated | Hiccuped | Pipe_terminated

record world =
  pipes :: "side \<Rightarrow> pipe_t option"
  upipes :: "nat \<Rightarrow> upipe option"
  next_up :: nat
  cmds :: "side \<Rightarrow> command list"
  events :: "(side \<times> event) list"

definition upd :: "side \<Rightarrow> (pipe_t \<Rightarrow> pipe_t) \<Rightarrow> world \<Rightarrow> world" where
  "upd s f w = w\<lparr>pipes := (pipes w)(s := map_option f (pipes w s))\<rparr>"

definition put_up :: "nat \<Rightarrow> upipe \<Rightarrow> world \<Rightarrow> world" where
  "put_up a u w = w\<lparr>upipes := (upipes w)(a \<mapsto> u)\<rparr>"

text \<open>\<open>send_activate_read (peer)\<close> and the other \<open>send\<close> functions of \<open>object_t\<close>.\<close>

definition send_peer :: "side \<Rightarrow> command \<Rightarrow> world \<Rightarrow> world" where
  "send_peer s c w = w\<lparr>cmds := (cmds w)(other s := cmds w (other s) @ [c])\<rparr>"

definition notify :: "side \<Rightarrow> event \<Rightarrow> world \<Rightarrow> world" where
  "notify s e w = w\<lparr>events := events w @ [(s, e)]\<rparr>"

section \<open>Underlying pipes\<close>

fun up_write :: "msg \<Rightarrow> bool \<Rightarrow> upipe \<Rightarrow> upipe" where
  "up_write m i (Normal q) = Normal (fifo_write m i q)"
| "up_write m i (Conflate c) = Conflate (conflate_write False m i c)"

fun up_unwrite :: "upipe \<Rightarrow> upipe \<times> msg option" where
  "up_unwrite (Normal q) = apfst Normal (fifo_unwrite q)"
| "up_unwrite (Conflate c) = apfst Conflate (conflate_unwrite c)"

fun up_flush :: "upipe \<Rightarrow> upipe \<times> bool" where
  "up_flush (Normal q) = apfst Normal (fifo_flush q)"
| "up_flush (Conflate c) = apfst Conflate (conflate_flush c)"

fun up_check_read :: "upipe \<Rightarrow> upipe \<times> bool" where
  "up_check_read (Normal q) = apfst Normal (fifo_check_read q)"
| "up_check_read (Conflate c) = apfst Conflate (conflate_check_read c)"

fun up_read :: "upipe \<Rightarrow> upipe \<times> msg option" where
  "up_read (Normal q) = apfst Normal (fifo_read q)"
| "up_read (Conflate c) = apfst Conflate (conflate_read c)"

fun up_probe :: "(msg \<Rightarrow> bool) \<Rightarrow> upipe \<Rightarrow> bool option" where
  "up_probe fn (Normal q) = (if flushed q = [] then None else Some (fn (hd (flushed q))))"
| "up_probe fn (Conflate c) = Some (conflate_probe fn c)"

definition new_upipe :: "bool \<Rightarrow> upipe" where
  "new_upipe confl = (if confl then Conflate ypipe_conflate_t else Normal fifo_empty)"

text \<open>How many reads can succeed.\<close>

fun up_size :: "upipe \<Rightarrow> nat" where
  "up_size (Normal q) = length (flushed q)"
| "up_size (Conflate c) = (if has_msg (dbuf c) then 1 else 0)"

lemma up_read_size: "up_read u = (u', Some m) \<Longrightarrow> up_size u' < up_size u"
  by (cases u) (auto simp: fifo_read_def conflate_defs db_set_def split: list.splits if_splits prod.splits)

section \<open>Creation\<close>

definition compute_lwm :: "int \<Rightarrow> int" where
  "compute_lwm h = (if 0 \<le> h + 1 then (h + 1) div 2 else - ((- (h + 1)) div 2))"

definition new_pipe :: "nat \<Rightarrow> nat \<Rightarrow> int \<Rightarrow> int \<Rightarrow> bool \<Rightarrow> pipe_t" where
  "new_pipe ip op inhwm outhwm confl =
     \<lparr>inpipe = Some ip, outpipe = Some op, in_active = True, out_active = True, hwm = outhwm,
      lwm = compute_lwm inhwm, inhwmboost = 0, outhwmboost = 0, msgs_read = 0, msgs_written = 0,
      peers_msgs_read = 0, state = Active, delay = True, identity = [], routing_id = 0,
      credential = [], conflate = confl, has_sink = False\<rparr>"

definition pipepair :: "int \<Rightarrow> int \<Rightarrow> bool \<Rightarrow> bool \<Rightarrow> world" where
  "pipepair hwm0 hwm1 confl0 confl1 =
     \<lparr>pipes = (\<lambda>s. Some (case s of P0 \<Rightarrow> new_pipe 0 1 hwm1 hwm0 confl0 | P1 \<Rightarrow> new_pipe 1 0 hwm0 hwm1 confl1)),
      upipes = [0 \<mapsto> new_upipe confl0, 1 \<mapsto> new_upipe confl1], next_up = 2, cmds = (\<lambda>_. []), events = []\<rparr>"

definition set_event_sink :: "side \<Rightarrow> world \<Rightarrow> world option" where
  "set_event_sink s w = do {
     p \<leftarrow> pipes w s;
     if has_sink p then None else Some (upd s (\<lambda>p. p\<lparr>has_sink := True\<rparr>) w) }"

definition pipe_set_routing_id :: "32 word \<Rightarrow> pipe_t \<Rightarrow> pipe_t" where
  "pipe_set_routing_id r p = p\<lparr>routing_id := r\<rparr>"

definition pipe_set_identity :: "byte list \<Rightarrow> pipe_t \<Rightarrow> pipe_t" where
  "pipe_set_identity i p = p\<lparr>identity := i\<rparr>"

definition set_nodelay :: "pipe_t \<Rightarrow> pipe_t" where
  "set_nodelay p = p\<lparr>delay := False\<rparr>"

section \<open>Reading\<close>

definition pipe_is_delimiter :: "msg \<Rightarrow> bool" where
  "pipe_is_delimiter m \<longleftrightarrow> kind m = Kdelimiter"

definition process_delimiter :: "side \<Rightarrow> world \<Rightarrow> world option" where
  "process_delimiter s w = do {
     p \<leftarrow> pipes w s;
     if state p = Active then Some (upd s (\<lambda>p. p\<lparr>state := Delimiter_received\<rparr>) w)
     else if state p = Waiting_for_delimiter then
       Some (send_peer s Pipe_term_ack (upd s (\<lambda>p. p\<lparr>outpipe := None, state := Term_ack_sent\<rparr>) w))
     else None }"

definition readable :: "pipe_t \<Rightarrow> bool" where
  "readable p \<longleftrightarrow> in_active p \<and> (state p = Active \<or> state p = Waiting_for_delimiter)"

definition pipe_check_read :: "side \<Rightarrow> world \<Rightarrow> (world \<times> bool) option" where
  "pipe_check_read s w = do {
     p \<leftarrow> pipes w s;
     if \<not> readable p then Some (w, False)
     else do {
       a \<leftarrow> inpipe p;
       u \<leftarrow> upipes w a;
       let (u1, ok) = up_check_read u;
       let w1 = put_up a u1 w;
       if \<not> ok then Some (upd s (\<lambda>p. p\<lparr>in_active := False\<rparr>) w1, False)
       else do {
         d \<leftarrow> up_probe pipe_is_delimiter u1;
         if d then do {
           let (u2, r) = up_read u1;
           if r = None then None
           else do {
             w2 \<leftarrow> process_delimiter s (put_up a u2 w1);
             Some (w2, False) } }
         else Some (w1, True) } } }"

text \<open>
  The loop of \<open>read\<close> (\<open>goto read_message\<close>), which skips credential frames: the underlying pipe, the
  credential and the message read, if any.
\<close>

function read_message :: "upipe \<Rightarrow> byte list \<Rightarrow> upipe \<times> byte list \<times> msg option" where
  "read_message u cred =
     (case up_read u of
        (u1, None) \<Rightarrow> (u1, cred, None)
      | (u1, Some m) \<Rightarrow> if has_credential m then read_message u1 (mdata m) else (u1, cred, Some m))"
  by pat_completeness auto
termination
  by (relation "measure (\<lambda>(u, cred). up_size u)") (auto dest!: sym[of _ "up_read _"] up_read_size)

declare read_message.simps [simp del]

text \<open>The counting of a message that was read, and the notification of the writer.\<close>

definition count_read :: "side \<Rightarrow> msg \<Rightarrow> pipe_t \<Rightarrow> world \<Rightarrow> world" where
  "count_read s m p w =
     (let n = (if \<not> has_more m \<and> \<not> has_identity m then msgs_read p + 1 else msgs_read p);
          w1 = upd s (\<lambda>p. p\<lparr>msgs_read := n\<rparr>) w
      in if lwm p > 0 \<and> n mod of_int (lwm p) = 0 then send_peer s (Activate_write n) w1 else w1)"

definition pipe_read :: "side \<Rightarrow> world \<Rightarrow> (world \<times> msg option) option" where
  "pipe_read s w = do {
     p \<leftarrow> pipes w s;
     if \<not> readable p then Some (w, None)
     else do {
       a \<leftarrow> inpipe p;
       u \<leftarrow> upipes w a;
       let (u1, cred, r) = read_message u (credential p);
       let w1 = upd s (\<lambda>p. p\<lparr>credential := cred\<rparr>) (put_up a u1 w);
       (case r of
          None \<Rightarrow> Some (upd s (\<lambda>p. p\<lparr>in_active := False\<rparr>) w1, None)
        | Some m \<Rightarrow>
            if pipe_is_delimiter m then do { w2 \<leftarrow> process_delimiter s w1; Some (w2, None) }
            else Some (count_read s m p w1, Some m)) } }"

section \<open>Writing\<close>

definition check_hwm :: "pipe_t \<Rightarrow> bool" where
  "check_hwm p = (\<not> (hwm p > 0 \<and> msgs_written p - peers_msgs_read p \<ge> of_int (hwm p)))"

definition pipe_check_write :: "side \<Rightarrow> world \<Rightarrow> (world \<times> bool) option" where
  "pipe_check_write s w = do {
     p \<leftarrow> pipes w s;
     if \<not> out_active p \<or> state p \<noteq> Active then Some (w, False)
     else if \<not> check_hwm p then Some (upd s (\<lambda>p. p\<lparr>out_active := False\<rparr>) w, False)
     else Some (w, True) }"

definition pipe_write :: "side \<Rightarrow> msg \<Rightarrow> world \<Rightarrow> (world \<times> bool) option" where
  "pipe_write s m w = do {
     (w1, ok) \<leftarrow> pipe_check_write s w;
     if \<not> ok then Some (w1, False)
     else do {
       p \<leftarrow> pipes w1 s;
       a \<leftarrow> outpipe p;
       u \<leftarrow> upipes w1 a;
       let w2 = put_up a (up_write m (has_more m) u) w1;
       Some (if \<not> has_more m \<and> \<not> has_identity m
             then upd s (\<lambda>p. p\<lparr>msgs_written := msgs_written p + 1\<rparr>) w2 else w2, True) } }"

text \<open>\<open>while (outpipe->unwrite (&msg))\<close>; \<open>None\<close> when the \<open>zmq_assert\<close> on the flag \<open>more\<close> fails.\<close>

fun up_partial :: "upipe \<Rightarrow> nat" where
  "up_partial (Normal q) = length (partial q)"
| "up_partial (Conflate c) = 0"

lemma up_unwrite_partial: "up_unwrite u = (u', Some m) \<Longrightarrow> up_partial u' < up_partial u"
  by (cases u) (auto simp: fifo_unwrite_def conflate_defs split: if_splits)

function unwrite_all :: "upipe \<Rightarrow> upipe option" where
  "unwrite_all u =
     (case up_unwrite u of
        (u1, None) \<Rightarrow> Some u1
      | (u1, Some m) \<Rightarrow> if has_more m then unwrite_all u1 else None)"
  by pat_completeness auto
termination
  by (relation "measure up_partial") (auto dest!: sym[of _ "up_unwrite _"] up_unwrite_partial)

declare unwrite_all.simps [simp del]

definition pipe_rollback :: "side \<Rightarrow> world \<Rightarrow> world option" where
  "pipe_rollback s w = do {
     p \<leftarrow> pipes w s;
     (case outpipe p of
        None \<Rightarrow> Some w
      | Some a \<Rightarrow> do { u \<leftarrow> upipes w a; u1 \<leftarrow> unwrite_all u; Some (put_up a u1 w) }) }"

definition pipe_flush :: "side \<Rightarrow> world \<Rightarrow> world option" where
  "pipe_flush s w = do {
     p \<leftarrow> pipes w s;
     if state p = Term_ack_sent then Some w
     else (case outpipe p of
        None \<Rightarrow> Some w
      | Some a \<Rightarrow> do {
          u \<leftarrow> upipes w a;
          let (u1, ok) = up_flush u;
          let w1 = put_up a u1 w;
          Some (if ok then w1 else send_peer s Activate_read w1) }) }"

section \<open>Command handlers\<close>

definition process_activate_read :: "side \<Rightarrow> world \<Rightarrow> world option" where
  "process_activate_read s w = do {
     p \<leftarrow> pipes w s;
     Some (if \<not> in_active p \<and> (state p = Active \<or> state p = Waiting_for_delimiter)
           then notify s Read_activated (upd s (\<lambda>p. p\<lparr>in_active := True\<rparr>) w) else w) }"

definition process_activate_write :: "side \<Rightarrow> 64 word \<Rightarrow> world \<Rightarrow> world option" where
  "process_activate_write s n w = do {
     p \<leftarrow> pipes w s;
     let w1 = upd s (\<lambda>p. p\<lparr>peers_msgs_read := n\<rparr>) w;
     Some (if \<not> out_active p \<and> state p = Active
           then notify s Write_activated (upd s (\<lambda>p. p\<lparr>out_active := True\<rparr>) w1) else w1) }"

text \<open>The messages \<open>process_hiccup\<close> drops: how many of them it takes off \<open>msgs_written\<close>.\<close>

function drop_all :: "upipe \<Rightarrow> 64 word \<Rightarrow> 64 word" where
  "drop_all u n =
     (case up_read u of
        (u1, None) \<Rightarrow> n
      | (u1, Some m) \<Rightarrow> drop_all u1 (if \<not> has_more m then n - 1 else n))"
  by pat_completeness auto
termination
  by (relation "measure (\<lambda>(u, n). up_size u)") (auto dest!: sym[of _ "up_read _"] up_read_size)

declare drop_all.simps [simp del]

definition process_hiccup :: "side \<Rightarrow> nat \<Rightarrow> world \<Rightarrow> world option" where
  "process_hiccup s b w = do {
     p \<leftarrow> pipes w s;
     a \<leftarrow> outpipe p;
     u \<leftarrow> upipes w a;
     let n = drop_all (fst (up_flush u)) (msgs_written p);
     let w1 = w\<lparr>upipes := (upipes w)(a := None)\<rparr>;
     let w2 = upd s (\<lambda>p. p\<lparr>msgs_written := n, outpipe := Some b, out_active := True\<rparr>) w1;
     Some (if state p = Active then notify s Hiccuped w2 else w2) }"

definition process_pipe_term :: "side \<Rightarrow> world \<Rightarrow> world option" where
  "process_pipe_term s w = do {
     p \<leftarrow> pipes w s;
     (case state p of
        Active \<Rightarrow>
          if delay p then Some (upd s (\<lambda>p. p\<lparr>state := Waiting_for_delimiter\<rparr>) w)
          else Some (send_peer s Pipe_term_ack (upd s (\<lambda>p. p\<lparr>state := Term_ack_sent, outpipe := None\<rparr>) w))
      | Delimiter_received \<Rightarrow>
          Some (send_peer s Pipe_term_ack (upd s (\<lambda>p. p\<lparr>state := Term_ack_sent, outpipe := None\<rparr>) w))
      | Term_req_sent1 \<Rightarrow>
          Some (send_peer s Pipe_term_ack (upd s (\<lambda>p. p\<lparr>state := Term_req_sent2, outpipe := None\<rparr>) w))
      | _ \<Rightarrow> None) }"

definition process_pipe_term_ack :: "side \<Rightarrow> world \<Rightarrow> world option" where
  "process_pipe_term_ack s w = do {
     p \<leftarrow> pipes w s;
     if \<not> has_sink p then None
     else do {
       let w1 = notify s Pipe_terminated w;
       w2 \<leftarrow> (if state p = Term_req_sent1
              then Some (send_peer s Pipe_term_ack (upd s (\<lambda>p. p\<lparr>outpipe := None\<rparr>) w1))
              else if state p = Term_ack_sent \<or> state p = Term_req_sent2 then Some w1 else None);
       a \<leftarrow> inpipe p;
       u \<leftarrow> upipes w2 a;
       Some (w2\<lparr>upipes := (upipes w2)(a := None), pipes := (pipes w2)(s := None)\<rparr>) } }"

section \<open>Control\<close>

definition pipe_terminate :: "side \<Rightarrow> bool \<Rightarrow> world \<Rightarrow> world option" where
  "pipe_terminate s dly w0 = do {
     p \<leftarrow> pipes w0 s;
     let w = upd s (\<lambda>p. p\<lparr>delay := dly\<rparr>) w0;
     if state p = Term_req_sent1 \<or> state p = Term_req_sent2 \<or> state p = Term_ack_sent then Some w
     else do {
       let w1 = (if state p = Active \<or> state p = Delimiter_received
                 then upd s (\<lambda>p. p\<lparr>state := Term_req_sent1\<rparr>) (send_peer s Pipe_term w)
                 else if \<not> dly
                 then upd s (\<lambda>p. p\<lparr>outpipe := None, state := Term_ack_sent\<rparr>) (send_peer s Pipe_term_ack w)
                 else w);
       let w2 = upd s (\<lambda>p. p\<lparr>out_active := False\<rparr>) w1;
       p2 \<leftarrow> pipes w2 s;
       (case outpipe p2 of
          None \<Rightarrow> Some w2
        | Some a \<Rightarrow> do {
            w3 \<leftarrow> pipe_rollback s w2;
            u \<leftarrow> upipes w3 a;
            pipe_flush s (put_up a (up_write delimiter_msg False u) w3) }) } }"

definition pipe_hiccup :: "side \<Rightarrow> world \<Rightarrow> world option" where
  "pipe_hiccup s w = do {
     p \<leftarrow> pipes w s;
     if state p \<noteq> Active then Some w
     else do {
       let a = next_up w;
       let w1 = put_up a (new_upipe (conflate p)) (w\<lparr>next_up := a + 1\<rparr>);
       Some (send_peer s (Hiccup a) (upd s (\<lambda>p. p\<lparr>inpipe := Some a, in_active := True\<rparr>) w1)) } }"

definition set_hwms :: "int \<Rightarrow> int \<Rightarrow> pipe_t \<Rightarrow> pipe_t" where
  "set_hwms inhwm outhwm p =
     (let i = (if inhwm \<le> 0 \<or> inhwmboost p \<le> 0 then 0 else inhwm + inhwmboost p);
          out = (if outhwm \<le> 0 \<or> outhwmboost p \<le> 0 then 0 else outhwm + outhwmboost p)
      in p\<lparr>lwm := compute_lwm i, hwm := out\<rparr>)"

definition set_hwms_boost :: "int \<Rightarrow> int \<Rightarrow> pipe_t \<Rightarrow> pipe_t" where
  "set_hwms_boost i out p = p\<lparr>inhwmboost := i, outhwmboost := out\<rparr>"

text \<open>\<open>object_t::process_command\<close> on the commands of pipes: the next command of the mailbox.\<close>

definition process_command :: "side \<Rightarrow> world \<Rightarrow> world option" where
  "process_command s w =
     (case cmds w s of
        [] \<Rightarrow> Some w
      | c # cs \<Rightarrow>
          let w1 = w\<lparr>cmds := (cmds w)(s := cs)\<rparr> in
          (case c of
             Activate_read \<Rightarrow> process_activate_read s w1
           | Activate_write n \<Rightarrow> process_activate_write s n w1
           | Hiccup b \<Rightarrow> process_hiccup s b w1
           | Pipe_term \<Rightarrow> process_pipe_term s w1
           | Pipe_term_ack \<Rightarrow> process_pipe_term_ack s w1))"

end
