(* ===== verification/Pipe_Protocol.thy ===== *)
theory Pipe_Protocol
  imports Pipe
begin

text \<open>
  The protocol between the two objects of a pipe pair: every interleaving of the users' calls on both
  sides (read, write, flush, rollback, hiccup, terminate) with the processing of commands. The
  invariant has the eighteen combinations of states and termination commands that can occur, the
  ownership of the underlying pipes, and where a delimiter can be. It shows that no assertion of
  \<open>pipe.cpp\<close> can fail, that no command is ever delivered to a deallocated pipe, and that the underlying
  pipes are freed exactly once.
\<close>

section \<open>Interleavings\<close>

datatype action =
    Read side | Check_read side | Write side msg | Check_write side | Rollback side | Flush side
  | Nodelay side | Hiccup_call side | Terminate side bool | Process side

fun exec :: "action \<Rightarrow> world \<Rightarrow> world option" where
  "exec (Read s) w = map_option fst (pipe_read s w)"
| "exec (Check_read s) w = map_option fst (pipe_check_read s w)"
| "exec (Write s m) w = map_option fst (pipe_write s m w)"
| "exec (Check_write s) w = map_option fst (pipe_check_write s w)"
| "exec (Rollback s) w = pipe_rollback s w"
| "exec (Flush s) w = pipe_flush s w"
| "exec (Nodelay s) w = (if pipes w s = None then None else Some (upd s set_nodelay w))"
| "exec (Hiccup_call s) w = pipe_hiccup s w"
| "exec (Terminate s d) w = pipe_terminate s d w"
| "exec (Process s) w = process_command s w"

fun actor :: "action \<Rightarrow> side" where
  "actor (Read s) = s" | "actor (Check_read s) = s" | "actor (Write s m) = s" | "actor (Check_write s) = s"
| "actor (Rollback s) = s" | "actor (Flush s) = s" | "actor (Nodelay s) = s" | "actor (Hiccup_call s) = s"
| "actor (Terminate s d) = s" | "actor (Process s) = s"

text \<open>
  What users do: they use a pipe only until it is deallocated, and never write a delimiter themselves.
\<close>

fun allowed :: "action \<Rightarrow> world \<Rightarrow> bool" where
  "allowed (Write s m) w = (pipes w s \<noteq> None \<and> kind m \<noteq> Kdelimiter)"
| "allowed (Process s) w = (cmds w s \<noteq> [])"
| "allowed a w = (pipes w (actor a) \<noteq> None)"

definition start :: "int \<Rightarrow> int \<Rightarrow> bool \<Rightarrow> bool \<Rightarrow> world" where
  "start h0 h1 c0 c1 = (let w = pipepair h0 h1 c0 c1 in
     w\<lparr>pipes := (\<lambda>s. map_option (\<lambda>p. p\<lparr>has_sink := True\<rparr>) (pipes w s))\<rparr>)"

lemma start_sinks:
  "Option.bind (set_event_sink P0 (pipepair h0 h1 c0 c1)) (set_event_sink P1) = Some (start h0 h1 c0 c1)"
  by (auto simp: set_event_sink_def pipepair_def start_def upd_def new_pipe_def fun_eq_iff split: side.split)

inductive reachable :: "world \<Rightarrow> world \<Rightarrow> bool" for w0 where
  refl: "reachable w0 w0"
| step: "reachable w0 w \<Longrightarrow> allowed a w \<Longrightarrow> exec a w = Some w' \<Longrightarrow> reachable w0 w'"

section \<open>Invariant\<close>

definition st :: "world \<Rightarrow> side \<Rightarrow> pipe_state option" where
  "st w s = map_option state (pipes w s)"

fun is_term :: "command \<Rightarrow> bool" where
  "is_term Pipe_term = True" | "is_term Pipe_term_ack = True" | "is_term _ = False"

definition tcmds :: "command list \<Rightarrow> command list" where
  "tcmds cs = filter is_term cs"

fun hiccups :: "command list \<Rightarrow> nat list" where
  "hiccups [] = []"
| "hiccups (Hiccup a # cs) = a # hiccups cs"
| "hiccups (c # cs) = hiccups cs"

text \<open>No \<open>Hiccup\<close> follows a termination command.\<close>

fun late_ok :: "command list \<Rightarrow> bool" where
  "late_ok [] = True"
| "late_ok (c # cs) = (if is_term c then hiccups cs = [] else late_ok cs)"

text \<open>States and termination commands under way, up to exchange of the sides.\<close>

definition half_handshake ::
  "(pipe_state option \<times> pipe_state option \<times> command list \<times> command list) set" where
  "half_handshake = {
     (Some Active, Some Active, [], []),
     (Some Active, Some Term_req_sent1, [Pipe_term], []),
     (Some Delimiter_received, Some Term_req_sent1, [Pipe_term], []),
     (Some Waiting_for_delimiter, Some Term_req_sent1, [], []),
     (Some Term_ack_sent, Some Term_req_sent1, [], [Pipe_term_ack]),
     (Some Term_ack_sent, None, [Pipe_term_ack], []),
     (Some Term_req_sent1, Some Term_req_sent1, [Pipe_term], [Pipe_term]),
     (Some Term_req_sent1, Some Term_req_sent2, [Pipe_term, Pipe_term_ack], []),
     (Some Term_req_sent2, Some Term_req_sent2, [Pipe_term_ack], [Pipe_term_ack]),
     (Some Term_req_sent2, None, [Pipe_term_ack], []),
     (None, None, [], [])}"

definition handshake :: "pipe_state option \<Rightarrow> pipe_state option \<Rightarrow> command list \<Rightarrow> command list \<Rightarrow> bool" where
  "handshake a b qa qb \<longleftrightarrow> (a, b, qa, qb) \<in> half_handshake \<or> (b, a, qb, qa) \<in> half_handshake"

definition side_ok :: "world \<Rightarrow> side \<Rightarrow> bool" where
  "side_ok w s \<longleftrightarrow>
     (pipes w s = None \<longrightarrow> cmds w s = []) \<and>
     (Pipe_term_ack \<in> set (cmds w s) \<longrightarrow> last (cmds w s) = Pipe_term_ack) \<and>
     late_ok (cmds w s) \<and>
     (\<forall>p. pipes w s = Some p \<longrightarrow> has_sink p \<and>
        (outpipe p = None \<longleftrightarrow> state p \<in> {Term_ack_sent, Term_req_sent2}) \<and>
        (state p \<in> {Waiting_for_delimiter, Term_ack_sent, Term_req_sent2} \<longrightarrow> hiccups (cmds w s) = []))"

definition ctl_inv :: "world \<Rightarrow> bool" where
  "ctl_inv w \<longleftrightarrow> (\<forall>s. handshake (st w s) (st w (other s)) (tcmds (cmds w s)) (tcmds (cmds w (other s))) \<and>
     side_ok w s)"

text \<open>The underlying pipes of one direction: what the writer uses and has been sent, or what the reader has left.\<close>

definition route :: "world \<Rightarrow> side \<Rightarrow> nat list" where
  "route w s = (case Option.bind (pipes w s) outpipe of
       Some b \<Rightarrow> b # hiccups (cmds w s)
     | None \<Rightarrow> (case Option.bind (pipes w (other s)) inpipe of None \<Rightarrow> [] | Some a \<Rightarrow> [a]))"

definition mem_inv :: "world \<Rightarrow> bool" where
  "mem_inv w \<longleftrightarrow> distinct (route w P0 @ route w P1) \<and> (\<forall>a\<in>dom (upipes w). a < next_up w) \<and>
     dom (upipes w) = set (route w P0) \<union> set (route w P1) \<and>
     (\<forall>s p. pipes w s = Some p \<longrightarrow> route w (other s) \<noteq> [] \<and> inpipe p = Some (last (route w (other s))))"

fun up_msgs :: "upipe \<Rightarrow> msg set" where
  "up_msgs (Normal q) = set (flushed q) \<union> set (staged q) \<union> set (partial q)"
| "up_msgs (Conflate c) = {fst (storage (dbuf c)), snd (storage (dbuf c))}"

definition has_delim :: "upipe \<Rightarrow> bool" where
  "has_delim u \<longleftrightarrow> (\<exists>m\<in>up_msgs u. kind m = Kdelimiter)"

fun partial_ok :: "upipe \<Rightarrow> bool" where
  "partial_ok (Normal q) = (\<forall>m\<in>set (partial q). has_more m)"
| "partial_ok (Conflate c) = True"

definition data_inv :: "world \<Rightarrow> bool" where
  "data_inv w \<longleftrightarrow> (\<forall>u\<in>ran (upipes w). partial_ok u) \<and>
     (\<forall>s. \<forall>a\<in>set (route w s). \<forall>u. upipes w a = Some u \<longrightarrow> has_delim u \<longrightarrow>
        st w s \<notin> {Some Active, Some Delimiter_received})"

definition pipe_inv :: "world \<Rightarrow> bool" where
  "pipe_inv w \<longleftrightarrow> ctl_inv w \<and> mem_inv w \<and> data_inv w"

section \<open>Library\<close>

lemma upd_simps [simp]:
  "pipes (upd s f w) = (pipes w)(s := map_option f (pipes w s))" "upipes (upd s f w) = upipes w"
  "cmds (upd s f w) = cmds w" "next_up (upd s f w) = next_up w"
  by (simp_all add: upd_def)

lemma put_up_simps [simp]:
  "pipes (put_up a u w) = pipes w" "upipes (put_up a u w) = (upipes w)(a \<mapsto> u)"
  "cmds (put_up a u w) = cmds w" "next_up (put_up a u w) = next_up w"
  by (simp_all add: put_up_def)

lemma send_peer_simps [simp]:
  "pipes (send_peer s c w) = pipes w" "upipes (send_peer s c w) = upipes w"
  "cmds (send_peer s c w) = (cmds w)(other s := cmds w (other s) @ [c])" "next_up (send_peer s c w) = next_up w"
  by (simp_all add: send_peer_def)

lemma notify_simps [simp]:
  "pipes (notify s e w) = pipes w" "upipes (notify s e w) = upipes w"
  "cmds (notify s e w) = cmds w" "next_up (notify s e w) = next_up w"
  by (simp_all add: notify_def)

lemma hiccups_append [simp]: "hiccups (cs @ ds) = hiccups cs @ hiccups ds"
  by (induction cs rule: hiccups.induct) simp_all

lemma tcmds_simps [simp]:
  "tcmds [] = []" "tcmds (c # cs) = (if is_term c then c # tcmds cs else tcmds cs)" "tcmds (cs @ ds) = tcmds cs @ tcmds ds"
  by (simp_all add: tcmds_def)

lemma late_ok_append: "late_ok cs \<Longrightarrow> hiccups ds = [] \<Longrightarrow> late_ok (cs @ ds)"
proof (induction cs)
  case Nil
  then have "hiccups ds = []" by simp
  then have "late_ok ds" by (induction ds rule: hiccups.induct) auto
  then show ?case by simp
qed auto

lemma late_ok_hiccup: "tcmds cs = [] \<Longrightarrow> late_ok (cs @ [Hiccup a])"
  by (induction cs) (auto split: if_splits)

lemma late_ok_tl: "late_ok (c # cs) \<Longrightarrow> late_ok cs"
  using late_ok_append[of "[]" cs] by (auto split: if_splits)

lemma last_ack_tl: "(Pipe_term_ack \<in> set (c # cs) \<longrightarrow> last (c # cs) = Pipe_term_ack) \<Longrightarrow>
    Pipe_term_ack \<in> set cs \<longrightarrow> last cs = Pipe_term_ack"
  by (auto split: if_splits)

lemma term_tl:
  assumes "cs = ds \<or> (\<exists>c. is_term c \<and> cs = c # ds)" "late_ok cs" "Pipe_term_ack \<in> set cs \<longrightarrow> last cs = Pipe_term_ack"
  shows "late_ok ds \<and> (Pipe_term_ack \<in> set ds \<longrightarrow> last ds = Pipe_term_ack) \<and> hiccups ds = hiccups cs"
  using assms(1)
proof
  assume "\<exists>c. is_term c \<and> cs = c # ds"
  then obtain c where "is_term c" "cs = c # ds" by blast
  then show ?thesis using late_ok_tl[of c ds] last_ack_tl[of c ds] assms by (cases c) auto
qed (use assms in simp)

lemma tcmds_ack: "Pipe_term_ack \<in> set (tcmds cs) \<longleftrightarrow> Pipe_term_ack \<in> set cs"
  by (simp add: tcmds_def)

lemma handshake_sym: "handshake a b qa qb = handshake b a qb qa"
  by (auto simp: handshake_def)

lemmas handshake_simps = handshake_def half_handshake_def

text \<open>Which side can still send commands.\<close>

lemma handshake_sender:
  "handshake a b qa qb \<Longrightarrow> a \<notin> {None, Some Term_ack_sent, Some Term_req_sent2} \<Longrightarrow>
    Pipe_term_ack \<notin> set qb \<and> b \<noteq> None"
  by (auto simp: handshake_simps)

lemma start_inv: "pipe_inv (start h0 h1 c0 c1)"
proof -
  let ?w = "start h0 h1 c0 c1"
  have st: "st ?w s = Some Active" "cmds ?w s = []" for s
    by (cases s; simp add: st_def start_def pipepair_def new_pipe_def)+
  have r: "route ?w P0 = [1]" "route ?w P1 = [0]"
    by (simp_all add: route_def start_def pipepair_def new_pipe_def)
  have up: "upipes ?w = [0 \<mapsto> new_upipe c0, 1 \<mapsto> new_upipe c1]" "next_up ?w = 2"
    by (simp_all add: start_def pipepair_def)
  have p: "pipes ?w P0 = Some ((new_pipe 0 1 h1 h0 c0)\<lparr>has_sink := True\<rparr>)"
    "pipes ?w P1 = Some ((new_pipe 1 0 h0 h1 c1)\<lparr>has_sink := True\<rparr>)"
    by (simp_all add: start_def pipepair_def)
  have all: "(\<forall>s. Q s) \<longleftrightarrow> Q P0 \<and> Q P1" for Q by (metis side.exhaust)
  have "ctl_inv ?w" unfolding ctl_inv_def side_ok_def st all p by (simp add: handshake_simps new_pipe_def)
  moreover have "mem_inv ?w" unfolding mem_inv_def all p other.simps r up by (auto simp: new_pipe_def)
  moreover have "partial_ok (new_upipe c)" "\<not> has_delim (new_upipe c)" for c
    by (simp_all add: new_upipe_def fifo_empty_def has_delim_def ypipe_conflate_t_def dbuffer_t_def empty_msg_def)
  then have "data_inv ?w" unfolding data_inv_def r up by (auto simp: ran_def split: if_splits)
  ultimately show ?thesis by (simp add: pipe_inv_def)
qed

section \<open>Benign changes\<close>

text \<open>
  Most operations change neither the state machine nor the ownership of underlying pipes: they
  update flags and counters, move messages, and send activation commands.
\<close>

definition same_ctl :: "pipe_t \<Rightarrow> pipe_t \<Rightarrow> bool" where
  "same_ctl p p' \<longleftrightarrow> state p' = state p \<and> inpipe p' = inpipe p \<and> outpipe p' = outpipe p \<and> has_sink p' = has_sink p"

definition keeps :: "upipe \<Rightarrow> upipe \<Rightarrow> bool" where
  "keeps u u' \<longleftrightarrow> (has_delim u' \<longrightarrow> has_delim u) \<and> (partial_ok u \<longrightarrow> partial_ok u')"

fun is_activate :: "command \<Rightarrow> bool" where
  "is_activate Activate_read = True" | "is_activate (Activate_write n) = True" | "is_activate c = False"

definition can_send :: "pipe_state option \<Rightarrow> bool" where
  "can_send x \<longleftrightarrow> x \<notin> {None, Some Term_ack_sent, Some Term_req_sent2}"

definition benign :: "world \<Rightarrow> world \<Rightarrow> bool" where
  "benign w w' \<longleftrightarrow> (\<forall>s. rel_option same_ctl (pipes w s) (pipes w' s)) \<and> next_up w' = next_up w \<and>
     (\<forall>a. rel_option keeps (upipes w a) (upipes w' a)) \<and>
     (\<forall>s. \<exists>cs. cmds w' s = cmds w s @ cs \<and> list_all is_activate cs \<and> (cs \<noteq> [] \<longrightarrow> can_send (st w (other s))))"

lemma rel_same [simp]: "rel_option same_ctl x x" "rel_option keeps u u"
  by (simp_all add: option.rel_refl same_ctl_def keeps_def)

lemma same_ctl_refl [simp]: "same_ctl p p"
  by (simp add: same_ctl_def)

lemma keeps_refl [simp]: "keeps u u"
  by (simp add: keeps_def)

lemma keeps_trans: "keeps u v \<Longrightarrow> keeps v x \<Longrightarrow> keeps u x"
  by (auto simp: keeps_def)

lemma benign_refl: "benign w w"
  by (auto simp: benign_def)

lemma benignD:
  assumes "benign w w'"
  shows "rel_option same_ctl (pipes w s) (pipes w' s)" "next_up w' = next_up w"
    "rel_option keeps (upipes w a) (upipes w' a)"
    "\<exists>cs. cmds w' s = cmds w s @ cs \<and> list_all is_activate cs \<and> (cs \<noteq> [] \<longrightarrow> can_send (st w (other s)))"
  using assms unfolding benign_def by blast+

lemma benign_st: "benign w w' \<Longrightarrow> st w' s = st w s"
  using benignD(1)[of w w' s] by (cases "pipes w s"; cases "pipes w' s") (auto simp: st_def same_ctl_def)

lemma same_ctl_trans: "same_ctl p q \<Longrightarrow> same_ctl q r \<Longrightarrow> same_ctl p r"
  by (simp add: same_ctl_def)

lemma rel_option_trans:
  "rel_option R x y \<Longrightarrow> rel_option R y z \<Longrightarrow> (\<And>a b c. R a b \<Longrightarrow> R b c \<Longrightarrow> R a c) \<Longrightarrow> rel_option R x z"
  by (cases x; cases y; cases z) auto

lemma benign_trans:
  assumes "benign w1 w2" "benign w2 w3"
  shows "benign w1 w3"
  unfolding benign_def
proof (intro conjI allI)
  fix s
  show "rel_option same_ctl (pipes w1 s) (pipes w3 s)"
    by (rule rel_option_trans[OF benignD(1)[OF assms(1)] benignD(1)[OF assms(2)]]) (rule same_ctl_trans)
  obtain cs ds where "cmds w2 s = cmds w1 s @ cs" "list_all is_activate cs" "cs \<noteq> [] \<longrightarrow> can_send (st w1 (other s))"
    "cmds w3 s = cmds w2 s @ ds" "list_all is_activate ds" "ds \<noteq> [] \<longrightarrow> can_send (st w2 (other s))"
    using assms unfolding benign_def by meson
  then show "\<exists>cs. cmds w3 s = cmds w1 s @ cs \<and> list_all is_activate cs \<and> (cs \<noteq> [] \<longrightarrow> can_send (st w1 (other s)))"
    using benign_st[OF assms(1), of "other s"] by (intro exI[of _ "cs @ ds"]) auto
next
  fix a
  show "rel_option keeps (upipes w1 a) (upipes w3 a)"
    by (rule rel_option_trans[OF benignD(3)[OF assms(1)] benignD(3)[OF assms(2)]]) (rule keeps_trans)
  show "next_up w3 = next_up w1" using assms by (simp add: benign_def)
qed

lemma benign_upd: "(\<And>p. same_ctl p (f p)) \<Longrightarrow> benign w (upd s f w)"
  by (auto simp: benign_def option.rel_map option.rel_refl)

lemma benign_put: "upipes w a = Some u \<Longrightarrow> keeps u u' \<Longrightarrow> benign w (put_up a u' w)"
  by (auto simp: benign_def)

lemma benign_send: "is_activate c \<Longrightarrow> can_send (st w s) \<Longrightarrow> benign w (send_peer s c w)"
  by (auto simp: benign_def)

lemma benign_notify: "benign w (notify s e w)"
  by (simp add: benign_def)

lemma activate_hiccups: "list_all is_activate cs \<Longrightarrow> hiccups cs = [] \<and> tcmds cs = [] \<and> Pipe_term_ack \<notin> set cs"
proof (induction cs)
  case (Cons c cs)
  then show ?case by (cases c) auto
qed simp

lemma benign_route:
  assumes "benign w w'"
  shows "route w' s = route w s"
proof -
  have "Option.bind (pipes w' t) outpipe = Option.bind (pipes w t) outpipe"
    "Option.bind (pipes w' t) inpipe = Option.bind (pipes w t) inpipe" for t
    using benignD(1)[OF assms, of t] by (cases "pipes w t"; cases "pipes w' t"; simp add: same_ctl_def)+
  moreover have "hiccups (cmds w' s) = hiccups (cmds w s)"
    using assms activate_hiccups unfolding benign_def by (metis append.right_neutral hiccups_append)
  ultimately show ?thesis by (simp add: route_def split: option.split)
qed

lemma ctl_inv_cmds_benign:
  assumes "ctl_inv w" "cmds w' s = cmds w s @ cs" "list_all is_activate cs" "cs \<noteq> [] \<longrightarrow> can_send (st w (other s))"
  shows "tcmds (cmds w' s) = tcmds (cmds w s)" "hiccups (cmds w' s) = hiccups (cmds w s)" "late_ok (cmds w' s)"
    "Pipe_term_ack \<in> set (cmds w' s) \<longrightarrow> last (cmds w' s) = Pipe_term_ack"
    "pipes w s = None \<longrightarrow> cmds w' s = []"
proof -
  note a = activate_hiccups[OF assms(3)]
  show "tcmds (cmds w' s) = tcmds (cmds w s)" "hiccups (cmds w' s) = hiccups (cmds w s)"
    using a assms(2) by simp_all
  have c: "late_ok (cmds w s)" "Pipe_term_ack \<in> set (cmds w s) \<longrightarrow> last (cmds w s) = Pipe_term_ack"
    "pipes w s = None \<longrightarrow> cmds w s = []"
    and h: "handshake (st w (other s)) (st w s) (tcmds (cmds w (other s))) (tcmds (cmds w s))"
    using assms(1) unfolding ctl_inv_def side_ok_def by (metis other_other)+
  show "late_ok (cmds w' s)" using late_ok_append[OF c(1)] a assms(2) by simp
  have s: "Pipe_term_ack \<notin> set (cmds w s) \<and> pipes w s \<noteq> None" if "cs \<noteq> []"
    using handshake_sender[OF h] assms(4) that tcmds_ack by (auto simp: can_send_def st_def)
  show "Pipe_term_ack \<in> set (cmds w' s) \<longrightarrow> last (cmds w' s) = Pipe_term_ack" "pipes w s = None \<longrightarrow> cmds w' s = []"
    using c s a assms(2) by (cases "cs = []"; auto)+
qed

lemma benign_inv:
  assumes "pipe_inv w" "benign w w'"
  shows "pipe_inv w'"
proof -
  note r = benign_route[OF assms(2)] and s = benign_st[OF assms(2)]
  have inv: "ctl_inv w" "mem_inv w" "data_inv w" using assms(1) by (simp_all add: pipe_inv_def)
  have p: "rel_option same_ctl (pipes w t) (pipes w' t)" for t using assms(2) by (simp add: benign_def)
  have u: "rel_option keeps (upipes w a) (upipes w' a)" for a using assms(2) by (simp add: benign_def)
  have dom: "dom (upipes w') = dom (upipes w)" using u by (force simp: rel_option_iff split: option.splits)
  have c: "tcmds (cmds w' t) = tcmds (cmds w t)" "hiccups (cmds w' t) = hiccups (cmds w t)" "late_ok (cmds w' t)"
    "Pipe_term_ack \<in> set (cmds w' t) \<longrightarrow> last (cmds w' t) = Pipe_term_ack"
    "pipes w t = None \<longrightarrow> cmds w' t = []" for t
    using assms(2) ctl_inv_cmds_benign[OF inv(1), of w' t] unfolding benign_def by blast+
  have pn: "pipes w' t = None \<longleftrightarrow> pipes w t = None" for t
    using p[of t] by (auto simp: rel_option_iff split: option.splits)
  have ps: "\<exists>q. pipes w t = Some q \<and> same_ctl q p'" if "pipes w' t = Some p'" for t p'
    using p[of t] that by (auto simp: rel_option_iff split: option.splits)
  have "ctl_inv w'"
    unfolding ctl_inv_def side_ok_def s c(1,2)
  proof (intro allI conjI)
    fix t
    show "handshake (st w t) (st w (other t)) (tcmds (cmds w t)) (tcmds (cmds w (other t)))"
      using inv(1) by (simp add: ctl_inv_def)
    show "pipes w' t = None \<longrightarrow> cmds w' t = []" using c(5) pn by simp
    fix p' show "pipes w' t = Some p' \<longrightarrow> has_sink p' \<and> (outpipe p' = None \<longleftrightarrow> state p' \<in> {Term_ack_sent, Term_req_sent2}) \<and>
      (state p' \<in> {Waiting_for_delimiter, Term_ack_sent, Term_req_sent2} \<longrightarrow> hiccups (cmds w t) = [])"
      using ps[of t p'] inv(1) unfolding ctl_inv_def side_ok_def same_ctl_def by metis
  qed (use c in simp_all)
  moreover have "mem_inv w'"
    using inv(2) assms(2) ps unfolding mem_inv_def dom r benign_def same_ctl_def by metis
  moreover have "data_inv w'"
    unfolding data_inv_def r s
  proof (intro conjI allI ballI impI)
    fix u' assume "u' \<in> ran (upipes w')"
    then obtain a where "upipes w' a = Some u'" by (auto simp: ran_def)
    then obtain u0 where "upipes w a = Some u0" "keeps u0 u'" using u[of a] by (auto simp: rel_option_iff split: option.splits)
    then show "partial_ok u'" using inv(3) by (auto simp: data_inv_def keeps_def ran_def)
  next
    fix t a u' assume a: "a \<in> set (route w t)" "upipes w' a = Some u'" "has_delim u'"
    then obtain u0 where "upipes w a = Some u0" "keeps u0 u'" using u[of a] by (auto simp: rel_option_iff split: option.splits)
    then show "st w t \<notin> {Some Active, Some Delimiter_received}"
      using a inv(3) by (auto simp: data_inv_def keeps_def)
  qed
  ultimately show ?thesis by (simp add: pipe_inv_def)
qed

section \<open>Operations that are benign\<close>

lemma keeps_ops:
  "keeps u (fst (up_check_read u))" "keeps u (fst (up_read u))" "keeps u (fst (up_flush u))"
  "keeps u (fst (up_unwrite u))" "kind m \<noteq> Kdelimiter \<Longrightarrow> keeps u (up_write m (has_more m) u)"
  by (cases u; auto simp: keeps_def has_delim_def fifo_check_read_def fifo_read_def fifo_flush_def
      fifo_unwrite_def fifo_write_def conflate_defs empty_msg_def dest: in_set_butlastD split: list.splits if_splits)+

lemma keeps_read_message: "keeps u (fst (read_message u cred))"
proof (induction u cred rule: read_message.induct)
  case (1 u cred)
  obtain u1 r where r: "up_read u = (u1, r)" by fastforce
  have k: "keeps u u1" using keeps_ops(2)[of u] r by simp
  show ?case
    using 1[OF r[symmetric]] k r
    by (subst read_message.simps) (auto split: option.splits intro: keeps_trans)
qed

lemma unwrite_all_ok: "partial_ok u \<Longrightarrow> \<exists>u'. unwrite_all u = Some u' \<and> keeps u u'"
proof (induction u rule: unwrite_all.induct)
  case (1 u)
  obtain u1 r where r: "up_unwrite u = (u1, r)" by fastforce
  have k: "keeps u u1" using keeps_ops(4)[of u] r by simp
  show ?case
  proof (cases r)
    case None
    with r k show ?thesis by (simp add: unwrite_all.simps[of u])
  next
    case (Some m)
    have "has_more m" using 1(2) r Some by (cases u) (auto simp: fifo_unwrite_def conflate_defs split: if_splits)
    with 1(1)[OF r[symmetric] Some] 1(2) k Some r show ?thesis
      by (subst unwrite_all.simps) (auto simp: keeps_def)
  qed
qed

text \<open>The underlying pipes of a live object are allocated.\<close>

lemma inv_inpipe:
  assumes "pipe_inv w" "pipes w s = Some p"
  obtains a u where "inpipe p = Some a" "upipes w a = Some u" "partial_ok u" "a \<in> set (route w (other s))"
proof -
  have m: "mem_inv w" "data_inv w" using assms(1) by (simp_all add: pipe_inv_def)
  let ?a = "last (route w (other s))"
  have a: "inpipe p = Some ?a" "route w (other s) \<noteq> []" using m(1) assms(2) by (simp_all add: mem_inv_def)
  then have "?a \<in> set (route w (other s))" by simp
  moreover have "?a \<in> dom (upipes w)" using m(1) a(2) unfolding mem_inv_def
    by (cases s) auto
  then obtain u where u: "upipes w ?a = Some u" by auto
  moreover have "partial_ok u" using m(2) u by (auto simp: data_inv_def ran_def)
  ultimately show thesis using that a(1) by blast
qed

lemma inv_outpipe:
  assumes "pipe_inv w" "pipes w s = Some p" "outpipe p = Some b"
  obtains u where "upipes w b = Some u" "partial_ok u" "b \<in> set (route w s)"
proof -
  have m: "mem_inv w" "data_inv w" using assms(1) by (simp_all add: pipe_inv_def)
  have b: "b \<in> set (route w s)" using assms(2,3) by (simp add: route_def)
  then have "b \<in> dom (upipes w)" using m(1) unfolding mem_inv_def by (cases s) auto
  then obtain u where u: "upipes w b = Some u" by auto
  moreover have "partial_ok u" using m(2) u by (auto simp: data_inv_def ran_def)
  ultimately show thesis using that b by blast
qed

lemma readable_can_send: "pipes w s = Some p \<Longrightarrow> readable p \<Longrightarrow> can_send (st w s)"
  by (auto simp: readable_def can_send_def st_def)

lemma benign_trans_upd: "benign w w1 \<Longrightarrow> (\<And>p. same_ctl p (f p)) \<Longrightarrow> benign w (upd s f w1)"
  by (blast intro: benign_trans benign_upd)

lemma benign_trans_send: "benign w w1 \<Longrightarrow> is_activate c \<Longrightarrow> can_send (st w s) \<Longrightarrow> benign w (send_peer s c w1)"
  using benign_trans[OF _ benign_send] benign_st by metis

lemma inv_pipe:
  assumes "pipe_inv w" "pipes w s = Some p"
  shows "has_sink p" "outpipe p = None \<longleftrightarrow> state p = Term_ack_sent \<or> state p = Term_req_sent2"
    "state p \<in> {Waiting_for_delimiter, Term_ack_sent, Term_req_sent2} \<Longrightarrow> hiccups (cmds w s) = []"
  using assms unfolding pipe_inv_def ctl_inv_def side_ok_def by (metis (no_types, lifting) insert_iff singletonD)+

lemma check_write_benign:
  assumes "pipes w s = Some p"
  shows "\<exists>w' ok. pipe_check_write s w = Some (w', ok) \<and> benign w w' \<and> (ok \<longrightarrow> w' = w \<and> state p = Active)"
proof -
  have "benign w (upd s (\<lambda>p. p\<lparr>out_active := False\<rparr>) w)" by (rule benign_upd) (simp add: same_ctl_def)
  with assms show ?thesis
    by (cases "out_active p \<and> state p = Active"; cases "check_hwm p")
      (auto simp: pipe_check_write_def benign_refl)
qed

lemma write_benign:
  assumes "pipe_inv w" "pipes w s = Some p" "kind m \<noteq> Kdelimiter"
  shows "\<exists>w' ok. pipe_write s m w = Some (w', ok) \<and> benign w w'"
proof -
  obtain w1 ok where c: "pipe_check_write s w = Some (w1, ok)" "benign w w1" "ok \<longrightarrow> w1 = w \<and> state p = Active"
    using check_write_benign[OF assms(2)] by blast
  show ?thesis
  proof (cases ok)
    case True
    with c(3) have w1: "w1 = w" and "state p = Active" by auto
    then have "outpipe p \<noteq> None" using inv_pipe(2)[OF assms(1,2)] by simp
    then obtain b where b: "outpipe p = Some b" by auto
    from inv_outpipe[OF assms(1,2) b] obtain u where u: "upipes w b = Some u" by blast
    have "benign w (put_up b (up_write m (has_more m) u) w)" using benign_put[OF u keeps_ops(5)[OF assms(3)]] .
    with c True w1 b u assms(2) show ?thesis
      by (auto simp: pipe_write_def same_ctl_def Let_def intro: benign_trans_upd)
  qed (use c in \<open>auto simp: pipe_write_def\<close>)
qed

lemma rollback_benign:
  assumes "pipe_inv w" "pipes w s = Some p"
  shows "\<exists>w'. pipe_rollback s w = Some w' \<and> benign w w'"
proof (cases "outpipe p")
  case None
  with assms(2) show ?thesis by (simp add: pipe_rollback_def benign_refl)
next
  case (Some b)
  from inv_outpipe[OF assms Some] obtain u where u: "upipes w b = Some u" "partial_ok u" by blast
  from unwrite_all_ok[OF u(2)] obtain u' where "unwrite_all u = Some u'" "keeps u u'" by blast
  with u assms(2) Some benign_put[OF u(1)] show ?thesis by (auto simp: pipe_rollback_def)
qed

lemma flush_benign:
  assumes "pipe_inv w" "pipes w s = Some p"
  shows "\<exists>w'. pipe_flush s w = Some w' \<and> benign w w'"
proof (cases "state p = Term_ack_sent \<or> outpipe p = None")
  case True
  with assms(2) show ?thesis by (auto simp: pipe_flush_def benign_refl)
next
  case False
  then obtain b where b: "outpipe p = Some b" by auto
  from inv_outpipe[OF assms b] obtain u where u: "upipes w b = Some u" by blast
  have "state p \<noteq> Term_req_sent2" using inv_pipe(2)[OF assms] b by simp
  then have cs: "can_send (st w s)" using False assms(2) by (auto simp: can_send_def st_def)
  obtain u1 ok where f: "up_flush u = (u1, ok)" by fastforce
  have "keeps u u1" using keeps_ops(3)[of u] f by simp
  then have "benign w (put_up b u1 w)" by (rule benign_put[OF u])
  with b u f False assms(2) cs show ?thesis
    by (auto simp: pipe_flush_def Let_def intro: benign_trans_send)
qed

lemma all_sides: "(\<forall>t. Q t) \<longleftrightarrow> Q s \<and> Q (other s)"
  by (metis other_cases)

lemma ctl_inv_iff:
  "ctl_inv w \<longleftrightarrow> handshake (st w s) (st w (other s)) (tcmds (cmds w s)) (tcmds (cmds w (other s))) \<and>
     side_ok w s \<and> side_ok w (other s)"
  unfolding ctl_inv_def all_sides[of _ s] other_other
    handshake_sym[of "st w (other s)" "st w s" "tcmds (cmds w (other s))" "tcmds (cmds w s)"] by blast

section \<open>State transitions\<close>

text \<open>
  The underlying pipes after a side gave up its \<open>outpipe\<close> while no hiccup was under way to it.
\<close>

lemma mem_inv_inpipe:
  "mem_inv w \<Longrightarrow> pipes w s = Some p \<Longrightarrow> route w (other s) \<noteq> [] \<and> inpipe p = Some (last (route w (other s)))"
  by (simp add: mem_inv_def)

lemma route_null:
  assumes "mem_inv w" "pipes w s = Some p" "pipes w (other s) \<noteq> None" "hiccups (cmds w s) = []"
    "pipes w' s = Some p'" "outpipe p' = None" "pipes w' (other s) = pipes w (other s)"
  shows "route w' s = route w s"
proof -
  obtain q where q: "pipes w (other s) = Some q" using assms(3) by auto
  have last: "inpipe q = Some (last (route w s))" "route w s \<noteq> []"
    using mem_inv_inpipe[OF assms(1) q] by simp_all
  obtain a where a: "route w s = [a]"
  proof (cases "outpipe p")
    case None
    have "route w s = (case inpipe q of None \<Rightarrow> [] | Some a \<Rightarrow> [a])" using None assms(2) q by (simp add: route_def)
    then show thesis using that last(2) by (cases "inpipe q") auto
  next
    case (Some b)
    then show thesis using that assms(2,4) by (simp add: route_def)
  qed
  then have "inpipe q = Some a" using last(1) by simp
  with a show ?thesis using assms(5-7) q by (simp add: route_def)
qed

lemma route_cong:
  "Option.bind (pipes w' s) outpipe = Option.bind (pipes w s) outpipe \<Longrightarrow> hiccups (cmds w' s) = hiccups (cmds w s) \<Longrightarrow>
    Option.bind (pipes w' (other s)) inpipe = Option.bind (pipes w (other s)) inpipe \<Longrightarrow> route w' s = route w s"
  by (simp add: route_def split: option.split)

lemma mem_inv_cong:
  assumes "mem_inv w" "route w' P0 = route w P0" "route w' P1 = route w P1" "upipes w' = upipes w" "next_up w' = next_up w"
    "\<And>s p'. pipes w' s = Some p' \<Longrightarrow> \<exists>p. pipes w s = Some p \<and> inpipe p = inpipe p'"
  shows "mem_inv w'"
proof -
  have "route w' t = route w t" for t using assms(2,3) by (cases t) simp_all
  then show ?thesis using assms(1,4-6) unfolding mem_inv_def by metis
qed

text \<open>
  A side takes at most one termination command off its queue, changes its state, possibly giving up its
  \<open>outpipe\<close>, and sends at most one termination command.
\<close>

lemma state_change:
  assumes inv: "pipe_inv w" and p: "pipes w s = Some p"
    and w': "pipes w' = (pipes w)(s \<mapsto> p')" "upipes w' = upipes w" "next_up w' = next_up w"
      "cmds w' = (cmds w)(s := ds, other s := cmds w (other s) @ cs)" "cs = [] \<or> cs = [Pipe_term] \<or> cs = [Pipe_term_ack]"
    and ds: "cmds w s = ds \<or> (\<exists>c. is_term c \<and> cmds w s = c # ds)"
    and p': "inpipe p' = inpipe p" "has_sink p' = has_sink p"
      "outpipe p' = (if state p' \<in> {Term_ack_sent, Term_req_sent2} then None else outpipe p)"
    and hs: "handshake (Some (state p')) (st w (other s)) (tcmds ds) (tcmds (cmds w (other s)) @ cs)"
    and snd: "can_send (Some (state p))"
    and hic: "state p' \<in> {Waiting_for_delimiter, Term_ack_sent, Term_req_sent2} \<Longrightarrow> hiccups (cmds w s) = []"
    and del: "state p' \<in> {Active, Delimiter_received} \<Longrightarrow> state p \<in> {Active, Delimiter_received}"
  shows "pipe_inv w'"
proof -
  have i: "ctl_inv w" "mem_inv w" "data_inv w" using inv by (simp_all add: pipe_inv_def)
  have h: "handshake (st w s) (st w (other s)) (tcmds (cmds w s)) (tcmds (cmds w (other s)))" "side_ok w s" "side_ok w (other s)"
    using i(1) ctl_inv_iff by blast+
  have sd: "Pipe_term_ack \<notin> set (cmds w (other s)) \<and> pipes w (other s) \<noteq> None"
    using handshake_sender[OF h(1)] snd p tcmds_ack by (auto simp: can_send_def st_def)
  have st': "st w' s = Some (state p')" "st w' (other s) = st w (other s)" using w'(1) by (simp_all add: st_def)
  have hcs: "hiccups cs = []" "tcmds cs = cs" using w'(5) by auto
  have sp: "has_sink p" "outpipe p \<noteq> None" "late_ok (cmds w s)"
    "Pipe_term_ack \<in> set (cmds w s) \<longrightarrow> last (cmds w s) = Pipe_term_ack"
    using h(2) p snd unfolding side_ok_def can_send_def by blast+
  have dsf: "late_ok ds" "Pipe_term_ack \<in> set ds \<longrightarrow> last ds = Pipe_term_ack" "hiccups ds = hiccups (cmds w s)"
    using term_tl[OF ds sp(3,4)] by blast+
  have ps: "pipes w' s = Some p'" "cmds w' s = ds" using w' by simp_all
  have "side_ok w' s" using sp p' hic dsf unfolding side_ok_def ps by auto
  moreover have po: "pipes w' (other s) = pipes w (other s)" "cmds w' (other s) = cmds w (other s) @ cs" using w' by simp_all
  have "late_ok (cmds w (other s) @ cs)" using h(3) hcs by (intro late_ok_append) (simp_all add: side_ok_def)
  then have "side_ok w' (other s)"
    using h(3) sd hcs w'(5) unfolding side_ok_def po by auto
  moreover have "handshake (st w' s) (st w' (other s)) (tcmds (cmds w' s)) (tcmds (cmds w' (other s)))"
    using hs st' w'(4) hcs by simp
  ultimately have c: "ctl_inv w'" using ctl_inv_iff by blast
  have r2: "route w' (other s) = route w (other s)" using w' p p' hcs by (intro route_cong) simp_all
  have r1: "route w' s = route w s"
  proof (cases "state p' \<in> {Term_ack_sent, Term_req_sent2}")
    case True
    then show ?thesis using route_null[OF i(2) p _ hic, of w' p'] sd w' p' by auto
  next
    case False
    then show ?thesis using w' p p' dsf by (intro route_cong) auto
  qed
  have r: "route w' t = route w t" for t using r1 r2 other_cases[of t s] by auto
  have m: "mem_inv w'" using i(2) r w' p p' by (intro mem_inv_cong[OF i(2)]) (auto split: if_splits)
  have "st w' t \<notin> {Some Active, Some Delimiter_received}" if "st w t \<notin> {Some Active, Some Delimiter_received}" for t
  proof (cases "t = s")
    case True
    have "state p \<notin> {Active, Delimiter_received}" using that p True by (simp add: st_def)
    then show ?thesis using del st'(1) True by auto
  next
    case False
    then have "t = other s" using other_cases[of t s] by simp
    then show ?thesis using that st'(2) by simp
  qed
  then have "data_inv w'" using i(3) w'(2) unfolding data_inv_def r by (metis (no_types, lifting))
  with c m show ?thesis by (simp add: pipe_inv_def)
qed

lemma inv_handshake:
  "pipe_inv w \<Longrightarrow> handshake (st w s) (st w (other s)) (tcmds (cmds w s)) (tcmds (cmds w (other s)))"
  by (simp add: pipe_inv_def ctl_inv_def)

lemma inv_side: "pipe_inv w \<Longrightarrow> side_ok w s"
  by (simp add: pipe_inv_def ctl_inv_def)

subsection \<open>Delimiters\<close>

lemma process_delimiter_inv:
  assumes inv: "pipe_inv w" and p: "pipes w s = Some p" and st: "state p = Active \<or> state p = Waiting_for_delimiter"
    and del: "st w (other s) \<notin> {Some Active, Some Delimiter_received}"
  shows "\<exists>w'. process_delimiter s w = Some w' \<and> pipe_inv w'"
proof -
  have h: "handshake (Some (state p)) (st w (other s)) (tcmds (cmds w s)) (tcmds (cmds w (other s)))"
    using inv_handshake[OF inv, of s] p by (simp add: st_def)
  show ?thesis
  proof (cases "state p = Active")
    case True
    have "pipe_inv (upd s (\<lambda>p. p\<lparr>state := Delimiter_received\<rparr>) w)"
      by (rule state_change[OF inv p, where ds = "cmds w s" and cs = "[]" and p' = "p\<lparr>state := Delimiter_received\<rparr>"])
        (use p True h del in \<open>auto simp: can_send_def handshake_simps\<close>)
    then show ?thesis using p True by (simp add: process_delimiter_def)
  next
    case False
    with st have W: "state p = Waiting_for_delimiter" by simp
    have "pipe_inv (send_peer s Pipe_term_ack (upd s (\<lambda>p. p\<lparr>outpipe := None, state := Term_ack_sent\<rparr>) w))"
      by (rule state_change[OF inv p, where ds = "cmds w s" and cs = "[Pipe_term_ack]"
            and p' = "p\<lparr>outpipe := None, state := Term_ack_sent\<rparr>"])
        (use p W h inv_pipe(3)[OF inv p] in \<open>auto simp: can_send_def handshake_simps\<close>)
    then show ?thesis using p W by (simp add: process_delimiter_def)
  qed
qed

lemma inv_delim:
  "pipe_inv w \<Longrightarrow> a \<in> set (route w s) \<Longrightarrow> upipes w a = Some u \<Longrightarrow> has_delim u \<Longrightarrow>
    st w s \<notin> {Some Active, Some Delimiter_received}"
  unfolding pipe_inv_def data_inv_def by blast

lemma up_read_msgs: "up_read u = (u', Some m) \<Longrightarrow> m \<in> up_msgs u"
  by (cases u) (auto simp: fifo_read_def conflate_defs split: list.splits if_splits)

lemma up_read_shrink: "up_read u = (u', r) \<Longrightarrow> m \<in> up_msgs u' \<Longrightarrow> m \<in> up_msgs u \<or> kind m \<noteq> Kdelimiter"
  by (cases u) (auto simp: fifo_read_def conflate_defs empty_msg_def split: list.splits if_splits)

lemma read_message_msgs:
  "read_message u cred = (u', c', Some m) \<Longrightarrow> kind m = Kdelimiter \<Longrightarrow> has_delim u"
proof (induction u cred rule: read_message.induct)
  case (1 u cred)
  obtain u1 r where r: "up_read u = (u1, r)" by fastforce
  with 1(2) obtain x where x: "r = Some x" by (subst (asm) read_message.simps) (cases r; simp)
  show ?case
  proof (cases "has_credential x")
    case True
    then have "has_delim u1" using 1(1)[OF r[symmetric] x True] 1(2,3) r x by (subst (asm) (2) read_message.simps) simp
    then show ?thesis using keeps_ops(2)[of u] r by (simp add: keeps_def)
  next
    case False
    then have "x = m" using 1(2) r x by (subst (asm) read_message.simps) simp
    then show ?thesis using up_read_msgs[of u u1 m] r x 1(3) by (auto simp: has_delim_def)
  qed
qed

lemma read_inv:
  assumes inv: "pipe_inv w" and p: "pipes w s = Some p"
  shows "\<exists>w' r. pipe_read s w = Some (w', r) \<and> pipe_inv w'"
proof (cases "readable p")
  case False
  then show ?thesis using inv p by (simp add: pipe_read_def)
next
  case True
  obtain a u where a: "inpipe p = Some a" "upipes w a = Some u" "a \<in> set (route w (other s))"
    using inv_inpipe[OF inv p] by metis
  obtain u1 cred r where r: "read_message u (credential p) = (u1, cred, r)" by (metis prod_cases3)
  let ?w1 = "upd s (\<lambda>p. p\<lparr>credential := cred\<rparr>) (put_up a u1 w)"
  have b: "benign w ?w1"
    using keeps_read_message[of u "credential p"] r by (intro benign_trans_upd benign_put[OF a(2)]) (simp_all add: same_ctl_def)
  show ?thesis
  proof (cases "\<exists>m. r = Some m \<and> pipe_is_delimiter m")
    case True
    then obtain m where m: "r = Some m" "kind m = Kdelimiter" by (auto simp: pipe_is_delimiter_def)
    then have "st ?w1 (other s) \<notin> {Some Active, Some Delimiter_received}"
      using inv_delim[OF inv a(3,2)] read_message_msgs[of u "credential p" u1 cred m] r benign_st[OF b] by simp
    moreover have "pipes ?w1 s = Some (p\<lparr>credential := cred\<rparr>)" using p by simp
    moreover have "state p = Active \<or> state p = Waiting_for_delimiter" using \<open>readable p\<close> by (auto simp: readable_def)
    ultimately obtain w' where "process_delimiter s ?w1 = Some w'" "pipe_inv w'"
      using process_delimiter_inv[OF benign_inv[OF inv b]] by (metis pipe_t.simps(12) pipe_t.select_convs pipe_t.surjective pipe_t.update_convs(16))
    then show ?thesis using p a r m \<open>readable p\<close> by (simp add: pipe_read_def pipe_is_delimiter_def)
  next
    case False
    have cs: "can_send (st w s)" by (rule readable_can_send[OF p \<open>readable p\<close>])
    have "benign w (count_read s m p ?w1)" for m
      unfolding count_read_def Let_def using cs
      by (auto intro!: benign_trans_upd[OF b] benign_trans_send simp: same_ctl_def simp del: upd_simps put_up_simps)
    moreover have "benign w (upd s (\<lambda>p. p\<lparr>in_active := False\<rparr>) ?w1)"
      by (rule benign_trans_upd[OF b]) (simp add: same_ctl_def)
    ultimately show ?thesis using p a r False \<open>readable p\<close> benign_inv[OF inv]
      by (cases r) (auto simp: pipe_read_def)
  qed
qed

lemma check_then_read:
  assumes "up_check_read u = (u1, True)"
  shows "\<exists>d. up_probe fn u1 = Some d \<and> (\<exists>u2 m. up_read u1 = (u2, Some m) \<and> (d \<longrightarrow> fn m))"
  using assms
proof (cases u)
  case (Normal q)
  with assms obtain q1 where q: "fifo_check_read q = (q1, True)" "u1 = Normal q1" by (auto simp: apfst_def map_prod_def split: prod.splits)
  then have "flushed q1 \<noteq> []" by (auto simp: fifo_check_read_def split: if_splits)
  then show ?thesis using q by (auto simp: fifo_read_def neq_Nil_conv fifo_check_read_def split: if_splits)
next
  case (Conflate c)
  then show ?thesis using assms by (auto simp: conflate_defs conflate_probe_def dbuffer_probe_def split: if_splits)
qed

lemma check_read_inv:
  assumes inv: "pipe_inv w" and p: "pipes w s = Some p"
  shows "\<exists>w' r. pipe_check_read s w = Some (w', r) \<and> pipe_inv w'"
proof (cases "readable p")
  case False
  then show ?thesis using inv p by (auto simp: pipe_check_read_def)
next
  case rd: True
  obtain a u where a: "inpipe p = Some a" "upipes w a = Some u" "a \<in> set (route w (other s))"
    using inv_inpipe[OF inv p] by metis
  obtain u1 ok where c: "up_check_read u = (u1, ok)" by fastforce
  have k: "keeps u u1" using keeps_ops(1)[of u] c by simp
  then have b1: "benign w (put_up a u1 w)" by (rule benign_put[OF a(2)])
  show ?thesis
  proof (cases ok)
    case False
    have "benign w (upd s (\<lambda>p. p\<lparr>in_active := False\<rparr>) (put_up a u1 w))"
      by (rule benign_trans_upd[OF b1]) (simp add: same_ctl_def)
    then show ?thesis using p a c rd False benign_inv[OF inv] by (auto simp: pipe_check_read_def)
  next
    case True
    then obtain d u2 m where d: "up_probe pipe_is_delimiter u1 = Some d" "up_read u1 = (u2, Some m)" "d \<longrightarrow> pipe_is_delimiter m"
      using check_then_read[of u u1 pipe_is_delimiter] c by auto
    show ?thesis
    proof (cases d)
      case False
      then show ?thesis using p a c rd True d(1) benign_inv[OF inv b1] by (auto simp: pipe_check_read_def)
    next
      case dt: True
      let ?w2 = "put_up a u2 (put_up a u1 w)"
      have "keeps u1 u2" using keeps_ops(2)[of u1] d(2) by simp
      then have b2: "benign w ?w2" using benign_trans[OF b1 benign_put[of "put_up a u1 w" a u1 u2]] by simp
      have "has_delim u" using up_read_msgs[OF d(2)] d(3) dt k by (auto simp: has_delim_def keeps_def pipe_is_delimiter_def)
      then have dl: "st ?w2 (other s) \<notin> {Some Active, Some Delimiter_received}"
        using inv_delim[OF inv a(3,2)] benign_st[OF b2] by simp
      have "state p = Active \<or> state p = Waiting_for_delimiter" using rd by (auto simp: readable_def)
      then obtain w' where "process_delimiter s ?w2 = Some w'" "pipe_inv w'"
        using process_delimiter_inv[OF benign_inv[OF inv b2] _ _ dl, of p] p by auto
      then show ?thesis using p a c rd True d dt by (auto simp: pipe_check_read_def)
    qed
  qed
qed

subsection \<open>Commands\<close>

lemma pop_activate_inv:
  assumes inv: "pipe_inv w" and c: "cmds w s = c # cs" "is_activate c"
  shows "pipe_inv (w\<lparr>cmds := (cmds w)(s := cs)\<rparr>)" (is "pipe_inv ?w'")
proof -
  have t: "tcmds (cmds ?w' t) = tcmds (cmds w t)" "hiccups (cmds ?w' t) = hiccups (cmds w t)" for t
    using c by (cases c; simp)+
  have st: "st ?w' t = st w t" for t by (simp add: st_def)
  have r: "route ?w' t = route w t" for t using t(2)[of t] by (intro route_cong) simp_all
  have so: "side_ok w t" for t by (rule inv_side[OF inv])
  have "side_ok ?w' t" for t
  proof (cases "t = s")
    case True
    have "late_ok cs" "Pipe_term_ack \<in> set cs \<longrightarrow> last cs = Pipe_term_ack" "pipes w s \<noteq> None"
      using so[of s] c(1) late_ok_tl[of c cs] last_ack_tl[of c cs] unfolding side_ok_def by auto
    moreover have "hiccups cs = hiccups (cmds w s)" using t(2)[of s] by simp
    ultimately show ?thesis using so[of s] True by (auto simp: side_ok_def)
  next
    case False
    then show ?thesis using so[of t] by (simp add: side_ok_def)
  qed
  then have "ctl_inv ?w'" using inv_handshake[OF inv] unfolding ctl_inv_def st t(1) by blast
  moreover have "mem_inv w" using inv by (simp add: pipe_inv_def)
  then have "mem_inv ?w'" by (rule mem_inv_cong) (use r in simp_all)
  moreover have "data_inv ?w'" using inv unfolding pipe_inv_def data_inv_def r st by simp
  ultimately show ?thesis by (simp add: pipe_inv_def)
qed

lemma activate_inv:
  assumes inv: "pipe_inv w" and p: "pipes w s = Some p"
  shows "\<exists>w'. process_activate_read s w = Some w' \<and> pipe_inv w'"
    "\<exists>w'. process_activate_write s n w = Some w' \<and> pipe_inv w'"
proof -
  have u: "benign w (upd s (\<lambda>p. p\<lparr>in_active := True\<rparr>) w)" "benign w (upd s (\<lambda>p. p\<lparr>peers_msgs_read := n\<rparr>) w)"
    by (rule benign_upd; simp add: same_ctl_def)+
  then have "benign w (upd s (\<lambda>p. p\<lparr>out_active := True\<rparr>) (upd s (\<lambda>p. p\<lparr>peers_msgs_read := n\<rparr>) w))"
    by (rule_tac benign_trans_upd) (simp_all add: same_ctl_def)
  then show "\<exists>w'. process_activate_read s w = Some w' \<and> pipe_inv w'"
    "\<exists>w'. process_activate_write s n w = Some w' \<and> pipe_inv w'"
    using inv p u benign_inv[OF inv] benign_trans[OF _ benign_notify, of w]
    by (simp_all add: process_activate_read_def process_activate_write_def Let_def)
qed

lemma pipe_term_inv:
  assumes inv: "pipe_inv w" and c: "cmds w s = Pipe_term # cs"
  shows "\<exists>w'. process_pipe_term s (w\<lparr>cmds := (cmds w)(s := cs)\<rparr>) = Some w' \<and> pipe_inv w'"
proof -
  obtain p where p: "pipes w s = Some p" using inv_side[OF inv, of s] c by (auto simp: side_ok_def)
  have hic: "hiccups (cmds w s) = []" using inv_side[OF inv, of s] c by (auto simp: side_ok_def)
  have h: "handshake (Some (state p)) (st w (other s)) (Pipe_term # tcmds cs) (tcmds (cmds w (other s)))"
    using inv_handshake[OF inv, of s] p c by (simp add: st_def)
  let ?w = "w\<lparr>cmds := (cmds w)(s := cs)\<rparr>"
  note ch = state_change[OF inv p, where ds = cs]
  consider "state p = Active" "delay p" | "state p = Active" "\<not> delay p" | "state p = Delimiter_received" | "state p = Term_req_sent1"
    using h by (auto simp: handshake_simps)
  then show ?thesis
  proof cases
    case 1
    have "pipe_inv (upd s (\<lambda>p. p\<lparr>state := Waiting_for_delimiter\<rparr>) ?w)"
      by (rule ch[where cs = "[]" and p' = "p\<lparr>state := Waiting_for_delimiter\<rparr>"])
        (use p 1 h hic c in \<open>auto simp: can_send_def handshake_simps\<close>)
    then show ?thesis using p 1 by (simp add: process_pipe_term_def)
  next
    case 2
    have "pipe_inv (send_peer s Pipe_term_ack (upd s (\<lambda>p. p\<lparr>state := Term_ack_sent, outpipe := None\<rparr>) ?w))"
      by (rule ch[where cs = "[Pipe_term_ack]" and p' = "p\<lparr>state := Term_ack_sent, outpipe := None\<rparr>"])
        (use p 2 h hic c in \<open>auto simp: can_send_def handshake_simps\<close>)
    then show ?thesis using p 2 by (simp add: process_pipe_term_def)
  next
    case 3
    have "pipe_inv (send_peer s Pipe_term_ack (upd s (\<lambda>p. p\<lparr>state := Term_ack_sent, outpipe := None\<rparr>) ?w))"
      by (rule ch[where cs = "[Pipe_term_ack]" and p' = "p\<lparr>state := Term_ack_sent, outpipe := None\<rparr>"])
        (use p 3 h hic c in \<open>auto simp: can_send_def handshake_simps\<close>)
    then show ?thesis using p 3 by (simp add: process_pipe_term_def)
  next
    case 4
    have "pipe_inv (send_peer s Pipe_term_ack (upd s (\<lambda>p. p\<lparr>state := Term_req_sent2, outpipe := None\<rparr>) ?w))"
      by (rule ch[where cs = "[Pipe_term_ack]" and p' = "p\<lparr>state := Term_req_sent2, outpipe := None\<rparr>"])
        (use p 4 h hic c in \<open>auto simp: can_send_def handshake_simps\<close>)
    then show ?thesis using p 4 by (simp add: process_pipe_term_def)
  qed
qed

lemma pipe_term_ack_head:
  assumes inv: "pipe_inv w" and c: "cmds w s = Pipe_term_ack # cs"
  shows "cs = []"
proof (rule ccontr)
  assume ne: "cs \<noteq> []"
  have "Pipe_term_ack \<notin> set (tcmds cs)"
    using inv_handshake[OF inv, of s] c by (auto simp: handshake_simps)
  moreover have "last cs = Pipe_term_ack" using inv_side[OF inv, of s] c ne by (auto simp: side_ok_def)
  then have "Pipe_term_ack \<in> set cs" using ne last_in_set by metis
  ultimately show False by (simp add: tcmds_ack)
qed

text \<open>An object that got the acknowledgement deallocates its \<open>inpipe\<close> and itself.\<close>

lemma dealloc_inv:
  assumes inv: "pipe_inv w" and p: "pipes w s = Some p" and a: "inpipe p = Some a"
    and oth: "st w (other s) \<in> {None, Some Term_ack_sent, Some Term_req_sent2}"
    and hic: "hiccups (cmds w s) = []"
    and w': "pipes w' = (pipes w)(s := None)" "upipes w' = (upipes w)(a := None)" "next_up w' = next_up w"
      "cmds w' = (cmds w)(s := [], other s := cmds w (other s) @ cs)" "cs = [] \<or> cs = [Pipe_term_ack]"
    and hs: "handshake None (st w (other s)) [] (tcmds (cmds w (other s)) @ cs)"
    and nack: "cs \<noteq> [] \<longrightarrow> Pipe_term_ack \<notin> set (cmds w (other s)) \<and> pipes w (other s) \<noteq> None"
    and opn: "pipes w (other s) = None \<longrightarrow> outpipe p = None"
  shows "pipe_inv w'"
proof -
  have i: "ctl_inv w" "mem_inv w" "data_inv w" using inv by (simp_all add: pipe_inv_def)
  have po: "pipes w' (other s) = pipes w (other s)" "cmds w' (other s) = cmds w (other s) @ cs" using w' by simp_all
  have so: "side_ok w (other s)" by (rule inv_side[OF inv])
  have hcs: "hiccups cs = []" "tcmds cs = cs" using w'(5) by auto
  have "late_ok (cmds w (other s) @ cs)" using so hcs by (intro late_ok_append) (simp_all add: side_ok_def)
  then have "side_ok w' (other s)" using so hcs nack w'(5) unfolding side_ok_def po by auto
  moreover have "side_ok w' s" using w' by (simp add: side_ok_def)
  moreover have st': "st w' s = None" "st w' (other s) = st w (other s)" using w'(1) by (simp_all add: st_def)
  then have "handshake (st w' s) (st w' (other s)) (tcmds (cmds w' s)) (tcmds (cmds w' (other s)))"
    using hs w'(4) hcs by simp
  ultimately have c: "ctl_inv w'" using ctl_inv_iff by blast
  have no: "Option.bind (pipes w (other s)) outpipe = None"
  proof (cases "pipes w (other s)")
    case (Some q)
    then show ?thesis using inv_pipe(2)[OF inv Some] oth by (simp add: st_def)
  qed simp
  have r2: "route w (other s) = [a]" "route w' (other s) = []"
    using no a p w'(1) by (simp_all add: route_def)
  have r1: "route w' s = route w s"
  proof (cases "pipes w (other s)")
    case None
    then show ?thesis using opn p w'(1) by (simp add: route_def)
  next
    case (Some q)
    let ?r = "case inpipe q of None \<Rightarrow> [] | Some a \<Rightarrow> [a]"
    have q: "route w s \<noteq> []" "inpipe q = Some (last (route w s))" using mem_inv_inpipe[OF i(2) Some] by simp_all
    have "route w s = ?r \<or> (\<exists>b. route w s = [b])" using p hic Some by (simp add: route_def split: option.split)
    then have "route w s = ?r" using q(2) by auto
    moreover have "route w' s = ?r" using w'(1) Some by (simp add: route_def)
    ultimately show ?thesis by (simp only:)
  qed
  have dom: "dom (upipes w) = set (route w s) \<union> {a}" "a \<notin> set (route w s)" "distinct (route w s)"
    using i(2) r2(1) unfolding mem_inv_def by (cases s; auto)+
  have "mem_inv w'"
    unfolding mem_inv_def
  proof (intro conjI allI impI)
    show "distinct (route w' P0 @ route w' P1)" "dom (upipes w') = set (route w' P0) \<union> set (route w' P1)"
      using r1 r2 dom w'(2) by (cases s; auto)+
    show "\<forall>x\<in>dom (upipes w'). x < next_up w'" using i(2) w'(2,3) by (auto simp: mem_inv_def)
    fix t q assume q: "pipes w' t = Some q"
    then have t: "t = other s" using w'(1) other_cases[of t s] by auto
    then have "pipes w (other s) = Some q" using q po by simp
    from mem_inv_inpipe[OF i(2) this] show "route w' (other t) \<noteq> []" "inpipe q = Some (last (route w' (other t)))"
      using r1 t by simp_all
  qed
  moreover have "data_inv w'"
    unfolding data_inv_def
  proof (intro conjI ballI allI impI)
    fix u assume "u \<in> ran (upipes w')"
    then show "partial_ok u" using i(3) w'(2) by (auto simp: data_inv_def ran_def split: if_splits)
  next
    fix t x u assume x: "x \<in> set (route w' t)" "upipes w' x = Some u" "has_delim u"
    then have t: "t = s" using r2(2) other_cases[of t s] by auto
    show "st w' t \<notin> {Some Active, Some Delimiter_received}" using t st'(1) by simp
  qed
  ultimately show ?thesis using c by (simp add: pipe_inv_def)
qed

lemma pipe_term_ack_inv:
  assumes inv: "pipe_inv w" and c: "cmds w s = Pipe_term_ack # cs"
  shows "\<exists>w'. process_pipe_term_ack s (w\<lparr>cmds := (cmds w)(s := cs)\<rparr>) = Some w' \<and> pipe_inv w'"
proof -
  have cs: "cs = []" by (rule pipe_term_ack_head[OF inv c])
  obtain p where p: "pipes w s = Some p" using inv_side[OF inv, of s] c by (auto simp: side_ok_def)
  have h: "handshake (Some (state p)) (st w (other s)) [Pipe_term_ack] (tcmds (cmds w (other s)))"
    using inv_handshake[OF inv, of s] p c cs by (simp add: st_def)
  obtain a u where a: "inpipe p = Some a" "upipes w a = Some u" using inv_inpipe[OF inv p] by metis
  have hk: "has_sink p" by (rule inv_pipe(1)[OF inv p])
  have hic: "hiccups (cmds w s) = []" using c cs by simp
  let ?w = "w\<lparr>cmds := (cmds w)(s := cs)\<rparr>"
  note da = dealloc_inv[OF inv p a(1) _ hic]
  consider "state p = Term_req_sent1" | "state p = Term_ack_sent \<or> state p = Term_req_sent2"
    using h by (auto simp: handshake_simps)
  then show ?thesis
  proof cases
    case 1
    have n: "Pipe_term_ack \<notin> set (cmds w (other s)) \<and> pipes w (other s) \<noteq> None"
      using h 1 tcmds_ack[of "cmds w (other s)"] by (auto simp: handshake_simps st_def)
    let ?w2 = "send_peer s Pipe_term_ack (upd s (\<lambda>p. p\<lparr>outpipe := None\<rparr>) (notify s Pipe_terminated ?w))"
    have "pipe_inv (?w2\<lparr>upipes := (upipes ?w2)(a := None), pipes := (pipes ?w2)(s := None)\<rparr>)"
      by (rule da[where cs = "[Pipe_term_ack]"]) (use h 1 cs n in \<open>auto simp: handshake_simps\<close>)
    then show ?thesis using p a hk 1 by (simp add: process_pipe_term_ack_def)
  next
    case 2
    let ?w2 = "notify s Pipe_terminated ?w"
    have op: "outpipe p = None" using inv_pipe(2)[OF inv p] 2 by simp
    have "pipe_inv (?w2\<lparr>upipes := (upipes ?w2)(a := None), pipes := (pipes ?w2)(s := None)\<rparr>)"
      by (rule da[where cs = "[]"]) (use h 2 cs op in \<open>auto simp: handshake_simps\<close>)
    then show ?thesis using p a hk 2 by (auto simp: process_pipe_term_ack_def)
  qed
qed

subsection \<open>Hiccups\<close>

text \<open>The writer moves on to the underlying pipe it has been sent and deallocates the one it used.\<close>

lemma process_hiccup_inv:
  assumes inv: "pipe_inv w" and c: "cmds w s = Hiccup b # cs"
  shows "\<exists>w'. process_hiccup s b (w\<lparr>cmds := (cmds w)(s := cs)\<rparr>) = Some w' \<and> pipe_inv w'"
proof -
  have so: "side_ok w s" by (rule inv_side[OF inv])
  obtain p where p: "pipes w s = Some p" using so c by (auto simp: side_ok_def)
  have "state p \<notin> {Waiting_for_delimiter, Term_ack_sent, Term_req_sent2}" using inv_pipe(3)[OF inv p] c by auto
  then obtain a where a: "outpipe p = Some a" using inv_pipe(2)[OF inv p] by (cases "outpipe p") auto
  obtain u where u: "upipes w a = Some u" using inv_outpipe[OF inv p a] by metis
  define n where "n = drop_all (fst (up_flush u)) (msgs_written p)"
  define p' where "p' = p\<lparr>msgs_written := n, outpipe := Some b, out_active := True\<rparr>"
  have "\<exists>w'. process_hiccup s b (w\<lparr>cmds := (cmds w)(s := cs)\<rparr>) = Some w' \<and>
    pipes w' = (pipes w)(s \<mapsto> p') \<and> upipes w' = (upipes w)(a := None) \<and> next_up w' = next_up w \<and> cmds w' = (cmds w)(s := cs)"
    using p a u by (simp add: process_hiccup_def n_def p'_def Let_def)
  then obtain w' where w': "process_hiccup s b (w\<lparr>cmds := (cmds w)(s := cs)\<rparr>) = Some w'"
    "pipes w' = (pipes w)(s \<mapsto> p')" "upipes w' = (upipes w)(a := None)" "next_up w' = next_up w" "cmds w' = (cmds w)(s := cs)"
    by blast
  have i: "ctl_inv w" "mem_inv w" "data_inv w" using inv by (simp_all add: pipe_inv_def)
  have st: "st w' t = st w t" for t using w'(2) p by (simp add: st_def p'_def)
  have r1: "route w s = a # route w' s" "route w' s \<noteq> []" using p a c w' by (simp_all add: route_def p'_def)
  have r2: "route w' (other s) = route w (other s)" using w' p by (intro route_cong) (simp_all add: p'_def)
  have "late_ok cs" "Pipe_term_ack \<in> set cs \<longrightarrow> last cs = Pipe_term_ack"
    using so c late_ok_tl[of "Hiccup b" cs] last_ack_tl[of "Hiccup b" cs] unfolding side_ok_def by auto
  moreover have "state p' \<notin> {Waiting_for_delimiter, Term_ack_sent, Term_req_sent2}"
    "has_sink p'" "outpipe p' \<noteq> None" using \<open>state p \<notin> _\<close> inv_pipe(1)[OF inv p] by (simp_all add: p'_def)
  ultimately have "side_ok w' s" using w' by (auto simp: side_ok_def)
  moreover have "side_ok w' (other s)" using inv_side[OF inv, of "other s"] w' by (simp add: side_ok_def)
  moreover have "handshake (st w' s) (st w' (other s)) (tcmds (cmds w' s)) (tcmds (cmds w' (other s)))"
    using inv_handshake[OF inv, of s] c w'(5) unfolding st by simp
  ultimately have ci: "ctl_inv w'" using ctl_inv_iff by blast
  have dom: "dom (upipes w) = insert a (set (route w' s) \<union> set (route w (other s)))" "a \<notin> set (route w' s) \<union> set (route w (other s))"
    "distinct (route w' s)" "distinct (route w (other s))" "set (route w' s) \<inter> set (route w (other s)) = {}"
    using i(2) r1(1) unfolding mem_inv_def by (cases s; auto)+
  have "mem_inv w'"
    unfolding mem_inv_def
  proof (intro conjI allI impI)
    show "distinct (route w' P0 @ route w' P1)" "dom (upipes w') = set (route w' P0) \<union> set (route w' P1)"
      using r2 dom w'(3) by (cases s; auto)+
    show "\<forall>x\<in>dom (upipes w'). x < next_up w'" using i(2) w'(3,4) by (auto simp: mem_inv_def)
    fix t q assume q: "pipes w' t = Some q"
    then obtain q0 where q0: "pipes w t = Some q0" "inpipe q0 = inpipe q" using w'(2) p by (auto simp: p'_def split: if_splits)
    have "t = s \<or> t = other s" by (rule other_cases)
    then show "route w' (other t) \<noteq> []" "inpipe q = Some (last (route w' (other t)))"
      using mem_inv_inpipe[OF i(2) q0(1)] q0(2) r1 r2 by auto
  qed
  moreover have "data_inv w'"
    unfolding data_inv_def st
  proof (intro conjI ballI allI impI)
    fix v assume "v \<in> ran (upipes w')"
    then show "partial_ok v" using i(3) w'(3) by (auto simp: data_inv_def ran_def split: if_splits)
  next
    fix t x v assume x: "x \<in> set (route w' t)" "upipes w' x = Some v" "has_delim v"
    have "x \<in> set (route w t)" using x(1) r1 r2 other_cases[of t s] by auto
    then show "st w t \<notin> {Some Active, Some Delimiter_received}"
      using inv_delim[OF inv] x w'(3) by (auto split: if_splits)
  qed
  ultimately show ?thesis using ci w'(1) by (auto simp: pipe_inv_def)
qed

lemma hiccup_inv:
  assumes inv: "pipe_inv w" and p: "pipes w s = Some p"
  shows "\<exists>w'. pipe_hiccup s w = Some w' \<and> pipe_inv w'"
proof (cases "state p = Active")
  case False
  then show ?thesis using inv p by (simp add: pipe_hiccup_def)
next
  case True
  let ?a = "next_up w"
  define p' where "p' = p\<lparr>inpipe := Some ?a, in_active := True\<rparr>"
  have "\<exists>w'. pipe_hiccup s w = Some w' \<and> pipes w' = (pipes w)(s \<mapsto> p') \<and> upipes w' = (upipes w)(?a \<mapsto> new_upipe (conflate p)) \<and>
    next_up w' = ?a + 1 \<and> cmds w' = (cmds w)(other s := cmds w (other s) @ [Hiccup ?a])"
    using p True by (simp add: pipe_hiccup_def p'_def Let_def)
  then obtain w' where w': "pipe_hiccup s w = Some w'" "pipes w' = (pipes w)(s \<mapsto> p')"
    "upipes w' = (upipes w)(?a \<mapsto> new_upipe (conflate p))" "next_up w' = ?a + 1"
    "cmds w' = (cmds w)(other s := cmds w (other s) @ [Hiccup ?a])" by blast
  have i: "ctl_inv w" "mem_inv w" "data_inv w" using inv by (simp_all add: pipe_inv_def)
  have h: "handshake (Some Active) (st w (other s)) (tcmds (cmds w s)) (tcmds (cmds w (other s)))"
    using inv_handshake[OF inv, of s] p True by (simp add: st_def)
  then have o: "st w (other s) \<in> {Some Active, Some Term_req_sent1}" "tcmds (cmds w (other s)) = []"
    by (auto simp: handshake_simps)
  then obtain q where q: "pipes w (other s) = Some q" "state q \<in> {Active, Term_req_sent1}" by (auto simp: st_def)
  then obtain b where b: "outpipe q = Some b" using inv_pipe(2)[OF inv q(1)] by (cases "outpipe q") auto
  have st: "st w' t = st w t" for t using w'(2) p by (simp add: st_def p'_def)
  have r1: "route w' (other s) = route w (other s) @ [?a]" using q b w' by (simp add: route_def)
  have r2: "route w' s = route w s"
    using w' p inv_pipe(2)[OF inv p] True by (intro route_cong) (simp_all add: p'_def)
  have "late_ok (cmds w' (other s))" "Pipe_term_ack \<notin> set (cmds w (other s))"
    using late_ok_hiccup[OF o(2), of ?a] w'(5) o(2) tcmds_ack[of "cmds w (other s)"] by simp_all
  then have "side_ok w' (other s)" using inv_side[OF inv, of "other s"] w' q by (auto simp: side_ok_def)
  moreover have "side_ok w' s" using inv_side[OF inv, of s] w' p by (auto simp: side_ok_def p'_def)
  moreover have "handshake (st w' s) (st w' (other s)) (tcmds (cmds w' s)) (tcmds (cmds w' (other s)))"
    using inv_handshake[OF inv, of s] w'(5) unfolding st by simp
  ultimately have ci: "ctl_inv w'" using ctl_inv_iff by blast
  have fresh: "?a \<notin> set (route w t)" for t using i(2) unfolding mem_inv_def by (cases t) auto
  have ds: "distinct (route w s)" "distinct (route w (other s))" "set (route w s) \<inter> set (route w (other s)) = {}"
    "dom (upipes w) = set (route w s) \<union> set (route w (other s))"
    using i(2) unfolding mem_inv_def by (cases s; auto)+
  have "mem_inv w'"
    unfolding mem_inv_def
  proof (intro conjI allI impI)
    show "distinct (route w' P0 @ route w' P1)" "dom (upipes w') = set (route w' P0) \<union> set (route w' P1)"
      using r1 r2 ds fresh w'(3) by (cases s; auto)+
    show "\<forall>x\<in>dom (upipes w'). x < next_up w'" using i(2) w'(3,4) by (auto simp: mem_inv_def intro!: less_SucI)
    fix t r assume r: "pipes w' t = Some r"
    have "t = s \<or> t = other s" by (rule other_cases)
    then show "route w' (other t) \<noteq> []" "inpipe r = Some (last (route w' (other t)))"
      using mem_inv_inpipe[OF i(2) q(1)] q r r1 r2 w'(2) by (auto simp: p'_def)
  qed
  moreover have nu: "partial_ok (new_upipe c)" "\<not> has_delim (new_upipe c)" for c
    by (simp_all add: new_upipe_def fifo_empty_def has_delim_def ypipe_conflate_t_def dbuffer_t_def empty_msg_def)
  have "data_inv w'"
    unfolding data_inv_def st
  proof (intro conjI ballI allI impI)
    fix v assume "v \<in> ran (upipes w')"
    then show "partial_ok v" using i(3) w'(3) nu by (auto simp: data_inv_def ran_def split: if_splits)
  next
    fix t x v assume x: "x \<in> set (route w' t)" "upipes w' x = Some v" "has_delim v"
    then have "x \<noteq> ?a" using nu w'(3) by auto
    then have "x \<in> set (route w t)" "upipes w x = Some v" using x r1 r2 w'(3) other_cases[of t s] by auto
    then show "st w t \<notin> {Some Active, Some Delimiter_received}" using inv_delim[OF inv] x(3) by blast
  qed
  ultimately show ?thesis using ci w'(1) by (auto simp: pipe_inv_def)
qed

subsection \<open>Termination\<close>

lemma put_delim_inv:
  assumes inv: "pipe_inv w" and p: "pipes w s = Some p" "outpipe p = Some b" "upipes w b = Some u"
    and st: "state p \<notin> {Active, Delimiter_received}" and k: "partial_ok u'"
  shows "pipe_inv (put_up b u' w)" (is "pipe_inv ?w")
proof -
  have i: "ctl_inv w" "mem_inv w" "data_inv w" using inv by (simp_all add: pipe_inv_def)
  have r: "route ?w t = route w t" for t by (intro route_cong) simp_all
  have s: "st ?w t = st w t" for t by (simp add: st_def)
  have "ctl_inv ?w" using i(1) by (simp add: ctl_inv_def side_ok_def s)
  moreover have "dom (upipes ?w) = dom (upipes w)" using p(3) by auto
  then have "mem_inv ?w" using i(2) unfolding mem_inv_def r by simp
  moreover have "data_inv ?w"
    unfolding data_inv_def r s
  proof (intro conjI ballI allI impI)
    fix v assume "v \<in> ran (upipes ?w)"
    then show "partial_ok v" using i(3) k by (auto simp: data_inv_def ran_def split: if_splits)
  next
    fix t x v assume x: "x \<in> set (route w t)" "upipes ?w x = Some v" "has_delim v"
    show "st w t \<notin> {Some Active, Some Delimiter_received}"
    proof (cases "x = b")
      case True
      have "b \<in> set (route w s)" using inv_outpipe[OF inv p(1,2)] by metis
      then have "t = s" using x(1) True i(2) unfolding mem_inv_def by (cases t; cases s; auto)
      then show ?thesis using st p(1) by (simp add: st_def)
    next
      case False
      then show ?thesis using x inv_delim[OF inv x(1)] by simp
    qed
  qed
  ultimately show ?thesis by (simp add: pipe_inv_def)
qed

lemma unwrite_all_partial: "unwrite_all u = Some u' \<Longrightarrow> up_partial u' = 0"
proof (induction u rule: unwrite_all.induct)
  case (1 u)
  obtain u1 r where r: "up_unwrite u = (u1, r)" by fastforce
  show ?case
  proof (cases r)
    case None
    then have "u' = u1" using 1(2) r by (subst (asm) unwrite_all.simps) simp
    then show ?thesis using r None by (cases u) (auto simp: fifo_unwrite_def conflate_defs split: if_splits)
  next
    case (Some m)
    then have "has_more m" "unwrite_all u1 = Some u'"
      using 1(2) r by (subst (asm) unwrite_all.simps; simp split: if_splits)+
    then show ?thesis using 1(1)[OF r[symmetric] Some] by simp
  qed
qed

text \<open>The end of \<open>terminate\<close>: the incomplete message is dropped and a delimiter is written and flushed.\<close>

lemma write_delimiter_inv:
  assumes inv: "pipe_inv w" and p: "pipes w s = Some p" "outpipe p = Some b" and st: "state p \<notin> {Active, Delimiter_received}"
  shows "\<exists>w3 u w'. pipe_rollback s w = Some w3 \<and> upipes w3 b = Some u \<and>
    pipe_flush s (put_up b (up_write delimiter_msg False u) w3) = Some w' \<and> pipe_inv w'"
proof -
  obtain u0 where u0: "upipes w b = Some u0" "partial_ok u0" using inv_outpipe[OF inv p] by metis
  obtain u where u: "unwrite_all u0 = Some u" "keeps u0 u" using unwrite_all_ok[OF u0(2)] by blast
  let ?w3 = "put_up b u w"
  have r: "pipe_rollback s w = Some ?w3" using p u0 u by (simp add: pipe_rollback_def)
  have i3: "pipe_inv ?w3" using benign_inv[OF inv benign_put[OF u0(1) u(2)]] .
  have "partial_ok (up_write delimiter_msg False u)"
    using unwrite_all_partial[OF u(1)] by (cases u) (simp_all add: fifo_write_def)
  then have i4: "pipe_inv (put_up b (up_write delimiter_msg False u) ?w3)"
    using put_delim_inv[OF i3 _ p(2) _ st] p by simp
  have "pipes (put_up b (up_write delimiter_msg False u) ?w3) s = Some p" using p by simp
  from flush_benign[OF i4 this] obtain w' where
    "pipe_flush s (put_up b (up_write delimiter_msg False u) ?w3) = Some w'"
    "benign (put_up b (up_write delimiter_msg False u) ?w3) w'" by blast
  with r i4 show ?thesis using benign_inv by (intro exI[of _ ?w3] exI[of _ u] exI[of _ w']) simp
qed

lemma terminate_inv:
  assumes inv: "pipe_inv w" and p: "pipes w s = Some p"
  shows "\<exists>w'. pipe_terminate s d w = Some w' \<and> pipe_inv w'"
proof -
  have b: "benign w (upd s (\<lambda>p. p\<lparr>delay := d\<rparr>) w)" by (rule benign_upd) (simp add: same_ctl_def)
  have h: "handshake (Some (state p)) (st w (other s)) (tcmds (cmds w s)) (tcmds (cmds w (other s)))"
    using inv_handshake[OF inv, of s] p by (simp add: st_def)
  consider (over) "state p = Term_req_sent1 \<or> state p = Term_req_sent2 \<or> state p = Term_ack_sent"
    | (act) "state p = Active \<or> state p = Delimiter_received" | (wait) "state p = Waiting_for_delimiter"
    by (cases "state p") auto
  then show ?thesis
  proof cases
    case over
    then show ?thesis using p benign_inv[OF inv b] by (auto simp: pipe_terminate_def)
  next
    case act
    let ?p = "p\<lparr>delay := d, state := Term_req_sent1, out_active := False\<rparr>"
    let ?w = "upd s (\<lambda>p. p\<lparr>out_active := False\<rparr>) (upd s (\<lambda>p. p\<lparr>state := Term_req_sent1\<rparr>)
      (send_peer s Pipe_term (upd s (\<lambda>p. p\<lparr>delay := d\<rparr>) w)))"
    obtain a where a: "outpipe p = Some a" using inv_pipe(2)[OF inv p] act by (cases "outpipe p") auto
    have "pipe_inv ?w"
      by (rule state_change[OF inv p, where ds = "cmds w s" and cs = "[Pipe_term]" and p' = ?p])
        (use p act h in \<open>auto simp: can_send_def handshake_simps\<close>)
    from write_delimiter_inv[OF this, of s ?p a] show ?thesis using p a act by (auto simp: pipe_terminate_def Let_def)
  next
    case wait
    show ?thesis
    proof (cases d)
      case True
      let ?p = "p\<lparr>delay := d, out_active := False\<rparr>"
      let ?w = "upd s (\<lambda>p. p\<lparr>out_active := False\<rparr>) (upd s (\<lambda>p. p\<lparr>delay := d\<rparr>) w)"
      obtain a where a: "outpipe p = Some a" using inv_pipe(2)[OF inv p] wait by (cases "outpipe p") auto
      have "benign w ?w" by (rule benign_trans_upd[OF b]) (simp add: same_ctl_def)
      then have "pipe_inv ?w" by (rule benign_inv[OF inv])
      from write_delimiter_inv[OF this, of s ?p a] show ?thesis using p a wait True by (auto simp: pipe_terminate_def Let_def)
    next
      case False
      let ?p = "p\<lparr>delay := d, outpipe := None, state := Term_ack_sent, out_active := False\<rparr>"
      let ?w = "upd s (\<lambda>p. p\<lparr>out_active := False\<rparr>) (upd s (\<lambda>p. p\<lparr>outpipe := None, state := Term_ack_sent\<rparr>)
        (send_peer s Pipe_term_ack (upd s (\<lambda>p. p\<lparr>delay := d\<rparr>) w)))"
      have "pipe_inv ?w"
        by (rule state_change[OF inv p, where ds = "cmds w s" and cs = "[Pipe_term_ack]" and p' = ?p])
          (use p wait h inv_pipe(3)[OF inv p] in \<open>auto simp: can_send_def handshake_simps\<close>)
      then show ?thesis using p wait False by (auto simp: pipe_terminate_def Let_def)
    qed
  qed
qed

section \<open>All interleavings\<close>

lemma process_command_inv:
  assumes inv: "pipe_inv w" and ne: "cmds w s \<noteq> []"
  shows "\<exists>w'. process_command s w = Some w' \<and> pipe_inv w'"
proof -
  obtain c cs where c: "cmds w s = c # cs" using ne by (cases "cmds w s") auto
  obtain p where p: "pipes w s = Some p" using inv_side[OF inv, of s] c by (auto simp: side_ok_def)
  let ?w = "w\<lparr>cmds := (cmds w)(s := cs)\<rparr>"
  have p': "pipes ?w s = Some p" using p by simp
  show ?thesis
  proof (cases c)
    case Activate_read
    then have "pipe_inv ?w" using pop_activate_inv[OF inv c] by simp
    from activate_inv(1)[OF this p'] show ?thesis using c Activate_read by (simp add: process_command_def)
  next
    case (Activate_write n)
    then have "pipe_inv ?w" using pop_activate_inv[OF inv c] by simp
    from activate_inv(2)[OF this p'] show ?thesis using c Activate_write by (simp add: process_command_def)
  next
    case (Hiccup b)
    then show ?thesis using process_hiccup_inv[OF inv, of s b cs] c by (simp add: process_command_def)
  next
    case Pipe_term
    then show ?thesis using pipe_term_inv[OF inv, of s cs] c by (simp add: process_command_def)
  next
    case Pipe_term_ack
    then show ?thesis using pipe_term_ack_inv[OF inv, of s cs] c by (simp add: process_command_def)
  qed
qed

lemma exec_inv:
  assumes inv: "pipe_inv w" and al: "allowed x w"
  shows "\<exists>w'. exec x w = Some w' \<and> pipe_inv w'"
proof -
  have live: "\<exists>p. pipes w (actor x) = Some p" if "\<And>s. x \<noteq> Process s" using al that by (cases x) auto
  have nd: "benign w (upd s set_nodelay w)" for s by (rule benign_upd) (simp add: same_ctl_def set_nodelay_def)
  show ?thesis
  proof (cases x)
    case (Write s m)
    then show ?thesis using al live write_benign[OF inv, of s _ m] benign_inv[OF inv] by fastforce
  next
    case (Check_write s)
    then show ?thesis using live check_write_benign[of w s] benign_inv[OF inv] by fastforce
  next
    case (Process s)
    then show ?thesis using al process_command_inv[OF inv, of s] by simp
  next
    case (Nodelay s)
    then show ?thesis using live benign_inv[OF inv nd] by auto
  qed (use live in \<open>fastforce dest: read_inv[OF inv] check_read_inv[OF inv] rollback_benign[OF inv] flush_benign[OF inv]
      hiccup_inv[OF inv] terminate_inv[OF inv] benign_inv[OF inv]\<close>)+
qed

lemma reachable_inv: "reachable w0 w \<Longrightarrow> pipe_inv w0 \<Longrightarrow> pipe_inv w"
  by (induction rule: reachable.induct) (use exec_inv in fastforce)+

section \<open>Shutdown\<close>

text \<open>
  Closing the pipe pair from both ends without delay, then letting both sides process their commands
  (\<open>fuel\<close> bounds how many) until none is left.
\<close>

definition terminate_live :: "side \<Rightarrow> world \<Rightarrow> world option" where
  "terminate_live s w = (if pipes w s = None then Some w else pipe_terminate s False w)"

fun drain :: "nat \<Rightarrow> world \<Rightarrow> world option" where
  "drain 0 w = Some w"
| "drain (Suc fuel) w =
     (if cmds w P0 \<noteq> [] then Option.bind (process_command P0 w) (drain fuel)
      else if cmds w P1 \<noteq> [] then Option.bind (process_command P1 w) (drain fuel)
      else Some w)"

definition closing :: "world \<Rightarrow> bool" where
  "closing w \<longleftrightarrow> (\<forall>s. st w s \<in> {None, Some Term_ack_sent, Some Term_req_sent1, Some Term_req_sent2})"

definition pending :: "world \<Rightarrow> nat" where
  "pending w = (\<Sum>s\<leftarrow>[P0, P1]. length (cmds w s) + (if st w s = Some Term_req_sent1 then 2 else 0))"

lemma pending_side:
  "pending w = length (cmds w s) + (if st w s = Some Term_req_sent1 then 2 else 0) +
     (length (cmds w (other s)) + (if st w (other s) = Some Term_req_sent1 then 2 else 0))"
  by (cases s) (simp_all add: pending_def)

lemma closing_side: "closing w \<longleftrightarrow> (\<forall>t\<in>{s, other s}. st w t \<in> {None, Some Term_ack_sent, Some Term_req_sent1, Some Term_req_sent2})"
  unfolding closing_def all_sides[of _ s] by simp

lemma st_upd [simp]: "st (upd s f w) t = (if t = s then map_option (\<lambda>p. state (f p)) (pipes w s) else st w t)"
  by (simp add: st_def comp_def option.map_comp)

lemma st_simps [simp]: "st (send_peer s c w) = st w" "st (notify s e w) = st w" "st (put_up a u w) = st w"
  "st (w\<lparr>cmds := x\<rparr>) = st w" "st (w\<lparr>upipes := y\<rparr>) = st w"
  by (simp_all add: st_def fun_eq_iff)

text \<open>What processing a command does in a closing state.\<close>

lemma process_effect:
  assumes "process_command s w = Some w'" "cmds w s = c # cs" "pipes w s = Some p" "state p \<in> {Term_ack_sent, Term_req_sent1, Term_req_sent2}"
    "st w s = Some (state p)"
  shows "(cmds w' = (cmds w)(s := cs) \<and> (st w' s = st w s \<or> st w' s = None) \<or>
      state p = Term_req_sent1 \<and> (\<exists>x. cmds w' = (cmds w)(s := cs, other s := cmds w (other s) @ [x])) \<and>
        st w' s \<in> {None, Some Term_req_sent2}) \<and> st w' (other s) = st w (other s)"
proof (cases c)
  case Activate_read
  then show ?thesis using assms by (auto simp: process_command_def process_activate_read_def)
next
  case (Activate_write n)
  then show ?thesis using assms by (auto simp: process_command_def process_activate_write_def)
next
  case (Hiccup b)
  then show ?thesis using assms by (auto simp: process_command_def process_hiccup_def Let_def split: bind_splits if_splits)
next
  case Pipe_term
  then show ?thesis using assms by (auto simp: process_command_def process_pipe_term_def intro!: exI[of _ Pipe_term_ack])
next
  case Pipe_term_ack
  then show ?thesis using assms
    by (auto simp: process_command_def process_pipe_term_ack_def Let_def st_def intro!: exI[of _ Pipe_term_ack]
        split: bind_splits if_splits)
qed

lemma process_progress:
  assumes inv: "pipe_inv w" and cl: "closing w" and ne: "cmds w s \<noteq> []"
  shows "\<exists>w'. process_command s w = Some w' \<and> pipe_inv w' \<and> closing w' \<and> pending w' < pending w"
proof -
  obtain c cs where c: "cmds w s = c # cs" using ne by (cases "cmds w s") auto
  obtain p where p: "pipes w s = Some p" using inv_side[OF inv, of s] c by (auto simp: side_ok_def)
  have sp: "state p \<in> {Term_ack_sent, Term_req_sent1, Term_req_sent2}" "st w s = Some (state p)"
    using cl p unfolding closing_def by (auto simp: st_def dest: spec[of _ s])
  obtain w' where w': "process_command s w = Some w'" "pipe_inv w'" using process_command_inv[OF inv ne] by blast
  note e = process_effect[OF w'(1) c p sp]
  have "closing w'" using cl e sp unfolding closing_side[of _ s] by auto
  moreover have "pending w' < pending w"
    using e c sp unfolding pending_side[of _ s] by (auto split: if_splits)
  ultimately show ?thesis using w' by blast
qed

lemma drain_closing:
  "pipe_inv w \<Longrightarrow> closing w \<Longrightarrow> pending w \<le> fuel \<Longrightarrow>
    \<exists>w'. drain fuel w = Some w' \<and> pipe_inv w' \<and> closing w' \<and> cmds w' P0 = [] \<and> cmds w' P1 = []"
proof (induction fuel arbitrary: w)
  case 0
  then show ?case by (simp add: pending_def)
next
  case (Suc fuel)
  consider "cmds w P0 \<noteq> []" | "cmds w P0 = []" "cmds w P1 \<noteq> []" | "cmds w P0 = []" "cmds w P1 = []" by blast
  then show ?case
  proof cases
    case 1
    from process_progress[OF Suc.prems(1,2) this] Suc.IH Suc.prems(3) 1 show ?thesis by fastforce
  next
    case 2
    from process_progress[OF Suc.prems(1,2) this(2)] Suc.IH Suc.prems(3) 2 show ?thesis by fastforce
  qed (use Suc.prems in simp)
qed

lemma quiet_closed:
  assumes "pipe_inv w" "closing w" "cmds w P0 = []" "cmds w P1 = []"
  shows "pipes w = (\<lambda>_. None)"
proof -
  have "st w P0 = None \<and> st w P1 = None"
    using inv_handshake[OF assms(1), of P0] assms(2-4) unfolding closing_side[of _ P0] by (auto simp: handshake_simps)
  then have "pipes w t = None" for t by (cases t) (simp_all add: st_def)
  then show ?thesis by (simp add: fun_eq_iff)
qed

lemma closed_no_upipes: "pipe_inv w \<Longrightarrow> pipes w = (\<lambda>_. None) \<Longrightarrow> upipes w = Map.empty"
  unfolding pipe_inv_def mem_inv_def route_def by (simp add: fun_eq_iff domIff)

lemma terminate_closes:
  assumes inv: "pipe_inv w" and t: "terminate_live s w = Some w'"
  shows "pipe_inv w' \<and> st w' s \<in> {None, Some Term_ack_sent, Some Term_req_sent1, Some Term_req_sent2} \<and> st w' (other s) = st w (other s)"
proof (cases "pipes w s")
  case None
  then show ?thesis using inv t by (simp add: terminate_live_def st_def)
next
  case (Some p)
  then have t': "pipe_terminate s False w = Some w'" using t by (simp add: terminate_live_def)
  have fl: "st x' = st x" if "pipe_flush s x = Some x'" for x x'
    using that by (auto simp: pipe_flush_def Let_def fun_eq_iff split: bind_splits option.splits if_splits prod.splits)
  have ro: "st x' = st x" if "pipe_rollback s x = Some x'" for x x'
    using that by (auto simp: pipe_rollback_def fun_eq_iff split: bind_splits option.splits)
  have "pipe_inv w'" using terminate_inv[OF inv Some, of False] t' by simp
  moreover have "st w' s \<in> {None, Some Term_ack_sent, Some Term_req_sent1, Some Term_req_sent2} \<and> st w' (other s) = st w (other s)"
    using t' Some by (cases "state p")
      (auto simp: pipe_terminate_def Let_def st_def[of w] split: bind_splits option.splits dest!: fl ro)
  ultimately show ?thesis by blast
qed

lemma drain_reachable: "reachable w0 w \<Longrightarrow> drain n w = Some w' \<Longrightarrow> reachable w0 w'"
proof (induction n arbitrary: w)
  case (Suc n)
  have "reachable w0 x" if "cmds w s \<noteq> []" "process_command s w = Some x" for s x
    using reachable.step[OF Suc.prems(1), of "Process s" x] that by simp
  with Suc show ?case by (auto split: if_splits bind_splits)
qed simp

lemma terminate_live_reachable: "reachable w0 w \<Longrightarrow> terminate_live s w = Some w' \<Longrightarrow> reachable w0 w'"
  using reachable.step[of w0 w "Terminate s False" w'] by (auto simp: terminate_live_def split: if_splits)

lemma shutdown:
  assumes i: "pipe_inv w"
  shows "\<exists>w1 w2 w'. terminate_live P0 w = Some w1 \<and> terminate_live P1 w1 = Some w2 \<and>
    drain (pending w2) w2 = Some w' \<and> pipes w' = (\<lambda>_. None) \<and> upipes w' = Map.empty"
proof -
  have ex: "\<exists>x'. terminate_live s x = Some x'" if "pipe_inv x" for s x
    using terminate_inv[OF that, of s _ False] by (cases "pipes x s") (auto simp: terminate_live_def)
  obtain w1 where w1: "terminate_live P0 w = Some w1" using ex[OF i] by blast
  note t1 = terminate_closes[OF i w1]
  obtain w2 where w2: "terminate_live P1 w1 = Some w2" using ex t1 by blast
  have t2: "pipe_inv w2" "closing w2" using terminate_closes[OF _ w2] t1 unfolding closing_side[of _ P0] by auto
  from drain_closing[OF t2 order_refl] obtain w' where w': "drain (pending w2) w2 = Some w'" "pipe_inv w'" "closing w'"
    "cmds w' P0 = []" "cmds w' P1 = []" by blast
  have "pipes w' = (\<lambda>_. None)" by (rule quiet_closed[OF w'(2-5)])
  then show ?thesis using w1 w2 w'(1) closed_no_upipes[OF w'(2)] by blast
qed

lemma shutdown_reachable:
  assumes "reachable (start h0 h1 c0 c1) w"
  shows "\<exists>w'. reachable (start h0 h1 c0 c1) w' \<and> pipes w' = (\<lambda>_. None)"
  using shutdown[OF reachable_inv[OF assms start_inv]] assms terminate_live_reachable drain_reachable by meson

section \<open>Properties\<close>

text \<open>
  Claim C11: no interleaving of the two sides' calls and of the processing of their commands can violate
  an assertion of the pipe, use a deallocated object or underlying pipe, or free one twice: every call
  allowed in a reachable state succeeds.
\<close>

theorem pipe_protocol_safe:
  assumes "reachable (start h0 h1 c0 c1) w" "allowed x w"
  shows "\<exists>w'. exec x w = Some w'"
  using exec_inv[OF reachable_inv[OF assms(1) start_inv] assms(2)] by blast

theorem pipe_protocol_safe_witness:
  "\<exists>w'. exec (Terminate P0 True) (start 1 1 False False) = Some w'"
proof (rule pipe_protocol_safe)
  show "reachable (start 1 1 False False) (start 1 1 False False)" by (rule reachable.refl)
  show "allowed (Terminate P0 True) (start 1 1 False False)" by (simp add: start_def pipepair_def)
qed

text \<open>
  Claim C12: a deallocated pipe has no command on its way to it, and once both pipes are deallocated
  every underlying pipe has been freed, those created by hiccups included.
\<close>

theorem pipe_no_leak:
  assumes "reachable (start h0 h1 c0 c1) w"
  shows "(pipes w s = None \<longrightarrow> cmds w s = []) \<and> (pipes w = (\<lambda>_. None) \<longrightarrow> upipes w = Map.empty)"
proof -
  have i: "pipe_inv w" by (rule reachable_inv[OF assms start_inv])
  show ?thesis using inv_side[OF i, of s] closed_no_upipes[OF i] by (simp add: side_ok_def)
qed

theorem pipe_no_leak_witness:
  "\<exists>w. reachable (start 1 1 False True) w \<and> pipes w = (\<lambda>_. None) \<and> upipes w = Map.empty \<and> cmds w P0 = []"
proof -
  from shutdown_reachable[OF reachable.refl] obtain w where
    w: "reachable (start 1 1 False True) w" "pipes w = (\<lambda>_. None)" by blast
  with pipe_no_leak[OF w(1), of P0] show ?thesis by auto
qed



end
