(* ===== verification/Pipe_Flow.thy ===== *)
theory Pipe_Flow
  imports Pipe_Protocol
begin

text \<open>
  Flow control of a pipe pair: \<open>msgs_written\<close>, \<open>msgs_read\<close> and \<open>peers_msgs_read\<close> are 64 bit counters that
  wrap around, kept in different threads and carried over by \<open>activate_write\<close> commands. For one
  direction, as long as its writer is active, the invariant relates them to unbounded counters: the
  writer's view of what was read lags behind, and the messages in between are those in the
  underlying pipes. It gives the bound of the high watermark, and that a blocked writer is always
  woken before its reader runs dry.
\<close>

section \<open>Contents of underlying pipes\<close>

text \<open>The messages that count against the watermark.\<close>

definition counted :: "msg \<Rightarrow> bool" where
  "counted m \<longleftrightarrow> \<not> has_more m \<and> \<not> has_identity m"

fun cnt :: "upipe \<Rightarrow> nat" where
  "cnt (Normal q) = length (filter counted (flushed q @ staged q))"
| "cnt (Conflate c) = 0"

text \<open>What users write: no credentials and no delimiters, and identities only where \<open>i\<close> says so.\<close>

definition plain :: "bool \<Rightarrow> msg \<Rightarrow> bool" where
  "plain i m \<longleftrightarrow> \<not> has_credential m \<and> kind m \<noteq> Kdelimiter \<and> (i \<or> \<not> has_identity m)"

fun tame :: "bool \<Rightarrow> upipe \<Rightarrow> bool" where
  "tame i (Normal q) \<longleftrightarrow> (\<forall>m\<in>set (flushed q) \<union> set (staged q) \<union> set (partial q). plain i m) \<and>
     (\<forall>m\<in>set (partial q). has_more m)"
| "tame i (Conflate c) \<longleftrightarrow> False"

definition same_load :: "bool \<Rightarrow> upipe \<Rightarrow> upipe \<Rightarrow> bool" where
  "same_load i u u' \<longleftrightarrow> (tame i u \<longrightarrow> tame i u' \<and> cnt u' = cnt u)"

lemma same_load_refl [simp]: "same_load i u u"
  by (simp add: same_load_def)

lemma same_load_trans: "same_load i u v \<Longrightarrow> same_load i v x \<Longrightarrow> same_load i u x"
  by (simp add: same_load_def)

lemma load_ops:
  "up_check_read u = (u', ok) \<Longrightarrow> same_load i u u'"
  "up_flush u = (u', ok) \<Longrightarrow> same_load i u u'"
  "up_unwrite u = (u', r) \<Longrightarrow> same_load i u u'"
  by (cases u; auto simp: same_load_def fifo_check_read_def fifo_flush_def fifo_unwrite_def dest: in_set_butlastD
      split: if_splits)+

lemma load_unwrite_all: "unwrite_all u = Some u' \<Longrightarrow> same_load i u u'"
proof (induction u rule: unwrite_all.induct)
  case (1 u)
  obtain u1 r where r: "up_unwrite u = (u1, r)" by fastforce
  show ?case
  proof (cases r)
    case None
    with r 1(2) load_ops(3)[OF r] show ?thesis by (simp add: unwrite_all.simps[of u])
  next
    case (Some m)
    with r 1(2) have "has_more m" "unwrite_all u1 = Some u'" by (simp_all add: unwrite_all.simps[of u] split: if_splits)
    with 1(1)[OF r[symmetric] Some] load_ops(3)[OF r] show ?thesis by (blast intro: same_load_trans)
  qed
qed

lemma load_write:
  "tame i u \<Longrightarrow> plain i m \<Longrightarrow>
    tame i (up_write m (has_more m) u) \<and> cnt (up_write m (has_more m) u) = cnt u + (if counted m then 1 else 0)"
  by (cases u) (auto simp: fifo_write_def counted_def)

lemma load_read:
  assumes "tame i u" "read_message u c = (u', c', r)"
  shows "tame i u' \<and> cnt u = cnt u' + (case r of Some m \<Rightarrow> if counted m then 1 else 0 | None \<Rightarrow> 0) \<and>
    (\<forall>m. r = Some m \<longrightarrow> plain i m)"
proof -
  obtain q where q: "u = Normal q" using assms(1) by (cases u) auto
  have "\<not> has_credential m" if "m \<in> set (flushed q)" for m using assms(1) that q by (simp add: plain_def)
  then show ?thesis using assms q
    by (auto simp: read_message.simps[of "Normal q"] fifo_read_def split: list.splits if_splits)
qed

lemma drop_all_count:
  "tame False (Normal q) \<Longrightarrow> staged q = [] \<Longrightarrow> drop_all (Normal q) n = n - of_nat (cnt (Normal q))"
proof (induction "flushed q" arbitrary: q n)
  case Nil
  then show ?case by (simp add: drop_all.simps[of "Normal q"] fifo_read_def)
next
  case (Cons m ms)
  note f = Cons.hyps(2)[symmetric]
  have "drop_all (Normal (q\<lparr>flushed := ms\<rparr>)) k = k - of_nat (cnt (Normal (q\<lparr>flushed := ms\<rparr>)))" for k
    using Cons.hyps(1)[of "q\<lparr>flushed := ms\<rparr>"] Cons.prems f by simp
  moreover have "\<not> has_identity m" using Cons.prems f by (simp add: plain_def)
  ultimately show ?case using Cons.prems f by (simp add: drop_all.simps[of "Normal q"] fifo_read_def counted_def)
qed

section \<open>Invariant of one direction\<close>

fun acts :: "command list \<Rightarrow> 64 word list" where
  "acts [] = []"
| "acts (Activate_write n # cs) = n # acts cs"
| "acts (c # cs) = acts cs"

lemma acts_append [simp]: "acts (cs @ ds) = acts cs @ acts ds"
  by (induction cs rule: acts.induct) simp_all

text \<open>What the direction from \<open>s\<close> needs of the writer, as long as it is active, and of the reader.\<close>

definition wview :: "world \<Rightarrow> side \<Rightarrow> (64 word \<times> 64 word \<times> bool \<times> nat) option" where
  "wview w s = do {
     p \<leftarrow> pipes w s;
     b \<leftarrow> outpipe p;
     if state p = Active then Some (peers_msgs_read p, msgs_written p, out_active p, b) else None }"

definition rview :: "world \<Rightarrow> side \<Rightarrow> 64 word option" where
  "rview w s = map_option msgs_read (pipes w (other s))"

definition load :: "(nat \<Rightarrow> upipe option) \<Rightarrow> nat list \<Rightarrow> nat" where
  "load up as = sum_list (map (\<lambda>a. case up a of None \<Rightarrow> 0 | Some u \<Rightarrow> cnt u) as)"

text \<open>
  The unbounded counters: \<open>P\<close> is what the writer knows to have been read, \<open>ns\<close> what it is about to be
  told, \<open>R\<close> what was read, and \<open>C\<close> messages are in between.
\<close>

definition flow :: "int \<Rightarrow> 64 word \<Rightarrow> 64 word \<Rightarrow> bool \<Rightarrow> 64 word list \<Rightarrow> 64 word \<Rightarrow> nat \<Rightarrow> bool" where
  "flow h p w oa as r C \<longleftrightarrow> (\<exists>P ns R. p = of_nat P \<and> as = map of_nat ns \<and> r = of_nat R \<and> w = of_nat (R + C) \<and>
     sorted (P # ns @ [R]) \<and> (0 < h \<longrightarrow> R + C \<le> P + nat h) \<and> (\<not> oa \<longrightarrow> 0 < h \<and> R + C = P + nat h) \<and>
     (0 < h \<longrightarrow> R \<le> last (P # ns) + unat r mod nat (compute_lwm h)))"

definition flow_inv :: "int \<Rightarrow> bool \<Rightarrow> side \<Rightarrow> world \<Rightarrow> bool" where
  "flow_inv h i s w \<longleftrightarrow> (\<forall>p n oa b r. wview w s = Some (p, n, oa, b) \<longrightarrow> rview w s = Some r \<longrightarrow>
     (\<forall>a\<in>set (b # hiccups (cmds w s)). \<exists>u. upipes w a = Some u \<and> tame i u) \<and>
     flow h p n oa (acts (cmds w s)) r (load (upipes w) (b # hiccups (cmds w s))))"

definition params_ok :: "(side \<Rightarrow> int) \<Rightarrow> world \<Rightarrow> bool" where
  "params_ok h w \<longleftrightarrow> (\<forall>s p. pipes w s = Some p \<longrightarrow>
     hwm p = h s \<and> lwm p = compute_lwm (h (other s)) \<and> \<not> conflate p)"

section \<open>Arithmetic\<close>

lemma lwm_positive: "0 < compute_lwm h \<longleftrightarrow> 0 < h"
  by (auto simp: compute_lwm_def)

lemma lwm_le: "0 < h \<Longrightarrow> compute_lwm h \<le> h"
  by (auto simp: compute_lwm_def)

lemma flowE:
  assumes "flow h p n oa as r C"
  obtains P ns R where "p = of_nat P" "as = map of_nat ns" "r = of_nat R" "n = of_nat (R + C)"
    "sorted (P # ns @ [R])" "P \<le> R" "0 < h \<longrightarrow> R + C \<le> P + nat h" "\<not> oa \<longrightarrow> 0 < h \<and> R + C = P + nat h"
    "0 < h \<longrightarrow> R \<le> last (P # ns) + unat r mod nat (compute_lwm h)"
  using assms unfolding flow_def by fastforce

lemma flowI:
  assumes "p = of_nat P" "as = map of_nat ns" "r = of_nat R" "n = of_nat (R + C)"
    "sorted (P # ns @ [R])" "0 < h \<longrightarrow> R + C \<le> P + nat h" "\<not> oa \<longrightarrow> 0 < h \<and> R + C = P + nat h"
    "0 < h \<longrightarrow> R \<le> last (P # ns) + unat r mod nat (compute_lwm h)"
  shows "flow h p n oa as r C"
  using assms unfolding flow_def by blast

lemma flow_gap:
  assumes "(d :: nat) \<le> nat h" "h < 2 ^ 31" "0 < h"
  shows "(of_int h :: 64 word) \<le> of_nat d \<longleftrightarrow> d = nat h"
proof -
  obtain k where k: "h = int k" using assms(3) by (metis zero_less_imp_eq_int)
  have "unat (of_nat k :: 64 word) = k" "unat (of_nat d :: 64 word) = d"
    using assms k by (simp_all add: unat_of_nat take_bit_nat_eq_self)
  then show ?thesis using assms k by (auto simp: word_le_nat_alt)
qed

lemma flow_write:
  assumes "flow h p n oa as r C" "h < 2 ^ 31" "oa" "\<not> (0 < h \<and> n - p \<ge> of_int h)"
  shows "flow h p (n + 1) oa as r (C + 1)"
  using assms(1)
proof (rule flowE)
  fix P ns R
  assume f: "p = of_nat P" "as = map of_nat ns" "r = of_nat R" "n = of_nat (R + C)"
    "sorted (P # ns @ [R])" "P \<le> R" "0 < h \<longrightarrow> R + C \<le> P + nat h" "\<not> oa \<longrightarrow> 0 < h \<and> R + C = P + nat h"
    "0 < h \<longrightarrow> R \<le> last (P # ns) + unat r mod nat (compute_lwm h)"
  have "n - p = of_nat (R + C - P)" using f by (simp add: of_nat_diff)
  then have "0 < h \<longrightarrow> R + C - P \<noteq> nat h" using flow_gap[of "R + C - P" h] assms(2,4) f by auto
  then show ?thesis using f assms(3) by (intro flowI[of p P as ns r R]) auto
qed

lemma flow_block:
  assumes "flow h p n oa as r C" "h < 2 ^ 31" "0 < h" "n - p \<ge> of_int h"
  shows "flow h p n False as r C"
  using assms(1)
proof (rule flowE)
  fix P ns R
  assume f: "p = of_nat P" "as = map of_nat ns" "r = of_nat R" "n = of_nat (R + C)"
    "sorted (P # ns @ [R])" "P \<le> R" "0 < h \<longrightarrow> R + C \<le> P + nat h" "\<not> oa \<longrightarrow> 0 < h \<and> R + C = P + nat h"
    "0 < h \<longrightarrow> R \<le> last (P # ns) + unat r mod nat (compute_lwm h)"
  have "n - p = of_nat (R + C - P)" using f by (simp add: of_nat_diff)
  then have "R + C - P = nat h" using flow_gap[of "R + C - P" h] assms f by auto
  then show ?thesis using f assms(3) by (intro flowI[of p P as ns r R]) auto
qed

lemma flow_told: "flow h p n oa as r C \<Longrightarrow> flow h p n oa (as @ [r]) r C"
proof (erule flowE)
  fix P ns R
  assume f: "p = of_nat P" "as = map of_nat ns" "r = of_nat R" "n = of_nat (R + C)"
    "sorted (P # ns @ [R])" "P \<le> R" "0 < h \<longrightarrow> R + C \<le> P + nat h" "\<not> oa \<longrightarrow> 0 < h \<and> R + C = P + nat h"
  then show ?thesis by (intro flowI[of p P "as @ [r]" "ns @ [R]" r R]) (auto simp: sorted_append)
qed

lemma flow_read:
  assumes "flow h p n oa as r (C + 1)" "h < 2 ^ 31"
  shows "flow h p n oa (if 0 < compute_lwm h \<and> (r + 1) mod of_int (compute_lwm h) = 0 then as @ [r + 1] else as) (r + 1) C"
  using assms(1)
proof (rule flowE)
  fix P ns R
  assume f: "p = of_nat P" "as = map of_nat ns" "r = of_nat R" "n = of_nat (R + (C + 1))"
    "sorted (P # ns @ [R])" "P \<le> R" "0 < h \<longrightarrow> R + (C + 1) \<le> P + nat h" "\<not> oa \<longrightarrow> 0 < h \<and> R + (C + 1) = P + nat h"
    "0 < h \<longrightarrow> R \<le> last (P # ns) + unat r mod nat (compute_lwm h)"
  let ?l = "compute_lwm h"
  have srt: "sorted (P # ns @ [R + 1])" "sorted (P # (ns @ [R + 1]) @ [R + 1])" using f(5) by (auto simp: sorted_append)
  show ?thesis
  proof (cases "0 < ?l \<and> (r + 1) mod of_int ?l = 0")
    case True
    have "flow h p n oa (as @ [r + 1]) (r + 1) C"
      using f srt by (intro flowI[of p P "as @ [r + 1]" "ns @ [R + 1]" "r + 1" "R + 1"]) auto
    then show ?thesis unfolding if_P[OF True] .
  next
    case False
    have "R + 1 \<le> last (P # ns) + unat (r + 1) mod nat ?l" if h: "0 < h"
    proof -
      have l: "0 < ?l" "?l < 2 ^ 31" using h lwm_positive lwm_le[OF h] assms(2) by auto
      then obtain k where k: "?l = int k" "0 < k" "k < 2 ^ 31" by (metis of_nat_0_less_iff of_nat_less_numeral_power_cancel_iff zero_less_imp_eq_int)
      have "unat (of_nat k :: 64 word) = k" using k by (simp add: unat_of_nat take_bit_nat_eq_self)
      then have "unat ((r + 1) mod of_int ?l) = unat (r + 1) mod k" using k by (simp add: unat_mod_distrib)
      then have nz: "unat (r + 1) mod k \<noteq> 0" using False l by (metis unat_eq_zero)
      then have "r + 1 \<noteq> 0" by auto
      then have "unat (r + 1) = Suc (unat r)" using unatSuc[of r] by (simp add: add.commute)
      then have "unat (r + 1) mod k = Suc (unat r mod k)" using nz by (simp add: mod_Suc split: if_splits)
      then show ?thesis using f(9) h k by simp
    qed
    then have "flow h p n oa as (r + 1) C" using f srt by (intro flowI[of p P as ns "r + 1" "R + 1"]) auto
    then show ?thesis unfolding if_not_P[OF False] .
  qed
qed

lemma flow_activate:
  assumes "flow h p n oa (a # as) r C"
  shows "flow h a n True as r C"
  using assms
proof (rule flowE)
  fix P ns R
  assume f: "a # as = map of_nat ns" "r = of_nat R" "n = of_nat (R + C)" "sorted (P # ns @ [R])" "P \<le> R"
    "0 < h \<longrightarrow> R + C \<le> P + nat h" "0 < h \<longrightarrow> R \<le> last (P # ns) + unat r mod nat (compute_lwm h)"
  then obtain N ms where "ns = N # ms" by (cases ns) auto
  with f show ?thesis by (intro flowI[of a N as ms r R]) auto
qed

lemma flow_hiccup: "flow h p n oa as r (c + C) \<Longrightarrow> flow h p (n - of_nat c) True as r C"
proof (erule flowE)
  fix P ns R
  assume f: "p = of_nat P" "as = map of_nat ns" "r = of_nat R" "n = of_nat (R + (c + C))" "sorted (P # ns @ [R])"
    "0 < h \<longrightarrow> R + (c + C) \<le> P + nat h" "0 < h \<longrightarrow> R \<le> last (P # ns) + unat r mod nat (compute_lwm h)"
  then show ?thesis by (intro flowI[of p P as ns r R]) auto
qed

lemma flow_bound: "flow h p n oa as r C \<Longrightarrow> 0 < h \<Longrightarrow> C \<le> nat h"
  by (erule flowE) simp

lemma flow_wakes:
  assumes "flow h p n False [] r C"
  shows "0 < h \<and> h - compute_lwm h < int C"
  using assms
proof (rule flowE)
  fix P ns R
  assume f: "[] = map of_nat ns" "\<not> False \<longrightarrow> 0 < h \<and> R + C = P + nat h"
    "0 < h \<longrightarrow> R \<le> last (P # ns) + unat r mod nat (compute_lwm h)"
  then have "nat (compute_lwm h) > 0" using lwm_positive by simp
  then have "unat r mod nat (compute_lwm h) < nat (compute_lwm h)" by simp
  then show ?thesis using f by auto
qed

section \<open>Views of the world\<close>

lemma load_simps [simp]:
  "load up [] = 0" "load up (a # as) = (case up a of None \<Rightarrow> 0 | Some u \<Rightarrow> cnt u) + load up as"
  "load up (as @ bs) = load up as + load up bs"
  by (simp_all add: load_def)

lemma load_cong: "(\<And>a. a \<in> set as \<Longrightarrow> up' a = up a) \<Longrightarrow> load up' as = load up as"
  by (simp add: load_def cong: map_cong)

lemma load_update:
  "distinct as \<Longrightarrow> a \<in> set as \<Longrightarrow> up a = Some u \<Longrightarrow> load (up(a \<mapsto> u')) as + cnt u = load up as + cnt u'"
proof (induction as)
  case (Cons b as)
  have "load (up(a \<mapsto> u')) as = load up as" if "a = b" using Cons.prems that by (intro load_cong) auto
  with Cons show ?case by (cases "a = b") (auto simp: fun_upd_def)
qed simp

text \<open>Where the underlying pipes of a direction are, while its writer is active.\<close>

lemma view_route:
  assumes "pipe_inv w" "wview w s = Some (p, n, oa, b)"
  shows "route w s = b # hiccups (cmds w s)" "distinct (route w s)" "set (route w s) \<inter> set (route w (other s)) = {}"
    "\<And>a. a \<in> set (route w s) \<Longrightarrow> a < next_up w"
proof -
  have m: "mem_inv w" using assms(1) by (simp add: pipe_inv_def)
  show "route w s = b # hiccups (cmds w s)"
    using assms(2) by (auto simp: wview_def route_def split: bind_splits if_splits)
  show "distinct (route w s)" "set (route w s) \<inter> set (route w (other s)) = {}"
    using m unfolding mem_inv_def by (cases s; auto)+
  show "a < next_up w" if "a \<in> set (route w s)" for a
    using m that unfolding mem_inv_def by (cases s) auto
qed

lemma view_reader:
  assumes "pipe_inv w" "pipes w t = Some q" "inpipe q = Some a"
  shows "a = last (route w (other t))" "a \<in> set (route w (other t))"
  using assms unfolding pipe_inv_def mem_inv_def by (metis last_in_set option.inject)+

text \<open>A change that one direction does not see, or sees only as moving messages inside of its pipes.\<close>

lemma flow_cong:
  assumes "flow_inv h i s w" "wview w' s = wview w s \<or> wview w' s = None" "rview w' s = rview w s \<or> rview w' s = None"
    "acts (cmds w' s) = acts (cmds w s)" "hiccups (cmds w' s) = hiccups (cmds w s)"
    "\<And>p n oa b a u. wview w s = Some (p, n, oa, b) \<Longrightarrow> a \<in> set (b # hiccups (cmds w s)) \<Longrightarrow> upipes w a = Some u \<Longrightarrow>
       \<exists>u'. upipes w' a = Some u' \<and> same_load i u u'"
  shows "flow_inv h i s w'"
  unfolding flow_inv_def
proof (intro allI impI)
  fix p n oa b r
  assume v: "wview w' s = Some (p, n, oa, b)" "rview w' s = Some r"
  then have v0: "wview w s = Some (p, n, oa, b)" "rview w s = Some r" using assms(2,3) by auto
  let ?as = "b # hiccups (cmds w s)"
  have t: "\<forall>a\<in>set ?as. \<exists>u. upipes w a = Some u \<and> tame i u"
    and f: "flow h p n oa (acts (cmds w s)) r (load (upipes w) ?as)"
    using assms(1) v0 unfolding flow_inv_def by blast+
  have "\<exists>u u'. upipes w a = Some u \<and> upipes w' a = Some u' \<and> tame i u' \<and> cnt u' = cnt u" if "a \<in> set ?as" for a
    using t that assms(6)[OF v0(1) that] unfolding same_load_def by fastforce
  then have "\<forall>a\<in>set ?as. \<exists>u. upipes w' a = Some u \<and> tame i u"
    "\<forall>a\<in>set ?as. (case upipes w' a of None \<Rightarrow> 0 | Some u \<Rightarrow> cnt u) = (case upipes w a of None \<Rightarrow> 0 | Some u \<Rightarrow> cnt u)"
    by fastforce+
  then show "(\<forall>a\<in>set (b # hiccups (cmds w' s)). \<exists>u. upipes w' a = Some u \<and> tame i u) \<and>
      flow h p n oa (acts (cmds w' s)) r (load (upipes w') (b # hiccups (cmds w' s)))"
    using f unfolding assms(4,5) load_def by (simp cong: map_cong)
qed

lemma wview_simps [simp]:
  "wview (put_up a u w) s = wview w s" "wview (send_peer t c w) s = wview w s" "wview (notify t e w) s = wview w s"
  "wview (w\<lparr>cmds := x\<rparr>) s = wview w s" "wview (w\<lparr>next_up := y\<rparr>) s = wview w s" "wview (w\<lparr>upipes := z\<rparr>) s = wview w s"
  "rview (put_up a u w) s = rview w s" "rview (send_peer t c w) s = rview w s" "rview (notify t e w) s = rview w s"
  "rview (w\<lparr>cmds := x\<rparr>) s = rview w s" "rview (w\<lparr>next_up := y\<rparr>) s = rview w s" "rview (w\<lparr>upipes := z\<rparr>) s = rview w s"
  by (simp_all add: wview_def rview_def)

lemma wview_upd:
  "t \<noteq> s \<Longrightarrow> wview (upd t f w) s = wview w s" "t \<noteq> other s \<Longrightarrow> rview (upd t f w) s = rview w s"
  "wview (upd s f w) s = do {
     p \<leftarrow> pipes w s;
     b \<leftarrow> outpipe (f p);
     if state (f p) = Active then Some (peers_msgs_read (f p), msgs_written (f p), out_active (f p), b) else None }"
  "rview (upd (other s) f w) s = map_option (\<lambda>q. msgs_read (f q)) (pipes w (other s))"
  by (auto simp: wview_def rview_def option.map_comp comp_def split: bind_splits)

subsection \<open>Elementary changes\<close>

lemma flow_upd:
  assumes "flow_inv h i s w" "\<And>p. msgs_read (f p) = msgs_read p"
    "\<And>p. state (f p) \<noteq> Active \<or> (state (f p) = state p \<and> outpipe (f p) = outpipe p \<and>
       peers_msgs_read (f p) = peers_msgs_read p \<and> msgs_written (f p) = msgs_written p \<and> out_active (f p) = out_active p)"
  shows "flow_inv h i s (upd t f w)"
proof (rule flow_cong[OF assms(1)])
  show "wview (upd t f w) s = wview w s \<or> wview (upd t f w) s = None"
  proof (cases "t = s")
    case True
    show ?thesis
    proof (cases "pipes w s")
      case (Some p)
      then show ?thesis using assms(3)[of p] True by (cases "outpipe p"; cases "outpipe (f p)"; auto simp: wview_def)
    qed (use True in \<open>simp add: wview_def\<close>)
  qed (simp add: wview_upd)
  show "rview (upd t f w) s = rview w s \<or> rview (upd t f w) s = None"
    using assms(2) by (cases "t = other s") (auto simp: wview_upd rview_def option.map_comp comp_def)
qed simp_all

lemma flow_send:
  "flow_inv h i s w \<Longrightarrow> t = s \<or> (acts [c] = [] \<and> hiccups [c] = []) \<Longrightarrow> flow_inv h i s (send_peer t c w)"
  by (erule flow_cong) auto

lemma flow_notify: "flow_inv h i s w \<Longrightarrow> flow_inv h i s (notify t e w)"
  by (erule flow_cong) auto

lemma flow_put: "flow_inv h i s w \<Longrightarrow> upipes w a = Some u \<Longrightarrow> same_load i u u' \<Longrightarrow> flow_inv h i s (put_up a u' w)"
  by (erule flow_cong) auto

lemma flow_upipes:
  "flow_inv h i s w \<Longrightarrow> (\<And>p n oa b. wview w s = Some (p, n, oa, b) \<Longrightarrow> a \<notin> set (b # hiccups (cmds w s))) \<Longrightarrow>
    flow_inv h i s (w\<lparr>upipes := (upipes w)(a := x)\<rparr>)"
  by (erule flow_cong) auto

lemma flow_next_up: "flow_inv h i s w \<Longrightarrow> flow_inv h i s (w\<lparr>next_up := n\<rparr>)"
  by (erule flow_cong) auto

lemma flow_pop:
  "flow_inv h i s w \<Longrightarrow> cmds w t = c # cs \<Longrightarrow> t \<noteq> s \<or> (acts [c] = [] \<and> hiccups [c] = []) \<Longrightarrow>
    flow_inv h i s (w\<lparr>cmds := (cmds w)(t := cs)\<rparr>)"
  by (erule flow_cong; cases c; auto)

lemma flow_idle: "wview w s = None \<or> rview w s = None \<Longrightarrow> flow_inv h i s w"
  by (auto simp: flow_inv_def)

lemma flow_invI:
  "wview w s = Some (p, n, oa, b) \<Longrightarrow> rview w s = Some r \<Longrightarrow>
    (\<forall>a\<in>set (b # hiccups (cmds w s)). \<exists>u. upipes w a = Some u \<and> tame i u) \<Longrightarrow>
    flow h p n oa (acts (cmds w s)) r (load (upipes w) (b # hiccups (cmds w s))) \<Longrightarrow> flow_inv h i s w"
  by (auto simp: flow_inv_def)

lemma put_up_eq: "put_up a u w = w\<lparr>upipes := (upipes w)(a := Some u)\<rparr>"
  by (simp add: put_up_def)

text \<open>The pipes of the other direction.\<close>

lemma foreign_pipe:
  assumes "pipe_inv w" "wview w s = Some (p, n, oa, b)" "a \<in> set (route w (other s))"
  shows "a \<notin> set (b # hiccups (cmds w s))"
  using view_route(1,3)[OF assms(1,2)] assms(3) by auto

lemma own_inpipe: "pipe_inv w \<Longrightarrow> pipes w s = Some p \<Longrightarrow> inpipe p = Some a \<Longrightarrow> a \<in> set (route w (other s))"
  using view_reader(2) by blast

lemma own_outpipe: "pipes w s = Some p \<Longrightarrow> outpipe p = Some a \<Longrightarrow> a \<in> set (route w s)"
  by (simp add: route_def)

lemma wview_same:
  assumes "\<And>p. outpipe (f p) = outpipe p \<and> state (f p) = state p \<and> peers_msgs_read (f p) = peers_msgs_read p \<and>
    msgs_written (f p) = msgs_written p \<and> out_active (f p) = out_active p"
  shows "wview (upd t f w) s = wview w s"
proof (cases "pipes w s")
  case (Some p)
  then show ?thesis using assms[of p] by (cases "t = s"; cases "outpipe p") (simp_all add: wview_def)
qed (auto simp: wview_def)

section \<open>Operations\<close>

lemma process_delimiter_flow: "flow_inv h i s w \<Longrightarrow> process_delimiter t w = Some w' \<Longrightarrow> flow_inv h i s w'"
  by (auto simp: process_delimiter_def intro!: flow_upd flow_send split: bind_splits if_splits)

lemma read_own_flow:
  assumes inv: "pipe_inv w" and f: "flow_inv h i s w" and r: "pipe_read s w = Some (w', x)"
  shows "flow_inv h i s w'"
proof -
  obtain p where p: "pipes w s = Some p" using r by (auto simp: pipe_read_def split: bind_splits)
  show ?thesis
  proof (cases "readable p")
    case True
    with r p obtain a u where a: "inpipe p = Some a" "upipes w a = Some u"
      by (auto simp: pipe_read_def split: bind_splits)
    obtain u1 cr y where y: "read_message u (credential p) = (u1, cr, y)" by (metis prod_cases3)
    let ?w1 = "upd s (\<lambda>p. p\<lparr>credential := cr\<rparr>) (put_up a u1 w)"
    have w1: "flow_inv h i s ?w1"
      unfolding put_up_eq using foreign_pipe[OF inv] own_inpipe[OF inv p a(1)]
      by (intro flow_upd flow_upipes[OF f]) auto
    have "flow_inv h i s (count_read s m p ?w1)" for m
      unfolding count_read_def Let_def by (auto intro!: flow_send flow_cong[OF w1] simp: wview_upd(2) wview_same simp del: upd_simps(1))
    with r p a y True w1 show ?thesis
      by (cases y) (auto simp: pipe_read_def Let_def intro: process_delimiter_flow flow_upd split: if_splits bind_splits)
  qed (use r p f in \<open>simp add: pipe_read_def\<close>)
qed

lemma count_read_flow:
  assumes inv: "pipe_inv w" and f: "flow_inv h i s w" and h: "h < 2 ^ 31"
    and q: "pipes w (other s) = Some q" "inpipe q = Some a" "upipes w a = Some u" "lwm q = compute_lwm h"
    and r: "read_message u c = (u1, cr, Some m)"
    and w1: "w1 = upd (other s) (\<lambda>p. p\<lparr>credential := cr\<rparr>) (put_up a u1 w)"
  shows "flow_inv h i s (count_read (other s) m q w1)" (is "flow_inv h i s ?w'")
proof (cases "wview w s")
  case (Some v)
  then obtain p n oa b where v: "wview w s = Some (p, n, oa, b)" by (cases v) auto
  let ?as = "b # hiccups (cmds w s)" and ?l = "compute_lwm h"
  note rt = view_route[OF inv v]
  have a: "a \<in> set ?as" using own_inpipe[OF inv q(1,2)] rt(1) by simp
  have t: "\<forall>a\<in>set ?as. \<exists>u. upipes w a = Some u \<and> tame i u"
    and fl: "flow h p n oa (acts (cmds w s)) (msgs_read q) (load (upipes w) ?as)"
    using f v q(1) unfolding flow_inv_def rview_def by auto
  have u: "tame i u1 \<and> cnt u = cnt u1 + (if counted m then 1 else 0)"
    using load_read[OF _ r, of i] t a q(3) by auto
  let ?n = "if counted m then msgs_read q + 1 else msgs_read q"
  let ?send = "0 < ?l \<and> ?n mod of_int ?l = 0"
  have ld: "load (upipes w) ?as = load ((upipes w)(a \<mapsto> u1)) ?as + (if counted m then 1 else 0)"
    using load_update[of ?as a "upipes w" u u1] rt(1,2) a q(3) u by simp
  have w': "wview ?w' s = wview w s" "rview ?w' s = Some ?n" "upipes ?w' = (upipes w)(a \<mapsto> u1)"
    "cmds ?w' s = (if ?send then cmds w s @ [Activate_write ?n] else cmds w s)"
    using q(1,4) unfolding count_read_def Let_def w1 counted_def
    by (simp_all add: wview_same wview_upd rview_def del: upd_simps(1)) (simp_all add: rview_def)
  have ac: "acts (cmds ?w' s) = (if ?send then acts (cmds w s) @ [?n] else acts (cmds w s))"
    unfolding w'(4) by (simp only: if_distrib[of acts] acts_append acts.simps)
  have "flow h p n oa (acts (cmds ?w' s)) ?n (load ((upipes w)(a \<mapsto> u1)) ?as)"
  proof (cases "counted m")
    case True
    show ?thesis using flow_read[OF fl[unfolded ld, simplified True if_True] h] unfolding ac by (simp only: True if_True)
  next
    case False
    show ?thesis using fl flow_told[OF fl] unfolding ac ld by (simp only: False if_False add_0_right split: if_split) simp
  qed
  moreover have "hiccups (cmds ?w' s) = hiccups (cmds w s)" by (simp add: w'(4))
  moreover have "\<forall>x\<in>set ?as. \<exists>u. ((upipes w)(a \<mapsto> u1)) x = Some u \<and> tame i u" using t u by auto
  ultimately show ?thesis using v w'(1,2,3) by (intro flow_invI[of ?w' s p n oa b ?n]) (simp_all only: load_simps)
next
  case None
  then have "wview ?w' s = None"
    unfolding count_read_def Let_def w1 by (simp add: wview_upd del: upd_simps(1))
  then show ?thesis by (simp add: flow_idle)
qed

lemma peer_tame:
  assumes "pipe_inv w" "flow_inv h i s w" "wview w s \<noteq> None" "pipes w (other s) = Some q" "inpipe q = Some a" "upipes w a = Some u"
  shows "tame i u"
proof -
  obtain p n oa b where v: "wview w s = Some (p, n, oa, b)" using assms(3) by auto
  have "a \<in> set (b # hiccups (cmds w s))" using own_inpipe[OF assms(1,4,5)] view_route(1)[OF assms(1) v] by simp
  moreover have "rview w s = Some (msgs_read q)" using assms(4) by (simp add: rview_def)
  ultimately show ?thesis using assms(2,6) v unfolding flow_inv_def by fastforce
qed

lemma read_peer_flow:
  assumes inv: "pipe_inv w" and f: "flow_inv h i s w" and h: "h < 2 ^ 31"
    and q: "pipes w (other s) = Some q" "lwm q = compute_lwm h" and r: "pipe_read (other s) w = Some (w', x)"
  shows "flow_inv h i s w'"
proof (cases "readable q")
  case True
  with r q obtain a u where a: "inpipe q = Some a" "upipes w a = Some u"
    by (auto simp: pipe_read_def split: bind_splits)
  obtain u1 cr y where y: "read_message u (credential q) = (u1, cr, y)" by (metis prod_cases3)
  let ?w1 = "upd (other s) (\<lambda>p. p\<lparr>credential := cr\<rparr>) (put_up a u1 w)"
  have w1: "flow_inv h i s ?w1" if "\<And>m. y \<noteq> Some m \<or> \<not> tame i u"
  proof -
    have "same_load i u u1" using load_read[of i u, OF _ y] that by (cases y) (auto simp: same_load_def)
    then show ?thesis by (intro flow_upd flow_put[OF f a(2)]) auto
  qed
  show ?thesis
  proof (cases y)
    case None
    then show ?thesis using r q a y True w1 by (auto simp: pipe_read_def intro: flow_upd)
  next
    case (Some m)
    show ?thesis
    proof (cases "pipe_is_delimiter m")
      case True
      then have "\<not> tame i u" using load_read[of i u, OF _ y] Some by (auto simp: plain_def pipe_is_delimiter_def)
      then show ?thesis using r q a y \<open>readable q\<close> Some True w1
        by (auto simp: pipe_read_def Let_def intro: process_delimiter_flow split: bind_splits)
    next
      case False
      then show ?thesis using r q a y \<open>readable q\<close> Some count_read_flow[OF inv f h q(1) a q(2) y[unfolded Some] HOL.refl]
        by (auto simp: pipe_read_def Let_def)
    qed
  qed
qed (use r q f in \<open>simp add: pipe_read_def\<close>)

lemma check_read_flow:
  assumes inv: "pipe_inv w" and f: "flow_inv h i s w" and r: "pipe_check_read t w = Some (w', x)"
  shows "flow_inv h i s w'"
proof -
  obtain q where q: "pipes w t = Some q" using r by (auto simp: pipe_check_read_def split: bind_splits)
  show ?thesis
  proof (cases "readable q")
    case True
    with r q obtain a u where a: "inpipe q = Some a" "upipes w a = Some u"
      by (auto simp: pipe_check_read_def split: bind_splits)
    obtain u1 ok where c: "up_check_read u = (u1, ok)" by fastforce
    have w1: "flow_inv h i s (put_up a u1 w)" by (rule flow_put[OF f a(2) load_ops(1)[OF c]])
    have w2: "flow_inv h i s (put_up a u2 (put_up a u1 w))" if u2: "up_read u1 = (u2, Some m)" "pipe_is_delimiter m" for u2 m
    proof (cases "t = s")
      case True
      then have "flow_inv h i s (w\<lparr>upipes := (upipes w)(a := Some u2)\<rparr>)"
        using foreign_pipe[OF inv] own_inpipe[OF inv q a(1)] by (intro flow_upipes[OF f]) auto
      then show ?thesis by (simp add: put_up_eq)
    next
      case False
      then have t: "t = other s" using other_cases by metis
      have "m \<in> up_msgs u1" using up_read_msgs[OF u2(1)] .
      then have "\<not> tame i u1" using u2(2) by (cases u1) (auto simp: plain_def pipe_is_delimiter_def)
      then have "\<not> tame i u" using load_ops(1)[OF c, of i] by (auto simp: same_load_def)
      then have "wview w s = None" using peer_tame[OF inv f _ _ a] q t by blast
      then show ?thesis by (simp add: flow_idle)
    qed
    show ?thesis
    proof (cases ok)
      case False
      then show ?thesis using r q a c True w1 by (auto simp: pipe_check_read_def intro: flow_upd)
    next
      case ok: True
      obtain d u2 m where d: "up_probe pipe_is_delimiter u1 = Some d" "up_read u1 = (u2, Some m)" "d \<longrightarrow> pipe_is_delimiter m"
        using check_then_read[of u u1 pipe_is_delimiter] c ok by auto
      show ?thesis using r q a c True ok d w1 w2[OF d(2)] process_delimiter_flow
        by (cases d) (auto simp: pipe_check_read_def Let_def split: bind_splits)
    qed
  qed (use r q f in \<open>simp add: pipe_check_read_def\<close>)
qed

lemma wview_Some:
  "pipes w s = Some p \<Longrightarrow> wview w s = Some (P, n, oa, b) \<longleftrightarrow>
    outpipe p = Some b \<and> state p = Active \<and> P = peers_msgs_read p \<and> n = msgs_written p \<and> oa = out_active p"
  by (auto simp: wview_def split: bind_splits if_splits)

text \<open>The invariant in terms of the two objects.\<close>

lemma flow_invD:
  assumes "flow_inv h i s w" "pipes w s = Some p" "state p = Active" "outpipe p = Some b" "pipes w (other s) = Some q"
  shows "flow h (peers_msgs_read p) (msgs_written p) (out_active p) (acts (cmds w s)) (msgs_read q)
      (load (upipes w) (b # hiccups (cmds w s)))"
    "\<forall>a\<in>set (b # hiccups (cmds w s)). \<exists>u. upipes w a = Some u \<and> tame i u"
proof -
  have "wview w s = Some (peers_msgs_read p, msgs_written p, out_active p, b)" "rview w s = Some (msgs_read q)"
    using assms by (simp_all add: wview_def rview_def)
  with assms(1) show "flow h (peers_msgs_read p) (msgs_written p) (out_active p) (acts (cmds w s)) (msgs_read q)
      (load (upipes w) (b # hiccups (cmds w s)))"
    "\<forall>a\<in>set (b # hiccups (cmds w s)). \<exists>u. upipes w a = Some u \<and> tame i u"
    unfolding flow_inv_def by blast+
qed

lemma active_peer:
  assumes "pipe_inv w" "pipes w s = Some p" "state p = Active"
  obtains q b where "pipes w (other s) = Some q" "outpipe p = Some b"
proof -
  have "handshake (st w s) (st w (other s)) (tcmds (cmds w s)) (tcmds (cmds w (other s)))"
    using assms(1) by (simp add: pipe_inv_def ctl_inv_def)
  then have "st w (other s) \<noteq> None" using assms(2,3) by (auto simp: handshake_simps st_def)
  moreover have "outpipe p \<noteq> None" using inv_pipe(2)[OF assms(1,2)] assms(3) by simp
  ultimately show ?thesis using that by (auto simp: st_def)
qed

lemma check_write_flow:
  assumes inv: "pipe_inv w" and f: "flow_inv h i s w" and h: "h < 2 ^ 31"
    and p: "\<And>p. pipes w s = Some p \<Longrightarrow> hwm p = h" and r: "pipe_check_write t w = Some (w', ok)"
  shows "flow_inv h i s w'"
proof (cases "w' = w")
  case False
  then obtain x where x: "pipes w t = Some x" "state x = Active" "\<not> check_hwm x" "w' = upd t (\<lambda>p. p\<lparr>out_active := False\<rparr>) w"
    using r by (auto simp: pipe_check_write_def split: bind_splits if_splits)
  show ?thesis
  proof (cases "t = s")
    case True
    obtain q b where q: "pipes w (other s) = Some q" "outpipe x = Some b" using active_peer[OF inv] x True by metis
    have hx: "hwm x = h" using p x True by simp
    note fl = flow_invD[OF f x(1,2)[unfolded True] q(2,1)]
    have "flow h (peers_msgs_read x) (msgs_written x) False (acts (cmds w s)) (msgs_read q) (load (upipes w) (b # hiccups (cmds w s)))"
      using flow_block[OF fl(1) h] x(3) hx by (simp add: check_hwm_def)
    then show ?thesis using x q True fl(2)
      by (intro flow_invI[of w' s "peers_msgs_read x" "msgs_written x" False b "msgs_read q"]) (simp_all add: wview_def rview_def)
  next
    case False
    then have "t = other s" using other_cases by metis
    then show ?thesis unfolding x(4)
      by (intro flow_cong[OF f]) (simp_all add: wview_upd rview_def option.map_comp comp_def)
  qed
qed (use f in simp)

lemma write_flow:
  assumes inv: "pipe_inv w" and f: "flow_inv h i s w" and h: "h < 2 ^ 31"
    and hp: "\<And>p. pipes w s = Some p \<Longrightarrow> hwm p = h" and m: "t = s \<Longrightarrow> plain i m" and r: "pipe_write t m w = Some (w', ok)"
  shows "flow_inv h i s w'"
proof (cases ok)
  case False
  then have "pipe_check_write t w = Some (w', False)" using r by (auto simp: pipe_write_def Let_def split: bind_splits if_splits)
  then show ?thesis using check_write_flow[OF inv f h] hp by blast
next
  case True
  then obtain p a u where p: "pipes w t = Some p" "out_active p" "state p = Active" "check_hwm p" "outpipe p = Some a" "upipes w a = Some u"
    and w': "w' = (if counted m then upd t (\<lambda>p. p\<lparr>msgs_written := msgs_written p + 1\<rparr>) (put_up a (up_write m (has_more m) u) w)
      else put_up a (up_write m (has_more m) u) w)"
    using r by (auto simp: pipe_write_def pipe_check_write_def counted_def Let_def split: bind_splits if_splits)
  show ?thesis
  proof (cases "t = s")
    case True
    obtain q where q: "pipes w (other s) = Some q" using active_peer[OF inv, of s p] p True by metis
    note fl = flow_invD[OF f p(1,3,5)[unfolded True] q]
    let ?as = "a # hiccups (cmds w s)" and ?u = "up_write m (has_more m) u"
    have v: "wview w s = Some (peers_msgs_read p, msgs_written p, True, a)" using p True by (simp add: wview_def)
    have t: "tame i ?u \<and> cnt ?u = cnt u + (if counted m then 1 else 0)" using fl(2) p(6) load_write m True by auto
    have ld: "load ((upipes w)(a \<mapsto> ?u)) ?as = load (upipes w) ?as + (if counted m then 1 else 0)"
      using load_update[of ?as a "upipes w" u ?u] view_route(1,2)[OF inv v] p(6) t by simp
    have "\<not> (0 < h \<and> of_int h \<le> msgs_written p - peers_msgs_read p)" using p(1,4) hp True by (auto simp: check_hwm_def)
    note wr = flow_write[OF fl(1) h p(2) this]
    let ?n = "if counted m then msgs_written p + 1 else msgs_written p"
    have "flow h (peers_msgs_read p) ?n True (acts (cmds w s)) (msgs_read q) (load ((upipes w)(a \<mapsto> ?u)) ?as)"
      using wr fl(1) p(2) unfolding ld by (cases "counted m") simp_all
    moreover have "wview w' s = Some (peers_msgs_read p, ?n, True, a)" "rview w' s = Some (msgs_read q)"
      "upipes w' = (upipes w)(a \<mapsto> ?u)" "cmds w' = cmds w"
      using p q True by (simp_all add: w' wview_def rview_def)
    moreover have "\<forall>x\<in>set ?as. \<exists>u. ((upipes w)(a \<mapsto> ?u)) x = Some u \<and> tame i u" using fl(2) t by auto
    ultimately show ?thesis by (intro flow_invI[of w' s "peers_msgs_read p" ?n True a "msgs_read q"]) (simp_all only: load_simps)
  next
    case False
    then have t: "t = other s" using other_cases by metis
    have "flow_inv h i s (put_up a (up_write m (has_more m) u) w)"
      unfolding put_up_eq using foreign_pipe[OF inv] own_outpipe[OF p(1,5)] t by (intro flow_upipes[OF f]) auto
    moreover have "flow_inv h i s (upd (other s) (\<lambda>p. p\<lparr>msgs_written := msgs_written p + 1\<rparr>) w1)" if "flow_inv h i s w1" for w1
      by (intro flow_cong[OF that]) (simp_all add: wview_upd rview_def option.map_comp comp_def)
    ultimately show ?thesis unfolding w' t by simp
  qed
qed

lemma rollback_flow:
  assumes f: "flow_inv h i s w" and r: "pipe_rollback t w = Some w'"
  shows "flow_inv h i s w'"
  using r f by (auto simp: pipe_rollback_def intro: flow_put load_unwrite_all split: bind_splits option.splits)

lemma flush_flow:
  assumes f: "flow_inv h i s w" and r: "pipe_flush t w = Some w'"
  shows "flow_inv h i s w'"
  using r f by (auto simp: pipe_flush_def Let_def intro!: flow_send intro: flow_put load_ops
      split: bind_splits option.splits if_splits prod.splits)

lemma nodelay_flow: "flow_inv h i s w \<Longrightarrow> flow_inv h i s (upd t set_nodelay w)"
  by (rule flow_upd) (simp_all add: set_nodelay_def)

lemma hiccup_own_flow:
  assumes inv: "pipe_inv w" and f: "flow_inv h i s w" and r: "pipe_hiccup s w = Some w'"
  shows "flow_inv h i s w'"
proof -
  have "next_up w \<notin> set (b # hiccups (cmds w s))" if "wview w s = Some (p, n, oa, b)" for p n oa b
    using view_route(1,4)[OF inv that] by (metis less_irrefl)
  then have "flow_inv h i s (put_up (next_up w) u (w\<lparr>next_up := next_up w + 1\<rparr>))" for u
    using flow_next_up[OF flow_upipes[OF f, of "next_up w" "Some u"], of "next_up w + 1"] by (cases w) (simp add: put_up_def)
  then show ?thesis using r f
    by (auto simp: pipe_hiccup_def Let_def intro!: flow_send flow_upd split: bind_splits if_splits)
qed

lemma hiccup_peer_flow:
  assumes inv: "pipe_inv w" and f: "flow_inv h i s w" and q: "\<And>q. pipes w (other s) = Some q \<Longrightarrow> \<not> conflate q"
    and r: "pipe_hiccup (other s) w = Some w'"
  shows "flow_inv h i s w'"
proof -
  obtain q where q1: "pipes w (other s) = Some q" using r by (auto simp: pipe_hiccup_def split: bind_splits)
  show ?thesis
  proof (cases "state q = Active \<and> wview w s \<noteq> None")
    case True
    then obtain p n oa b where v: "wview w s = Some (p, n, oa, b)" by auto
    let ?a = "next_up w" and ?as = "b # hiccups (cmds w s)" and ?u = "Normal fifo_empty :: upipe"
    have n: "?a \<notin> set ?as" using view_route(1,4)[OF inv v] by (metis less_irrefl)
    have t: "\<forall>a\<in>set ?as. \<exists>u. upipes w a = Some u \<and> tame i u"
      and fl: "flow h p n oa (acts (cmds w s)) (msgs_read q) (load (upipes w) ?as)"
      using f v q1 unfolding flow_inv_def rview_def by auto
    have w': "wview w' s = Some (p, n, oa, b)" "rview w' s = Some (msgs_read q)" "upipes w' = (upipes w)(?a \<mapsto> ?u)"
      "cmds w' s = cmds w s @ [Hiccup ?a]"
      using r q1 True q[OF q1] v by (auto simp: pipe_hiccup_def Let_def wview_upd rview_def new_upipe_def simp del: upd_simps(1))
        (auto simp: rview_def)
    have "load (upipes w') ?as = load (upipes w) ?as" using n unfolding w' by (intro load_cong) auto
    then have "load (upipes w') (b # hiccups (cmds w' s)) = load (upipes w) ?as" unfolding w' by (simp add: fifo_empty_def)
    moreover have "\<forall>a\<in>set (b # hiccups (cmds w' s)). \<exists>u. upipes w' a = Some u \<and> tame i u"
      using t unfolding w' by (auto simp: fifo_empty_def)
    ultimately show ?thesis using fl w'(1,2,4) by (intro flow_invI[OF w'(1,2)]) simp_all
  next
    case False
    show ?thesis
    proof (cases "state q = Active")
      case True
      with False have "wview w s = None" by blast
      then have "wview w' s = None" using r q1 True by (auto simp: pipe_hiccup_def Let_def wview_upd simp del: upd_simps(1))
      then show ?thesis by (simp add: flow_idle)
    qed (use r q1 f in \<open>simp add: pipe_hiccup_def\<close>)
  qed
qed

lemma rollback_keeps: "pipe_rollback t w = Some w' \<Longrightarrow> pipes w' = pipes w \<and> cmds w' = cmds w"
  by (auto simp: pipe_rollback_def split: bind_splits option.splits)

lemma flush_keeps: "pipe_flush t w = Some w' \<Longrightarrow> pipes w' = pipes w"
  by (auto simp: pipe_flush_def Let_def split: bind_splits option.splits if_splits prod.splits)

lemma close_out_flow:
  assumes f: "flow_inv h i s w" and p: "pipes w t = Some p" "outpipe p = Some a"
    and a: "\<And>p n oa b. wview w s = Some (p, n, oa, b) \<Longrightarrow> a \<notin> set (b # hiccups (cmds w s))"
    and r: "Option.bind (pipe_rollback t w) (\<lambda>w1. Option.bind (upipes w1 a) (\<lambda>u. pipe_flush t (put_up a (up_write m j u) w1))) = Some w'"
  shows "flow_inv h i s w'"
proof -
  obtain w1 u where w1: "pipe_rollback t w = Some w1" "upipes w1 a = Some u" "pipe_flush t (put_up a (up_write m j u) w1) = Some w'"
    using r by (auto split: bind_splits)
  have k: "wview w1 s = wview w s" "cmds w1 = cmds w" using rollback_keeps[OF w1(1)] by (simp_all add: wview_def)
  have "a \<notin> set (b # hiccups (cmds w1 s))" if "wview w1 s = Some (p, n, oa, b)" for p n oa b
    using a[of p n oa b] that k by simp
  then have "flow_inv h i s (put_up a (up_write m j u) w1)"
    unfolding put_up_eq by (rule flow_upipes[OF rollback_flow[OF f w1(1)]])
  then show ?thesis by (rule flush_flow[OF _ w1(3)])
qed

lemma terminate_flow:
  assumes f: "flow_inv h i s w" and inv: "pipe_inv w" and r: "pipe_terminate t d w = Some w'"
  shows "flow_inv h i s w'"
proof -
  obtain p where p: "pipes w t = Some p" using r by (auto simp: pipe_terminate_def split: bind_splits)
  let ?w = "upd t (\<lambda>p. p\<lparr>delay := d\<rparr>) w"
  let ?w1 = "if state p = Active \<or> state p = Delimiter_received
                 then upd t (\<lambda>p. p\<lparr>state := Term_req_sent1\<rparr>) (send_peer t Pipe_term ?w)
                 else if \<not> d
                 then upd t (\<lambda>p. p\<lparr>outpipe := None, state := Term_ack_sent\<rparr>) (send_peer t Pipe_term_ack ?w)
                 else ?w"
  let ?w2 = "upd t (\<lambda>p. p\<lparr>out_active := False\<rparr>) ?w1"
  have fw: "flow_inv h i s ?w" by (rule flow_upd[OF f]) simp_all
  show ?thesis
  proof (cases "state p = Term_req_sent1 \<or> state p = Term_req_sent2 \<or> state p = Term_ack_sent")
    case True
    then show ?thesis using r p fw by (simp add: pipe_terminate_def)
  next
    case False
    have f1: "flow_inv h i s ?w1" using f by (auto intro!: flow_upd flow_send)
    have "\<exists>p2. pipes ?w2 t = Some p2 \<and> state p2 \<noteq> Active \<and> (outpipe p2 = None \<or> outpipe p2 = outpipe p)"
      using p False by (cases "state p"; cases d) auto
    then obtain p2 where p2: "pipes ?w2 t = Some p2" "state p2 \<noteq> Active" "outpipe p2 = None \<or> outpipe p2 = outpipe p" by blast
    have f2: "flow_inv h i s ?w2"
    proof (cases "t = s")
      case True
      then have "wview ?w2 s = None" using p2(1,2) by (cases "outpipe p2") (simp_all add: wview_def del: upd_simps(1))
      then show ?thesis by (simp add: flow_idle)
    next
      case False
      then have "t = other s" using other_cases by metis
      then show ?thesis by (intro flow_cong[OF f1]) (simp_all add: wview_upd rview_def option.map_comp comp_def)
    qed
    show ?thesis
    proof (cases "outpipe p2")
      case None
      then show ?thesis using r p False p2(1) f2 unfolding pipe_terminate_def Let_def by (simp del: upd_simps(1))
    next
      case (Some a)
      have "a \<notin> set (b # hiccups (cmds ?w2 s))" if v: "wview ?w2 s = Some (P, n, oa, b)" for P n oa b
      proof (cases "t = s")
        case True
        then show ?thesis using v p2(1,2) wview_Some[OF p2(1), of P n oa b] by simp
      next
        case False
        then have t: "t = other s" using other_cases by metis
        then have "wview w s = Some (P, n, oa, b)" "hiccups (cmds ?w2 s) = hiccups (cmds w s)"
          using v by (auto simp: wview_upd split: if_splits simp del: upd_simps(1))
        then show ?thesis using foreign_pipe[OF inv] own_outpipe[OF p, of a] p2(3) Some t by simp
      qed
      then show ?thesis using r p False p2(1) Some unfolding pipe_terminate_def Let_def
        by (intro close_out_flow[OF f2 p2(1) Some]) (simp_all del: upd_simps(1))
    qed
  qed
qed

section \<open>Commands\<close>

lemma drop_flushed: "tame False u \<Longrightarrow> drop_all (fst (up_flush u)) n = n - of_nat (cnt u)"
proof -
  assume t: "tame False u"
  then obtain q where q: "u = Normal q" by (cases u) auto
  have "\<exists>q'. up_flush u = (Normal q', snd (fifo_flush q)) \<and> staged q' = []"
    unfolding q by (cases "staged q = []") (auto simp: fifo_flush_def)
  then obtain q' ok where f: "up_flush u = (Normal q', ok)" "staged q' = []" by blast
  have "tame False (Normal q')" "cnt (Normal q') = cnt u" using load_ops(2)[OF f(1), of False] t by (simp_all add: same_load_def)
  then show ?thesis using drop_all_count[of q'] f by simp
qed

lemma process_hiccup_flow:
  assumes inv: "pipe_inv w" and f: "flow_inv h False s w" and c: "cmds w s = Hiccup x # cs"
    and r: "process_hiccup s x (w\<lparr>cmds := (cmds w)(s := cs)\<rparr>) = Some w'"
  shows "flow_inv h False s w'"
proof -
  obtain p a u where p: "pipes w s = Some p" "outpipe p = Some a" "upipes w a = Some u"
    using r by (auto simp: process_hiccup_def split: bind_splits)
  let ?n = "drop_all (fst (up_flush u)) (msgs_written p)"
  have w': "pipes w' = (pipes w)(s := Some (p\<lparr>msgs_written := ?n, outpipe := Some x, out_active := True\<rparr>))"
    "upipes w' = (upipes w)(a := None)" "cmds w' s = cs"
    using r p by (auto simp: process_hiccup_def Let_def)
  show ?thesis
  proof (cases "state p = Active")
    case True
    obtain q where q: "pipes w (other s) = Some q" using active_peer[OF inv p(1) True] by metis
    note fl = flow_invD[OF f p(1) True p(2) q, unfolded c]
    have v: "wview w s = Some (peers_msgs_read p, msgs_written p, out_active p, a)" using p True by (simp add: wview_def)
    have d: "a \<notin> set (x # hiccups cs)" using view_route(1,2)[OF inv v] c by simp
    have "load (upipes w') (x # hiccups cs) = load (upipes w) (x # hiccups cs)"
      using d unfolding w' by (intro load_cong) auto
    moreover have "?n = msgs_written p - of_nat (cnt u)" using drop_flushed[of u] fl(2) p(3) by simp
    ultimately have "flow h (peers_msgs_read p) ?n True (acts cs) (msgs_read q) (load (upipes w') (x # hiccups cs))"
      using flow_hiccup[of h "peers_msgs_read p" "msgs_written p" "out_active p" "acts cs" "msgs_read q" "cnt u"
          "load (upipes w) (x # hiccups cs)"] fl(1) p(3) by (simp only: load_simps acts.simps hiccups.simps option.case)
    moreover have "\<forall>b\<in>set (x # hiccups cs). \<exists>u. upipes w' b = Some u \<and> tame False u"
      using fl(2) d unfolding w' by auto
    moreover have "wview w' s = Some (peers_msgs_read p, ?n, True, x)" "rview w' s = Some (msgs_read q)"
      using True q by (simp_all add: wview_def rview_def w')
    ultimately show ?thesis using w'(3) by (intro flow_invI[of w' s "peers_msgs_read p" ?n True x "msgs_read q"]) (simp_all only: )
  next
    case False
    then have "wview w' s = None" by (simp add: wview_def w')
    then show ?thesis by (simp add: flow_idle)
  qed
qed

lemma process_activate_flow:
  assumes inv: "pipe_inv w" and f: "flow_inv h i s w" and c: "cmds w s = Activate_write n # cs"
    and r: "process_activate_write s n (w\<lparr>cmds := (cmds w)(s := cs)\<rparr>) = Some w'"
  shows "flow_inv h i s w'"
proof -
  obtain p where p: "pipes w s = Some p" using r by (auto simp: process_activate_write_def split: bind_splits)
  show ?thesis
  proof (cases "state p = Active")
    case True
    obtain q b where q: "pipes w (other s) = Some q" "outpipe p = Some b" using active_peer[OF inv p(1) True] by metis
    note fl = flow_invD[OF f p(1) True q(2,1), unfolded c]
    have w': "pipes w' = (pipes w)(s := Some (p\<lparr>peers_msgs_read := n, out_active := True\<rparr>))" "upipes w' = upipes w" "cmds w' s = cs"
      using r p True by (auto simp: process_activate_write_def Let_def fun_eq_iff split: if_splits)
    have "wview w' s = Some (n, msgs_written p, True, b)" "rview w' s = Some (msgs_read q)"
      using True q by (simp_all add: wview_def rview_def w')
    then show ?thesis using flow_activate[of h "peers_msgs_read p"] fl w'(2,3)
      by (intro flow_invI[of w' s n "msgs_written p" True b "msgs_read q"]) (simp_all only: acts.simps hiccups.simps)
  next
    case False
    then have "wview w' s = None" using r p by (auto simp: process_activate_write_def Let_def wview_def split: bind_splits if_splits)
    then show ?thesis by (simp add: flow_idle)
  qed
qed

lemma process_command_flow:
  assumes inv: "pipe_inv w" and f: "flow_inv h i s w" and i: "i \<longrightarrow> hiccups (cmds w s) = []"
    and r: "process_command t w = Some w'"
  shows "flow_inv h i s w'"
proof (cases "cmds w t")
  case (Cons c cs)
  let ?w = "w\<lparr>cmds := (cmds w)(t := cs)\<rparr>"
  have pop: "flow_inv h i s ?w" if "t \<noteq> s \<or> (acts [c] = [] \<and> hiccups [c] = [])"
    by (rule flow_pop[OF f Cons that])
  have peer: "flow_inv h i s (upd t g w1)" if "t \<noteq> s" "flow_inv h i s w1" "\<And>p. msgs_read (g p) = msgs_read p" for g w1
    using that(1,3) other_cases[of t s]
    by (intro flow_cong[OF that(2)]) (auto simp: wview_upd rview_def option.map_comp comp_def)
  show ?thesis
  proof (cases c)
    case Activate_read
    then show ?thesis using r Cons pop
      by (auto simp: process_command_def process_activate_read_def Let_def intro!: flow_notify flow_upd split: bind_splits if_splits)
  next
    case (Activate_write n)
    show ?thesis
    proof (cases "t = s")
      case True
      then show ?thesis using process_activate_flow[OF inv f] r Cons Activate_write by (simp add: process_command_def)
    next
      case False
      have "flow_inv h i s (upd t (\<lambda>p. p\<lparr>peers_msgs_read := n\<rparr>) ?w)" using peer[OF False pop] False by simp
      with r Cons False Activate_write show ?thesis
        by (auto simp: process_command_def process_activate_write_def Let_def intro!: flow_notify peer split: bind_splits if_splits)
    qed
  next
    case (Hiccup x)
    show ?thesis
    proof (cases "t = s")
      case True
      then have "\<not> i" using i Cons Hiccup by auto
      then show ?thesis using process_hiccup_flow[OF inv, of h s x cs] f r Cons Hiccup True by (simp add: process_command_def)
    next
      case False
      then have t: "t = other s" using other_cases by metis
      obtain p a u where p: "pipes w t = Some p" "outpipe p = Some a" "upipes w a = Some u"
        using r Cons Hiccup by (auto simp: process_command_def process_hiccup_def split: bind_splits)
      have "flow_inv h i s (?w\<lparr>upipes := (upipes ?w)(a := None)\<rparr>)"
        using foreign_pipe[OF inv] own_outpipe[OF p(1,2)] False t by (intro flow_upipes pop) auto
      with r Cons False Hiccup p show ?thesis
        by (auto simp: process_command_def process_hiccup_def Let_def intro!: flow_notify peer split: if_splits)
    qed
  next
    case Pipe_term
    then have "flow_inv h i s ?w" using pop by simp
    with r Cons Pipe_term show ?thesis
      by (auto simp: process_command_def process_pipe_term_def Let_def intro!: flow_send flow_upd split: bind_splits if_splits pipe_state.splits)
  next
    case Pipe_term_ack
    then have "pipes w' t = None"
      using r Cons by (auto simp: process_command_def process_pipe_term_ack_def Let_def split: bind_splits if_splits)
    then have "wview w' s = None \<or> rview w' s = None" using other_cases[of t s] by (auto simp: wview_def rview_def)
    then show ?thesis by (rule flow_idle)
  qed
qed (use r f in \<open>simp add: process_command_def\<close>)

section \<open>Runs\<close>

text \<open>
  Side \<open>s\<close> writes identity messages only if \<open>ids s\<close>; the peer of such a side calls no hiccup (the pipe
  of a session to its socket carries the identity and the session calls hiccup on the other direction).
\<close>

fun regular :: "(side \<Rightarrow> bool) \<Rightarrow> action \<Rightarrow> bool" where
  "regular ids (Write s m) = plain (ids s) m"
| "regular ids (Hiccup_call s) = (\<not> ids (other s))"
| "regular ids a = True"

inductive flow_reachable :: "(side \<Rightarrow> bool) \<Rightarrow> world \<Rightarrow> world \<Rightarrow> bool" for ids w0 where
  flow_refl: "flow_reachable ids w0 w0"
| flow_step: "flow_reachable ids w0 w \<Longrightarrow> allowed a w \<Longrightarrow> regular ids a \<Longrightarrow> exec a w = Some w' \<Longrightarrow> flow_reachable ids w0 w'"

definition fixed :: "pipe_t \<Rightarrow> int \<times> int \<times> bool" where
  "fixed p = (hwm p, lwm p, conflate p)"

text \<open>What no operation changes, and who sends hiccups.\<close>

definition keeps_fixed :: "world \<Rightarrow> world \<Rightarrow> bool" where
  "keeps_fixed w w' \<longleftrightarrow> (\<forall>s p'. pipes w' s = Some p' \<longrightarrow> (\<exists>p. pipes w s = Some p \<and> fixed p' = fixed p))"

definition keeps_hiccups :: "world \<Rightarrow> world \<Rightarrow> bool" where
  "keeps_hiccups w w' \<longleftrightarrow> (\<forall>s. set (hiccups (cmds w' s)) \<subseteq> set (hiccups (cmds w s)))"

lemma fixed_simps [simp]:
  "keeps_fixed w w" "keeps_fixed w (put_up a u w1) = keeps_fixed w w1" "keeps_fixed w (send_peer t c w1) = keeps_fixed w w1"
  "keeps_fixed w (notify t e w1) = keeps_fixed w w1" "keeps_fixed w (w1\<lparr>cmds := x\<rparr>) = keeps_fixed w w1"
  "keeps_fixed w (w1\<lparr>upipes := z\<rparr>) = keeps_fixed w w1" "keeps_fixed w (w1\<lparr>next_up := y\<rparr>) = keeps_fixed w w1"
  "keeps_fixed (w\<lparr>cmds := x\<rparr>) w1 = keeps_fixed w w1"
  by (auto simp: keeps_fixed_def)

lemma fixed_upd: "keeps_fixed w w1 \<Longrightarrow> (\<And>p. fixed (f p) = fixed p) \<Longrightarrow> keeps_fixed w (upd t f w1)"
  by (auto simp: keeps_fixed_def)

lemma hiccups_simps [simp]:
  "keeps_hiccups w w" "keeps_hiccups w (put_up a u w1) = keeps_hiccups w w1" "keeps_hiccups w (upd t f w1) = keeps_hiccups w w1"
  "keeps_hiccups w (notify t e w1) = keeps_hiccups w w1" "keeps_hiccups w (w1\<lparr>upipes := z\<rparr>) = keeps_hiccups w w1"
  "keeps_hiccups w (w1\<lparr>upipes := z, pipes := q\<rparr>) = keeps_hiccups w w1"
  by (auto simp: keeps_hiccups_def)

lemma keeps_hiccupsD: "keeps_hiccups w w' \<Longrightarrow> hiccups (cmds w s) = [] \<Longrightarrow> hiccups (cmds w' s) = []"
  by (simp add: keeps_hiccups_def) (metis set_empty subset_empty)

lemma hiccups_send: "keeps_hiccups w w1 \<Longrightarrow> hiccups [c] = [] \<Longrightarrow> keeps_hiccups w (send_peer t c w1)"
  by (auto simp: keeps_hiccups_def)

lemma hiccups_pop: "cmds w t = c # cs \<Longrightarrow> keeps_hiccups (w\<lparr>cmds := (cmds w)(t := cs)\<rparr>) w1 \<Longrightarrow> keeps_hiccups w w1"
  unfolding keeps_hiccups_def by (cases c) (fastforce split: if_splits)+

lemma keeps_trans_ops:
  "keeps_fixed w w1 \<Longrightarrow> keeps_fixed w1 w2 \<Longrightarrow> keeps_fixed w w2" "keeps_hiccups w w1 \<Longrightarrow> keeps_hiccups w1 w2 \<Longrightarrow> keeps_hiccups w w2"
  by (fastforce simp: keeps_fixed_def keeps_hiccups_def)+

lemmas op_defs = pipe_read_def pipe_check_read_def pipe_check_write_def pipe_write_def pipe_rollback_def
  pipe_flush_def process_delimiter_def count_read_def Let_def

lemmas op_splits = bind_splits option.splits if_splits prod.splits

lemma delimiter_fixed: "process_delimiter t w = Some w' \<Longrightarrow> keeps_fixed w w' \<and> keeps_hiccups w w'"
  by (auto simp: process_delimiter_def fixed_def intro!: fixed_upd hiccups_send split: op_splits)

lemma read_fixed: "pipe_read t w = Some (w', x) \<Longrightarrow> keeps_fixed w w' \<and> keeps_hiccups w w'"
  by (auto simp: pipe_read_def count_read_def Let_def fixed_def intro!: fixed_upd hiccups_send
      dest!: delimiter_fixed elim!: keeps_trans_ops[rotated] split: op_splits)

lemma check_read_fixed: "pipe_check_read t w = Some (w', x) \<Longrightarrow> keeps_fixed w w' \<and> keeps_hiccups w w'"
  by (auto simp: pipe_check_read_def Let_def fixed_def intro!: fixed_upd hiccups_send
      dest!: delimiter_fixed elim!: keeps_trans_ops[rotated] split: op_splits)

lemma write_fixed:
  "pipe_check_write t w = Some (w', x) \<Longrightarrow> keeps_fixed w w' \<and> keeps_hiccups w w'"
  "pipe_write t m w = Some (w', x) \<Longrightarrow> keeps_fixed w w' \<and> keeps_hiccups w w'"
  "pipe_rollback t w = Some w' \<Longrightarrow> keeps_fixed w w' \<and> keeps_hiccups w w'"
  "pipe_flush t w = Some w' \<Longrightarrow> keeps_fixed w w' \<and> keeps_hiccups w w'"
  by (auto simp: pipe_check_write_def pipe_write_def pipe_rollback_def pipe_flush_def Let_def fixed_def
      intro!: fixed_upd hiccups_send split: op_splits)

lemma terminate_fixed:
  assumes "pipe_terminate t d w = Some w'"
  shows "keeps_fixed w w' \<and> keeps_hiccups w w'"
proof -
  obtain p where p: "pipes w t = Some p" using assms by (auto simp: pipe_terminate_def split: bind_splits)
  define w2 where "w2 = upd t (\<lambda>p. p\<lparr>out_active := False\<rparr>) (let w1 = upd t (\<lambda>p. p\<lparr>delay := d\<rparr>) w in
      if state p = Active \<or> state p = Delimiter_received
      then upd t (\<lambda>p. p\<lparr>state := Term_req_sent1\<rparr>) (send_peer t Pipe_term w1)
      else if \<not> d then upd t (\<lambda>p. p\<lparr>outpipe := None, state := Term_ack_sent\<rparr>) (send_peer t Pipe_term_ack w1) else w1)"
  have k: "keeps_fixed w w2 \<and> keeps_hiccups w w2"
    by (auto simp: w2_def Let_def fixed_def intro!: fixed_upd hiccups_send)
  have "w' = upd t (\<lambda>p. p\<lparr>delay := d\<rparr>) w \<or> w' = w2 \<or>
    (\<exists>a w3 u. pipe_rollback t w2 = Some w3 \<and> pipe_flush t (put_up a (up_write delimiter_msg False u) w3) = Some w')"
    using assms p by (auto simp: pipe_terminate_def w2_def Let_def simp del: upd_simps(1) split: op_splits)
  then show ?thesis using k write_fixed(3)[of t w2] write_fixed(4)
    by (elim disjE exE conjE) (auto simp: fixed_def intro!: fixed_upd dest!: write_fixed(4) elim!: keeps_trans_ops[rotated])
qed

lemma hiccup_fixed:
  "pipe_hiccup t w = Some w' \<Longrightarrow> keeps_fixed w w' \<and>
    (\<forall>s. s \<noteq> other t \<longrightarrow> hiccups (cmds w' s) = hiccups (cmds w s))"
  by (auto simp: pipe_hiccup_def Let_def fixed_def intro!: fixed_upd split: op_splits)

lemma command_fixed:
  assumes "process_command t w = Some w'"
  shows "keeps_fixed w w' \<and> keeps_hiccups w w'"
proof (cases "cmds w t")
  case (Cons c cs)
  let ?w = "w\<lparr>cmds := (cmds w)(t := cs)\<rparr>"
  have "keeps_fixed ?w w' \<and> keeps_hiccups ?w w'"
  proof (cases c)
    case Pipe_term
    then show ?thesis using assms Cons by (auto simp: process_command_def process_pipe_term_def Let_def fixed_def
        intro!: fixed_upd hiccups_send split: op_splits pipe_state.splits)
  next
    case Pipe_term_ack
    then have "pipes w' = (pipes w)(t := None) \<and> keeps_hiccups ?w w'"
      using assms Cons by (auto simp: process_command_def process_pipe_term_ack_def Let_def intro!: hiccups_send split: op_splits)
    then show ?thesis by (auto simp: keeps_fixed_def)
  qed (use assms Cons in \<open>auto simp: process_command_def process_activate_read_def process_activate_write_def
        process_hiccup_def Let_def fixed_def intro!: fixed_upd split: op_splits\<close>)
  then show ?thesis using hiccups_pop[OF Cons, of w'] by simp
qed (use assms in \<open>simp add: process_command_def\<close>)

lemma exec_fixed: "exec a w = Some w' \<Longrightarrow> keeps_fixed w w'"
  by (cases a) (auto simp: set_nodelay_def fixed_def intro!: fixed_upd
      dest: read_fixed check_read_fixed write_fixed hiccup_fixed terminate_fixed command_fixed split: if_splits)

lemma exec_hiccups:
  "exec a w = Some w' \<Longrightarrow> regular ids a \<Longrightarrow> ids s \<Longrightarrow> hiccups (cmds w s) = [] \<Longrightarrow> hiccups (cmds w' s) = []"
proof (cases a)
  case (Hiccup_call t)
  assume "exec a w = Some w'" "regular ids a" "ids s" "hiccups (cmds w s) = []"
  with Hiccup_call show ?thesis using hiccup_fixed[of t w w'] by (metis exec.simps(8) other_other regular.simps(2))
qed (auto dest!: read_fixed check_read_fixed write_fixed terminate_fixed command_fixed dest: keeps_hiccupsD split: if_splits)

lemma exec_flow:
  assumes inv: "pipe_inv w" and f: "flow_inv (h s) (ids s) s w" and h: "h s < 2 ^ 31" and p: "params_ok h w"
    and q: "ids s \<longrightarrow> hiccups (cmds w s) = []" and reg: "regular ids a" and x: "exec a w = Some w'"
  shows "flow_inv (h s) (ids s) s w'"
proof -
  have hs: "hwm p = h s" if "pipes w s = Some p" for p using p that by (simp add: params_ok_def)
  have lq: "lwm q = compute_lwm (h s) \<and> \<not> conflate q" if "pipes w (other s) = Some q" for q
    using p that unfolding params_ok_def by (metis other_other)
  show ?thesis
  proof (cases a)
    case (Read t)
    then obtain r where r: "pipe_read t w = Some (w', r)" using x by auto
    then obtain y where y: "pipes w t = Some y" by (auto simp: pipe_read_def split: bind_splits)
    show ?thesis using read_own_flow[OF inv f, of w' r] read_peer_flow[OF inv f h, of y w' r] r y lq other_cases[of t s] by auto
  next
    case (Check_read t)
    then show ?thesis using x check_read_flow[OF inv f] by auto
  next
    case (Write t m)
    then show ?thesis using x reg write_flow[OF inv f h, of t m w'] hs by auto
  next
    case (Check_write t)
    then show ?thesis using x check_write_flow[OF inv f h, of t w'] hs by auto
  next
    case (Hiccup_call t)
    then show ?thesis using x hiccup_own_flow[OF inv f, of w'] hiccup_peer_flow[OF inv f, of w'] lq other_cases[of t s] by auto
  qed (use x f nodelay_flow rollback_flow[OF f] flush_flow[OF f] terminate_flow[OF f inv] process_command_flow[OF inv f q] in
      \<open>auto split: if_splits\<close>)
qed

definition all_flow :: "(side \<Rightarrow> int) \<Rightarrow> (side \<Rightarrow> bool) \<Rightarrow> world \<Rightarrow> bool" where
  "all_flow h ids w \<longleftrightarrow> pipe_inv w \<and> params_ok h w \<and>
     (\<forall>s. flow_inv (h s) (ids s) s w \<and> (ids s \<longrightarrow> hiccups (cmds w s) = []))"

lemma start_flow: "all_flow (case_side h0 h1) ids (start h0 h1 False False)"
proof -
  let ?w = "start h0 h1 False False"
  have p: "pipes ?w P0 = Some ((new_pipe 0 1 h1 h0 False)\<lparr>has_sink := True\<rparr>)"
    "pipes ?w P1 = Some ((new_pipe 1 0 h0 h1 False)\<lparr>has_sink := True\<rparr>)"
    and u: "upipes ?w 0 = Some (Normal fifo_empty)" "upipes ?w 1 = Some (Normal fifo_empty)"
    and c: "cmds ?w s = []" for s
    by (simp_all add: start_def pipepair_def new_upipe_def)
  have fl: "flow h 0 0 True [] 0 0" for h by (rule flowI[of 0 0 "[]" "[]" 0 0]) auto
  have "flow_inv (case_side h0 h1 s) (ids s) s ?w" for s
    by (cases s) (auto simp: flow_inv_def wview_def rview_def p u u[unfolded One_nat_def] c new_pipe_def fl fifo_empty_def)
  moreover have "params_ok (case_side h0 h1) ?w"
    using p by (auto simp: params_ok_def new_pipe_def split: side.split)
  ultimately show ?thesis using start_inv c by (simp add: all_flow_def)
qed

lemma flow_reachable_inv:
  assumes "flow_reachable ids w0 w" "all_flow h ids w0" "\<And>s. h s < 2 ^ 31"
  shows "all_flow h ids w"
  using assms(1)
proof (induction rule: flow_reachable.induct)
  case (flow_step w a w')
  note al = flow_step.IH[unfolded all_flow_def]
  have "pipe_inv w'" using exec_inv[OF _ flow_step.hyps(2)] al flow_step.hyps(4) by auto
  moreover have "params_ok h w'"
    using exec_fixed[OF flow_step.hyps(4)] al unfolding keeps_fixed_def params_ok_def fixed_def by (metis prod.inject)
  moreover have "flow_inv (h s) (ids s) s w'" for s
    using exec_flow[of w h s, OF _ _ assms(3) _ _ flow_step.hyps(3,4)] al by blast
  moreover have "ids s \<longrightarrow> hiccups (cmds w' s) = []" for s
    using exec_hiccups[OF flow_step.hyps(4,3)] al by blast
  ultimately show ?case by (simp add: all_flow_def)
qed (rule assms(2))

section \<open>Watermarks\<close>

text \<open>The complete messages that were written to a side's peer and not read yet.\<close>

definition in_transit :: "world \<Rightarrow> side \<Rightarrow> nat" where
  "in_transit w s = load (upipes w) (route w s)"

lemma reachable_flow:
  assumes "flow_reachable ids (start h0 h1 False False) w" "h0 < 2 ^ 31" "h1 < 2 ^ 31" "pipes w s = Some p" "state p = Active"
  obtains r where "flow (hwm p) (peers_msgs_read p) (msgs_written p) (out_active p) (acts (cmds w s)) r (in_transit w s)"
proof -
  have "case_side h0 h1 t < 2 ^ 31" for t using assms(2,3) by (cases t) auto
  from flow_reachable_inv[OF assms(1) start_flow this] have al: "all_flow (case_side h0 h1) ids w" .
  then have inv: "pipe_inv w" by (simp add: all_flow_def)
  obtain q b where q: "pipes w (other s) = Some q" "outpipe p = Some b" using active_peer[OF inv assms(4,5)] .
  have h: "hwm p = case_side h0 h1 s" using al assms(4) by (simp add: all_flow_def params_ok_def)
  have f: "flow_inv (hwm p) (ids s) s w" using al unfolding h by (simp add: all_flow_def)
  have "route w s = b # hiccups (cmds w s)" using assms(4) q by (simp add: route_def)
  then show ?thesis using that flow_invD(1)[OF f assms(4,5) q(2,1)] by (simp add: in_transit_def)
qed

lemma acts_empty: "\<forall>n. Activate_write n \<notin> set cs \<Longrightarrow> acts cs = []"
  by (induction cs rule: acts.induct) auto

text \<open>A pipe with a watermark of one message, filled by the writer, who then finds it full.\<close>

definition full_pipe :: world where
  "full_pipe = the (Option.bind (exec (Write P0 empty_msg) (start 1 1 False False)) (exec (Check_write P0)))"

lemma full_pipe_runs:
  "\<exists>w1. exec (Write P0 empty_msg) (start 1 1 False False) = Some w1 \<and> exec (Check_write P0) w1 = Some full_pipe \<and>
     allowed (Check_write P0) w1"
  by (simp add: full_pipe_def pipe_write_def pipe_check_write_def start_def pipepair_def new_pipe_def check_hwm_def
      new_upipe_def upd_def put_up_def Let_def empty_msg_def has_more_def has_identity_def) (rule exI[of _ False], simp)

lemma full_pipe_reachable: "flow_reachable (\<lambda>_. False) (start 1 1 False False) full_pipe"
proof -
  obtain w1 where w1: "exec (Write P0 empty_msg) (start 1 1 False False) = Some w1" "exec (Check_write P0) w1 = Some full_pipe"
    "allowed (Check_write P0) w1"
    using full_pipe_runs by blast
  have "allowed (Write P0 empty_msg) (start 1 1 False False)" "regular (\<lambda>_. False) (Write P0 empty_msg)"
    by (simp_all add: start_def pipepair_def empty_msg_def plain_def has_credential_def has_identity_def)
  then have "flow_reachable (\<lambda>_. False) (start 1 1 False False) w1" using w1(1) by (blast intro: flow_reachable.intros)
  from flow_step[OF this w1(3) _ w1(2)] show ?thesis by simp
qed

lemma full_pipe_state:
  "\<exists>p. pipes full_pipe P0 = Some p \<and> state p = Active \<and> \<not> out_active p \<and> hwm p = 1 \<and> cmds full_pipe P0 = []"
  by (simp add: full_pipe_def pipe_write_def pipe_check_write_def start_def pipepair_def new_pipe_def check_hwm_def
      new_upipe_def upd_def put_up_def Let_def empty_msg_def has_more_def has_identity_def)





text \<open>
  Credentials leak the watermark: \<open>write\<close> counts a credential frame in \<open>msgs_written\<close>, but
  \<open>read\<close> skips it without counting it in \<open>msgs_read\<close>. With a watermark of one, after a credential was
  written, flushed and consumed by the reader, the pipe is empty, no command is on its way in either
  direction, and the writer can write nothing any more.
\<close>

theorem credential_blocks_pipe:
  assumes "has_credential m" "\<not> has_more m" "\<not> has_identity m" "kind m \<noteq> Kdelimiter"
  shows "\<exists>w1 w2 w3 w4. exec (Write P0 m) (start 1 h False False) = Some w1 \<and> exec (Flush P0) w1 = Some w2 \<and>
     exec (Read P1) w2 = Some w3 \<and> in_transit w3 P0 = 0 \<and> cmds w3 = (\<lambda>_. []) \<and>
     pipe_write P0 x w3 = Some (w4, False) \<and> cmds w4 = (\<lambda>_. [])"
  using assms
  by (simp add: pipe_write_def pipe_check_write_def pipe_flush_def pipe_read_def start_def pipepair_def new_pipe_def
      check_hwm_def new_upipe_def upd_def put_up_def Let_def fifo_write_def fifo_flush_def fifo_empty_def fifo_read_def
      read_message.simps readable_def in_transit_def route_def)

theorem credential_blocks_pipe_witness:
  "\<exists>w1 w2 w3 w4. exec (Write P0 (empty_msg\<lparr>flags := 32\<rparr>)) (start 1 0 False False) = Some w1 \<and> exec (Flush P0) w1 = Some w2 \<and>
     exec (Read P1) w2 = Some w3 \<and> in_transit w3 P0 = 0 \<and> cmds w3 = (\<lambda>_. []) \<and>
     pipe_write P0 empty_msg w3 = Some (w4, False) \<and> cmds w4 = (\<lambda>_. [])"
  by (rule credential_blocks_pipe)
    (simp_all add: has_credential_def has_more_def has_identity_def empty_msg_def)

end
