(* ===== verification/Pipe_Array.thy ===== *)
theory Pipe_Array
  imports Zmq_Prelude "HOL-Library.Monad_Syntax"
begin

text \<open>
  Model of \<open>src/src/array.hpp\<close>: the array of pipes that know their own index. Pipes are numbers; the index
  that \<open>array_item_t\<close> stores in a pipe is the map \<open>array_index\<close>. No caller stores NULL pointers, so the
  tests for them are left out. An access out of range is \<open>None\<close>.

  The second part is what \<open>fq_t\<close> and \<open>lb_t\<close> do with it: the first \<open>active\<close> pipes are served in turn, starting
  at \<open>current\<close>.
\<close>

section \<open>Arrays\<close>

record arr =
  items :: "nat list"
  array_index :: "nat \<Rightarrow> int"

definition arr_empty :: arr where
  "arr_empty = \<lparr>items = [], array_index = (\<lambda>_. - 1)\<rparr>"

definition arr_at :: "nat \<Rightarrow> arr \<Rightarrow> nat option" where
  "arr_at i a = (if i < length (items a) then Some (items a ! i) else None)"

definition arr_push_back :: "nat \<Rightarrow> arr \<Rightarrow> arr" where
  "arr_push_back x a = a\<lparr>array_index := (array_index a)(x := int (length (items a))), items := items a @ [x]\<rparr>"

definition arr_index :: "nat \<Rightarrow> arr \<Rightarrow> nat" where
  "arr_index x a = nat (array_index a x)"

definition arr_erase_at :: "nat \<Rightarrow> arr \<Rightarrow> arr option" where
  "arr_erase_at i a =
     (if i < length (items a)
      then Some (a\<lparr>array_index := (array_index a)(last (items a) := int i),
                   items := butlast ((items a)[i := last (items a)])\<rparr>)
      else None)"

definition arr_erase :: "nat \<Rightarrow> arr \<Rightarrow> arr option" where
  "arr_erase x a = arr_erase_at (arr_index x a) a"

definition arr_swap :: "nat \<Rightarrow> nat \<Rightarrow> arr \<Rightarrow> arr option" where
  "arr_swap i j a =
     (if i < length (items a) \<and> j < length (items a)
      then Some (a\<lparr>array_index := (array_index a)(items a ! i := int j, items a ! j := int i),
                   items := exchange (items a) i j\<rparr>)
      else None)"

section \<open>Invariant\<close>

definition arr_ok :: "arr \<Rightarrow> bool" where
  "arr_ok a \<longleftrightarrow> distinct (items a) \<and> (\<forall>i<length (items a). array_index a (items a ! i) = int i)"

lemma arr_empty_ok [simp]: "arr_ok arr_empty" "items arr_empty = []"
  by (simp_all add: arr_ok_def arr_empty_def)

lemma arr_index_nth: "arr_ok a \<Longrightarrow> i < length (items a) \<Longrightarrow> arr_index (items a ! i) a = i"
  by (simp add: arr_ok_def arr_index_def)

lemma arr_index_mem: "arr_ok a \<Longrightarrow> x \<in> set (items a) \<Longrightarrow> arr_index x a < length (items a) \<and> items a ! arr_index x a = x"
  by (metis arr_index_nth in_set_conv_nth)

lemma arr_push_ok: "arr_ok a \<Longrightarrow> x \<notin> set (items a) \<Longrightarrow> arr_ok (arr_push_back x a)"
  by (auto simp: arr_ok_def arr_push_back_def nth_append less_Suc_eq)

lemma arr_push_items [simp]: "items (arr_push_back x a) = items a @ [x]"
  by (simp add: arr_push_back_def)

text \<open>The exchange of two slots permutes the array.\<close>

definition xchg :: "nat \<Rightarrow> nat \<Rightarrow> nat \<Rightarrow> nat" where
  "xchg i j k = (if k = i then j else if k = j then i else k)"

lemma arr_swap_ok:
  assumes ok: "arr_ok a" and ij: "i < length (items a)" "j < length (items a)"
  shows "\<exists>a'. arr_swap i j a = Some a' \<and> arr_ok a' \<and> length (items a') = length (items a) \<and> set (items a') = set (items a) \<and>
    (\<forall>k<length (items a). items a' ! k = items a ! xchg i j k) \<and>
    (\<forall>x\<in>set (items a). arr_index x a' = xchg i j (arr_index x a))"
proof -
  let ?xs = "exchange (items a) i j"
  have d: "distinct (items a)" using ok by (simp add: arr_ok_def)
  have nth: "?xs ! k = items a ! xchg i j k" if "k < length (items a)" for k
    using that ij by (auto simp: nth_exchange xchg_def)
  have d': "distinct ?xs" "set ?xs = set (items a)" using d ij by simp_all
  let ?a = "a\<lparr>array_index := (array_index a)(items a ! i := int j, items a ! j := int i), items := ?xs\<rparr>"
  have ai: "array_index ?a (items a ! k) = int (xchg i j k)" if "k < length (items a)" for k
    using ok that ij d by (auto simp: arr_ok_def xchg_def nth_eq_iff_index_eq)
  have xx: "xchg i j (xchg i j k) = k" "k < length (items a) \<Longrightarrow> xchg i j k < length (items a)" for k using ij by (auto simp: xchg_def)
  have ok': "arr_ok ?a" unfolding arr_ok_def using d' nth ai xx by auto
  have "\<forall>x\<in>set (items a). arr_index x ?a = xchg i j (arr_index x a)"
  proof
    fix x assume "x \<in> set (items a)"
    then have "arr_index x a < length (items a)" "items a ! arr_index x a = x" using arr_index_mem[OF ok] by auto
    then show "arr_index x ?a = xchg i j (arr_index x a)" using ai[of "arr_index x a"] by (simp add: arr_index_def)
  qed
  then show ?thesis using ok' ij d' nth by (simp add: arr_swap_def)
qed

lemma arr_erase_last_ok:
  assumes ok: "arr_ok a" and x: "x \<in> set (items a)"
  shows "\<exists>a'. arr_erase x a = Some a' \<and> arr_ok a' \<and> set (items a') = set (items a) - {x} \<and> length (items a') = length (items a) - 1 \<and>
    (\<forall>k<arr_index x a. items a' ! k = items a ! k)"
proof -
  let ?i = "arr_index x a" and ?n = "length (items a)"
  let ?l = "last (items a)"
  have i: "?i < ?n" "items a ! ?i = x" using arr_index_mem[OF ok x] by auto
  have d: "distinct (items a)" using ok by (simp add: arr_ok_def)
  have ne: "items a \<noteq> []" using i by auto
  have l: "?l = items a ! (?n - 1)" using ne by (simp add: last_conv_nth)
  let ?xs = "butlast ((items a)[?i := ?l])"
  have len: "length ?xs = ?n - 1" by simp
  have nth: "?xs ! k = (if k = ?i then ?l else items a ! k)" if "k < ?n - 1" for k
    using that i by (simp add: nth_butlast nth_list_update)
  have set: "set ?xs = set (items a) - {x}"
  proof -
    have "y \<in> set ?xs \<longleftrightarrow> y \<in> set (items a) - {x}" for y
    proof
      assume "y \<in> set ?xs"
      then obtain k where k: "k < ?n - 1" "y = ?xs ! k" by (metis in_set_conv_nth len)
      then show "y \<in> set (items a) - {x}"
        using nth[OF k(1)] i l d ne by (cases "k = ?i") (auto simp: nth_eq_iff_index_eq)
    next
      assume "y \<in> set (items a) - {x}"
      then obtain k where k: "k < ?n" "items a ! k = y" "k \<noteq> ?i" using i by (auto simp: in_set_conv_nth)
      then show "y \<in> set ?xs"
      proof (cases "k = ?n - 1")
        case True
        then have "?i < ?n - 1" using i k by auto
        then show ?thesis using nth[of ?i] l True k len by (metis nth_mem)
      next
        case False
        then show ?thesis using nth[of k] k len by (metis Suc_pred' length_greater_0_conv less_antisym ne nth_mem One_nat_def)
      qed
    qed
    then show ?thesis by blast
  qed
  have dist: "distinct ?xs" unfolding distinct_conv_nth len
  proof (intro allI impI)
    fix k m assume k: "k < ?n - 1" "m < ?n - 1" "k \<noteq> m"
    then show "?xs ! k \<noteq> ?xs ! m" using d nth[OF k(1)] nth[OF k(2)] l i by (auto simp: nth_eq_iff_index_eq)
  qed
  let ?a = "a\<lparr>array_index := (array_index a)(?l := int ?i), items := ?xs\<rparr>"
  have "array_index ?a (?xs ! k) = int k" if "k < ?n - 1" for k
    using ok d nth[OF that] that i l by (auto simp: arr_ok_def nth_eq_iff_index_eq)
  then have "arr_ok ?a" using dist len by (simp add: arr_ok_def)
  moreover have "\<forall>k<?i. ?xs ! k = items a ! k" using nth i by auto
  ultimately show ?thesis using i set len by (simp add: arr_erase_def arr_erase_at_def)
qed

section \<open>Serving in turn\<close>

text \<open>How many of the \<open>n\<close> active pipes are served before the one at position \<open>i\<close> when it is position \<open>c\<close>'s turn.\<close>

definition turns :: "nat \<Rightarrow> nat \<Rightarrow> nat \<Rightarrow> nat" where
  "turns n c i = (if c \<le> i then i - c else n - c + i)"

definition active_set :: "nat \<Rightarrow> arr \<Rightarrow> nat set" where
  "active_set n a = {x \<in> set (items a). arr_index x a < n}"

lemma turns_less: "c < n \<Longrightarrow> i < n \<Longrightarrow> turns n c i < n"
  by (auto simp: turns_def)

lemma turns_next: "c < n \<Longrightarrow> i < n \<Longrightarrow> i \<noteq> c \<Longrightarrow> turns n ((c + 1) mod n) i < turns n c i"
  by (cases "c + 1 = n") (auto simp: turns_def)

text \<open>The pipe whose turn it is becomes inactive: nobody else has to wait longer.\<close>

lemma deactivate_current:
  assumes ok: "arr_ok a" and n: "Suc n \<le> length (items a)" "c < Suc n"
  shows "\<exists>a'. arr_swap c n a = Some a' \<and> arr_ok a' \<and> set (items a') = set (items a) \<and> length (items a') = length (items a) \<and>
    active_set n a' = active_set (Suc n) a - {items a ! c} \<and>
    (\<forall>x\<in>active_set n a'. turns n (if c = n then 0 else c) (arr_index x a') \<le> turns (Suc n) c (arr_index x a))"
proof -
  obtain a' where a': "arr_swap c n a = Some a'" "arr_ok a'" "length (items a') = length (items a)" "set (items a') = set (items a)"
    "\<And>x. x \<in> set (items a) \<Longrightarrow> arr_index x a' = xchg c n (arr_index x a)"
    using arr_swap_ok[OF ok, of c n] n by auto
  have ix: "arr_index x a = c \<longleftrightarrow> x = items a ! c" if "x \<in> set (items a)" for x
    using arr_index_mem[OF ok that] arr_index_nth[OF ok, of c] n by auto
  have "x \<in> active_set n a' \<longleftrightarrow> x \<in> active_set (Suc n) a - {items a ! c}" if "x \<in> set (items a)" for x
    using a'(4) a'(5)[OF that] ix[OF that] n that by (auto simp: active_set_def xchg_def)
  then have s: "active_set n a' = active_set (Suc n) a - {items a ! c}" using a'(4) by (auto simp: active_set_def)
  have "\<forall>x\<in>active_set n a'. turns n (if c = n then 0 else c) (arr_index x a') \<le> turns (Suc n) c (arr_index x a)"
  proof
    fix x assume x: "x \<in> active_set n a'"
    then have m: "x \<in> set (items a)" "arr_index x a < Suc n" "arr_index x a \<noteq> c" using s ix by (auto simp: active_set_def)
    then show "turns n (if c = n then 0 else c) (arr_index x a') \<le> turns (Suc n) c (arr_index x a)"
      using a'(5)[OF m(1)] n by (auto simp: turns_def xchg_def)
  qed
  with a' s show ?thesis by blast
qed

text \<open>A pipe becomes active.\<close>

lemma arr_index_eq: "arr_ok a \<Longrightarrow> x \<in> set (items a) \<Longrightarrow> p \<in> set (items a) \<Longrightarrow> arr_index x a = arr_index p a \<longleftrightarrow> x = p"
  by (metis arr_index_mem)

lemma activate_pipe:
  assumes ok: "arr_ok a" and p: "p \<in> set (items a)" "n \<le> arr_index p a"
  shows "\<exists>a'. arr_swap (arr_index p a) n a = Some a' \<and> arr_ok a' \<and> set (items a') = set (items a) \<and> length (items a') = length (items a) \<and>
    active_set (Suc n) a' = insert p (active_set n a) \<and> Suc n \<le> length (items a')"
proof -
  let ?i = "arr_index p a"
  have i: "?i < length (items a)" using arr_index_mem[OF ok p(1)] by simp
  obtain a' where a': "arr_swap ?i n a = Some a'" "arr_ok a'" "length (items a') = length (items a)" "set (items a') = set (items a)"
    "\<And>x. x \<in> set (items a) \<Longrightarrow> arr_index x a' = xchg ?i n (arr_index x a)"
    using arr_swap_ok[OF ok, of ?i n] i p(2) by auto
  have "x \<in> active_set (Suc n) a' \<longleftrightarrow> x \<in> insert p (active_set n a)" if "x \<in> set (items a)" for x
    using that a'(4) a'(5)[OF that] arr_index_eq[OF ok that p(1)] p(2) by (auto simp: active_set_def xchg_def)
  then have "active_set (Suc n) a' = insert p (active_set n a)" using a'(4) p by (auto simp: active_set_def)
  then show ?thesis using a' i p(2) by simp
qed

lemma arr_swap_comm:
  assumes "arr_ok a"
  shows "arr_swap i j a = arr_swap j i a"
proof (cases "i = j")
  case False
  then have "exchange (items a) i j = exchange (items a) j i" by (simp add: exchange_def list_update_swap)
  moreover have "(array_index a)(items a ! i := int j, items a ! j := int i) = (array_index a)(items a ! j := int i, items a ! i := int j)"
    if "i < length (items a)" "j < length (items a)"
    using that assms False by (intro fun_upd_twist) (auto simp: arr_ok_def nth_eq_iff_index_eq)
  ultimately show ?thesis by (simp add: arr_swap_def)
qed simp

lemma push_pipe:
  assumes ok: "arr_ok a" and p: "p \<notin> set (items a)" and n: "n \<le> length (items a)"
  shows "arr_index p (arr_push_back p a) = length (items a)" "active_set n (arr_push_back p a) = active_set n a"
    "\<And>x. x \<in> set (items a) \<Longrightarrow> arr_index x (arr_push_back p a) = arr_index x a"
  using assms by (auto simp: arr_index_def arr_push_back_def active_set_def)

text \<open>A pipe becomes inactive.\<close>

lemma remove_active:
  assumes ok: "arr_ok a" and p: "p \<in> set (items a)" "arr_index p a < n" and n: "n \<le> length (items a)"
  shows "\<exists>a'. arr_swap (arr_index p a) (n - 1) a = Some a' \<and> arr_ok a' \<and> set (items a') = set (items a) \<and> length (items a') = length (items a) \<and>
    active_set (n - 1) a' = active_set n a - {p} \<and> arr_index p a' = n - 1"
proof -
  let ?i = "arr_index p a"
  have "n - 1 < length (items a)" "?i < length (items a)" using p(2) n by linarith+
  then obtain a' where a': "arr_swap ?i (n - 1) a = Some a'" "arr_ok a'" "length (items a') = length (items a)" "set (items a') = set (items a)"
    "\<And>x. x \<in> set (items a) \<Longrightarrow> arr_index x a' = xchg ?i (n - 1) (arr_index x a)"
    using arr_swap_ok[OF ok, of ?i "n - 1"] by auto
  have "x \<in> active_set (n - 1) a' \<longleftrightarrow> x \<in> active_set n a - {p}" if "x \<in> set (items a)" for x
    using that a'(4) a'(5)[OF that] arr_index_eq[OF ok that p(1)] p(2) by (auto simp: active_set_def xchg_def)
  then have "active_set (n - 1) a' = active_set n a - {p}" using a'(4) by (auto simp: active_set_def)
  then show ?thesis using a' a'(5)[OF p(1)] by (simp add: xchg_def)
qed

lemma erase_inactive:
  assumes ok: "arr_ok a" and p: "p \<in> set (items a)" "n \<le> arr_index p a"
  shows "\<exists>a'. arr_erase p a = Some a' \<and> arr_ok a' \<and> set (items a') = set (items a) - {p} \<and> n \<le> length (items a') \<and>
    (\<forall>m\<le>n. active_set m a' = active_set m a)"
proof -
  obtain b where b: "arr_erase p a = Some b" "arr_ok b" "set (items b) = set (items a) - {p}" "length (items b) = length (items a) - 1"
    "\<And>k. k < arr_index p a \<Longrightarrow> items b ! k = items a ! k"
    using arr_erase_last_ok[OF ok p(1)] by auto
  have pi: "arr_index p a < length (items a)" using arr_index_mem[OF ok p(1)] by simp
  have act: "x \<in> active_set m b \<longleftrightarrow> x \<in> active_set m a" if m: "m \<le> n" for x m
  proof
    assume x: "x \<in> active_set m b"
    let ?k = "arr_index x b"
    have k: "items b ! ?k = x" "?k < m" using x arr_index_mem[OF b(2), of x] by (auto simp: active_set_def)
    then have "items a ! ?k = x" using b(5)[of ?k] p m by simp
    then show "x \<in> active_set m a" using k(2) p m pi arr_index_nth[OF ok, of ?k] nth_mem[of ?k "items a"] by (auto simp: active_set_def)
  next
    assume x: "x \<in> active_set m a"
    let ?k = "arr_index x a"
    have k: "items a ! ?k = x" "?k < m" using x arr_index_mem[OF ok, of x] by (auto simp: active_set_def)
    then have "items b ! ?k = x" "?k < length (items b)" using b(4) b(5)[of ?k] p m pi by auto
    then show "x \<in> active_set m b" using k(2) arr_index_nth[OF b(2), of ?k] nth_mem[of ?k "items b"] by (auto simp: active_set_def)
  qed
  then have "\<forall>m\<le>n. active_set m b = active_set m a" by blast
  then show ?thesis using b pi p by auto
qed

end
