(* ===== verification/Fair_Queue.thy ===== *)
theory Fair_Queue
  imports Pipe_Array Msg_View
begin

text \<open>
  Model of \<open>src/src/fq.cpp\<close>, the fair queueing of inbound messages. The pipes are reached through the
  functions \<open>rd\<close> (\<open>pipe_t::read\<close>), \<open>ck\<close> (\<open>pipe_t::check_read\<close>) and \<open>cred\<close> (\<open>pipe_t::get_credential\<close>) on a state of
  all pipes; \<open>None\<close> is an aborted process. What a received message replaces in the message object is
  not part of the state.
\<close>

section \<open>Model\<close>

record fq =
  fq_pipes :: arr
  fq_active :: nat
  fq_last_in :: "nat option"
  fq_current :: nat
  fq_more :: bool
  fq_saved_credential :: "byte list"

definition fq_t :: fq where
  "fq_t = \<lparr>fq_pipes = arr_empty, fq_active = 0, fq_last_in = None, fq_current = 0, fq_more = False, fq_saved_credential = []\<rparr>"

definition fq_attach :: "nat \<Rightarrow> fq \<Rightarrow> fq option" where
  "fq_attach p f = do {
     let a = arr_push_back p (fq_pipes f);
     a' \<leftarrow> arr_swap (fq_active f) (length (items a) - 1) a;
     Some (f\<lparr>fq_pipes := a', fq_active := fq_active f + 1\<rparr>) }"

definition fq_remove_active :: "nat \<Rightarrow> fq \<Rightarrow> fq option" where
  "fq_remove_active p f =
     (let i = arr_index p (fq_pipes f); n = fq_active f - 1 in
      if i < fq_active f then do {
        a \<leftarrow> arr_swap i n (fq_pipes f);
        Some (f\<lparr>fq_pipes := a, fq_active := n, fq_current := if fq_current f = n then 0 else fq_current f\<rparr>) }
      else Some f)"

definition fq_pipe_terminated :: "(nat \<Rightarrow> byte list) \<Rightarrow> nat \<Rightarrow> fq \<Rightarrow> fq option" where
  "fq_pipe_terminated cred p f = do {
     f1 \<leftarrow> fq_remove_active p f;
     a \<leftarrow> arr_erase p (fq_pipes f1);
     let f2 = f1\<lparr>fq_pipes := a\<rparr>;
     Some (if fq_last_in f2 = Some p then f2\<lparr>fq_saved_credential := cred p, fq_last_in := None\<rparr> else f2) }"

definition fq_activated :: "nat \<Rightarrow> fq \<Rightarrow> fq option" where
  "fq_activated p f = do {
     a \<leftarrow> arr_swap (arr_index p (fq_pipes f)) (fq_active f) (fq_pipes f);
     Some (f\<lparr>fq_pipes := a, fq_active := fq_active f + 1\<rparr>) }"

text \<open>The deactivation of the current pipe in \<open>recvpipe\<close> and \<open>has_in\<close>.\<close>

definition fq_deactivate :: "fq \<Rightarrow> fq option" where
  "fq_deactivate f = do {
     let n = fq_active f - 1;
     a \<leftarrow> arr_swap (fq_current f) n (fq_pipes f);
     Some (f\<lparr>fq_pipes := a, fq_active := n, fq_current := if fq_current f = n then 0 else fq_current f\<rparr>) }"

lemma fq_deactivate_active: "fq_deactivate f = Some f' \<Longrightarrow> fq_active f' = fq_active f - 1"
  by (auto simp: fq_deactivate_def Let_def split: bind_splits)

text \<open>The message and the pipe it is from, or nothing (\<open>EAGAIN\<close>).\<close>

function fq_recvpipe :: "(nat \<Rightarrow> 's \<Rightarrow> ('s \<times> msg option) option) \<Rightarrow> fq \<Rightarrow> 's \<Rightarrow> (fq \<times> 's \<times> (msg \<times> nat) option) option" where
  "fq_recvpipe rd f s =
     (if fq_active f > 0 then do {
        p \<leftarrow> arr_at (fq_current f) (fq_pipes f);
        (s1, r) \<leftarrow> rd p s;
        (case r of
           Some m \<Rightarrow>
             let f1 = f\<lparr>fq_more := has_more m\<rparr> in
             Some (if has_more m then f1
                   else f1\<lparr>fq_last_in := Some p, fq_current := (fq_current f + 1) mod fq_active f\<rparr>, s1, Some (m, p))
         | None \<Rightarrow>
             if fq_more f then None
             else do { f1 \<leftarrow> fq_deactivate f; fq_recvpipe rd f1 s1 }) }
      else Some (f, s, None))"
  by pat_completeness auto
termination
  by (relation "measure (\<lambda>(rd, f, s). fq_active f)") (auto dest: fq_deactivate_active)

declare fq_recvpipe.simps [simp del]

definition fq_recv :: "(nat \<Rightarrow> 's \<Rightarrow> ('s \<times> msg option) option) \<Rightarrow> fq \<Rightarrow> 's \<Rightarrow> (fq \<times> 's \<times> msg option) option" where
  "fq_recv rd f s = map_option (\<lambda>(f1, s1, r). (f1, s1, map_option fst r)) (fq_recvpipe rd f s)"

function fq_has_in_loop :: "(nat \<Rightarrow> 's \<Rightarrow> ('s \<times> bool) option) \<Rightarrow> fq \<Rightarrow> 's \<Rightarrow> (fq \<times> 's \<times> bool) option" where
  "fq_has_in_loop ck f s =
     (if fq_active f > 0 then do {
        p \<leftarrow> arr_at (fq_current f) (fq_pipes f);
        (s1, ok) \<leftarrow> ck p s;
        if ok then Some (f, s1, True)
        else do { f1 \<leftarrow> fq_deactivate f; fq_has_in_loop ck f1 s1 } }
      else Some (f, s, False))"
  by pat_completeness auto
termination
  by (relation "measure (\<lambda>(ck, f, s). fq_active f)") (auto dest: fq_deactivate_active)

declare fq_has_in_loop.simps [simp del]

definition fq_has_in :: "(nat \<Rightarrow> 's \<Rightarrow> ('s \<times> bool) option) \<Rightarrow> fq \<Rightarrow> 's \<Rightarrow> (fq \<times> 's \<times> bool) option" where
  "fq_has_in ck f s = (if fq_more f then Some (f, s, True) else fq_has_in_loop ck f s)"

definition fq_get_credential :: "(nat \<Rightarrow> byte list) \<Rightarrow> fq \<Rightarrow> byte list" where
  "fq_get_credential cred f = (case fq_last_in f of Some p \<Rightarrow> cred p | None \<Rightarrow> fq_saved_credential f)"

section \<open>Invariant\<close>

definition fq_ok :: "fq \<Rightarrow> bool" where
  "fq_ok f \<longleftrightarrow> arr_ok (fq_pipes f) \<and> fq_active f \<le> length (items (fq_pipes f)) \<and>
     (if fq_active f = 0 then fq_current f = 0 else fq_current f < fq_active f) \<and>
     set_option (fq_last_in f) \<subseteq> set (items (fq_pipes f))"

abbreviation fq_members :: "fq \<Rightarrow> nat set" where
  "fq_members f \<equiv> set (items (fq_pipes f))"

abbreviation fq_actives :: "fq \<Rightarrow> nat set" where
  "fq_actives f \<equiv> active_set (fq_active f) (fq_pipes f)"

abbreviation fq_wait :: "fq \<Rightarrow> nat \<Rightarrow> nat" where
  "fq_wait f p \<equiv> turns (fq_active f) (fq_current f) (arr_index p (fq_pipes f))"

lemma fq_t_ok: "fq_ok fq_t \<and> fq_members fq_t = {} \<and> fq_actives fq_t = {}"
  by (simp add: fq_ok_def fq_t_def active_set_def)

lemma fq_attach_ok:
  assumes ok: "fq_ok f" and p: "p \<notin> fq_members f"
  shows "\<exists>f'. fq_attach p f = Some f' \<and> fq_ok f' \<and> fq_members f' = insert p (fq_members f) \<and> fq_actives f' = insert p (fq_actives f)"
proof -
  let ?a = "arr_push_back p (fq_pipes f)"
  have a: "arr_ok (fq_pipes f)" "fq_active f \<le> length (items (fq_pipes f))" using ok by (simp_all add: fq_ok_def)
  note q = push_pipe[OF a(1) p a(2)]
  have "arr_ok ?a" using a p by (simp add: arr_push_ok)
  from activate_pipe[OF this, of p "fq_active f"] q a(2) arr_swap_comm[OF this, of "fq_active f"]
  show ?thesis using ok by (auto simp: fq_attach_def Let_def fq_ok_def split: if_splits)
qed

lemma fq_activated_ok:
  assumes ok: "fq_ok f" and p: "p \<in> fq_members f" "p \<notin> fq_actives f"
  shows "\<exists>f'. fq_activated p f = Some f' \<and> fq_ok f' \<and> fq_members f' = fq_members f \<and> fq_actives f' = insert p (fq_actives f)"
proof -
  have a: "arr_ok (fq_pipes f)" "fq_active f \<le> arr_index p (fq_pipes f)" using ok p by (auto simp: fq_ok_def active_set_def)
  from activate_pipe[OF a(1) p(1) a(2)] show ?thesis using ok by (auto simp: fq_activated_def fq_ok_def split: if_splits)
qed

lemma fq_deactivate_ok:
  assumes ok: "fq_ok f" and n: "0 < fq_active f"
  shows "\<exists>f'. fq_deactivate f = Some f' \<and> fq_ok f' \<and> fq_members f' = fq_members f \<and> fq_more f' = fq_more f \<and>
    fq_actives f' = fq_actives f - {items (fq_pipes f) ! fq_current f} \<and> (\<forall>x\<in>fq_actives f'. fq_wait f' x \<le> fq_wait f x)"
proof -
  obtain n where n': "fq_active f = Suc n" using n by (cases "fq_active f") auto
  have h: "arr_ok (fq_pipes f)" "Suc n \<le> length (items (fq_pipes f))" "fq_current f < Suc n" using ok n' by (auto simp: fq_ok_def)
  from deactivate_current[OF h] show ?thesis using ok n' by (auto simp: fq_deactivate_def Let_def fq_ok_def)
qed

lemma fq_pipe_terminated_ok:
  assumes ok: "fq_ok f" and p: "p \<in> fq_members f"
  shows "\<exists>f'. fq_pipe_terminated cred p f = Some f' \<and> fq_ok f' \<and> fq_members f' = fq_members f - {p} \<and> fq_actives f' = fq_actives f - {p} \<and>
    fq_get_credential cred f' = fq_get_credential cred f"
proof -
  have a: "arr_ok (fq_pipes f)" "fq_active f \<le> length (items (fq_pipes f))" using ok by (auto simp: fq_ok_def)
  have "\<exists>g. fq_remove_active p f = Some g \<and> fq_ok g \<and> fq_members g = fq_members f \<and> fq_actives g = fq_actives f - {p} \<and>
      fq_last_in g = fq_last_in f \<and> fq_saved_credential g = fq_saved_credential f \<and> fq_active g \<le> arr_index p (fq_pipes g)"
  proof (cases "arr_index p (fq_pipes f) < fq_active f")
    case True
    from remove_active[OF a(1) p True a(2)] show ?thesis using True ok by (auto simp: fq_remove_active_def Let_def fq_ok_def split: if_splits)
  next
    case False
    then show ?thesis using ok by (auto simp: fq_remove_active_def Let_def active_set_def)
  qed
  then obtain g where g: "fq_remove_active p f = Some g" "fq_ok g" "fq_members g = fq_members f" "fq_actives g = fq_actives f - {p}"
    "fq_last_in g = fq_last_in f" "fq_saved_credential g = fq_saved_credential f" "fq_active g \<le> arr_index p (fq_pipes g)" by blast
  have ag: "arr_ok (fq_pipes g)" using g(2) by (simp add: fq_ok_def)
  obtain a2 where a2: "arr_erase p (fq_pipes g) = Some a2" "arr_ok a2" "set (items a2) = fq_members f - {p}"
    "fq_active g \<le> length (items a2)" "active_set (fq_active g) a2 = fq_actives g"
    using erase_inactive[OF ag _ g(7)] p g(3) by auto
  have "fq_pipe_terminated cred p f = Some (let f2 = g\<lparr>fq_pipes := a2\<rparr> in
      if fq_last_in f2 = Some p then f2\<lparr>fq_saved_credential := cred p, fq_last_in := None\<rparr> else f2)"
    using g(1) a2(1) by (simp add: fq_pipe_terminated_def Let_def)
  then show ?thesis using g a2 ok by (auto simp: Let_def fq_ok_def fq_get_credential_def split: option.splits)
qed

section \<open>Receiving\<close>

definition always_ready :: "(nat \<Rightarrow> 's \<Rightarrow> ('s \<times> msg option) option) \<Rightarrow> nat \<Rightarrow> bool" where
  "always_ready rd p \<longleftrightarrow> (\<forall>s. \<exists>s' m. rd p s = Some (s', Some m))"

lemma fq_current_pipe:
  assumes "fq_ok f" "0 < fq_active f"
  shows "items (fq_pipes f) ! fq_current f \<in> fq_members f" "arr_index (items (fq_pipes f) ! fq_current f) (fq_pipes f) = fq_current f"
    "arr_at (fq_current f) (fq_pipes f) = Some (items (fq_pipes f) ! fq_current f)" "fq_current f < fq_active f" "arr_ok (fq_pipes f)"
  using assms arr_index_nth[of "fq_pipes f" "fq_current f"] by (auto simp: fq_ok_def arr_at_def)

text \<open>Receiving a message lets every other active pipe move up by one turn.\<close>

lemma recv_effect:
  "fq_ok f \<Longrightarrow> fq_recvpipe rd f s = Some (f', s', r) \<Longrightarrow>
    fq_ok f' \<and> fq_members f' = fq_members f \<and> fq_actives f' \<subseteq> fq_actives f \<and>
    (\<forall>p\<in>fq_actives f. always_ready rd p \<longrightarrow> p \<in> fq_actives f') \<and>
    (case r of None \<Rightarrow> fq_actives f' = {}
     | Some (m, q) \<Rightarrow> q \<in> fq_actives f \<and> fq_more f' = has_more m \<and>
         (\<forall>x\<in>fq_actives f'. x \<noteq> q \<longrightarrow> fq_wait f' x + (if has_more m then 0 else 1) \<le> fq_wait f x))"
proof (induction "fq_active f" arbitrary: f s rule: less_induct)
  case less
  note ok = less.prems(1) and run = less.prems(2)
  show ?case
  proof (cases "fq_active f = 0")
    case True
    then show ?thesis using ok run by (subst (asm) fq_recvpipe.simps) (auto simp: active_set_def)
  next
    case False
    let ?c = "fq_current f" and ?n = "fq_active f" and ?p = "items (fq_pipes f) ! fq_current f"
    note p = fq_current_pipe[OF ok] 
    from p False have p: "?p \<in> fq_members f" "arr_index ?p (fq_pipes f) = ?c" "arr_at ?c (fq_pipes f) = Some ?p" "?c < ?n" "arr_ok (fq_pipes f)" by auto
    obtain s1 r1 where r: "rd ?p s = Some (s1, r1)" using run False p(3)
      by (subst (asm) fq_recvpipe.simps) (auto split: bind_splits)
    show ?thesis
    proof (cases r1)
      case (Some m)
      let ?f = "if has_more m then f\<lparr>fq_more := has_more m\<rparr>
        else f\<lparr>fq_more := has_more m, fq_last_in := Some ?p, fq_current := (?c + 1) mod ?n\<rparr>"
      have "fq_recvpipe rd f s = Some (?f, s1, Some (m, ?p))" using False p(3) r Some by (subst fq_recvpipe.simps) (simp add: Let_def)
      then have e: "f' = ?f" "r = Some (m, ?p)" using run by simp_all
      moreover have "fq_ok ?f" using ok False p(1) by (auto simp: fq_ok_def)
      moreover have "turns ?n ((?c + 1) mod ?n) (arr_index x (fq_pipes f)) < fq_wait f x" if "x \<in> fq_actives f" "x \<noteq> ?p" for x
        using turns_next[OF p(4), of "arr_index x (fq_pipes f)"] that arr_index_eq[OF p(5) _ p(1)] p(2) by (auto simp: active_set_def)
      ultimately show ?thesis using p by (auto simp: active_set_def Suc_le_eq)
    next
      case None
      obtain f1 where f1: "fq_deactivate f = Some f1" "fq_ok f1" "fq_members f1 = fq_members f" "fq_more f1 = fq_more f"
        "fq_actives f1 = fq_actives f - {?p}" "\<forall>x\<in>fq_actives f1. fq_wait f1 x \<le> fq_wait f x"
        using fq_deactivate_ok[OF ok] False by auto
      have less1: "fq_active f1 < fq_active f" using fq_deactivate_active[OF f1(1)] False by simp
      have "fq_recvpipe rd f1 s1 = Some (f', s', r)" using False p(3) r None f1(1) run
        by (subst (asm) fq_recvpipe.simps) (simp split: if_splits)
      note i = less.hyps[OF less1 f1(2) this]
      have "\<not> always_ready rd ?p" unfolding always_ready_def using r None by (auto intro!: exI[of _ s])
      then have rdy: "\<forall>p\<in>fq_actives f. always_ready rd p \<longrightarrow> p \<in> fq_actives f'" using i f1(5) by blast
      have w: "fq_wait f1 x \<le> fq_wait f x" if "x \<in> fq_actives f'" for x using f1(6) i that by blast
      have sub: "fq_actives f' \<subseteq> fq_actives f" using i f1(5) by blast
      show ?thesis
      proof (cases r)
        case None
        then show ?thesis using i f1(3) sub rdy by simp
      next
        case (Some mq)
        obtain m q where mq: "mq = (m, q)" by fastforce
        have "q \<in> fq_actives f1 \<and> fq_more f' = has_more m \<and>
          (\<forall>x\<in>fq_actives f'. x \<noteq> q \<longrightarrow> fq_wait f' x + (if has_more m then 0 else 1) \<le> fq_wait f1 x)" using i Some mq by simp
        then have "q \<in> fq_actives f \<and> fq_more f' = has_more m \<and>
          (\<forall>x\<in>fq_actives f'. x \<noteq> q \<longrightarrow> fq_wait f' x + (if has_more m then 0 else 1) \<le> fq_wait f x)" using w f1(5) by (blast intro: order_trans)
        then show ?thesis using i f1(3) sub rdy Some mq by simp
      qed
    qed
  qed
qed

text \<open>What receiving needs of the pipes: reading them does not abort.\<close>

locale message_source =
  fixes rd :: "nat \<Rightarrow> 's \<Rightarrow> ('s \<times> msg option) option" and good :: "nat set \<Rightarrow> 's \<Rightarrow> bool"
  assumes rd_total: "good P s \<Longrightarrow> p \<in> P \<Longrightarrow> \<exists>s' r. rd p s = Some (s', r) \<and> good P s'"
begin

lemma recv_total:
  "fq_ok f \<Longrightarrow> good (fq_members f) s \<Longrightarrow>
    (fq_more f \<Longrightarrow> 0 < fq_active f \<and> (\<exists>s' m. rd (items (fq_pipes f) ! fq_current f) s = Some (s', Some m))) \<Longrightarrow>
    \<exists>f' s' r. fq_recvpipe rd f s = Some (f', s', r) \<and> good (fq_members f) s'"
proof (induction "fq_active f" arbitrary: f s rule: less_induct)
  case less
  note ok = less.prems(1) and gd = less.prems(2) and cur = less.prems(3)
  show ?case
  proof (cases "fq_active f = 0")
    case True
    then show ?thesis using gd by (subst fq_recvpipe.simps) simp
  next
    case False
    let ?p = "items (fq_pipes f) ! fq_current f"
    have p: "?p \<in> fq_members f" "arr_at (fq_current f) (fq_pipes f) = Some ?p" using fq_current_pipe[OF ok] False by auto
    obtain s1 r where r: "rd ?p s = Some (s1, r)" "good (fq_members f) s1" using rd_total[OF gd p(1)] by blast
    show ?thesis
    proof (cases r)
      case (Some m)
      then show ?thesis using False p r by (subst fq_recvpipe.simps) (simp add: Let_def)
    next
      case None
      have nm: "\<not> fq_more f" using cur r(1) None by auto
      obtain f1 where f1: "fq_deactivate f = Some f1" "fq_ok f1" "fq_members f1 = fq_members f" "fq_more f1 = fq_more f"
        using fq_deactivate_ok[OF ok] False by auto
      have less1: "fq_active f1 < fq_active f" using fq_deactivate_active[OF f1(1)] False by simp
      have "fq_recvpipe rd f s = fq_recvpipe rd f1 s1" using False p r None nm f1(1) by (subst fq_recvpipe.simps) simp
      then show ?thesis using less.hyps[OF less1 f1(2), of s1] f1(3,4) r(2) nm by simp
    qed
  qed
qed

end

section \<open>Properties\<close>

fun fq_run :: "(nat \<Rightarrow> 's \<Rightarrow> ('s \<times> msg option) option) \<Rightarrow> nat \<Rightarrow> fq \<Rightarrow> 's \<Rightarrow> (fq \<times> 's \<times> (msg \<times> nat) list) option" where
  "fq_run rd 0 f s = Some (f, s, [])"
| "fq_run rd (Suc n) f s = do {
     (f1, s1, r) \<leftarrow> fq_recvpipe rd f s;
     (f2, s2, ms) \<leftarrow> fq_run rd n f1 s1;
     Some (f2, s2, (case r of None \<Rightarrow> ms | Some x \<Rightarrow> x # ms)) }"

lemma fq_run_wait:
  "fq_ok f \<Longrightarrow> p \<in> fq_actives f \<Longrightarrow> always_ready rd p \<Longrightarrow> fq_run rd n f s = Some (f', s', ms) \<Longrightarrow> p \<notin> snd ` set ms \<Longrightarrow>
    length (filter (\<lambda>(m, q). \<not> has_more m) ms) \<le> fq_wait f p"
proof (induction n arbitrary: f s f' s' ms)
  case (Suc n)
  obtain f1 s1 r f2 s2 ms2 where r: "fq_recvpipe rd f s = Some (f1, s1, r)" "fq_run rd n f1 s1 = Some (f2, s2, ms2)"
    "ms = (case r of None \<Rightarrow> ms2 | Some x \<Rightarrow> x # ms2)" using Suc.prems(4) by (auto split: bind_splits)
  note e = recv_effect[OF Suc.prems(1) r(1)]
  have p1: "p \<in> fq_actives f1" using e Suc.prems(2,3) by blast
  then obtain m q where mq: "r = Some (m, q)" using e by (cases r) auto
  have ms: "ms = (m, q) # ms2" using r(3) mq by simp
  then have pq: "p \<noteq> q" using Suc.prems(5) by auto
  have w: "fq_wait f1 p + (if has_more m then 0 else 1) \<le> fq_wait f p" using e mq p1 pq by auto
  have "length (filter (\<lambda>(m, q). \<not> has_more m) ms2) \<le> fq_wait f1 p"
    using Suc.IH[OF _ p1 Suc.prems(3) r(2)] e Suc.prems(5) ms by auto
  with w ms show ?case by (simp split: if_splits)
qed simp

text \<open>
  Claim C26: fairness. However long an active pipe that always has messages is passed over, fewer complete
  messages are received from the other pipes in the meantime than there are active pipes.
\<close>

theorem fq_bounded_wait:
  assumes "fq_ok f" "p \<in> fq_actives f" "always_ready rd p" "fq_run rd n f s = Some (f', s', ms)" "p \<notin> snd ` set ms"
  shows "length (filter (\<lambda>(m, q). \<not> has_more m) ms) < fq_active f"
proof -
  have "arr_index p (fq_pipes f) < fq_active f" "fq_current f < fq_active f"
    using assms(1,2) by (auto simp: active_set_def fq_ok_def split: if_splits)
  then have "fq_wait f p < fq_active f" by (simp add: turns_less)
  with fq_run_wait[OF assms] show ?thesis by simp
qed

theorem fq_bounded_wait_witness:
  "length (filter (\<lambda>(m, q). \<not> has_more m) [(empty_msg, 4 :: nat)]) < 2"
proof -
  let ?rd = "\<lambda>p s. Some (s :: unit, Some empty_msg)"
  let ?f = "\<lparr>fq_pipes = \<lparr>items = [4, 7], array_index = (\<lambda>_. - 1)(4 := 0, 7 := 1)\<rparr>, fq_active = 2, fq_last_in = None,
    fq_current = 0, fq_more = False, fq_saved_credential = []\<rparr>"
  have m: "\<not> has_more empty_msg" by (simp add: has_more_def empty_msg_def)
  have ok: "fq_ok ?f" by (auto simp: fq_ok_def arr_ok_def less_Suc_eq)
  have act: "7 \<in> fq_actives ?f" by (simp add: active_set_def arr_index_def)
  have rdy: "always_ready ?rd 7" by (simp add: always_ready_def)
  have run: "fq_run ?rd 1 ?f () = Some (?f\<lparr>fq_last_in := Some 4, fq_current := 1\<rparr>, (), [(empty_msg, 4)])"
    by (simp add: fq_recvpipe.simps arr_at_def m Let_def)
  show ?thesis using fq_bounded_wait[OF ok act rdy run] by simp
qed

end
