(* ===== verification/Queue_Pipes.thy ===== *)
theory Queue_Pipes
  imports Fair_Queue Pipe_Protocol
begin

text \<open>
  Fair queueing over the pipes of \<open>src/src/pipe.cpp\<close>: the state is one pipe pair for each pipe of the queue,
  whose side \<open>P0\<close> the queue reads. The pipes provide what \<open>Fair_Queue\<close> asks of its message sources.
\<close>

type_synonym pipe_bank = "nat \<Rightarrow> world"

definition bank_read :: "nat \<Rightarrow> pipe_bank \<Rightarrow> (pipe_bank \<times> msg option) option" where
  "bank_read p W = map_option (\<lambda>(w, r). (W(p := w), r)) (pipe_read P0 (W p))"

definition bank_good :: "nat set \<Rightarrow> pipe_bank \<Rightarrow> bool" where
  "bank_good P W \<longleftrightarrow> (\<forall>p\<in>P. pipe_inv (W p) \<and> pipes (W p) P0 \<noteq> None)"

lemma read_keeps_pipe:
  assumes "pipe_read s w = Some (w', r)"
  shows "pipes w' s \<noteq> None"
proof -
  have d: "pipes x' s \<noteq> None" if "process_delimiter s x = Some x'" for x x'
    using that by (auto simp: process_delimiter_def split: bind_splits if_splits)
  have c: "pipes (count_read s m p x) s = None \<longleftrightarrow> pipes x s = None" for m p x
    by (simp add: count_read_def Let_def)
  show ?thesis using assms
    by (auto simp: pipe_read_def Let_def not_None_eq[symmetric] c simp del: not_None_eq dest!: d split: bind_splits if_splits option.splits prod.splits)
qed

interpretation bank: message_source bank_read bank_good
proof
  fix P W p assume g: "bank_good P W" "p \<in> P"
  then obtain q where q: "pipe_inv (W p)" "pipes (W p) P0 = Some q" by (auto simp: bank_good_def)
  obtain w r where w: "pipe_read P0 (W p) = Some (w, r)" "pipe_inv w" using read_inv[OF q] by blast
  have "pipes w P0 \<noteq> None" by (rule read_keeps_pipe[OF w(1)])
  then show "\<exists>W' r. bank_read p W = Some (W', r) \<and> bank_good P W'" using g w by (simp add: bank_read_def bank_good_def)
qed


definition one_pipe :: fq where
  "one_pipe = \<lparr>fq_pipes = \<lparr>items = [0], array_index = (\<lambda>_. - 1)(0 := 0)\<rparr>, fq_active = 1, fq_last_in = None, fq_current = 0,
     fq_more = False, fq_saved_credential = []\<rparr>"


text \<open>
  A pipe that is terminated by its own side between two parts of a message aborts the process.
  The peer writes a message of two parts; the first is received; the pipe is terminated without delay (as
  \<open>term_endpoint\<close> does); the next receive finds the pipe unreadable in the middle of the message and
  violates \<open>zmq_assert (!more)\<close>.
\<close>

theorem fq_terminate_mid_message_aborts:
  "Option.bind (pipe_write P1 (empty_msg\<lparr>flags := flag_more\<rparr>) (start 0 0 False False)) (\<lambda>(w1, _).
     Option.bind (pipe_write P1 empty_msg w1) (\<lambda>(w2, _).
     Option.bind (pipe_flush P1 w2) (\<lambda>w3.
     Option.bind (fq_recvpipe bank_read one_pipe (\<lambda>_. w3)) (\<lambda>(f, W, r).
     Option.bind (pipe_terminate P0 False (W 0)) (\<lambda>w4.
     Some (map_option fst r, fq_recvpipe bank_read f (W(0 := w4)))))))) = Some (Some (empty_msg\<lparr>flags := flag_more\<rparr>), None)"
proof -
  let ?m = "empty_msg\<lparr>flags := flag_more\<rparr>"
  have m: "has_more ?m" "\<not> has_more empty_msg" "\<not> has_identity ?m" "\<not> has_identity empty_msg" "\<not> has_credential ?m" "kind empty_msg \<noteq> Kdelimiter"
    by (simp_all add: has_more_def has_identity_def has_credential_def empty_msg_def)
  let ?p0 = "(new_pipe 0 1 0 0 False)\<lparr>has_sink := True\<rparr>" and ?p1 = "(new_pipe 1 0 0 0 False)\<lparr>has_sink := True\<rparr>"
  let ?w = "\<lambda>q0 q1 u0 u1 c. \<lparr>pipes = (\<lambda>s. Some (case s of P0 \<Rightarrow> q0 | P1 \<Rightarrow> q1)), upipes = [0 \<mapsto> Normal u0, 1 \<mapsto> Normal u1], next_up = 2,
     cmds = (\<lambda>s. case s of P0 \<Rightarrow> [] | P1 \<Rightarrow> c), events = []\<rparr>"
  note wdefs = pipe_write_def pipe_check_write_def check_hwm_def new_pipe_def upd_def put_up_def fifo_write_def fifo_empty_def Let_def m
  have w0: "start 0 0 False False = ?w ?p0 ?p1 fifo_empty fifo_empty []"
    by (auto simp: start_def pipepair_def new_upipe_def fun_eq_iff split: side.split)
  have w1: "pipe_write P1 ?m (?w ?p0 ?p1 fifo_empty fifo_empty []) = Some (?w ?p0 ?p1 (fifo_empty\<lparr>partial := [?m]\<rparr>) fifo_empty [], True)"
    by (simp add: wdefs fun_eq_iff)
  have w2: "pipe_write P1 empty_msg (?w ?p0 ?p1 (fifo_empty\<lparr>partial := [?m]\<rparr>) fifo_empty []) =
      Some (?w ?p0 (?p1\<lparr>msgs_written := 1\<rparr>) (fifo_empty\<lparr>staged := [?m, empty_msg]\<rparr>) fifo_empty [], True)"
    by (simp add: wdefs fun_eq_iff split: side.split)
  let ?q1 = "?p1\<lparr>msgs_written := 1\<rparr>"
  have w3: "pipe_flush P1 (?w ?p0 ?q1 (fifo_empty\<lparr>staged := [?m, empty_msg]\<rparr>) fifo_empty []) =
      Some (?w ?p0 ?q1 (fifo_empty\<lparr>flushed := [?m, empty_msg]\<rparr>) fifo_empty [])"
    by (simp add: pipe_flush_def new_pipe_def put_up_def fifo_flush_def fifo_empty_def Let_def fun_eq_iff)
  let ?w4 = "?w ?p0 ?q1 (fifo_empty\<lparr>flushed := [empty_msg]\<rparr>) fifo_empty []" and ?f = "one_pipe\<lparr>fq_more := True\<rparr>"
  have "pipe_read P0 (?w ?p0 ?q1 (fifo_empty\<lparr>flushed := [?m, empty_msg]\<rparr>) fifo_empty []) = Some (?w4, Some ?m)"
    by (simp add: pipe_read_def readable_def new_pipe_def upd_def put_up_def fifo_read_def fifo_empty_def read_message.simps count_read_def
        compute_lwm_def pipe_is_delimiter_def Let_def m fun_eq_iff split: side.split)
  then have w4: "fq_recvpipe bank_read one_pipe (\<lambda>_. ?w ?p0 ?q1 (fifo_empty\<lparr>flushed := [?m, empty_msg]\<rparr>) fifo_empty []) =
      Some (?f, (\<lambda>_. ?w ?p0 ?q1 (fifo_empty\<lparr>flushed := [?m, empty_msg]\<rparr>) fifo_empty [])(0 := ?w4), Some (?m, 0))"
    by (subst fq_recvpipe.simps) (simp add: one_pipe_def arr_at_def bank_read_def m Let_def)
  let ?q0 = "?p0\<lparr>delay := False, state := Term_req_sent1, out_active := False\<rparr>"
  have w5: "pipe_terminate P0 False ?w4 = Some (?w ?q0 ?q1 (fifo_empty\<lparr>flushed := [empty_msg]\<rparr>) (fifo_empty\<lparr>flushed := [delimiter_msg]\<rparr>) [Pipe_term])"
    by (simp add: pipe_terminate_def send_peer_def pipe_rollback_def unwrite_all.simps fifo_unwrite_def fifo_write_def pipe_flush_def fifo_flush_def
        new_pipe_def upd_def put_up_def fifo_empty_def Let_def fun_eq_iff split: side.split)
  have "pipe_read P0 (?w ?q0 ?q1 (fifo_empty\<lparr>flushed := [empty_msg]\<rparr>) (fifo_empty\<lparr>flushed := [delimiter_msg]\<rparr>) [Pipe_term]) =
      Some (?w ?q0 ?q1 (fifo_empty\<lparr>flushed := [empty_msg]\<rparr>) (fifo_empty\<lparr>flushed := [delimiter_msg]\<rparr>) [Pipe_term], None)"
    by (simp add: pipe_read_def readable_def)
  then have w6: "fq_recvpipe bank_read ?f (W(0 := ?w ?q0 ?q1 (fifo_empty\<lparr>flushed := [empty_msg]\<rparr>) (fifo_empty\<lparr>flushed := [delimiter_msg]\<rparr>) [Pipe_term])) = None" for W
    by (subst fq_recvpipe.simps) (simp add: one_pipe_def arr_at_def bank_read_def)
  show ?thesis unfolding w0 w1 w2 w3 w4 Option.bind.simps prod.case fun_upd_same w5 w6 by simp
qed

end
