(* ===== verification/Load_Balancer.thy ===== *)
theory Load_Balancer
  imports Pipe_Array Msg_View
begin

text \<open>
  Model of \<open>src/src/lb.cpp\<close>, the load balancing of outbound messages. The pipes are reached through the
  functions \<open>wr\<close> (\<open>pipe_t::write\<close>), \<open>rb\<close> (\<open>rollback\<close>), \<open>fl\<close> (\<open>flush\<close>) and \<open>ck\<close> (\<open>check_write\<close>) on a state of all
  pipes; \<open>None\<close> is an aborted process.
\<close>

section \<open>Model\<close>

record lb =
  lb_pipes :: arr
  lb_active :: nat
  lb_current :: nat
  lb_more :: bool
  lb_dropping :: bool

definition lb_t :: lb where
  "lb_t = \<lparr>lb_pipes = arr_empty, lb_active = 0, lb_current = 0, lb_more = False, lb_dropping = False\<rparr>"

definition lb_activated :: "nat \<Rightarrow> lb \<Rightarrow> lb option" where
  "lb_activated p l = do {
     a \<leftarrow> arr_swap (arr_index p (lb_pipes l)) (lb_active l) (lb_pipes l);
     Some (l\<lparr>lb_pipes := a, lb_active := lb_active l + 1\<rparr>) }"

definition lb_attach :: "nat \<Rightarrow> lb \<Rightarrow> lb option" where
  "lb_attach p l = lb_activated p (l\<lparr>lb_pipes := arr_push_back p (lb_pipes l)\<rparr>)"

definition lb_remove_active :: "nat \<Rightarrow> lb \<Rightarrow> lb option" where
  "lb_remove_active p l =
     (let i = arr_index p (lb_pipes l); n = lb_active l - 1 in
      if i < lb_active l then do {
        a \<leftarrow> arr_swap i n (lb_pipes l);
        Some (l\<lparr>lb_pipes := a, lb_active := n, lb_current := if lb_current l = n then 0 else lb_current l\<rparr>) }
      else Some l)"

definition lb_pipe_terminated :: "nat \<Rightarrow> lb \<Rightarrow> lb option" where
  "lb_pipe_terminated p l = do {
     let l1 = (if arr_index p (lb_pipes l) = lb_current l \<and> lb_more l then l\<lparr>lb_dropping := True\<rparr> else l);
     l2 \<leftarrow> lb_remove_active p l1;
     a \<leftarrow> arr_erase p (lb_pipes l2);
     Some (l2\<lparr>lb_pipes := a\<rparr>) }"

text \<open>The deactivation of the current pipe in \<open>sendpipe\<close> and in \<open>has_out\<close>.\<close>

definition lb_send_deactivate :: "lb \<Rightarrow> lb option" where
  "lb_send_deactivate l =
     (let n = lb_active l - 1 in
      if lb_current l < n then do {
        a \<leftarrow> arr_swap (lb_current l) n (lb_pipes l);
        Some (l\<lparr>lb_pipes := a, lb_active := n\<rparr>) }
      else Some (l\<lparr>lb_active := n, lb_current := 0\<rparr>))"

definition lb_deactivate :: "lb \<Rightarrow> lb option" where
  "lb_deactivate l = do {
     let n = lb_active l - 1;
     a \<leftarrow> arr_swap (lb_current l) n (lb_pipes l);
     Some (l\<lparr>lb_pipes := a, lb_active := n, lb_current := if lb_current l = n then 0 else lb_current l\<rparr>) }"

lemma lb_send_deactivate_active: "lb_send_deactivate l = Some l' \<Longrightarrow> lb_active l' = lb_active l - 1"
  by (auto simp: lb_send_deactivate_def Let_def split: bind_splits if_splits)

lemma lb_deactivate_active: "lb_deactivate l = Some l' \<Longrightarrow> lb_active l' = lb_active l - 1"
  by (auto simp: lb_deactivate_def Let_def split: bind_splits)

text \<open>
  The loop over the active pipes: \<open>Inr\<close> the pipe that took the message, or \<open>Inl\<close> whether the message was
  rolled back (\<open>True\<close>) or there is no active pipe left.
\<close>

function lb_send_loop ::
  "(nat \<Rightarrow> msg \<Rightarrow> 's \<Rightarrow> ('s \<times> bool) option) \<Rightarrow> (nat \<Rightarrow> 's \<Rightarrow> 's option) \<Rightarrow> msg \<Rightarrow> lb \<Rightarrow> 's \<Rightarrow> (lb \<times> 's \<times> (bool + nat)) option" where
  "lb_send_loop wr rb m l s =
     (if lb_active l > 0 then do {
        p \<leftarrow> arr_at (lb_current l) (lb_pipes l);
        (s1, ok) \<leftarrow> wr p m s;
        if ok then Some (l, s1, Inr p)
        else if lb_more l then do {
          s2 \<leftarrow> rb p s1;
          Some (l\<lparr>lb_more := False\<rparr>, s2, Inl True) }
        else do { l1 \<leftarrow> lb_send_deactivate l; lb_send_loop wr rb m l1 s1 } }
      else Some (l, s, Inl False))"
  by pat_completeness auto
termination
  by (relation "measure (\<lambda>(wr, rb, m, l, s). lb_active l)") (auto dest: lb_send_deactivate_active)

declare lb_send_loop.simps [simp del]

text \<open>The result: \<open>Inl EAGAIN\<close>, or the pipe the message was written to, \<open>None\<close> when it was dropped.\<close>

definition lb_sendpipe ::
  "(nat \<Rightarrow> msg \<Rightarrow> 's \<Rightarrow> ('s \<times> bool) option) \<Rightarrow> (nat \<Rightarrow> 's \<Rightarrow> 's option) \<Rightarrow> (nat \<Rightarrow> 's \<Rightarrow> 's option) \<Rightarrow> msg \<Rightarrow> lb \<Rightarrow> 's \<Rightarrow>
    (lb \<times> 's \<times> nat option result) option" where
  "lb_sendpipe wr rb fl m l s =
     (if lb_dropping l then Some (l\<lparr>lb_more := has_more m, lb_dropping := has_more m\<rparr>, s, Inr None)
      else do {
        (l1, s1, r) \<leftarrow> lb_send_loop wr rb m l s;
        (case r of
           Inl _ \<Rightarrow> Some (l1, s1, Inl EAGAIN)
         | Inr p \<Rightarrow>
             let l2 = l1\<lparr>lb_more := has_more m\<rparr> in
             if has_more m then Some (l2, s1, Inr (Some p))
             else do {
               s2 \<leftarrow> fl p s1;
               Some (l2\<lparr>lb_current := (lb_current l2 + 1) mod lb_active l2\<rparr>, s2, Inr (Some p)) }) })"

function lb_has_out_loop :: "(nat \<Rightarrow> 's \<Rightarrow> ('s \<times> bool) option) \<Rightarrow> lb \<Rightarrow> 's \<Rightarrow> (lb \<times> 's \<times> bool) option" where
  "lb_has_out_loop ck l s =
     (if lb_active l > 0 then do {
        p \<leftarrow> arr_at (lb_current l) (lb_pipes l);
        (s1, ok) \<leftarrow> ck p s;
        if ok then Some (l, s1, True)
        else do { l1 \<leftarrow> lb_deactivate l; lb_has_out_loop ck l1 s1 } }
      else Some (l, s, False))"
  by pat_completeness auto
termination
  by (relation "measure (\<lambda>(ck, l, s). lb_active l)") (auto dest: lb_deactivate_active)

declare lb_has_out_loop.simps [simp del]

definition lb_has_out :: "(nat \<Rightarrow> 's \<Rightarrow> ('s \<times> bool) option) \<Rightarrow> lb \<Rightarrow> 's \<Rightarrow> (lb \<times> 's \<times> bool) option" where
  "lb_has_out ck l s = (if lb_more l then Some (l, s, True) else lb_has_out_loop ck l s)"

section \<open>Invariant\<close>

definition lb_ok :: "lb \<Rightarrow> bool" where
  "lb_ok l \<longleftrightarrow> arr_ok (lb_pipes l) \<and> lb_active l \<le> length (items (lb_pipes l)) \<and>
     (if lb_active l = 0 then lb_current l = 0 else lb_current l < lb_active l)"

abbreviation lb_members :: "lb \<Rightarrow> nat set" where
  "lb_members l \<equiv> set (items (lb_pipes l))"

abbreviation lb_actives :: "lb \<Rightarrow> nat set" where
  "lb_actives l \<equiv> active_set (lb_active l) (lb_pipes l)"

abbreviation lb_wait :: "lb \<Rightarrow> nat \<Rightarrow> nat" where
  "lb_wait l p \<equiv> turns (lb_active l) (lb_current l) (arr_index p (lb_pipes l))"

abbreviation lb_cur :: "lb \<Rightarrow> nat" where
  "lb_cur l \<equiv> items (lb_pipes l) ! lb_current l"

lemma lb_t_ok: "lb_ok lb_t \<and> lb_members lb_t = {} \<and> lb_actives lb_t = {}"
  by (simp add: lb_ok_def lb_t_def active_set_def)

lemma lb_activated_ok:
  assumes ok: "lb_ok l" and p: "p \<in> lb_members l" "p \<notin> lb_actives l"
  shows "\<exists>l'. lb_activated p l = Some l' \<and> lb_ok l' \<and> lb_members l' = lb_members l \<and> lb_actives l' = insert p (lb_actives l)"
proof -
  have a: "arr_ok (lb_pipes l)" "lb_active l \<le> arr_index p (lb_pipes l)" using ok p by (auto simp: lb_ok_def active_set_def)
  from activate_pipe[OF a(1) p(1) a(2)] show ?thesis using ok by (auto simp: lb_activated_def lb_ok_def split: if_splits)
qed

lemma lb_attach_ok:
  assumes ok: "lb_ok l" and p: "p \<notin> lb_members l"
  shows "\<exists>l'. lb_attach p l = Some l' \<and> lb_ok l' \<and> lb_members l' = insert p (lb_members l) \<and> lb_actives l' = insert p (lb_actives l)"
proof -
  let ?l = "l\<lparr>lb_pipes := arr_push_back p (lb_pipes l)\<rparr>"
  have a: "arr_ok (lb_pipes l)" "lb_active l \<le> length (items (lb_pipes l))" using ok by (simp_all add: lb_ok_def)
  note q = push_pipe[OF a(1) p a(2)]
  have "lb_ok ?l" using ok p by (simp add: lb_ok_def arr_push_ok)
  moreover have "p \<notin> lb_actives ?l" using q(1) a(2) by (simp add: active_set_def)
  ultimately show ?thesis using lb_activated_ok[of ?l p] q(2) by (simp add: lb_attach_def)
qed

text \<open>Both ways to write the deactivation of the current pipe do the same to the pipes.\<close>

lemma lb_deactivate_ok:
  assumes ok: "lb_ok l" and n: "0 < lb_active l"
  shows "\<exists>l'. lb_deactivate l = Some l' \<and> lb_ok l' \<and> lb_members l' = lb_members l \<and> lb_more l' = lb_more l \<and> lb_dropping l' = lb_dropping l \<and>
    lb_actives l' = lb_actives l - {lb_cur l} \<and> (\<forall>x\<in>lb_actives l'. lb_wait l' x \<le> lb_wait l x)"
proof -
  obtain n where n': "lb_active l = Suc n" using n by (cases "lb_active l") auto
  have h: "arr_ok (lb_pipes l)" "Suc n \<le> length (items (lb_pipes l))" "lb_current l < Suc n" using ok n' by (auto simp: lb_ok_def)
  from deactivate_current[OF h] show ?thesis using ok n' by (auto simp: lb_deactivate_def Let_def lb_ok_def)
qed

lemma arr_swap_same: "arr_ok a \<Longrightarrow> i < length (items a) \<Longrightarrow> arr_swap i i a = Some a"
  by (auto simp: arr_swap_def arr_ok_def intro!: arr.equality)

lemma lb_send_deactivate_same:
  assumes ok: "lb_ok l" and n: "0 < lb_active l"
  shows "lb_send_deactivate l = lb_deactivate l"
proof (cases "lb_current l < lb_active l - 1")
  case False
  then have e: "lb_current l = lb_active l - 1" "lb_active l - 1 < length (items (lb_pipes l))" using ok n by (auto simp: lb_ok_def)
  have "arr_swap (lb_active l - 1) (lb_active l - 1) (lb_pipes l) = Some (lb_pipes l)" using ok e(2) by (intro arr_swap_same) (auto simp: lb_ok_def)
  then show ?thesis using e(1) by (simp add: lb_send_deactivate_def lb_deactivate_def Let_def)
qed (simp add: lb_send_deactivate_def lb_deactivate_def Let_def)

lemma lb_remove_active_ok:
  assumes ok: "lb_ok l" and p: "p \<in> lb_members l"
  shows "\<exists>l'. lb_remove_active p l = Some l' \<and> lb_ok l' \<and> lb_members l' = lb_members l \<and> lb_actives l' = lb_actives l - {p} \<and>
    lb_active l' \<le> arr_index p (lb_pipes l') \<and> lb_more l' = lb_more l \<and> lb_dropping l' = lb_dropping l"
proof (cases "arr_index p (lb_pipes l) < lb_active l")
  case True
  have a: "arr_ok (lb_pipes l)" "lb_active l \<le> length (items (lb_pipes l))" using ok by (auto simp: lb_ok_def)
  from remove_active[OF a(1) p True a(2)] show ?thesis using True ok by (auto simp: lb_remove_active_def Let_def lb_ok_def split: if_splits)
next
  case False
  then show ?thesis using ok by (auto simp: lb_remove_active_def Let_def active_set_def)
qed

lemma lb_pipe_terminated_ok:
  assumes ok: "lb_ok l" and p: "p \<in> lb_members l"
  shows "\<exists>l'. lb_pipe_terminated p l = Some l' \<and> lb_ok l' \<and> lb_members l' = lb_members l - {p} \<and> lb_actives l' = lb_actives l - {p} \<and>
    lb_dropping l' = (lb_dropping l \<or> lb_more l \<and> arr_index p (lb_pipes l) = lb_current l) \<and> lb_more l' = lb_more l"
proof -
  let ?l1 = "if arr_index p (lb_pipes l) = lb_current l \<and> lb_more l then l\<lparr>lb_dropping := True\<rparr> else l"
  have "lb_ok ?l1" "p \<in> lb_members ?l1" using ok p by (auto simp: lb_ok_def)
  moreover have f: "lb_members ?l1 = lb_members l" "lb_actives ?l1 = lb_actives l" "lb_more ?l1 = lb_more l" by simp_all
  ultimately obtain l2 where l2: "lb_remove_active p ?l1 = Some l2" "lb_ok l2" "lb_members l2 = lb_members l"
    "lb_actives l2 = lb_actives l - {p}" "lb_active l2 \<le> arr_index p (lb_pipes l2)" "lb_more l2 = lb_more l" "lb_dropping l2 = lb_dropping ?l1"
    using lb_remove_active_ok[of ?l1 p] unfolding f by blast
  have "arr_ok (lb_pipes l2)" using l2(2) by (simp add: lb_ok_def)
  from erase_inactive[OF this _ l2(5)] p l2(3) obtain a2 where a2: "arr_erase p (lb_pipes l2) = Some a2" "arr_ok a2"
    "set (items a2) = lb_members l - {p}" "lb_active l2 \<le> length (items a2)" "active_set (lb_active l2) a2 = lb_actives l2" by auto
  have "lb_pipe_terminated p l = Some (l2\<lparr>lb_pipes := a2\<rparr>)"
    unfolding lb_pipe_terminated_def Let_def l2(1) Option.bind.simps a2(1) ..
  moreover have "lb_ok (l2\<lparr>lb_pipes := a2\<rparr>)" using l2(2) a2 by (simp add: lb_ok_def)
  moreover have "lb_dropping ?l1 = (lb_dropping l \<or> lb_more l \<and> arr_index p (lb_pipes l) = lb_current l)" by auto
  ultimately show ?thesis using l2(4,6,7) a2(3,5) by (intro exI[of _ "l2\<lparr>lb_pipes := a2\<rparr>"]) simp
qed

section \<open>Sending\<close>

definition always_writable :: "(nat \<Rightarrow> msg \<Rightarrow> 's \<Rightarrow> ('s \<times> bool) option) \<Rightarrow> nat \<Rightarrow> bool" where
  "always_writable wr p \<longleftrightarrow> (\<forall>m s. \<exists>s'. wr p m s = Some (s', True))"

lemma lb_current_pipe:
  assumes "lb_ok l" "0 < lb_active l"
  shows "lb_cur l \<in> lb_members l" "arr_index (lb_cur l) (lb_pipes l) = lb_current l" "arr_at (lb_current l) (lb_pipes l) = Some (lb_cur l)"
    "lb_current l < lb_active l" "arr_ok (lb_pipes l)" "lb_cur l \<in> lb_actives l"
  using assms arr_index_nth[of "lb_pipes l" "lb_current l"] by (auto simp: lb_ok_def arr_at_def active_set_def)

lemma send_loop_effect:
  "lb_ok l \<Longrightarrow> lb_send_loop wr rb m l s = Some (l', s', r) \<Longrightarrow>
    lb_ok l' \<and> lb_members l' = lb_members l \<and> lb_dropping l' = lb_dropping l \<and> lb_actives l' \<subseteq> lb_actives l \<and>
    (\<forall>p\<in>lb_actives l. always_writable wr p \<longrightarrow> p \<in> lb_actives l' \<and> r \<noteq> Inl False) \<and>
    (\<forall>x\<in>lb_actives l'. lb_wait l' x \<le> lb_wait l x) \<and>
    (case r of Inl _ \<Rightarrow> lb_more l \<longrightarrow> 0 < lb_active l \<longrightarrow> \<not> lb_more l'
     | Inr q \<Rightarrow> q = lb_cur l' \<and> 0 < lb_active l' \<and> lb_more l' = lb_more l \<and> (lb_more l \<longrightarrow> q = lb_cur l))"
proof (induction "lb_active l" arbitrary: l s rule: less_induct)
  case less
  note ok = less.prems(1) and run = less.prems(2)
  show ?case
  proof (cases "lb_active l = 0")
    case True
    then show ?thesis using ok run by (subst (asm) lb_send_loop.simps) (auto simp: active_set_def)
  next
    case False
    then have pos: "0 < lb_active l" by simp
    note p = lb_current_pipe[OF ok pos]
    obtain s1 b where r: "wr (lb_cur l) m s = Some (s1, b)" using run False p(3)
      by (subst (asm) lb_send_loop.simps) (auto split: bind_splits)
    consider (sent) b | (rolled) "\<not> b" "lb_more l" | (next_pipe) "\<not> b" "\<not> lb_more l" by blast
    then show ?thesis
    proof cases
      case sent
      then have "lb_send_loop wr rb m l s = Some (l, s1, Inr (lb_cur l))" using pos p(3) r by (subst lb_send_loop.simps) simp
      then show ?thesis using run ok pos by auto
    next
      case rolled
      then obtain s2 where "l' = l\<lparr>lb_more := False\<rparr>" "r = Inl True" using run pos p(3) r
        by (subst (asm) lb_send_loop.simps) (auto split: bind_splits)
      then show ?thesis using ok by (auto simp: lb_ok_def)
    next
      case next_pipe
      obtain l1 where l1: "lb_deactivate l = Some l1" "lb_ok l1" "lb_members l1 = lb_members l" "lb_more l1 = lb_more l" "lb_dropping l1 = lb_dropping l"
        "lb_actives l1 = lb_actives l - {lb_cur l}" "\<forall>x\<in>lb_actives l1. lb_wait l1 x \<le> lb_wait l x"
        using lb_deactivate_ok[OF ok pos] by blast
      have less1: "lb_active l1 < lb_active l" using lb_deactivate_active[OF l1(1)] pos by simp
      have "lb_send_loop wr rb m l1 s1 = Some (l', s', r)" using pos p(3) r next_pipe run lb_send_deactivate_same[OF ok pos] l1(1)
        by (subst (asm) lb_send_loop.simps) simp
      note i = less.hyps[OF less1 l1(2) this]
      have nw: "\<not> always_writable wr (lb_cur l)" unfolding always_writable_def using r next_pipe by (auto intro!: exI[of _ m] exI[of _ s])
      have sub: "lb_actives l' \<subseteq> lb_actives l" using i l1(6) by blast
      have w: "\<forall>x\<in>lb_actives l'. lb_wait l' x \<le> lb_wait l x" using i l1(7) by (blast intro: order_trans)
      have al: "\<forall>p\<in>lb_actives l. always_writable wr p \<longrightarrow> p \<in> lb_actives l' \<and> r \<noteq> Inl False" using i l1(6) nw by blast
      show ?thesis using i l1(3-5) sub w al next_pipe(2) by (cases r) simp_all
    qed
  qed
qed

text \<open>Sending: the pipe that takes a complete message moves to the end of the turn.\<close>

lemma lb_send_effect:
  assumes ok: "lb_ok l" and run: "lb_sendpipe wr rb fl m l s = Some (l', s', r)" and d: "\<not> lb_dropping l"
  shows "lb_ok l' \<and> lb_members l' = lb_members l \<and> \<not> lb_dropping l' \<and> lb_actives l' \<subseteq> lb_actives l \<and>
    (\<forall>p\<in>lb_actives l. always_writable wr p \<longrightarrow> p \<in> lb_actives l') \<and> (\<forall>x\<in>lb_actives l'. r = Inl EAGAIN \<longrightarrow> lb_wait l' x \<le> lb_wait l x) \<and>
    (\<forall>q. r = Inr (Some q) \<longrightarrow> (lb_more l \<longrightarrow> q = lb_cur l) \<and> lb_more l' = has_more m \<and> (has_more m \<longrightarrow> q = lb_cur l' \<and> 0 < lb_active l') \<and>
       (\<forall>x\<in>lb_actives l'. x \<noteq> q \<longrightarrow> lb_wait l' x + (if has_more m then 0 else 1) \<le> lb_wait l x)) \<and> r \<noteq> Inr None"
proof -
  obtain l1 s1 r1 where lp: "lb_send_loop wr rb m l s = Some (l1, s1, r1)" using run d by (auto simp: lb_sendpipe_def split: bind_splits)
  note e = send_loop_effect[OF ok lp]
  show ?thesis
  proof (cases r1)
    case (Inl b)
    then show ?thesis using run d lp e by (auto simp: lb_sendpipe_def)
  next
    case (Inr q)
    have q: "q = lb_cur l1" "0 < lb_active l1" "lb_more l \<longrightarrow> q = lb_cur l" using e Inr by auto
    have ok1: "lb_ok l1" using e by blast
    note p = lb_current_pipe[OF ok1 q(2)]
    have tn: "turns (lb_active l1) (Suc (lb_current l1) mod lb_active l1) (arr_index x (lb_pipes l1)) < lb_wait l1 x"
      if "x \<in> lb_actives l1" "x \<noteq> q" for x
      using turns_next[OF p(4), of "arr_index x (lb_pipes l1)"] that arr_index_eq[OF p(5) _ p(1)] p(2) q(1) by (auto simp: active_set_def)
    have w: "\<forall>x\<in>lb_actives l1. lb_wait l1 x \<le> lb_wait l x" using e by blast
    show ?thesis
    proof (cases "has_more m")
      case True
      then have l': "l' = l1\<lparr>lb_more := has_more m\<rparr>" "r = Inr (Some q)" using run d lp Inr by (auto simp: lb_sendpipe_def Let_def)
      then show ?thesis using e q d True by (auto simp: lb_ok_def)
    next
      case False
      then have l': "l' = l1\<lparr>lb_more := False, lb_current := (lb_current l1 + 1) mod lb_active l1\<rparr>" "r = Inr (Some q)"
        using run d lp Inr by (auto simp: lb_sendpipe_def Let_def split: bind_splits)
      have "lb_ok l'" using ok1 q(2) l' by (simp add: lb_ok_def)
      moreover have "lb_wait l' x + 1 \<le> lb_wait l x" if "x \<in> lb_actives l'" "x \<noteq> q" for x
        using tn[of x] w that l' by (force simp: Suc_le_eq)
      ultimately show ?thesis using e q d False l' by simp
    qed
  qed
qed

section \<open>Properties\<close>


definition two_pipes :: lb where
  "two_pipes = \<lparr>lb_pipes = \<lparr>items = [4, 7], array_index = (\<lambda>_. - 1)(4 := 0, 7 := 1)\<rparr>, lb_active = 2, lb_current = 0,
     lb_more = False, lb_dropping = False\<rparr>"

lemma two_pipes_ok: "lb_ok two_pipes" "\<not> lb_dropping two_pipes" "7 \<in> lb_actives two_pipes"
  by (auto simp: two_pipes_def lb_ok_def arr_ok_def less_Suc_eq active_set_def arr_index_def)

lemma empty_msg_more: "\<not> has_more empty_msg" "has_more (empty_msg\<lparr>flags := flag_more\<rparr>)"
  by (simp_all add: has_more_def empty_msg_def)


fun lb_run :: "(nat \<Rightarrow> msg \<Rightarrow> 's \<Rightarrow> ('s \<times> bool) option) \<Rightarrow> (nat \<Rightarrow> 's \<Rightarrow> 's option) \<Rightarrow> (nat \<Rightarrow> 's \<Rightarrow> 's option) \<Rightarrow> msg list \<Rightarrow> lb \<Rightarrow> 's \<Rightarrow>
    (lb \<times> 's \<times> (msg \<times> nat) list) option" where
  "lb_run wr rb fl [] l s = Some (l, s, [])"
| "lb_run wr rb fl (m # ms) l s = do {
     (l1, s1, r) \<leftarrow> lb_sendpipe wr rb fl m l s;
     (l2, s2, ps) \<leftarrow> lb_run wr rb fl ms l1 s1;
     Some (l2, s2, (case r of Inr (Some p) \<Rightarrow> (m, p) # ps | _ \<Rightarrow> ps)) }"

lemma lb_run_wait:
  "lb_ok l \<Longrightarrow> \<not> lb_dropping l \<Longrightarrow> p \<in> lb_actives l \<Longrightarrow> always_writable wr p \<Longrightarrow> lb_run wr rb fl ms l s = Some (l', s', ps) \<Longrightarrow>
    p \<notin> snd ` set ps \<Longrightarrow> length (filter (\<lambda>(m, q). \<not> has_more m) ps) \<le> lb_wait l p"
proof (induction ms arbitrary: l s ps)
  case (Cons m ms)
  obtain l1 s1 r l2 s2 ps2 where r: "lb_sendpipe wr rb fl m l s = Some (l1, s1, r)" "lb_run wr rb fl ms l1 s1 = Some (l2, s2, ps2)"
    "l' = l2" "s' = s2" "ps = (case r of Inr (Some p) \<Rightarrow> (m, p) # ps2 | _ \<Rightarrow> ps2)" using Cons.prems(5) by (auto split: bind_splits)
  note e = lb_send_effect[OF Cons.prems(1) r(1) Cons.prems(2)]
  have p1: "p \<in> lb_actives l1" using e Cons.prems(3,4) by blast
  have ih: "length (filter (\<lambda>(m, q). \<not> has_more m) ps2) \<le> lb_wait l1 p" if "p \<notin> snd ` set ps2"
    using Cons.IH[OF _ _ p1 Cons.prems(4) _ that] e r(2-4) by blast
  consider "r = Inl EAGAIN" | q where "r = Inr (Some q)" using e r(1) Cons.prems(2)
    by (auto simp: lb_sendpipe_def Let_def split: bind_splits sum.splits if_splits)
  then show ?case
  proof cases
    case 1
    then show ?thesis using e p1 ih r(5) Cons.prems(6) by (auto intro: order_trans)
  next
    case (2 q)
    then have "p \<noteq> q" "p \<notin> snd ` set ps2" using Cons.prems(6) r(5) by auto
    moreover have "lb_wait l1 p + (if has_more m then 0 else 1) \<le> lb_wait l p" using e 2 p1 calculation(1) by auto
    ultimately show ?thesis using ih r(5) 2 by (simp split: if_splits)
  qed
qed simp

text \<open>
  Claim C28: load balancing is fair. However long an active pipe that takes every message is passed over,
  fewer complete messages go to the other pipes in the meantime than there are active pipes.
\<close>

theorem lb_bounded_wait:
  assumes "lb_ok l" "\<not> lb_dropping l" "p \<in> lb_actives l" "always_writable wr p" "lb_run wr rb fl ms l s = Some (l', s', ps)" "p \<notin> snd ` set ps"
  shows "length (filter (\<lambda>(m, q). \<not> has_more m) ps) < lb_active l"
proof -
  have "arr_index p (lb_pipes l) < lb_active l" "lb_current l < lb_active l"
    using assms(1,3) by (auto simp: active_set_def lb_ok_def split: if_splits)
  then have "lb_wait l p < lb_active l" by (simp add: turns_less)
  with lb_run_wait[OF assms] show ?thesis by simp
qed

theorem lb_bounded_wait_witness:
  "\<exists>l' ps. lb_run (\<lambda>p m s. Some (s, True)) (\<lambda>p s. Some s) (\<lambda>p s. Some s) [empty_msg] two_pipes () = Some (l', (), ps) \<and>
     length (filter (\<lambda>(m, q). \<not> has_more m) ps) < 2"
proof -
  let ?wr = "\<lambda>p m s. Some (s :: unit, True)" and ?f = "\<lambda>p s. Some (s :: unit)"
  obtain l' where run: "lb_run ?wr ?f ?f [empty_msg] two_pipes () = Some (l', (), [(empty_msg, 4)])"
    by (simp add: lb_sendpipe_def lb_send_loop.simps two_pipes_def arr_at_def empty_msg_more Let_def)
  have "always_writable ?wr 7" by (simp add: always_writable_def)
  from lb_bounded_wait[OF two_pipes_ok this run] run show ?thesis by (auto simp: two_pipes_def)
qed

text \<open>
  A pipe that terminates while a message is being sent to another pipe can split that message:
  when the pipe in use is the last active one, the code resets \<open>current\<close> to 0 although it has just moved
  that pipe to another slot, so the remaining parts go to the first pipe and nothing is dropped.
\<close>

theorem lb_termination_splits_message:
  assumes "lb_ok l" "lb_more l" "\<not> lb_dropping l" "lb_current l = lb_active l - 1" "p \<in> lb_actives l" "p \<noteq> lb_cur l" "p \<noteq> items (lb_pipes l) ! 0"
  shows "\<exists>l'. lb_pipe_terminated p l = Some l' \<and> lb_more l' \<and> \<not> lb_dropping l' \<and> lb_cur l \<in> lb_actives l' \<and> lb_cur l' \<noteq> lb_cur l"
proof -
  let ?a = "lb_pipes l" and ?n = "lb_active l - 1" and ?i = "arr_index p (lb_pipes l)"
  have a: "arr_ok ?a" "lb_active l \<le> length (items ?a)" using assms(1) by (auto simp: lb_ok_def)
  have p: "p \<in> lb_members l" "?i < lb_active l" using assms(5) by (auto simp: active_set_def)
  note pm = arr_index_mem[OF a(1) p(1)]
  have i: "?i \<noteq> lb_current l" "?i \<noteq> 0" using pm assms(6,7) by metis+
  then have n: "0 < ?n" "?i < ?n" "?n < length (items ?a)" using p(2) assms(4) a(2) by auto
  obtain b where b: "arr_swap ?i ?n ?a = Some b" "arr_ok b" "length (items b) = length (items ?a)" "set (items b) = lb_members l"
    "\<And>k. k < length (items ?a) \<Longrightarrow> items b ! k = items ?a ! xchg ?i ?n k" "\<And>x. x \<in> lb_members l \<Longrightarrow> arr_index x b = xchg ?i ?n (arr_index x ?a)"
    using arr_swap_ok[OF a(1), of ?i ?n] n pm by auto
  have pb: "arr_index p b = ?n" using b(6)[OF p(1)] by (simp add: xchg_def)
  obtain c where c: "arr_erase p b = Some c" "arr_ok c" "\<And>k. k < ?n \<Longrightarrow> items c ! k = items b ! k"
    using arr_erase_last_ok[OF b(2), of p] p(1) b(4) pb by auto
  let ?l = "l\<lparr>lb_pipes := c, lb_active := ?n, lb_current := 0\<rparr>"
  have "lb_pipe_terminated p l = Some ?l"
    using i n b(1) c(1) assms(4) p(2) by (simp add: lb_pipe_terminated_def lb_remove_active_def Let_def)
  moreover have cur: "items c ! 0 = items ?a ! 0" using c(3)[of 0] b(5)[of 0] n i by (force simp: xchg_def)
  moreover have "items ?a ! 0 \<noteq> lb_cur l"
  proof -
    have "distinct (items ?a)" "0 < length (items ?a)" using a n by (auto simp: arr_ok_def)
    then show ?thesis using n assms(4) nth_eq_iff_index_eq[of "items ?a" 0 ?n] by auto
  qed
  moreover have "lb_cur l \<in> lb_actives ?l"
  proof -
    from lb_pipe_terminated_ok[OF assms(1) p(1)] calculation(1) have "lb_actives ?l = lb_actives l - {p}" by auto
    then show ?thesis using lb_current_pipe(6)[OF assms(1)] p(2) assms(6) by auto
  qed
  ultimately show ?thesis using assms(2,3) by (intro exI[of _ ?l]) simp
qed

theorem lb_termination_splits_message_witness:
  "\<exists>l'. lb_pipe_terminated 7 \<lparr>lb_pipes = \<lparr>items = [4, 7, 9], array_index = (\<lambda>_. - 1)(4 := 0, 7 := 1, 9 := 2)\<rparr>, lb_active = 3, lb_current = 2,
     lb_more = True, lb_dropping = False\<rparr> = Some l' \<and> lb_cur l' = 4"
proof -
  let ?l = "\<lparr>lb_pipes = \<lparr>items = [4, 7, 9], array_index = (\<lambda>_. - 1)(4 := 0, 7 := 1, 9 := 2)\<rparr>, lb_active = 3, lb_current = 2,
     lb_more = True, lb_dropping = False\<rparr>"
  have "lb_ok ?l" by (auto simp: lb_ok_def arr_ok_def less_Suc_eq numeral_3_eq_3)
  moreover have "7 \<in> lb_actives ?l" by (simp add: active_set_def arr_index_def)
  ultimately obtain l' where l': "lb_pipe_terminated 7 ?l = Some l'" using lb_termination_splits_message[of ?l 7] by auto
  moreover have "lb_cur l' = 4" using l'
    by (auto simp: lb_pipe_terminated_def lb_remove_active_def Let_def arr_index_def arr_swap_def arr_erase_def arr_erase_at_def exchange_def)
  ultimately show ?thesis by blast
qed

end
