(* ===== verification/Distributor.thy ===== *)
theory Distributor
  imports Pipe_Array Msg_View
begin

text \<open>
  Model of \<open>src/src/dist.cpp\<close>, the distribution of outbound messages to all matching pipes. The pipes of the
  array are ordered: the \<open>matching\<close> ones first, then the other \<open>active\<close> ones, the other \<open>eligible\<close> ones, the rest.
  Pipes are reached through \<open>wr\<close> (\<open>pipe_t::write\<close>), \<open>fl\<close> (\<open>flush\<close>) and \<open>ck\<close> (\<open>check_hwm\<close>); \<open>None\<close> is an aborted process.
\<close>

section \<open>Model\<close>

record dist =
  d_pipes :: arr
  matching :: nat
  d_active :: nat
  eligible :: nat
  d_more :: bool

definition dist_t :: dist where
  "dist_t = \<lparr>d_pipes = arr_empty, matching = 0, d_active = 0, eligible = 0, d_more = False\<rparr>"

definition d_swap :: "nat \<Rightarrow> nat \<Rightarrow> dist \<Rightarrow> dist option" where
  "d_swap i j d = map_option (\<lambda>a. d\<lparr>d_pipes := a\<rparr>) (arr_swap i j (d_pipes d))"

abbreviation d_index :: "nat \<Rightarrow> dist \<Rightarrow> nat" where
  "d_index p d \<equiv> arr_index p (d_pipes d)"

definition dist_attach :: "nat \<Rightarrow> dist \<Rightarrow> dist option" where
  "dist_attach p d =
     (let d1 = d\<lparr>d_pipes := arr_push_back p (d_pipes d)\<rparr>; n = length (items (d_pipes d1)) - 1 in
      if d_more d then map_option (\<lambda>d. d\<lparr>eligible := eligible d + 1\<rparr>) (d_swap (eligible d1) n d1)
      else map_option (\<lambda>d. d\<lparr>d_active := d_active d + 1, eligible := eligible d + 1\<rparr>) (d_swap (d_active d1) n d1))"

definition dist_match :: "nat \<Rightarrow> dist \<Rightarrow> dist option" where
  "dist_match p d =
     (if d_index p d < matching d then Some d
      else if d_index p d \<ge> eligible d then Some d
      else map_option (\<lambda>d. d\<lparr>matching := matching d + 1\<rparr>) (d_swap (d_index p d) (matching d) d))"

definition unmatch :: "dist \<Rightarrow> dist" where
  "unmatch d = d\<lparr>matching := 0\<rparr>"

function reverse_loop :: "nat \<Rightarrow> dist \<Rightarrow> dist option" where
  "reverse_loop i d =
     (if i < eligible d
      then (case d_swap i (matching d) d of None \<Rightarrow> None | Some d1 \<Rightarrow> reverse_loop (i + 1) (d1\<lparr>matching := matching d + 1\<rparr>))
      else Some d)"
  by pat_completeness auto
termination
  by (relation "measure (\<lambda>(i, d). eligible d - i)") (auto simp: d_swap_def)

declare reverse_loop.simps [simp del]

definition reverse_match :: "dist \<Rightarrow> dist option" where
  "reverse_match d = reverse_loop (matching d) (unmatch d)"

text \<open>\<open>if (pipes.index (pipe) < n) { pipes.swap (pipes.index (pipe), n - 1); n--; }\<close>\<close>

definition pull_out :: "nat \<Rightarrow> nat \<Rightarrow> arr \<Rightarrow> (arr \<times> nat) option" where
  "pull_out p n a =
     (if arr_index p a < n then map_option (\<lambda>a'. (a', n - 1)) (arr_swap (arr_index p a) (n - 1) a) else Some (a, n))"

definition dist_pipe_terminated :: "nat \<Rightarrow> dist \<Rightarrow> dist option" where
  "dist_pipe_terminated p d = do {
     (a1, m) \<leftarrow> pull_out p (matching d) (d_pipes d);
     (a2, n) \<leftarrow> pull_out p (d_active d) a1;
     (a3, e) \<leftarrow> pull_out p (eligible d) a2;
     a4 \<leftarrow> arr_erase p a3;
     Some (d\<lparr>d_pipes := a4, matching := m, d_active := n, eligible := e\<rparr>) }"

definition dist_activated :: "nat \<Rightarrow> dist \<Rightarrow> dist option" where
  "dist_activated p d = do {
     d1 \<leftarrow> (if eligible d < length (items (d_pipes d))
            then map_option (\<lambda>d. d\<lparr>eligible := eligible d + 1\<rparr>) (d_swap (d_index p d) (eligible d) d) else Some d);
     if \<not> d_more d1 \<and> d_active d1 < length (items (d_pipes d1))
     then map_option (\<lambda>d. d\<lparr>d_active := d_active d + 1\<rparr>) (d_swap (eligible d1 - 1) (d_active d1) d1)
     else Some d1 }"

text \<open>What a failed write does to the pipe: it becomes passive.\<close>

definition write_failed :: "nat \<Rightarrow> dist \<Rightarrow> dist option" where
  "write_failed p d = do {
     d1 \<leftarrow> d_swap (d_index p d) (matching d - 1) d;
     let d1 = d1\<lparr>matching := matching d1 - 1\<rparr>;
     d2 \<leftarrow> d_swap (d_index p d1) (d_active d1 - 1) d1;
     let d2 = d2\<lparr>d_active := d_active d2 - 1\<rparr>;
     d3 \<leftarrow> d_swap (d_active d2) (eligible d2 - 1) d2;
     Some (d3\<lparr>eligible := eligible d3 - 1\<rparr>) }"

definition dist_write ::
  "(nat \<Rightarrow> msg \<Rightarrow> 's \<Rightarrow> ('s \<times> bool) option) \<Rightarrow> (nat \<Rightarrow> 's \<Rightarrow> 's option) \<Rightarrow> nat \<Rightarrow> msg \<Rightarrow> dist \<Rightarrow> 's \<Rightarrow> (dist \<times> 's \<times> bool) option" where
  "dist_write wr fl p m d s = do {
     (s1, ok) \<leftarrow> wr p m s;
     if \<not> ok then map_option (\<lambda>d1. (d1, s1, False)) (write_failed p d)
     else if \<not> has_more m then map_option (\<lambda>s2. (d, s2, True)) (fl p s1)
     else Some (d, s1, True) }"

lemma d_swap_counts: "d_swap i j d = Some d' \<Longrightarrow> matching d' = matching d \<and> d_active d' = d_active d \<and> eligible d' = eligible d \<and> d_more d' = d_more d"
  by (auto simp: d_swap_def)

lemma write_failed_matching: "write_failed p d = Some d' \<Longrightarrow> matching d' = matching d - 1"
  by (auto simp: write_failed_def Let_def dest!: d_swap_counts split: bind_splits)

lemma dist_write_matching: "dist_write wr fl p m d s = Some (d', s', ok) \<Longrightarrow> matching d' = (if ok then matching d else matching d - 1)"
  using write_failed_matching[of p d d'] by (auto simp: dist_write_def split: bind_splits if_splits)

text \<open>The loop over the matching pipes: the pipes that got the message and the number of failures.\<close>

function dist_loop ::
  "(nat \<Rightarrow> msg \<Rightarrow> 's \<Rightarrow> ('s \<times> bool) option) \<Rightarrow> (nat \<Rightarrow> 's \<Rightarrow> 's option) \<Rightarrow> msg \<Rightarrow> nat \<Rightarrow> dist \<Rightarrow> 's \<Rightarrow> (dist \<times> 's \<times> nat list \<times> nat) option" where
  "dist_loop wr fl m i d s =
     (if i < matching d then
        (case arr_at i (d_pipes d) of None \<Rightarrow> None | Some p \<Rightarrow>
          (case dist_write wr fl p m d s of
             None \<Rightarrow> None
           | Some (d1, s1, ok) \<Rightarrow>
               if ok then map_option (\<lambda>(d2, s2, ps, n). (d2, s2, p # ps, n)) (dist_loop wr fl m (i + 1) d1 s1)
               else map_option (\<lambda>(d2, s2, ps, n). (d2, s2, ps, n + 1)) (dist_loop wr fl m i d1 s1)))
      else Some (d, s, [], 0))"
  by pat_completeness auto
termination
  by (relation "measure (\<lambda>(wr, fl, m, i, d, s). matching d - i)") (auto dest: dist_write_matching)

declare dist_loop.simps [simp del]

text \<open>
  \<open>distribute\<close>: the pipes that got the message, and the references to the content that \<open>add_refs\<close> and \<open>rm_refs\<close>
  leave when the content is shared; \<open>vsm\<close> is what \<open>is_vsm\<close> says of the message.
\<close>

definition distribute ::
  "(nat \<Rightarrow> msg \<Rightarrow> 's \<Rightarrow> ('s \<times> bool) option) \<Rightarrow> (nat \<Rightarrow> 's \<Rightarrow> 's option) \<Rightarrow> bool \<Rightarrow> msg \<Rightarrow> dist \<Rightarrow> 's \<Rightarrow> (dist \<times> 's \<times> nat list \<times> int) option" where
  "distribute wr fl vsm m d s =
     (if matching d = 0 then Some (d, s, [], 0)
      else if vsm then map_option (\<lambda>(d1, s1, ps, n). (d1, s1, ps, 0)) (dist_loop wr fl m 0 d s)
      else (let refs = 1 + (int (matching d) - 1) in
        map_option (\<lambda>(d1, s1, ps, n). (d1, s1, ps, if n \<noteq> 0 then refs - int n else refs)) (dist_loop wr fl m 0 d s)))"

definition send_to_matching ::
  "(nat \<Rightarrow> msg \<Rightarrow> 's \<Rightarrow> ('s \<times> bool) option) \<Rightarrow> (nat \<Rightarrow> 's \<Rightarrow> 's option) \<Rightarrow> bool \<Rightarrow> msg \<Rightarrow> dist \<Rightarrow> 's \<Rightarrow> (dist \<times> 's \<times> nat list \<times> int) option" where
  "send_to_matching wr fl vsm m d s =
     map_option (\<lambda>(d1, s1, ps, n). ((if has_more m then d1 else d1\<lparr>d_active := eligible d1\<rparr>)\<lparr>d_more := has_more m\<rparr>, s1, ps, n))
       (distribute wr fl vsm m d s)"

definition send_to_all ::
  "(nat \<Rightarrow> msg \<Rightarrow> 's \<Rightarrow> ('s \<times> bool) option) \<Rightarrow> (nat \<Rightarrow> 's \<Rightarrow> 's option) \<Rightarrow> bool \<Rightarrow> msg \<Rightarrow> dist \<Rightarrow> 's \<Rightarrow> (dist \<times> 's \<times> nat list \<times> int) option" where
  "send_to_all wr fl vsm m d s = send_to_matching wr fl vsm m (d\<lparr>matching := d_active d\<rparr>) s"

definition dist_check_hwm :: "(nat \<Rightarrow> bool) \<Rightarrow> dist \<Rightarrow> bool" where
  "dist_check_hwm ck d \<longleftrightarrow> list_all ck (take (matching d) (items (d_pipes d)))"

section \<open>Invariant\<close>

definition dist_ok :: "dist \<Rightarrow> bool" where
  "dist_ok d \<longleftrightarrow> arr_ok (d_pipes d) \<and> matching d \<le> d_active d \<and> d_active d \<le> eligible d \<and> eligible d \<le> length (items (d_pipes d)) \<and>
     (\<not> d_more d \<longrightarrow> d_active d = eligible d)"

abbreviation d_members :: "dist \<Rightarrow> nat set" where "d_members d \<equiv> set (items (d_pipes d))"
abbreviation matched :: "dist \<Rightarrow> nat set" where "matched d \<equiv> active_set (matching d) (d_pipes d)"
abbreviation d_actives :: "dist \<Rightarrow> nat set" where "d_actives d \<equiv> active_set (d_active d) (d_pipes d)"
abbreviation eligibles :: "dist \<Rightarrow> nat set" where "eligibles d \<equiv> active_set (eligible d) (d_pipes d)"

lemma dist_t_ok: "dist_ok dist_t \<and> d_members dist_t = {}"
  by (simp add: dist_ok_def dist_t_def)

text \<open>An exchange of two slots moves no pipe across a border that has both or neither slot before it.\<close>

lemma swap_border:
  assumes "\<And>x. x \<in> set (items a) \<Longrightarrow> arr_index x a' = xchg i j (arr_index x a)" "set (items a') = set (items a)" "i < n \<longleftrightarrow> j < n"
  shows "active_set n a' = active_set n a"
  using assms by (auto simp: active_set_def xchg_def split: if_splits)

lemma swap_effect:
  assumes "arr_ok a" "i < length (items a)" "j < length (items a)" "arr_swap i j a = Some a'"
  shows "arr_ok a'" "set (items a') = set (items a)" "length (items a') = length (items a)"
    "x \<in> set (items a) \<Longrightarrow> arr_index x a' = xchg i j (arr_index x a)" "(i < n \<longleftrightarrow> j < n) \<Longrightarrow> active_set n a' = active_set n a"
proof -
  from arr_swap_ok[OF assms(1-3)] assms(4)
  have e: "arr_ok a'" "set (items a') = set (items a)" "length (items a') = length (items a)"
    "\<And>x. x \<in> set (items a) \<Longrightarrow> arr_index x a' = xchg i j (arr_index x a)" by auto
  then show "arr_ok a'" "set (items a') = set (items a)" "length (items a') = length (items a)"
    "x \<in> set (items a) \<Longrightarrow> arr_index x a' = xchg i j (arr_index x a)" by auto
  show "(i < n \<longleftrightarrow> j < n) \<Longrightarrow> active_set n a' = active_set n a" using swap_border[of a a' i j n] e by blast
qed

lemma dist_attach_ok:
  assumes ok: "dist_ok d" and p: "p \<notin> d_members d"
  shows "\<exists>d'. dist_attach p d = Some d' \<and> dist_ok d' \<and> d_members d' = insert p (d_members d) \<and> matched d' = matched d \<and>
    eligibles d' = insert p (eligibles d) \<and> d_actives d' = (if d_more d then d_actives d else insert p (d_actives d)) \<and>
    d_more d' = d_more d"
proof -
  let ?a = "arr_push_back p (d_pipes d)" and ?n = "length (items (d_pipes d))"
  have a: "arr_ok (d_pipes d)" "matching d \<le> d_active d" "d_active d \<le> eligible d" "eligible d \<le> ?n" "\<not> d_more d \<longrightarrow> d_active d = eligible d"
    using ok by (auto simp: dist_ok_def)
  have ap: "arr_ok ?a" using a p by (simp add: arr_push_ok)
  have act: "active_set n ?a = active_set n (d_pipes d)" if "n \<le> ?n" for n using push_pipe(2)[OF a(1) p that] .
  have ip: "arr_index p ?a = ?n" using push_pipe(1)[OF a(1) p order_refl] .
  obtain a' where a': "arr_swap (eligible d) ?n ?a = Some a'" "arr_ok a'" "set (items a') = insert p (d_members d)"
    "active_set (Suc (eligible d)) a' = insert p (eligibles d)" "length (items a') = Suc ?n"
    using activate_pipe[OF ap, of p "eligible d"] ip a arr_swap_comm[OF ap, of "eligible d" ?n] act[of "eligible d"] by auto
  have keep: "active_set n a' = active_set n (d_pipes d)" if "n \<le> eligible d" for n
    using swap_effect(5)[OF ap _ _ a'(1), of n] act[of n] that a by simp
  show ?thesis
  proof (cases "d_more d")
    case True
    then show ?thesis using a a' keep by (auto simp: dist_attach_def Let_def d_swap_def dist_ok_def)
  next
    case False
    then show ?thesis using a a' keep by (auto simp: dist_attach_def Let_def d_swap_def dist_ok_def)
  qed
qed

lemma dist_match_ok:
  assumes ok: "dist_ok d" and p: "p \<in> d_members d" and nm: "\<not> d_more d"
  shows "\<exists>d'. dist_match p d = Some d' \<and> dist_ok d' \<and> d_members d' = d_members d \<and> eligibles d' = eligibles d \<and> \<not> d_more d' \<and>
    matched d' = (if p \<in> eligibles d then insert p (matched d) else matched d)"
proof (cases "matching d \<le> d_index p d \<and> d_index p d < eligible d")
  case True
  have a: "arr_ok (d_pipes d)" "matching d \<le> d_active d" "d_active d = eligible d" "eligible d \<le> length (items (d_pipes d))"
    using ok nm by (auto simp: dist_ok_def)
  obtain a' where a': "arr_swap (d_index p d) (matching d) (d_pipes d) = Some a'" "arr_ok a'" "set (items a') = d_members d"
    "active_set (Suc (matching d)) a' = insert p (matched d)" "length (items a') = length (items (d_pipes d))"
    using activate_pipe[OF a(1) p conjunct1[OF True]] by auto
  have "active_set (eligible d) a' = eligibles d"
    by (rule swap_effect(5)[OF a(1) _ _ a'(1)]) (use True a in auto)
  moreover have "p \<in> eligibles d" using p True by (simp add: active_set_def)
  ultimately show ?thesis using True a a' nm by (auto simp: dist_match_def d_swap_def dist_ok_def)
next
  case False
  then show ?thesis using assms by (auto simp: dist_match_def active_set_def dist_ok_def)
qed

text \<open>The pipe is moved behind the border; the borders further on, and those before the pipe, do not notice.\<close>

lemma pull_out_ok:
  assumes a: "arr_ok a" "p \<in> set (items a)" "n \<le> length (items a)"
  shows "\<exists>a' n'. pull_out p n a = Some (a', n') \<and> arr_ok a' \<and> set (items a') = set (items a) \<and> length (items a') = length (items a) \<and>
    active_set n' a' = active_set n a - {p} \<and> n' \<le> arr_index p a' \<and> n' = (if arr_index p a < n then n - 1 else n) \<and>
    arr_index p a' = (if arr_index p a < n then n - 1 else arr_index p a) \<and>
    (\<forall>k. n \<le> k \<or> k \<le> arr_index p a \<longrightarrow> active_set k a' = active_set k a)"
proof (cases "arr_index p a < n")
  case True
  obtain a' where a': "arr_swap (arr_index p a) (n - 1) a = Some a'" "arr_ok a'" "set (items a') = set (items a)"
    "length (items a') = length (items a)" "active_set (n - 1) a' = active_set n a - {p}" "arr_index p a' = n - 1"
    using remove_active[OF a(1,2) True a(3)] by auto
  have "active_set k a' = active_set k a" if "n \<le> k \<or> k \<le> arr_index p a" for k
    by (rule swap_effect(5)[OF a(1) _ _ a'(1)]) (use a that True in auto)
  then show ?thesis using a' True by (auto simp: pull_out_def)
next
  case False
  then show ?thesis using a by (auto simp: pull_out_def active_set_def)
qed

lemma dist_pipe_terminated_ok:
  assumes ok: "dist_ok d" and p: "p \<in> d_members d"
  shows "\<exists>d'. dist_pipe_terminated p d = Some d' \<and> dist_ok d' \<and> d_members d' = d_members d - {p} \<and> matched d' = matched d - {p} \<and>
    d_actives d' = d_actives d - {p} \<and> eligibles d' = eligibles d - {p}"
proof -
  let ?a = "d_pipes d" and ?i = "d_index p d" and ?len = "length (items (d_pipes d))"
  have a: "arr_ok ?a" "matching d \<le> d_active d" "d_active d \<le> eligible d" "eligible d \<le> ?len"
    "\<not> d_more d \<longrightarrow> d_active d = eligible d" using ok by (auto simp: dist_ok_def)
  have l: "matching d \<le> ?len" "d_active d \<le> ?len" using a by auto
  obtain a1 m where a1: "pull_out p (matching d) ?a = Some (a1, m)" "arr_ok a1" "set (items a1) = d_members d" "length (items a1) = ?len"
    "active_set m a1 = matched d - {p}" "m = (if ?i < matching d then matching d - 1 else matching d)"
    "arr_index p a1 = (if ?i < matching d then matching d - 1 else ?i)" "\<And>k. matching d \<le> k \<Longrightarrow> active_set k a1 = active_set k ?a"
    using pull_out_ok[OF a(1) p l(1)] by auto
  have p1: "p \<in> set (items a1)" "d_active d \<le> length (items a1)" using p a1(3,4) l by auto
  obtain a2 n where a2: "pull_out p (d_active d) a1 = Some (a2, n)" "arr_ok a2" "set (items a2) = d_members d" "length (items a2) = ?len"
    "active_set n a2 = active_set (d_active d) a1 - {p}" "n = (if arr_index p a1 < d_active d then d_active d - 1 else d_active d)"
    "arr_index p a2 = (if arr_index p a1 < d_active d then d_active d - 1 else arr_index p a1)"
    "\<And>k. d_active d \<le> k \<Longrightarrow> active_set k a2 = active_set k a1" "\<And>k. k \<le> arr_index p a1 \<Longrightarrow> active_set k a2 = active_set k a1"
    using pull_out_ok[OF a1(2) p1] a1(3,4) by auto
  have p2: "p \<in> set (items a2)" "eligible d \<le> length (items a2)" using p a2(3,4) a by auto
  obtain a3 e where a3: "pull_out p (eligible d) a2 = Some (a3, e)" "arr_ok a3" "set (items a3) = d_members d"
    "active_set e a3 = active_set (eligible d) a2 - {p}" "e = (if arr_index p a2 < eligible d then eligible d - 1 else eligible d)" "e \<le> arr_index p a3"
    "\<And>k. k \<le> arr_index p a2 \<Longrightarrow> active_set k a3 = active_set k a2"
    using pull_out_ok[OF a2(2) p2] a2(3,4) by auto
  have p3: "p \<in> set (items a3)" using p a3(3) by simp
  obtain a4 where a4: "arr_erase p a3 = Some a4" "arr_ok a4" "set (items a4) = d_members d - {p}" "e \<le> length (items a4)"
    "\<And>k. k \<le> e \<Longrightarrow> active_set k a4 = active_set k a3"
    using erase_inactive[OF a3(2) p3 a3(6)] a3(3) by auto
  have i1: "(arr_index p a1 < d_active d) = (?i < d_active d)" "(arr_index p a2 < eligible d) = (?i < eligible d)"
    using a1(7) a2(7) a by (auto split: if_splits)
  have ord: "m \<le> n" "n \<le> e" "\<not> d_more d \<longrightarrow> n = e" using a1(6) a2(6) a3(5) i1 a by (auto split: if_splits)
  have im: "m \<le> arr_index p a1" "n \<le> arr_index p a2" using a1(6,7) a2(6,7) by (auto split: if_splits)
  have mn: "m \<le> arr_index p a2" using ord(1) im(2) by simp
  have "active_set m a4 = matched d - {p}" using a4(5)[of m] a3(7)[OF mn] a2(9)[OF im(1)] a1(5) ord by simp
  moreover have "active_set n a4 = d_actives d - {p}" using a4(5)[OF ord(2)] a3(7)[OF im(2)] a2(5) a1(8)[OF a(2)] by simp
  moreover have "active_set e a4 = eligibles d - {p}" using a4(5)[of e] a3(4) a2(8)[OF a(3)] a1(8)[of "eligible d"] a(2,3) by simp
  ultimately show ?thesis using a1(1) a2(1) a3(1) a4 ord by (auto simp: dist_pipe_terminated_def dist_ok_def)
qed

lemma dist_activated_ok:
  assumes ok: "dist_ok d" and p: "p \<in> d_members d" "p \<notin> eligibles d"
  shows "\<exists>d'. dist_activated p d = Some d' \<and> dist_ok d' \<and> d_members d' = d_members d \<and> matched d' = matched d \<and>
    d_actives d' = (if d_more d then d_actives d else insert p (d_actives d)) \<and> eligibles d' = insert p (eligibles d) \<and> d_more d' = d_more d"
proof -
  let ?a = "d_pipes d"
  have a: "arr_ok ?a" "matching d \<le> d_active d" "d_active d \<le> eligible d" "\<not> d_more d \<longrightarrow> d_active d = eligible d" using ok by (auto simp: dist_ok_def)
  have i: "eligible d \<le> d_index p d" "d_index p d < length (items ?a)" using p arr_index_mem[OF a(1) p(1)] by (auto simp: active_set_def)
  obtain a1 where a1: "arr_swap (d_index p d) (eligible d) ?a = Some a1" "arr_ok a1" "set (items a1) = d_members d" "length (items a1) = length (items ?a)"
    "active_set (Suc (eligible d)) a1 = insert p (eligibles d)" "Suc (eligible d) \<le> length (items a1)"
    using activate_pipe[OF a(1) p(1) i(1)] by auto
  have keep: "active_set k a1 = active_set k ?a" if "k \<le> eligible d" for k
    by (rule swap_effect(5)[OF a(1) _ _ a1(1)]) (use i that in auto)
  have same: "arr_swap (eligible d) (eligible d) a1 = Some a1"
    using a1(2,6) by (auto simp: arr_swap_def arr_ok_def intro!: arr.equality)
  have "eligible d < length (items ?a)" using a1(4,6) by simp
  then show ?thesis using a a1 keep same by (cases "d_more d") (auto simp: dist_activated_def d_swap_def dist_ok_def)
qed

lemma write_failed_ok:
  assumes ok: "dist_ok d" and p: "p \<in> matched d"
  shows "\<exists>d'. write_failed p d = Some d' \<and> dist_ok d' \<and> d_members d' = d_members d \<and> matched d' = matched d - {p} \<and>
    d_actives d' = d_actives d - {p} \<and> eligibles d' = eligibles d - {p} \<and> d_more d' = d_more d \<and>
    (\<forall>k \<le> d_index p d. active_set k (d_pipes d') = active_set k (d_pipes d))"
proof -
  let ?a = "d_pipes d" and ?i = "d_index p d" and ?len = "length (items (d_pipes d))"
  have a: "arr_ok ?a" "matching d \<le> d_active d" "d_active d \<le> eligible d" "eligible d \<le> ?len"
    "\<not> d_more d \<longrightarrow> d_active d = eligible d" using ok by (auto simp: dist_ok_def)
  have m: "p \<in> d_members d" "?i < matching d" "matching d \<le> ?len" using p a by (auto simp: active_set_def)
  obtain a1 where a1: "arr_swap ?i (matching d - 1) ?a = Some a1" "arr_ok a1" "set (items a1) = d_members d" "length (items a1) = ?len"
    "active_set (matching d - 1) a1 = matched d - {p}" "arr_index p a1 = matching d - 1" "\<And>k. matching d \<le> k \<Longrightarrow> active_set k a1 = active_set k ?a"
    "\<And>k. k \<le> ?i \<Longrightarrow> active_set k a1 = active_set k ?a"
    using pull_out_ok[OF a(1) m(1,3)] m(2) by (auto simp: pull_out_def)
  have p1: "p \<in> set (items a1)" "d_active d \<le> length (items a1)" "arr_index p a1 < d_active d" using m a1 a by auto
  obtain a2 where a2: "arr_swap (arr_index p a1) (d_active d - 1) a1 = Some a2" "arr_ok a2" "set (items a2) = d_members d" "length (items a2) = ?len"
    "active_set (d_active d - 1) a2 = active_set (d_active d) a1 - {p}" "arr_index p a2 = d_active d - 1"
    "\<And>k. d_active d \<le> k \<Longrightarrow> active_set k a2 = active_set k a1" "\<And>k. k \<le> arr_index p a1 \<Longrightarrow> active_set k a2 = active_set k a1"
    using pull_out_ok[OF a1(2) p1(1,2)] p1(3) a1(3,4) by (auto simp: pull_out_def)
  have p2: "p \<in> set (items a2)" "eligible d \<le> length (items a2)" "arr_index p a2 < eligible d" using m a2 a p1 by auto
  obtain a3 where a3: "arr_swap (arr_index p a2) (eligible d - 1) a2 = Some a3" "arr_ok a3" "set (items a3) = d_members d" "length (items a3) = ?len"
    "active_set (eligible d - 1) a3 = active_set (eligible d) a2 - {p}" "\<And>k. k \<le> arr_index p a2 \<Longrightarrow> active_set k a3 = active_set k a2"
    using pull_out_ok[OF a2(2) p2(1,2)] p2(3) a2(3,4) by (auto simp: pull_out_def)
  let ?d = "d\<lparr>d_pipes := a3, matching := matching d - 1, d_active := d_active d - 1, eligible := eligible d - 1\<rparr>"
  have "write_failed p d = Some ?d" using a1(1) a2(1) a3(1) a2(6) by (simp add: write_failed_def d_swap_def Let_def)
  moreover have "active_set (matching d - 1) a3 = matched d - {p}" using a3(6)[of "matching d - 1"] a2(8)[of "matching d - 1"] a1(5,6) a2(6) a(2) by simp
  moreover have "active_set (d_active d - 1) a3 = d_actives d - {p}" using a3(6)[of "d_active d - 1"] a2(5,6) a1(7)[of "d_active d"] a(2) by simp
  moreover have "active_set (eligible d - 1) a3 = eligibles d - {p}" using a3(5) a2(7)[of "eligible d"] a1(7)[of "eligible d"] a(2,3) by simp
  moreover have "active_set k a3 = active_set k ?a" if "k \<le> ?i" for k
    using a3(6)[of k] a2(8)[of k] a1(8)[of k] a2(6) a1(6) that m(2) a(2) by simp
  moreover have "dist_ok ?d" using a a3(2,4) by (auto simp: dist_ok_def)
  ultimately show ?thesis using a3(3) by (intro exI[of _ ?d]) simp
qed

section \<open>Distribution\<close>

lemma index_set:
  assumes "arr_ok a" "i < length (items a)"
  shows "active_set (Suc i) a = insert (items a ! i) (active_set i a)" "items a ! i \<notin> active_set i a"
proof -
  have "x \<in> active_set (Suc i) a \<longleftrightarrow> x \<in> insert (items a ! i) (active_set i a)" if "x \<in> set (items a)" for x
    using arr_index_mem[OF assms(1) that] arr_index_nth[OF assms] that by (auto simp: active_set_def less_Suc_eq)
  then show "active_set (Suc i) a = insert (items a ! i) (active_set i a)" using assms(2) by (auto simp: active_set_def)
  show "items a ! i \<notin> active_set i a" using arr_index_nth[OF assms] by (simp add: active_set_def)
qed

text \<open>The pipes before \<open>i\<close> got the message; the loop gives it to the other matching pipes, or makes them passive.\<close>

lemma dist_loop_effect:
  "dist_ok d \<Longrightarrow> i \<le> matching d \<Longrightarrow> dist_loop wr fl m i d s = Some (d', s', ps, n) \<Longrightarrow>
    dist_ok d' \<and> d_members d' = d_members d \<and> d_more d' = d_more d \<and> distinct ps \<and> set ps = matched d' - active_set i (d_pipes d) \<and>
    active_set i (d_pipes d) \<subseteq> matched d' \<and> matched d' \<subseteq> matched d \<and> eligibles d' = eligibles d - (matched d - matched d') \<and>
    matching d = length ps + n + i \<and> d_actives d' = d_actives d - (matched d - matched d')"
proof (induction "matching d - i" arbitrary: i d s ps n rule: less_induct)
  case less
  note ok = less.prems(1) and i = less.prems(2) and run = less.prems(3)
  have a: "arr_ok (d_pipes d)" "matching d \<le> length (items (d_pipes d))" using ok by (auto simp: dist_ok_def)
  show ?case
  proof (cases "i < matching d")
    case False
    then have "d' = d" "ps = []" "n = 0" using run by (subst (asm) dist_loop.simps, simp)+
    then show ?thesis using ok i False by auto
  next
    case True
    let ?p = "items (d_pipes d) ! i"
    have il: "i < length (items (d_pipes d))" using True a(2) by simp
    have at: "arr_at i (d_pipes d) = Some ?p" using il by (simp add: arr_at_def)
    have pi: "d_index ?p d = i" by (rule arr_index_nth[OF a(1) il])
    have pm: "?p \<in> matched d" using il True pi by (simp add: active_set_def)
    note ix = index_set[OF a(1) il]
    obtain d1 s1 b where w: "dist_write wr fl ?p m d s = Some (d1, s1, b)"
      using run True at by (subst (asm) dist_loop.simps) (auto split: option.splits)
    show ?thesis
    proof (cases b)
      case True
      then have d1: "d1 = d" using w by (auto simp: dist_write_def split: bind_splits if_splits)
      obtain ps1 where ps1: "dist_loop wr fl m (Suc i) d s1 = Some (d', s', ps1, n)" "ps = ?p # ps1"
        using run w True at \<open>i < matching d\<close> d1 by (subst (asm) dist_loop.simps) auto
      have lt: "matching d - Suc i < matching d - i" using \<open>i < matching d\<close> by simp
      note h = less.hyps[OF lt ok _ ps1(1)]
      have "Suc i \<le> matching d" using \<open>i < matching d\<close> by simp
      note h = h[OF this, unfolded ix(1)]
      show ?thesis using h ps1(2) ix(2) by auto
    next
      case False
      then have f: "write_failed ?p d = Some d1" using w by (auto simp: dist_write_def split: bind_splits if_splits)
      obtain n1 where n1: "dist_loop wr fl m i d1 s1 = Some (d', s', ps, n1)" "n = n1 + 1"
        using run w False at \<open>i < matching d\<close> by (subst (asm) dist_loop.simps) auto
      have e: "dist_ok d1" "d_members d1 = d_members d" "matched d1 = matched d - {?p}" "d_actives d1 = d_actives d - {?p}"
        "eligibles d1 = eligibles d - {?p}" "d_more d1 = d_more d" "active_set i (d_pipes d1) = active_set i (d_pipes d)"
        using write_failed_ok[OF ok pm] f pi by auto
      have m1: "matching d1 = matching d - 1" by (rule write_failed_matching[OF f])
      have lt: "matching d1 - i < matching d - i" "i \<le> matching d1" using m1 \<open>i < matching d\<close> by auto
      note h = less.hyps[OF lt(1) e(1) lt(2) n1(1), unfolded e(2-7)]
      have sub: "matched d' \<subseteq> matched d - {?p}" using h by blast
      have el: "matched d \<subseteq> eligibles d" "matched d \<subseteq> d_actives d" using ok by (auto simp: active_set_def dist_ok_def)
      have ee: "eligibles d' = eligibles d - (matched d - matched d')" "d_actives d' = d_actives d - (matched d - matched d')"
        using h sub el pm by auto
      then show ?thesis using h n1(2) m1 \<open>i < matching d\<close> sub by auto
    qed
  qed
qed

lemma dist_send_effect:
  assumes "dist_ok d" "send_to_matching wr fl vsm m d s = Some (d', s', ps, refs)"
  shows "dist_ok d' \<and> distinct ps \<and> set ps = matched d' \<and> matched d' \<subseteq> matched d \<and> eligibles d' = eligibles d - (matched d - set ps) \<and>
    (vsm \<or> refs = int (length ps))"
proof (cases "matching d = 0")
  case True
  then show ?thesis using assms by (auto simp: send_to_matching_def distribute_def active_set_def dist_ok_def split: if_splits)
next
  case False
  obtain d1 n where l: "dist_loop wr fl m 0 d s = Some (d1, s', ps, n)"
    "d' = (if has_more m then d1 else d1\<lparr>d_active := eligible d1\<rparr>)\<lparr>d_more := has_more m\<rparr>" "\<not> vsm \<Longrightarrow> refs = int (matching d) - int n"
    using assms(2) False by (auto simp: send_to_matching_def distribute_def Let_def split: if_splits)
  have z: "active_set 0 (d_pipes d) = {}" by (simp add: active_set_def)
  note e = dist_loop_effect[OF assms(1) _ l(1), unfolded z, simplified]
  have "dist_ok d1" using e by blast
  then have "dist_ok d'" using l(2) by (auto simp: dist_ok_def)
  then show ?thesis using e l(2,3) by auto
qed

text \<open>Inverted matching: the eligible pipes that did not match.\<close>

lemma reverse_loop_ok:
  "dist_ok d \<Longrightarrow> i \<le> eligible d \<Longrightarrow> matching d \<le> i \<Longrightarrow> \<not> d_more d \<Longrightarrow>
    \<exists>d'. reverse_loop i d = Some d' \<and> dist_ok d' \<and> d_members d' = d_members d \<and> eligibles d' = eligibles d \<and> \<not> d_more d' \<and>
      matched d' = matched d \<union> (eligibles d - active_set i (d_pipes d))"
proof (induction "eligible d - i" arbitrary: i d)
  case 0
  then have i: "i = eligible d" by simp
  have "reverse_loop i d = Some d" using i by (simp add: reverse_loop.simps)
  then show ?case using 0 i by auto
next
  case (Suc k)
  note ok = Suc.prems(1)
  have lt: "i < eligible d" using Suc.hyps(2) by simp
  have a: "arr_ok (d_pipes d)" "eligible d \<le> length (items (d_pipes d))" "d_active d = eligible d" using ok Suc.prems(4) by (auto simp: dist_ok_def)
  have il: "i < length (items (d_pipes d))" using lt a(2) by simp
  let ?p = "items (d_pipes d) ! i"
  have pi: "d_index ?p d = i" "?p \<in> d_members d" using arr_index_nth[OF a(1) il] il by auto
  obtain a' where a': "arr_swap i (matching d) (d_pipes d) = Some a'" "arr_ok a'" "set (items a') = d_members d" "length (items a') = length (items (d_pipes d))"
    "active_set (Suc (matching d)) a' = insert ?p (matched d)"
    using activate_pipe[OF a(1) pi(2), of "matching d"] pi(1) Suc.prems(3) by auto
  let ?d = "d\<lparr>d_pipes := a', matching := matching d + 1\<rparr>"
  have keep: "active_set n a' = active_set n (d_pipes d)" if "i < n" for n
    by (rule swap_effect(5)[OF a(1) _ _ a'(1)]) (use that il Suc.prems(3) in auto)
  have ok': "dist_ok ?d" using ok a a' lt Suc.prems(3) by (auto simp: dist_ok_def)
  have st: "reverse_loop i d = reverse_loop (Suc i) ?d" using lt a'(1) by (subst reverse_loop.simps) (simp add: d_swap_def)
  have mt: "matched ?d = insert ?p (matched d)" using a'(5) by simp
  have el: "eligibles ?d = eligibles d" "active_set (Suc i) (d_pipes ?d) = insert ?p (active_set i (d_pipes d))"
    using keep lt index_set(1)[OF a(1) il] by simp_all
  have pe: "?p \<in> eligibles d" "?p \<notin> active_set i (d_pipes d)" using pi lt by (simp_all add: active_set_def)
  have "k = eligible ?d - Suc i" "Suc i \<le> eligible ?d" "matching ?d \<le> Suc i" "\<not> d_more ?d" using Suc.hyps(2) Suc.prems lt by auto
  from Suc.hyps(1)[OF this(1) ok' this(2-4)] obtain d' where d': "reverse_loop (Suc i) ?d = Some d'" "dist_ok d'" "d_members d' = d_members ?d"
    "eligibles d' = eligibles ?d" "\<not> d_more d'" "matched d' = matched ?d \<union> (eligibles ?d - active_set (Suc i) (d_pipes ?d))" by blast
  have "matched d' = matched d \<union> (eligibles d - active_set i (d_pipes d))" unfolding d'(6) mt el using pe by auto
  then show ?case using d' st el(1) a'(3) by auto
qed

lemma reverse_match_ok:
  assumes "dist_ok d" "\<not> d_more d"
  shows "\<exists>d'. reverse_match d = Some d' \<and> dist_ok d' \<and> d_members d' = d_members d \<and> eligibles d' = eligibles d \<and> matched d' = eligibles d - matched d"
proof -
  have "dist_ok (unmatch d)" "matching d \<le> eligible (unmatch d)" "matching (unmatch d) \<le> matching d" "\<not> d_more (unmatch d)"
    "matched (unmatch d) = {}" using assms by (auto simp: dist_ok_def unmatch_def active_set_def)
  from reverse_loop_ok[OF this(1-4)] this(5) show ?thesis by (auto simp: reverse_match_def unmatch_def)
qed

section \<open>Properties\<close>


text \<open>Two matching pipes, the second of which refuses to be written to.\<close>

definition two_matching :: dist where
  "two_matching = \<lparr>d_pipes = \<lparr>items = [4, 7], array_index = (\<lambda>_. - 1)(4 := 0, 7 := 1)\<rparr>, matching = 2, d_active = 2, eligible = 2, d_more = False\<rparr>"

definition refuse_7 :: "nat \<Rightarrow> msg \<Rightarrow> unit \<Rightarrow> (unit \<times> bool) option" where
  "refuse_7 p m s = Some (s, p \<noteq> 7)"

lemma two_matching_ok: "dist_ok two_matching"
  by (auto simp: two_matching_def dist_ok_def arr_ok_def less_Suc_eq)

lemma two_matching_send:
  "\<exists>d'. send_to_matching refuse_7 (\<lambda>p s. Some s) False (empty_msg\<lparr>flags := flag_more\<rparr>) two_matching () = Some (d', (), [4], 1) \<and>
     d_members d' = {4, 7} \<and> eligibles d' = {4}"
  by (simp add: send_to_matching_def distribute_def dist_loop.simps dist_write_def refuse_7_def two_matching_def arr_at_def
      has_more_def write_failed_def d_swap_def arr_swap_def arr_index_def exchange_def Let_def active_set_def)




end
