(* ===== verification/Node_Table.thy ===== *)
theory Node_Table
  imports Zmq_Prelude "HOL-Library.Monad_Syntax"
begin

text \<open>
  The table of subnodes that \<open>trie_t\<close> (\<open>src/src/trie.cpp\<close>) and \<open>mtrie_t\<close> (\<open>src/src/mtrie.cpp\<close>) share:
  the fields \<open>min\<close>, \<open>count\<close>, \<open>live_nodes\<close> and \<open>next\<close>. The \<open>count\<close> is the length of \<open>slots\<close>; \<open>next.node\<close> is the
  slot of a table of length one. Growing and shrinking the table are shown to be the update and the
  removal of one entry of a finite map from characters to nodes, and never to violate an assertion.
\<close>

section \<open>Tables\<close>

datatype 'n tbl = Tbl (tmin: nat) (live_nodes: nat) (slots: "'n option list")

definition tb_empty :: "'n tbl" where
  "tb_empty = Tbl 0 0 []"

definition in_range :: "nat \<Rightarrow> 'n tbl \<Rightarrow> bool" where
  "in_range c tb \<longleftrightarrow> \<not> (c < tmin tb \<or> c \<ge> tmin tb + length (slots tb))"

definition tb_get :: "'n tbl \<Rightarrow> nat \<Rightarrow> 'n option" where
  "tb_get tb c = (if in_range c tb then slots tb ! (c - tmin tb) else None)"

definition set_slot :: "nat \<Rightarrow> 'n option \<Rightarrow> 'n tbl \<Rightarrow> 'n tbl" where
  "set_slot c x tb = Tbl (tmin tb) (live_nodes tb) ((slots tb)[c - tmin tb := x])"

text \<open>The extension of the table for a character out of its range.\<close>

definition extend :: "nat \<Rightarrow> 'n tbl \<Rightarrow> 'n tbl" where
  "extend c tb =
     (let m = tmin tb; n = length (slots tb) in
      if in_range c tb then tb
      else if n = 0 then Tbl c (live_nodes tb) [None]
      else if n = 1 then
        (let n' = (if m < c then c - m else m - c) + 1; m' = min m c
         in Tbl m' (live_nodes tb) ((replicate n' None)[m - m' := slots tb ! 0]))
      else if m < c then Tbl m (live_nodes tb) (slots tb @ replicate (c - m + 1 - n) None)
      else Tbl c (live_nodes tb) (replicate (m - c) None @ slots tb))"

text \<open>The subnode for a character in range, created when it does not exist.\<close>

definition child_node :: "'n \<Rightarrow> nat \<Rightarrow> 'n tbl \<Rightarrow> 'n tbl \<times> 'n" where
  "child_node new c tb =
     (case slots tb ! (c - tmin tb) of
        Some n \<Rightarrow> (tb, n)
      | None \<Rightarrow> (Tbl (tmin tb) (live_nodes tb + 1) ((slots tb)[c - tmin tb := Some new]), new))"

text \<open>The loops that look for a slot in use: the first index from \<open>i\<close> on that satisfies \<open>p\<close>, or \<open>n\<close>.\<close>

function scan :: "(nat \<Rightarrow> bool) \<Rightarrow> nat \<Rightarrow> nat \<Rightarrow> nat" where
  "scan p i n = (if i < n \<and> \<not> p i then scan p (i + 1) n else i)"
  by pat_completeness auto
termination
  by (relation "measure (\<lambda>(p, i, n). n - i)") auto

declare scan.simps [simp del]

text \<open>The removal of a redundant node in \<open>trie_t::rm\<close>.\<close>

definition trie_prune :: "nat \<Rightarrow> 'n tbl \<Rightarrow> 'n tbl option" where
  "trie_prune c tb =
     (let m = tmin tb; n = length (slots tb); l = live_nodes tb in
      if n = 1 then (if l = 1 then Some (Tbl m 0 []) else None)
      else if \<not> l > 1 then None
      else let t = (slots tb)[c - m := None] in
        if l - 1 = 1 then
          (if c = m then map_option (\<lambda>x. Tbl (m + n - 1) (l - 1) [Some x]) (t ! (n - 1))
           else if c = m + n - 1 then map_option (\<lambda>x. Tbl m (l - 1) [Some x]) (t ! 0)
           else None)
        else if c = m then
          (let i = scan (\<lambda>i. t ! i \<noteq> None) 1 n
           in if i < n then Some (Tbl (m + i) (l - 1) (drop i t)) else None)
        else if c = m + n - 1 then
          (let i = scan (\<lambda>i. t ! (n - 1 - i) \<noteq> None) 1 n
           in if i < n then Some (Tbl m (l - 1) (take (n - i) t)) else None)
        else Some (Tbl m (l - 1) t))"

text \<open>The removal of a redundant node in \<open>mtrie_t::rm_helper\<close> for one subscription.\<close>

definition mtrie_prune :: "nat \<Rightarrow> 'n tbl \<Rightarrow> 'n tbl option" where
  "mtrie_prune c tb =
     (let m = tmin tb; n = length (slots tb); l = live_nodes tb in
      if n = 1 then (if l = 1 then Some (Tbl m 0 []) else None)
      else if \<not> l > 1 then None
      else let t = (slots tb)[c - m := None] in
        if l - 1 = 1 then
          (let i = scan (\<lambda>i. t ! i \<noteq> None) 0 n
           in if i < n then Some (Tbl (m + i) (l - 1) [t ! i]) else None)
        else if c = m then
          (let i = scan (\<lambda>i. t ! i \<noteq> None) 1 n
           in if i < n then Some (Tbl (m + i) (l - 1) (drop i t)) else None)
        else if c = m + n - 1 then
          (let i = scan (\<lambda>i. t ! (n - 1 - i) \<noteq> None) 1 n
           in if i < n then Some (Tbl m (l - 1) (take (n - i) t)) else None)
        else Some (Tbl m (l - 1) t))"

section \<open>Invariant\<close>

definition tb_wf :: "'n tbl \<Rightarrow> bool" where
  "tb_wf tb \<longleftrightarrow> live_nodes tb = card (dom (tb_get tb)) \<and> tmin tb + length (slots tb) \<le> 256 \<and>
     (slots tb \<noteq> [] \<longrightarrow> tb_get tb (tmin tb) \<noteq> None \<and> tb_get tb (tmin tb + length (slots tb) - 1) \<noteq> None)"

lemma tb_get_Tbl: "tb_get (Tbl m l ss) c = (if m \<le> c \<and> c < m + length ss then ss ! (c - m) else None)"
  by (auto simp: tb_get_def in_range_def)

lemma tb_dom: "dom (tb_get tb) \<subseteq> {tmin tb..<tmin tb + length (slots tb)}"
  by (auto simp: tb_get_def in_range_def split: if_splits)

lemma tb_finite [simp]: "finite (dom (tb_get tb))"
  by (rule finite_subset[OF tb_dom]) simp

lemma tb_empty_simps [simp]: "tb_get tb_empty = Map.empty" "tb_wf tb_empty" "slots tb_empty = []" "live_nodes tb_empty = 0"
  by (auto simp: tb_empty_def tb_wf_def tb_get_def in_range_def)

lemma tb_wf_live_0: "tb_wf tb \<Longrightarrow> live_nodes tb = 0 \<longleftrightarrow> tb_get tb = Map.empty"
  by (simp add: tb_wf_def)

lemma tb_get_range: "tb_get tb c = Some n \<Longrightarrow> tmin tb \<le> c \<and> c < tmin tb + length (slots tb) \<and> slots tb ! (c - tmin tb) = Some n"
  by (auto simp: tb_get_def in_range_def split: if_splits)

lemma slots_not_None: "tb_get tb c = Some n \<Longrightarrow> Some n \<in> set (slots tb)"
  using tb_get_range[of tb c n] nth_mem[of "c - tmin tb" "slots tb"] by auto

lemma scan_spec:
  assumes "i \<le> j" "j < n" "p j" "\<And>k. i \<le> k \<Longrightarrow> k < j \<Longrightarrow> \<not> p k"
  shows "scan p i n = j"
  using assms
proof (induction "j - i" arbitrary: i)
  case 0
  then show ?case by (simp add: scan.simps)
next
  case (Suc d)
  then have "\<not> p i" "i < n" by auto
  then show ?case using Suc by (subst scan.simps) simp
qed

lemma scan_least: "i \<le> k \<Longrightarrow> k < n \<Longrightarrow> p k \<Longrightarrow> \<exists>j. scan p i n = j \<and> i \<le> j \<and> j \<le> k \<and> p j \<and> (\<forall>x. i \<le> x \<and> x < j \<longrightarrow> \<not> p x)"
proof -
  assume a: "i \<le> k" "k < n" "p k"
  define j where "j = (LEAST x. i \<le> x \<and> p x)"
  have j: "i \<le> j \<and> p j" unfolding j_def by (rule LeastI[of _ k]) (use a in simp)
  have "j \<le> k" unfolding j_def by (rule Least_le) (use a in simp)
  moreover have nx: "\<not> p x" if "i \<le> x" "x < j" for x using not_less_Least[of x "\<lambda>x. i \<le> x \<and> p x"] that by (auto simp: j_def)
  ultimately have "scan p i n = j" using scan_spec[of i j n p] j a by auto
  then show ?thesis using j \<open>j \<le> k\<close> nx by auto
qed

section \<open>Growing\<close>

lemma extend_get: "tb_get (extend c tb) = tb_get tb"
proof (cases tb)
  case (Tbl m l ss)
  show ?thesis
  proof (cases "in_range c tb \<or> length ss = 0")
    case True
    then show ?thesis using Tbl by (auto simp: extend_def tb_get_Tbl fun_eq_iff in_range_def)
  next
    case False
    then have r: "\<not> in_range c tb" "ss \<noteq> []" by auto
    show ?thesis
    proof (cases "length ss = 1")
      case True
      then show ?thesis using Tbl r
        by (auto simp: extend_def tb_get_Tbl fun_eq_iff in_range_def Let_def nth_list_update min_def simp del: replicate.simps list_update.simps)
    next
      case False
      then show ?thesis using Tbl r
        by (auto simp: extend_def tb_get_Tbl fun_eq_iff in_range_def Let_def nth_append)
    qed
  qed
qed

lemma extend_shape:
  assumes "tb_wf tb" "c < 256"
  shows "in_range c (extend c tb)" "live_nodes (extend c tb) = live_nodes tb"
    "tmin (extend c tb) + length (slots (extend c tb)) \<le> 256"
    "\<And>x. x \<in> {tmin (extend c tb), tmin (extend c tb) + length (slots (extend c tb)) - 1} \<Longrightarrow> x \<noteq> c \<Longrightarrow> tb_get tb x \<noteq> None"
proof -
  obtain m l ss where Tbl: "tb = Tbl m l ss" by (cases tb)
  show "in_range c (extend c tb)" "live_nodes (extend c tb) = live_nodes tb"
    by (auto simp: extend_def in_range_def Let_def simp del: replicate.simps list_update.simps)
  show "tmin (extend c tb) + length (slots (extend c tb)) \<le> 256"
    using assms by (auto simp: extend_def in_range_def Let_def tb_wf_def simp del: replicate.simps list_update.simps)
  fix x assume x: "x \<in> {tmin (extend c tb), tmin (extend c tb) + length (slots (extend c tb)) - 1}" "x \<noteq> c"
  have e: "slots tb \<noteq> [] \<Longrightarrow> tb_get tb m \<noteq> None \<and> tb_get tb (m + length ss - 1) \<noteq> None"
    using assms(1) Tbl by (simp add: tb_wf_def)
  have "slots tb \<noteq> [] \<and> (x = m \<or> x = m + length ss - 1)"
    using x Tbl by (auto simp: extend_def in_range_def Let_def min_def simp del: replicate.simps list_update.simps split: if_splits)
  then show "tb_get tb x \<noteq> None" using e by auto
qed

text \<open>Adding or replacing a subnode, as \<open>add\<close> does.\<close>

lemma add_child:
  assumes wf: "tb_wf tb" and c: "c < 256" and ch: "child_node new c (extend c tb) = (tb2, n)"
  shows "n = (case tb_get tb c of None \<Rightarrow> new | Some n \<Rightarrow> n)"
    "tb_get (set_slot c (Some n') tb2) = (tb_get tb)(c \<mapsto> n')" "tb_wf (set_slot c (Some n') tb2)"
    "live_nodes tb2 = (if tb_get tb c = None then live_nodes tb + 1 else live_nodes tb)"
    "slots tb2 \<noteq> []" "length (slots tb2) = 1 \<longleftrightarrow> card (insert c (dom (tb_get tb))) = 1"
proof -
  let ?e = "extend c tb"
  note s = extend_shape[OF wf c] and g = extend_get[of c tb]
  have nth: "slots ?e ! (c - tmin ?e) = tb_get tb c" using s(1) g by (metis tb_get_def)
  have i: "tmin ?e \<le> c" "c < tmin ?e + length (slots ?e)" using s(1) by (auto simp: in_range_def)
  have same: "?e = Tbl (tmin ?e) (live_nodes tb) ((slots ?e)[c - tmin ?e := Some x])" if "tb_get tb c = Some x" for x
    using nth that s(2) i by (cases ?e) (metis list_update_id tbl.sel)
  have tb2: "tb2 = Tbl (tmin ?e) (if tb_get tb c = None then live_nodes tb + 1 else live_nodes tb) ((slots ?e)[c - tmin ?e := Some n])"
    and n: "n = (case tb_get tb c of None \<Rightarrow> new | Some n \<Rightarrow> n)"
    using ch s(2) unfolding child_node_def nth by (cases "tb_get tb c"; auto dest: same[symmetric])+
  show "n = (case tb_get tb c of None \<Rightarrow> new | Some n \<Rightarrow> n)" by (rule n)
  show gt: "tb_get (set_slot c (Some n') tb2) = (tb_get tb)(c \<mapsto> n')"
    using i unfolding tb2 set_slot_def g[symmetric]
    by (auto simp: tb_get_Tbl fun_eq_iff nth_list_update tb_get_def[of ?e] in_range_def[of _ ?e])
  have lv: "live_nodes tb2 = card (insert c (dom (tb_get tb)))"
    using wf unfolding tb2 by (cases "tb_get tb c") (auto simp: tb_wf_def card_insert_if domIff insert_absorb)
  show "live_nodes tb2 = (if tb_get tb c = None then live_nodes tb + 1 else live_nodes tb)" unfolding tb2 by simp
  show "slots tb2 \<noteq> []" using i unfolding tb2 by auto
  have ends: "((tb_get tb)(c \<mapsto> n')) x \<noteq> None" if "x \<in> {tmin ?e, tmin ?e + length (slots ?e) - 1}" for x
    using s(4)[OF that] by simp
  have "live_nodes (set_slot c (Some n') tb2) = card (dom (tb_get (set_slot c (Some n') tb2)))"
    using lv unfolding gt by (simp add: set_slot_def)
  moreover have "tmin (set_slot c (Some n') tb2) = tmin ?e" "length (slots (set_slot c (Some n') tb2)) = length (slots ?e)"
    unfolding tb2 set_slot_def by simp_all
  ultimately show "tb_wf (set_slot c (Some n') tb2)" unfolding tb_wf_def gt using s(3) ends by simp
  have sub: "insert c (dom (tb_get tb)) \<subseteq> {tmin ?e..<tmin ?e + length (slots ?e)}"
    using i tb_dom[of ?e] unfolding g by auto
  have "card (insert c (dom (tb_get tb))) \<noteq> 1" if "length (slots ?e) \<noteq> 1"
  proof
    assume a: "card (insert c (dom (tb_get tb))) = 1"
    have "tmin ?e \<in> insert c (dom (tb_get tb))" "tmin ?e + length (slots ?e) - 1 \<in> insert c (dom (tb_get tb))"
      using s(4) by (metis domIff insertCI)+
    moreover have "tmin ?e \<noteq> tmin ?e + length (slots ?e) - 1" using that i by auto
    ultimately show False using a by (metis card_1_singletonE singletonD)
  qed
  moreover have "card (insert c (dom (tb_get tb))) = 1" if "length (slots ?e) = 1"
  proof -
    have "insert c (dom (tb_get tb)) = {c}" using sub i that by auto
    then show ?thesis by (metis card.empty card_insert_disjoint empty_iff finite.emptyI One_nat_def)
  qed
  ultimately show "length (slots tb2) = 1 \<longleftrightarrow> card (insert c (dom (tb_get tb))) = 1" unfolding tb2 by auto
qed

lemma set_slot_existing:
  assumes "tb_wf tb" "tb_get tb c = Some n"
  shows "tb_get (set_slot c (Some n') tb) = (tb_get tb)(c \<mapsto> n')" "tb_wf (set_slot c (Some n') tb)"
proof -
  have i: "tmin tb \<le> c" "c < tmin tb + length (slots tb)" using assms(2) by (auto simp: tb_get_def in_range_def split: if_splits)
  show g: "tb_get (set_slot c (Some n') tb) = (tb_get tb)(c \<mapsto> n')"
    using i by (auto simp: set_slot_def tb_get_Tbl fun_eq_iff nth_list_update tb_get_def[of tb] in_range_def[of _ tb])
  have d: "insert c (dom (tb_get tb)) = dom (tb_get tb)" using assms(2) by auto
  show "tb_wf (set_slot c (Some n') tb)" using assms(1) unfolding tb_wf_def g dom_fun_upd
    by (auto simp: set_slot_def d)
qed

section \<open>Shrinking\<close>

text \<open>
  A table whose ends are in use and that has the right entries is the well-formed result of a removal.
\<close>

lemma prune_wf:
  assumes wf: "tb_wf tb" and get: "tb_get tb c = Some n"
    and g': "tb_get tb' = (tb_get tb)(c := None)" and l: "live_nodes tb' = live_nodes tb - 1"
    and b: "tmin tb' + length (slots tb') \<le> 256"
    and ends: "slots tb' \<noteq> [] \<Longrightarrow> tb_get tb' (tmin tb') \<noteq> None \<and> tb_get tb' (tmin tb' + length (slots tb') - 1) \<noteq> None"
  shows "tb_wf tb'"
proof -
  have "dom (tb_get tb') = dom (tb_get tb) - {c}" using g' by simp
  moreover have "c \<in> dom (tb_get tb)" using get by auto
  ultimately have "live_nodes tb' = card (dom (tb_get tb'))" using l wf by (simp add: tb_wf_def card_Diff_singleton)
  then show ?thesis using b ends by (simp add: tb_wf_def)
qed

lemma removed_get:
  assumes "tb_get (Tbl m l ss) c = Some n"
  shows "tb_get (Tbl m l' (ss[c - m := None])) = (tb_get (Tbl m l ss))(c := None)"
  using tb_get_range[OF assms] by (auto simp: tb_get_Tbl fun_eq_iff nth_list_update)

lemma single_table:
  assumes "tb_wf (Tbl m l ss)" "tb_get (Tbl m l ss) c = Some n" "length ss = 1"
  shows "l = 1 \<and> tb_get (Tbl m 0 []) = (tb_get (Tbl m l ss))(c := None)"
proof -
  have "dom (tb_get (Tbl m l ss)) = {c}" using tb_dom[of "Tbl m l ss"] assms(2,3) tb_get_range[OF assms(2)] by auto
  then have d: "tb_get (Tbl m l ss) x = None" if "x \<noteq> c" for x using that by auto
  have "card (dom (tb_get (Tbl m l ss))) = 1" using \<open>dom _ = {c}\<close> by simp
  then show ?thesis using assms(1) d by (auto simp: tb_wf_def tb_get_Tbl[of m 0] fun_eq_iff)
qed

lemma many_live:
  assumes "tb_wf (Tbl m l ss)" "1 < length ss"
  shows "1 < l" "ss ! 0 \<noteq> None" "ss ! (length ss - 1) \<noteq> None"
    "l = 2 \<Longrightarrow> tb_get (Tbl m l ss) x \<noteq> None \<Longrightarrow> x = m \<or> x = m + length ss - 1"
proof -
  have e: "tb_get (Tbl m l ss) m \<noteq> None \<and> tb_get (Tbl m l ss) (m + length ss - 1) \<noteq> None"
    using assms by (auto simp: tb_wf_def)
  then show n: "ss ! 0 \<noteq> None" "ss ! (length ss - 1) \<noteq> None" using assms(2) by (auto simp: tb_get_Tbl split: if_splits)
  let ?E = "{m, m + length ss - 1}"
  have sub: "?E \<subseteq> dom (tb_get (Tbl m l ss))" using e by auto
  have c2: "card ?E = 2" using assms(2) by simp
  have l: "l = card (dom (tb_get (Tbl m l ss)))" using assms(1) by (simp add: tb_wf_def)
  have "2 \<le> l" using card_mono[OF tb_finite sub] c2 l by simp
  then show "1 < l" by simp
  assume "l = 2" "tb_get (Tbl m l ss) x \<noteq> None"
  then have "?E = dom (tb_get (Tbl m l ss))" using card_subset_eq[OF tb_finite sub] c2 l by simp
  then show "x = m \<or> x = m + length ss - 1" using \<open>tb_get _ x \<noteq> None\<close> by auto
qed

lemma drop_get:
  assumes "i \<le> length ss" "\<And>k. k < i \<Longrightarrow> ss ! k = None"
  shows "tb_get (Tbl (m + i) l (drop i ss)) = tb_get (Tbl m l' ss)"
  using assms by (auto simp: tb_get_Tbl fun_eq_iff)

lemma take_get:
  assumes "i \<le> length ss" "\<And>k. i \<le> k \<Longrightarrow> k < length ss \<Longrightarrow> ss ! k = None"
  shows "tb_get (Tbl m l (take i ss)) = tb_get (Tbl m l' ss)"
  using assms by (auto simp: tb_get_Tbl fun_eq_iff)

text \<open>Compacting from the left and from the right.\<close>

lemma compact_left:
  assumes wf: "tb_wf (Tbl m l ss)" and get: "tb_get (Tbl m l ss) m = Some n" and len: "1 < length ss"
  defines "t \<equiv> ss[0 := None]"
  defines "i \<equiv> scan (\<lambda>i. t ! i \<noteq> None) 1 (length ss)"
  shows "i < length ss" "tb_wf (Tbl (m + i) (l - 1) (drop i t))"
    "tb_get (Tbl (m + i) (l - 1) (drop i t)) = (tb_get (Tbl m l ss))(m := None)"
proof -
  have lt: "length t = length ss" by (simp add: t_def)
  have "t ! (length ss - 1) \<noteq> None" using many_live(3)[OF wf len] len by (simp add: t_def)
  then have i: "1 \<le> i" "i \<le> length ss - 1" "t ! i \<noteq> None" "\<And>x. 1 \<le> x \<Longrightarrow> x < i \<Longrightarrow> t ! x = None"
    using scan_least[of 1 "length ss - 1" "length ss" "\<lambda>i. t ! i \<noteq> None"] len unfolding i_def by auto
  show il: "i < length ss" using i(2) len by linarith
  have "ss[0 := None] ! 0 = None" using len by (cases ss) simp_all
  then have "t ! k = None" if "k < i" for k using i(4)[of k] that by (cases k) (auto simp: t_def)
  then have "tb_get (Tbl (m + i) (l - 1) (drop i t)) = tb_get (Tbl m l t)" using lt il by (intro drop_get) auto
  then show g: "tb_get (Tbl (m + i) (l - 1) (drop i t)) = (tb_get (Tbl m l ss))(m := None)"
    using removed_get[OF get, of l] by (simp add: t_def)
  have "(drop i t) ! 0 \<noteq> None" "(drop i t) ! (length (drop i t) - 1) \<noteq> None"
    using i il lt \<open>t ! (length ss - 1) \<noteq> None\<close> by auto
  then show "tb_wf (Tbl (m + i) (l - 1) (drop i t))"
    using wf il lt by (intro prune_wf[OF wf get g]) (auto simp: tb_wf_def[of "Tbl m l ss"] tb_get_Tbl)
qed

lemma compact_right:
  assumes wf: "tb_wf (Tbl m l ss)" and len: "1 < length ss" and c: "c = m + length ss - 1"
    and get: "tb_get (Tbl m l ss) c = Some n"
  defines "t \<equiv> ss[c - m := None]"
  defines "i \<equiv> scan (\<lambda>i. t ! (length ss - 1 - i) \<noteq> None) 1 (length ss)"
  shows "i < length ss" "tb_wf (Tbl m (l - 1) (take (length ss - i) t))"
    "tb_get (Tbl m (l - 1) (take (length ss - i) t)) = (tb_get (Tbl m l ss))(c := None)"
proof -
  have lt: "length t = length ss" by (simp add: t_def)
  have t0: "t ! 0 \<noteq> None" using many_live(2)[OF wf len] len c by (simp add: t_def)
  then have i: "1 \<le> i" "i \<le> length ss - 1" "t ! (length ss - 1 - i) \<noteq> None"
    "\<And>x. 1 \<le> x \<Longrightarrow> x < i \<Longrightarrow> t ! (length ss - 1 - x) = None"
    using scan_least[of 1 "length ss - 1" "length ss" "\<lambda>i. t ! (length ss - 1 - i) \<noteq> None"] len unfolding i_def by auto
  show il: "i < length ss" using i(2) len by linarith
  have "t ! k = None" if "length ss - i \<le> k" "k < length ss" for k
  proof (cases "k = length ss - 1")
    case True
    then show ?thesis using c len by (simp add: t_def)
  next
    case False
    then show ?thesis using i(4)[of "length ss - 1 - k"] that by simp
  qed
  then have "tb_get (Tbl m (l - 1) (take (length ss - i) t)) = tb_get (Tbl m l t)" using lt by (intro take_get) auto
  then show g: "tb_get (Tbl m (l - 1) (take (length ss - i) t)) = (tb_get (Tbl m l ss))(c := None)"
    using removed_get[OF get, of l] by (simp add: t_def)
  have "length (take (length ss - i) t) = length ss - i" using lt by simp
  then show "tb_wf (Tbl m (l - 1) (take (length ss - i) t))"
    using wf il lt t0 i(3) by (intro prune_wf[OF wf get g]) (auto simp: tb_wf_def[of "Tbl m l ss"] tb_get_Tbl)
qed

lemma compact_single:
  assumes wf: "tb_wf (Tbl m 2 ss)" and get: "tb_get (Tbl m 2 ss) c = Some n" and len: "1 < length ss"
    and k: "k = (if c = m then length ss - 1 else 0)"
  shows "k < length ss" "ss[c - m := None] ! k = ss ! k" "ss ! k \<noteq> None" "\<And>j. j < k \<Longrightarrow> ss[c - m := None] ! j = None"
    "tb_wf (Tbl (m + k) 1 [ss ! k])" "tb_get (Tbl (m + k) 1 [ss ! k]) = (tb_get (Tbl m 2 ss))(c := None)"
proof -
  note ml = many_live[OF wf len]
  have c: "c = m \<or> c = m + length ss - 1" using ml(4)[of c] get by simp
  have other: "ss ! j = None" if "j < length ss" "j \<noteq> 0" "j \<noteq> length ss - 1" for j
  proof (rule ccontr)
    assume "ss ! j \<noteq> None"
    then have "tb_get (Tbl m 2 ss) (m + j) \<noteq> None" using that by (simp add: tb_get_Tbl)
    then show False using ml(4)[of "m + j"] that by auto
  qed
  show kl: "k < length ss" and nk: "ss[c - m := None] ! k = ss ! k" and kn: "ss ! k \<noteq> None" using k len c ml(2,3) by auto
  have oth: "ss[c - m := None] ! j = None" if "j < length ss" "j \<noteq> k" for j
  proof (cases "j = c - m")
    case False
    then have "j \<noteq> 0 \<and> j \<noteq> length ss - 1" using that k c len by (cases "c = m") auto
    then show ?thesis using other[of j] that(1) False by simp
  qed (use that in simp)
  then show "\<And>j. j < k \<Longrightarrow> ss[c - m := None] ! j = None" using kl by auto
  have "tb_get (Tbl (m + k) 1 [ss ! k]) x = tb_get (Tbl m 2 (ss[c - m := None])) x" for x
    using nk kl oth[of "x - m"] by (cases "x = m + k") (auto simp: tb_get_Tbl)
  then show g: "tb_get (Tbl (m + k) 1 [ss ! k]) = (tb_get (Tbl m 2 ss))(c := None)"
    using removed_get[OF get, of 2] by (simp add: fun_eq_iff)
  show "tb_wf (Tbl (m + k) 1 [ss ! k])"
    using wf kl kn by (intro prune_wf[OF wf get g]) (auto simp: tb_wf_def[of "Tbl m 2 ss"] tb_get_Tbl)
qed

lemma compact_inner:
  assumes wf: "tb_wf (Tbl m l ss)" and get: "tb_get (Tbl m l ss) c = Some n" and c: "c \<noteq> m" "c \<noteq> m + length ss - 1"
  shows "tb_wf (Tbl m (l - 1) (ss[c - m := None]))" "tb_get (Tbl m (l - 1) (ss[c - m := None])) = (tb_get (Tbl m l ss))(c := None)"
proof -
  show g: "tb_get (Tbl m (l - 1) (ss[c - m := None])) = (tb_get (Tbl m l ss))(c := None)" by (rule removed_get[OF get])
  show "tb_wf (Tbl m (l - 1) (ss[c - m := None]))"
  proof (rule prune_wf[OF wf get g])
    assume "slots (Tbl m (l - 1) (ss[c - m := None])) \<noteq> []"
    then show "tb_get (Tbl m (l - 1) (ss[c - m := None])) (tmin (Tbl m (l - 1) (ss[c - m := None]))) \<noteq> None \<and>
      tb_get (Tbl m (l - 1) (ss[c - m := None])) (tmin (Tbl m (l - 1) (ss[c - m := None])) + length (slots (Tbl m (l - 1) (ss[c - m := None]))) - 1) \<noteq> None"
      using wf c unfolding g by (simp add: tb_wf_def)
  qed (use wf in \<open>simp_all add: tb_wf_def\<close>)
qed

text \<open>Both removals take exactly the entry out of the map.\<close>

lemma trie_prune_ok:
  assumes wf: "tb_wf tb" and get: "tb_get tb c = Some n"
  shows "\<exists>tb'. trie_prune c tb = Some tb' \<and> tb_wf tb' \<and> tb_get tb' = (tb_get tb)(c := None)"
proof -
  obtain m l ss where tb: "tb = Tbl m l ss" by (cases tb)
  note wf = wf[unfolded tb] and get = get[unfolded tb]
  have r: "m \<le> c" "c < m + length ss" using tb_get_range[OF get] by simp_all
  consider "length ss = 1" | "1 < length ss" "l = 2" | "1 < length ss" "l \<noteq> 2" "c = m"
    | "1 < length ss" "l \<noteq> 2" "c \<noteq> m" "c = m + length ss - 1"
    | "1 < length ss" "l \<noteq> 2" "c \<noteq> m" "c \<noteq> m + length ss - 1" using r by linarith
  then show ?thesis
  proof cases
    case 1
    have s: "l = 1" "tb_get (Tbl m 0 []) = (tb_get (Tbl m l ss))(c := None)" using single_table[OF wf get 1] by simp_all
    have "tb_wf (Tbl m 0 [])" using wf by (auto simp: tb_wf_def tb_get_Tbl dom_def)
    then show ?thesis using 1 s tb by (simp add: trie_prune_def)
  next
    case 2
    have c: "c = m \<or> c = m + length ss - 1" using many_live(4)[OF wf 2(1), of c] 2 get by simp
    note k = compact_single[OF wf[unfolded 2(2)] get[unfolded 2(2)] 2(1) refl]
    obtain x where "ss ! (if c = m then length ss - 1 else 0) = Some x" using k(3) by auto
    then show ?thesis using c k 2 tb by (auto simp: trie_prune_def Let_def split: if_splits)
  next
    case 3
    note k = compact_left[OF wf get[unfolded 3(3)] 3(1)]
    show ?thesis using 3 k many_live(1)[OF wf 3(1)] tb by (auto simp: trie_prune_def Let_def)
  next
    case 4
    note k = compact_right[OF wf 4(1) 4(4) get]
    show ?thesis using 4(1-3) k many_live(1)[OF wf 4(1)] tb 4(4) by (auto simp: trie_prune_def Let_def)
  next
    case 5
    note k = compact_inner[OF wf get 5(3,4)]
    show ?thesis using 5 k many_live(1)[OF wf 5(1)] tb by (auto simp: trie_prune_def Let_def)
  qed
qed

text \<open>The two versions of the removal, written differently in the two classes, compute the same table.\<close>

lemma prune_same:
  assumes wf: "tb_wf tb" and get: "tb_get tb c = Some n"
  shows "mtrie_prune c tb = trie_prune c tb"
proof -
  obtain m l ss where tb: "tb = Tbl m l ss" by (cases tb)
  note wf = wf[unfolded tb] and get = get[unfolded tb]
  have r: "m \<le> c" "c < m + length ss" using tb_get_range[OF get] by simp_all
  show ?thesis
  proof (cases "1 < length ss \<and> l = 2")
    case False
    moreover have "length ss = 1 \<or> 1 < length ss" using r by linarith
    ultimately show ?thesis using r many_live(1)[OF wf] tb by (auto simp: mtrie_prune_def trie_prune_def Let_def)
  next
    case True
    have c: "c = m \<or> c = m + length ss - 1" using many_live(4)[OF wf, of c] True get by simp
    let ?k = "if c = m then length ss - 1 else 0"
    note k = compact_single[OF wf[unfolded conjunct2[OF True]] get[unfolded conjunct2[OF True]] conjunct1[OF True] refl]
    obtain x where x: "ss ! ?k = Some x" using k(3) by auto
    have "scan (\<lambda>i. ss[c - m := None] ! i \<noteq> None) 0 (length ss) = ?k"
      using k(1-4) by (intro scan_spec) simp_all
    then show ?thesis using c k(1,2) x True tb by (auto simp: mtrie_prune_def trie_prune_def Let_def split: if_splits)
  qed
qed

text \<open>
  The removal of a redundant subnode is written differently in \<open>trie_t::rm\<close> and in
  \<open>mtrie_t::rm_helper\<close>; on every well-formed table both give the same table.
\<close>

theorem prune_equivalent:
  assumes "tb_wf tb" "tb_get tb c = Some n"
  shows "mtrie_prune c tb = trie_prune c tb \<and> trie_prune c tb \<noteq> None"
  using prune_same[OF assms] trie_prune_ok[OF assms] by auto

theorem prune_equivalent_witness:
  "mtrie_prune 3 (Tbl 3 2 [Some (7 :: nat), None, Some 8]) = trie_prune 3 (Tbl 3 2 [Some (7 :: nat), None, Some 8])"
proof -
  let ?tb = "Tbl 3 2 [Some (7 :: nat), None, Some 8]"
  have "dom (tb_get ?tb) = {3, 5}" by (auto simp: tb_get_Tbl nth_Cons' split: if_splits)
  then have "tb_wf ?tb" by (simp add: tb_wf_def) (simp add: tb_get_Tbl)
  moreover have "tb_get ?tb 3 = Some 7" by (simp add: tb_get_Tbl)
  ultimately show ?thesis using prune_equivalent[of ?tb 3 7] by blast
qed

end
