(* ===== verification/Sub_Trie.thy ===== *)
theory Sub_Trie
  imports Node_Table "HOL-Library.Sublist"
begin

text \<open>
  The subscription trie of \<open>src/src/trie.cpp\<close>: each node has the number of subscriptions for the key that
  leads to it, a 32 bit counter, and a table of subnodes. An operation is \<open>None\<close> when an assertion fails
  or a NULL node is followed. The interface that the sockets rely on is the locale \<open>subscriptions\<close>; the
  trie is shown to provide it.
\<close>

section \<open>Model\<close>

type_synonym key = "byte list"

datatype trie = Trie (refcnt: "32 word") (tab: "trie tbl")

definition trie_t :: trie where
  "trie_t = Trie 0 tb_empty"

definition is_redundant :: "trie \<Rightarrow> bool" where
  "is_redundant t \<longleftrightarrow> refcnt t = 0 \<and> live_nodes (tab t) = 0"

fun trie_add :: "key \<Rightarrow> trie \<Rightarrow> (trie \<times> bool) option" where
  "trie_add [] (Trie r tb) = Some (Trie (r + 1) tb, r + 1 = 1)"
| "trie_add (ch # k) (Trie r tb) =
     (let c = unat ch; tb1 = extend c tb; (tb2, n) = child_node trie_t c tb1 in
      if live_nodes tb2 \<noteq> live_nodes tb1 \<and> \<not> (if length (slots tb2) = 1 then live_nodes tb2 = 1 else live_nodes tb2 > 1)
      then None
      else do {
        (n', new) \<leftarrow> trie_add k n;
        Some (Trie r (set_slot c (Some n') tb2), new) })"

fun trie_rm :: "key \<Rightarrow> trie \<Rightarrow> (trie \<times> bool) option" where
  "trie_rm [] (Trie r tb) =
     Some (if r = 0 then (Trie r tb, False) else (Trie (r - 1) tb, r - 1 = 0))"
| "trie_rm (ch # k) (Trie r tb) =
     (let c = unat ch in
      if length (slots tb) = 0 \<or> \<not> in_range c tb then Some (Trie r tb, False)
      else (case slots tb ! (c - tmin tb) of
        None \<Rightarrow> Some (Trie r tb, False)
      | Some n \<Rightarrow> do {
          (n', ret) \<leftarrow> trie_rm k n;
          if is_redundant n' then do { tb' \<leftarrow> trie_prune c tb; Some (Trie r tb', ret) }
          else Some (Trie r (set_slot c (Some n') tb), ret) }))"

fun trie_check :: "trie \<Rightarrow> byte list \<Rightarrow> bool option" where
  "trie_check (Trie r tb) data =
     (if r \<noteq> 0 then Some True
      else (case data of
        [] \<Rightarrow> Some False
      | ch # rest \<Rightarrow>
          if \<not> in_range (unat ch) tb then Some False
          else (case slots tb ! (unat ch - tmin tb) of
            Some n \<Rightarrow> trie_check n rest
          | None \<Rightarrow> if length (slots tb) = 1 then None else Some False)))"

lemma size_slot: "Some n \<in> set ss \<Longrightarrow> size n < Suc (size_list (size_option size) ss)"
  by (induction ss) auto

text \<open>The calls of the function given to \<open>apply\<close>, in order.\<close>

function apply_helper :: "byte list \<Rightarrow> trie \<Rightarrow> byte list list option" where
  "apply_helper buf (Trie r tb) =
     map_option (\<lambda>calls. (if r \<noteq> 0 then [buf] else []) @ concat calls)
       (those (map (\<lambda>(j, x). case x of
             None \<Rightarrow> if length (slots tb) = 1 then None else Some []
           | Some n \<Rightarrow> apply_helper (buf @ [of_nat (tmin tb + j)]) n)
          (enumerate 0 (slots tb))))"
  by pat_completeness auto
termination
proof (relation "measure (\<lambda>(buf, t). size t)", goal_cases)
  case (2 buf r tb z j x n)
  then have "Some n \<in> set (slots tb)" by (auto simp: in_set_enumerate_eq dest: nth_mem[of _ "slots tb"])
  then show ?case using size_slot by (cases tb) fastforce
qed simp

definition trie_apply :: "trie \<Rightarrow> byte list list option" where
  "trie_apply t = apply_helper [] t"

section \<open>Specification\<close>

text \<open>Sequences of subscriptions and cancellations, on a filter with operations \<open>add\<close> and \<open>rm\<close>, and their meaning.\<close>

datatype sub_op = Sub key | Unsub key

fun run_subs :: "(key \<Rightarrow> 's \<Rightarrow> ('s \<times> bool) option) \<Rightarrow> (key \<Rightarrow> 's \<Rightarrow> ('s \<times> bool) option) \<Rightarrow> sub_op list \<Rightarrow> 's \<Rightarrow>
    ('s \<times> bool list) option" where
  "run_subs add rm [] s = Some (s, [])"
| "run_subs add rm (x # xs) s = do {
     (s1, b) \<leftarrow> (case x of Sub k \<Rightarrow> add k s | Unsub k \<Rightarrow> rm k s);
     (s2, bs) \<leftarrow> run_subs add rm xs s1;
     Some (s2, b # bs) }"

fun spec_subs :: "sub_op list \<Rightarrow> (key \<Rightarrow> nat) \<Rightarrow> key \<Rightarrow> nat" where
  "spec_subs [] f = f"
| "spec_subs (Sub k # xs) f = spec_subs xs (f(k := f k + 1))"
| "spec_subs (Unsub k # xs) f = spec_subs xs (f(k := f k - 1))"

fun spec_replies :: "sub_op list \<Rightarrow> (key \<Rightarrow> nat) \<Rightarrow> bool list" where
  "spec_replies [] f = []"
| "spec_replies (Sub k # xs) f = (f k = 0) # spec_replies xs (f(k := f k + 1))"
| "spec_replies (Unsub k # xs) f = (f k = 1) # spec_replies xs (f(k := f k - 1))"

locale subscriptions =
  fixes inv :: "'s \<Rightarrow> bool" and count :: "'s \<Rightarrow> key \<Rightarrow> 32 word" and tidy :: "'s \<Rightarrow> bool"
    and add :: "key \<Rightarrow> 's \<Rightarrow> ('s \<times> bool) option" and rm :: "key \<Rightarrow> 's \<Rightarrow> ('s \<times> bool) option"
  assumes add_law: "inv s \<Longrightarrow> \<exists>s'. add k s = Some (s', count s k = 0) \<and> inv s' \<and> count s' = (count s)(k := count s k + 1) \<and>
      (tidy s \<longrightarrow> count s k + 1 \<noteq> 0 \<longrightarrow> tidy s')"
    and rm_law: "inv s \<Longrightarrow> \<exists>s'. rm k s = Some (s', count s k = 1) \<and> inv s' \<and>
      count s' = (count s)(k := if count s k = 0 then 0 else count s k - 1) \<and> (tidy s \<longrightarrow> tidy s')"
begin

lemma run_spec:
  assumes "inv s" "tidy s" "\<And>k. count s k = of_nat (f k)" "\<And>k. f k + length xs < 2 ^ 32"
  shows "\<exists>s'. run_subs add rm xs s = Some (s', spec_replies xs f) \<and> inv s' \<and> tidy s' \<and>
    (\<forall>k. count s' k = of_nat (spec_subs xs f k) \<and> spec_subs xs f k < 2 ^ 32)"
  using assms
proof (induction xs arbitrary: s f)
  case (Cons x xs)
  have small: "f k + 1 < 2 ^ 32" for k using Cons.prems(4)[of k] by simp
  have eq: "(of_nat (f k) :: 32 word) = of_nat m \<longleftrightarrow> f k = m" if "m < 2 ^ 32" for k m
    using that small[of k] by (simp add: word_of_nat_eq_iff take_bit_nat_eq_self)
  show ?case
  proof (cases x)
    case (Sub k)
    obtain s1 where s1: "add k s = Some (s1, count s k = 0)" "inv s1" "count s1 = (count s)(k := count s k + 1)"
      "tidy s \<longrightarrow> count s k + 1 \<noteq> 0 \<longrightarrow> tidy s1" using add_law[OF Cons.prems(1)] by blast
    have z: "count s k = 0 \<longleftrightarrow> f k = 0" using Cons.prems(3) eq[of 0 k] by simp
    have "(of_nat (f k + 1) :: 32 word) \<noteq> 0" using small[of k] by (simp only: word_of_nat_eq_0_iff) (auto dest: dvd_imp_le)
    then have "tidy s1" using s1(4) Cons.prems(2,3) by (simp add: add.commute)
    moreover have "count s1 y = of_nat ((f(k := f k + 1)) y)" for y using s1(3) Cons.prems(3) by simp
    moreover have "(f(k := f k + 1)) y + length xs < 2 ^ 32" for y using Cons.prems(4)[of y] by auto
    ultimately show ?thesis using Cons.IH[OF s1(2), of "f(k := f k + 1)"] s1(1) Sub z by fastforce
  next
    case (Unsub k)
    obtain s1 where s1: "rm k s = Some (s1, count s k = 1)" "inv s1"
      "count s1 = (count s)(k := if count s k = 0 then 0 else count s k - 1)" "tidy s1"
      using rm_law[OF Cons.prems(1)] Cons.prems(2) by blast
    have z: "count s k = 1 \<longleftrightarrow> f k = 1" using Cons.prems(3) eq[of 1 k] by simp
    have "count s k = 0 \<longleftrightarrow> f k = 0" using Cons.prems(3) eq[of 0 k] by simp
    then have "count s1 y = of_nat ((f(k := f k - 1)) y)" for y using s1(3) Cons.prems(3) by (simp add: of_nat_diff)
    moreover have "(f(k := f k - 1)) y + length xs < 2 ^ 32" for y using Cons.prems(4)[of y] by auto
    ultimately show ?thesis using Cons.IH[OF s1(2,4), of "f(k := f k - 1)"] s1(1) Unsub z by fastforce
  qed
qed simp

end

section \<open>Invariant\<close>

inductive trie_inv :: "trie \<Rightarrow> bool" where
  "tb_wf tb \<Longrightarrow> (\<And>c n. tb_get tb c = Some n \<Longrightarrow> trie_inv n) \<Longrightarrow> trie_inv (Trie r tb)"

inductive_simps trie_inv_simps: "trie_inv (Trie r tb)"

inductive trie_tidy :: "trie \<Rightarrow> bool" where
  "(\<And>c n. tb_get tb c = Some n \<Longrightarrow> trie_tidy n \<and> \<not> is_redundant n) \<Longrightarrow> trie_tidy (Trie r tb)"

inductive_simps trie_tidy_simps: "trie_tidy (Trie r tb)"

fun sub_count :: "trie \<Rightarrow> key \<Rightarrow> 32 word" where
  "sub_count (Trie r tb) [] = r"
| "sub_count (Trie r tb) (ch # k) = (case tb_get tb (unat ch) of None \<Rightarrow> 0 | Some n \<Rightarrow> sub_count n k)"

lemma unat_byte [simp]: "unat (c :: byte) < 256"
  using unsigned_less[of c] by simp

lemma trie_t_simps [simp]: "trie_inv trie_t" "trie_tidy trie_t" "sub_count trie_t k = 0" "refcnt trie_t = 0"
  by (cases k; simp add: trie_t_def trie_inv_simps trie_tidy_simps)+

lemma redundant_count: "trie_inv t \<Longrightarrow> is_redundant t \<Longrightarrow> sub_count t k = 0"
  by (cases t; cases k) (auto simp: trie_inv_simps is_redundant_def tb_wf_live_0)

text \<open>Replacing the subtrie of a character.\<close>

lemma sub_count_set:
  assumes "tb_get tb' = (tb_get tb)(unat ch := x)"
  shows "sub_count (Trie r tb') = (\<lambda>k. case k of
      [] \<Rightarrow> r | c # k' \<Rightarrow> if c = ch then (case x of None \<Rightarrow> 0 | Some n \<Rightarrow> sub_count n k') else sub_count (Trie r tb) k)"
  using assms by (auto simp: fun_eq_iff word_unat_eq_iff split: list.split)

lemma sub_count_upd:
  assumes "tb_get tb' = (tb_get tb)(unat ch := x)"
    "(\<lambda>k. case x of None \<Rightarrow> 0 | Some n \<Rightarrow> sub_count n k) = (\<lambda>k. sub_count (Trie r tb) (ch # k))(k := v)"
  shows "sub_count (Trie r tb') = (sub_count (Trie r tb))(ch # k := v)"
proof
  fix y show "sub_count (Trie r tb') y = ((sub_count (Trie r tb))(ch # k := v)) y"
    unfolding sub_count_set[OF assms(1)] using fun_cong[OF assms(2)] by (cases y) auto
qed

lemma add_ok:
  "trie_inv t \<Longrightarrow> \<exists>t'. trie_add k t = Some (t', sub_count t k = 0) \<and> trie_inv t' \<and>
     sub_count t' = (sub_count t)(k := sub_count t k + 1) \<and>
     (trie_tidy t \<longrightarrow> sub_count t k + 1 \<noteq> 0 \<longrightarrow> trie_tidy t' \<and> \<not> is_redundant t')"
proof (induction k arbitrary: t)
  case Nil
  obtain r tb where t: "t = Trie r tb" by (cases t)
  have "sub_count (Trie (r + 1) tb) = (sub_count (Trie r tb))([] := r + 1)"
    by (rule ext, case_tac x) simp_all
  then show ?case using Nil t by (auto simp: trie_inv_simps trie_tidy_simps is_redundant_def)
next
  case (Cons ch k)
  obtain r tb where t: "t = Trie r tb" by (cases t)
  let ?c = "unat ch"
  have wf: "tb_wf tb" and sub: "\<And>c n. tb_get tb c = Some n \<Longrightarrow> trie_inv n" using Cons.prems t by (auto simp: trie_inv_simps)
  obtain tb2 n where ch: "child_node trie_t ?c (extend ?c tb) = (tb2, n)" by fastforce
  note a = add_child[OF wf unat_byte ch]
  have "trie_inv n" using a(1) sub[of ?c] by (auto split: option.splits)
  from Cons.IH[OF this] obtain n' where n': "trie_add k n = Some (n', sub_count n k = 0)" "trie_inv n'"
    "sub_count n' = (sub_count n)(k := sub_count n k + 1)"
    "trie_tidy n \<longrightarrow> sub_count n k + 1 \<noteq> 0 \<longrightarrow> trie_tidy n' \<and> \<not> is_redundant n'" by blast
  have cn: "sub_count n y = sub_count t (ch # y)" for y using a(1) t by (simp split: option.split)
  let ?t' = "Trie r (set_slot ?c (Some n') tb2)"
  have live: "live_nodes tb2 = live_nodes (extend ?c tb) \<or> (if length (slots tb2) = 1 then live_nodes tb2 = 1 else live_nodes tb2 > 1)"
  proof (cases "tb_get tb ?c")
    case None
    then have l: "live_nodes tb2 = card (insert ?c (dom (tb_get tb)))"
      using wf a(4) by (simp add: tb_wf_def card_insert_if domIff)
    moreover have "card (insert ?c (dom (tb_get tb))) \<noteq> 0" by simp
    ultimately show ?thesis using a(6) by (auto simp del: card_0_eq card_insert_disjoint)
  next
    case (Some m)
    then show ?thesis using a(4) extend_shape(2)[OF wf unat_byte] by simp
  qed
  have "trie_add (ch # k) t = Some (?t', sub_count t (ch # k) = 0)"
    using t ch n'(1) live cn[of k] by (simp add: Let_def del: sub_count.simps)
  moreover have "trie_inv ?t'" using a(2,3) sub n'(2) by (auto simp: trie_inv_simps split: if_splits)
  moreover have "sub_count ?t' = (sub_count t)(ch # k := sub_count t (ch # k) + 1)"
    unfolding t by (rule sub_count_upd[OF a(2)]) (use n'(3) cn t in \<open>simp add: fun_eq_iff\<close>)
  moreover have "trie_tidy ?t' \<and> \<not> is_redundant ?t'" if td: "trie_tidy t" "sub_count t (ch # k) + 1 \<noteq> 0"
  proof -
    have "trie_tidy n" using td(1) a(1) t by (auto simp: trie_tidy_simps split: option.splits)
    then have m: "trie_tidy n'" "\<not> is_redundant n'" using n'(4) td(2) cn by auto
    have "trie_tidy ?t'" using td(1) m a(2) t by (auto simp: trie_tidy_simps split: if_splits)
    moreover have "live_nodes (set_slot ?c (Some n') tb2) \<noteq> 0" using tb_wf_live_0[OF a(3), of n'] a(2)[of n'] by simp
    ultimately show ?thesis by (simp add: is_redundant_def)
  qed
  ultimately show ?case by blast
qed

lemma rm_ok:
  "trie_inv t \<Longrightarrow> \<exists>t'. trie_rm k t = Some (t', sub_count t k = 1) \<and> trie_inv t' \<and>
     sub_count t' = (sub_count t)(k := if sub_count t k = 0 then 0 else sub_count t k - 1) \<and> (trie_tidy t \<longrightarrow> trie_tidy t')"
proof (induction k arbitrary: t)
  case Nil
  obtain r tb where t: "t = Trie r tb" by (cases t)
  have "sub_count (Trie (r - 1) tb) = (sub_count (Trie r tb))([] := r - 1)"
    by (rule ext, case_tac x) simp_all
  moreover have "(sub_count (Trie 0 tb))([] := 0) = sub_count (Trie 0 tb)" by (simp add: fun_upd_idem)
  ultimately show ?case using Nil t by (cases "r = 0") (simp_all add: trie_inv_simps trie_tidy_simps fun_upd_def)
next
  case (Cons ch k)
  obtain r tb where t: "t = Trie r tb" by (cases t)
  let ?c = "unat ch"
  have wf: "tb_wf tb" and sub: "\<And>c n. tb_get tb c = Some n \<Longrightarrow> trie_inv n" using Cons.prems t by (auto simp: trie_inv_simps)
  show ?case
  proof (cases "tb_get tb ?c")
    case None
    then have "trie_rm (ch # k) t = Some (t, False)"
      using t by (auto simp: tb_get_def Let_def split: if_splits)
    moreover have z: "sub_count t (ch # k) = 0" using None t by simp
    then have "sub_count t = (sub_count t)(ch # k := 0)" by (simp add: fun_upd_idem)
    ultimately show ?thesis using Cons.prems z by (intro exI[of _ t]) simp
  next
    case (Some n)
    have nth: "in_range ?c tb" "slots tb ! (?c - tmin tb) = Some n" "slots tb \<noteq> []"
      using Some by (auto simp: tb_get_def in_range_def split: if_splits)
    from Cons.IH[OF sub[OF Some]] obtain n' where n': "trie_rm k n = Some (n', sub_count n k = 1)" "trie_inv n'"
      "sub_count n' = (sub_count n)(k := if sub_count n k = 0 then 0 else sub_count n k - 1)" "trie_tidy n \<longrightarrow> trie_tidy n'" by blast
    have cn: "sub_count n y = sub_count t (ch # y)" for y using Some t by simp
    have "\<exists>tb' x. trie_rm (ch # k) t = Some (Trie r tb', sub_count n k = 1) \<and> tb_wf tb' \<and> tb_get tb' = (tb_get tb)(?c := x) \<and>
      (x = Some n' \<and> \<not> is_redundant n' \<or> x = None \<and> is_redundant n')"
    proof (cases "is_redundant n'")
      case True
      then show ?thesis using trie_prune_ok[OF wf Some] t nth n'(1) by (fastforce simp: Let_def)
    next
      case False
      then show ?thesis using set_slot_existing[OF wf Some, of n'] t nth n'(1) by (auto simp: Let_def)
    qed
    then obtain tb' x where x: "trie_rm (ch # k) t = Some (Trie r tb', sub_count n k = 1)" "tb_wf tb'" "tb_get tb' = (tb_get tb)(?c := x)"
      "x = Some n' \<and> \<not> is_redundant n' \<or> x = None \<and> is_redundant n'" by blast
    have "trie_inv (Trie r tb')" using x sub n'(2) by (auto simp: trie_inv_simps split: if_splits)
    moreover have "(\<lambda>y. case x of None \<Rightarrow> 0 | Some m \<Rightarrow> sub_count m y) = sub_count n'"
      using x(4) redundant_count[OF n'(2)] by (auto simp: fun_eq_iff)
    then have "sub_count (Trie r tb') = (sub_count t)(ch # k := if sub_count t (ch # k) = 0 then 0 else sub_count t (ch # k) - 1)"
      unfolding t by (rule_tac sub_count_upd[OF x(3)]) (use n'(3) cn t in \<open>simp add: fun_eq_iff\<close>)
    moreover have "trie_tidy t \<longrightarrow> trie_tidy (Trie r tb')" using x Some n'(4) t by (auto simp: trie_tidy_simps split: if_splits)
    ultimately show ?thesis using x(1) cn[of k] by auto
  qed
qed

interpretation trie_subs: subscriptions trie_inv sub_count trie_tidy trie_add trie_rm
proof
  fix s k
  assume "trie_inv s"
  from add_ok[OF this, of k] rm_ok[OF this, of k]
  show "\<exists>s'. trie_add k s = Some (s', sub_count s k = 0) \<and> trie_inv s' \<and> sub_count s' = (sub_count s)(k := sub_count s k + 1) \<and>
      (trie_tidy s \<longrightarrow> sub_count s k + 1 \<noteq> 0 \<longrightarrow> trie_tidy s')"
    "\<exists>s'. trie_rm k s = Some (s', sub_count s k = 1) \<and> trie_inv s' \<and>
      sub_count s' = (sub_count s)(k := if sub_count s k = 0 then 0 else sub_count s k - 1) \<and> (trie_tidy s \<longrightarrow> trie_tidy s')"
    by blast+
qed

section \<open>Queries\<close>

lemma check_ok:
  "trie_inv t \<Longrightarrow> trie_check t d = Some (\<exists>p. prefix p d \<and> sub_count t p \<noteq> 0)"
proof (induction d arbitrary: t)
  case Nil
  then show ?case by (cases t) simp
next
  case (Cons ch d)
  obtain r tb where t: "t = Trie r tb" by (cases t)
  let ?c = "unat ch"
  have wf: "tb_wf tb" and sub: "\<And>c n. tb_get tb c = Some n \<Longrightarrow> trie_inv n" using Cons.prems t by (auto simp: trie_inv_simps)
  have ex: "(\<exists>p. prefix p (ch # d) \<and> sub_count t p \<noteq> 0) \<longleftrightarrow> r \<noteq> 0 \<or> (\<exists>p. prefix p d \<and> sub_count t (ch # p) \<noteq> 0)"
    unfolding prefix_Cons t by auto
  show ?case
  proof (cases "tb_get tb ?c")
    case None
    have "length (slots tb) = 1 \<longrightarrow> \<not> in_range ?c tb"
      using None wf by (auto simp: tb_wf_def tb_get_def in_range_def split: if_splits)
    then show ?thesis unfolding ex using None t by (auto simp: tb_get_def split: if_splits)
  next
    case (Some n)
    have "in_range ?c tb" "slots tb ! (?c - tmin tb) = Some n" using Some by (auto simp: tb_get_def split: if_splits)
    then show ?thesis unfolding ex using Cons.IH[OF sub[OF Some]] Some t by simp
  qed
qed

lemma those_map: "(\<And>x. x \<in> set xs \<Longrightarrow> f x = Some (g x)) \<Longrightarrow> those (map f xs) = Some (map g xs)"
  by (induction xs) auto

lemma distinct_concat_map:
  "distinct xs \<Longrightarrow> (\<And>x. x \<in> set xs \<Longrightarrow> distinct (g x)) \<Longrightarrow>
    (\<And>x y. x \<in> set xs \<Longrightarrow> y \<in> set xs \<Longrightarrow> x \<noteq> y \<Longrightarrow> set (g x) \<inter> set (g y) = {}) \<Longrightarrow> distinct (concat (map g xs))"
  by (induction xs) auto

text \<open>A visit of all subnodes that visits each key below them once visits each key below the node once.\<close>

lemma enumerate_keys:
  fixes tb :: "'n tbl" and K :: "'n \<Rightarrow> key set"
  assumes wf: "tb_wf tb" and d: "\<And>p. p \<in> set (enumerate 0 (slots tb)) \<Longrightarrow> distinct (g p)"
    and s: "\<And>j x. (j, x) \<in> set (enumerate 0 (slots tb)) \<Longrightarrow>
      set (g (j, x)) = (case x of None \<Rightarrow> {} | Some n \<Rightarrow> (@) (buf @ [of_nat (tmin tb + j)]) ` K n)"
  shows "distinct (concat (map g (enumerate 0 (slots tb))))"
    "set (concat (map g (enumerate 0 (slots tb)))) = (@) buf ` {ch # k | ch k n. tb_get tb (unat ch) = Some n \<and> k \<in> K n}"
proof -
  let ?E = "set (enumerate 0 (slots tb))"
  have inj: "j = j'" if "j < length (slots tb)" "j' < length (slots tb)" "(of_nat (tmin tb + j) :: byte) = of_nat (tmin tb + j')" for j j'
    using that wf unfolding word_of_nat_eq_iff by (simp add: tb_wf_def take_bit_nat_eq_self)
  show "distinct (concat (map g (enumerate 0 (slots tb))))"
  proof (rule distinct_concat_map)
    fix p q assume pq: "p \<in> ?E" "q \<in> ?E" "p \<noteq> q"
    then have "fst p \<noteq> fst q" "fst p < length (slots tb)" "fst q < length (slots tb)" by (auto simp: in_set_enumerate_eq prod_eq_iff)
    then have "(of_nat (tmin tb + fst p) :: byte) \<noteq> of_nat (tmin tb + fst q)" using inj by blast
    then show "set (g p) \<inter> set (g q) = {}"
      using s[of "fst p" "snd p"] s[of "fst q" "snd q"] pq by (auto split: option.splits)
  qed (use d in simp_all)
  have key: "(\<exists>j x. (j, x) \<in> ?E \<and> y \<in> (case x of None \<Rightarrow> {} | Some n \<Rightarrow> (@) (buf @ [of_nat (tmin tb + j)]) ` K n)) \<longleftrightarrow>
      y \<in> (@) buf ` {ch # k | ch k n. tb_get tb (unat ch) = Some n \<and> k \<in> K n}" for y
  proof
    assume "\<exists>j x. (j, x) \<in> ?E \<and> y \<in> (case x of None \<Rightarrow> {} | Some n \<Rightarrow> (@) (buf @ [of_nat (tmin tb + j)]) ` K n)"
    then obtain j n k where e: "(j, Some n) \<in> ?E" "k \<in> K n" "y = buf @ of_nat (tmin tb + j) # k" by (auto split: option.splits)
    then have j: "j < length (slots tb)" "slots tb ! j = Some n" by (auto simp: in_set_enumerate_eq)
    then have "tmin tb + j < 256" using wf by (simp add: tb_wf_def)
    then have "unat (of_nat (tmin tb + j) :: byte) = tmin tb + j" by (simp only: unat_of_nat) simp
    then have "tb_get tb (unat (of_nat (tmin tb + j) :: byte)) = Some n" using j by (simp add: tb_get_def in_range_def)
    then show "y \<in> (@) buf ` {ch # k | ch k n. tb_get tb (unat ch) = Some n \<and> k \<in> K n}" using e by blast
  next
    assume "y \<in> (@) buf ` {ch # k | ch k n. tb_get tb (unat ch) = Some n \<and> k \<in> K n}"
    then obtain ch k n where e: "y = buf @ ch # k" "tb_get tb (unat ch) = Some n" "k \<in> K n" by blast
    let ?j = "unat ch - tmin tb"
    have "(?j, Some n) \<in> ?E" "tmin tb + ?j = unat ch" using tb_get_range[OF e(2)] by (auto simp: in_set_enumerate_eq)
    moreover have "y \<in> (@) (buf @ [of_nat (tmin tb + ?j)]) ` K n" using calculation(2) e by (simp del: of_nat_add)
    ultimately show "\<exists>j x. (j, x) \<in> ?E \<and> y \<in> (case x of None \<Rightarrow> {} | Some n \<Rightarrow> (@) (buf @ [of_nat (tmin tb + j)]) ` K n)"
      by (intro exI[of _ ?j] exI[of _ "Some n"]) simp
  qed
  have "set (concat (map g (enumerate 0 (slots tb)))) =
      {y. \<exists>j x. (j, x) \<in> ?E \<and> y \<in> (case x of None \<Rightarrow> {} | Some n \<Rightarrow> (@) (buf @ [of_nat (tmin tb + j)]) ` K n)}"
    using s by (force simp: Bex_def)
  then show "set (concat (map g (enumerate 0 (slots tb)))) = (@) buf ` {ch # k | ch k n. tb_get tb (unat ch) = Some n \<and> k \<in> K n}"
    unfolding key by simp
qed

lemma apply_ok:
  "trie_inv t \<Longrightarrow> \<exists>ks. apply_helper buf t = Some ks \<and> distinct ks \<and> set ks = (@) buf ` {k. sub_count t k \<noteq> 0}"
proof (induction arbitrary: buf rule: trie_inv.induct)
  case (1 tb r)
  let ?f = "\<lambda>(j, x). case x of None \<Rightarrow> if length (slots tb) = 1 then None else Some []
      | Some n \<Rightarrow> apply_helper (buf @ [of_nat (tmin tb + j)]) n"
  let ?K = "\<lambda>n. {k. sub_count n k \<noteq> 0}"
  have "\<exists>ks. ?f (j, x) = Some ks \<and> distinct ks \<and> set ks = (case x of None \<Rightarrow> {} | Some n \<Rightarrow> (@) (buf @ [of_nat (tmin tb + j)]) ` ?K n)"
    if "(j, x) \<in> set (enumerate 0 (slots tb))" for j x
  proof -
    have e: "slots tb ! j = x" "j < length (slots tb)" "tb_get tb (tmin tb + j) = x"
      using that by (auto simp: in_set_enumerate_eq tb_get_def in_range_def)
    show ?thesis
    proof (cases x)
      case None
      then have "length (slots tb) \<noteq> 1" using e 1(1) by (auto simp: tb_wf_def)
      then show ?thesis using None by simp
    next
      case (Some n)
      then show ?thesis using 1(3)[of "tmin tb + j" n "buf @ [of_nat (tmin tb + j)]"] e by simp
    qed
  qed
  then obtain g where g: "\<And>j x. (j, x) \<in> set (enumerate 0 (slots tb)) \<Longrightarrow> ?f (j, x) = Some (g (j, x)) \<and> distinct (g (j, x)) \<and>
      set (g (j, x)) = (case x of None \<Rightarrow> {} | Some n \<Rightarrow> (@) (buf @ [of_nat (tmin tb + j)]) ` ?K n)"
    by (rule_tac that[of "\<lambda>p. the (?f p)"]) fastforce
  have dg: "distinct (g p)" if "p \<in> set (enumerate 0 (slots tb))" for p using g[of "fst p" "snd p"] that by simp
  have sg: "set (g (j, x)) = (case x of None \<Rightarrow> {} | Some n \<Rightarrow> (@) (buf @ [of_nat (tmin tb + j)]) ` ?K n)"
    if "(j, x) \<in> set (enumerate 0 (slots tb))" for j x using g[OF that] by blast
  let ?c = "concat (map g (enumerate 0 (slots tb)))" and ?r = "if r \<noteq> 0 then [buf] else []"
  have ap: "apply_helper buf (Trie r tb) = Some (?r @ ?c)"
  proof -
    have "?f p = Some (g p)" if "p \<in> set (enumerate 0 (slots tb))" for p
      using g[of "fst p" "snd p"] that unfolding prod.collapse by blast
    then have "those (map ?f (enumerate 0 (slots tb))) = Some (map g (enumerate 0 (slots tb)))" by (rule those_map)
    then show ?thesis by (simp only: apply_helper.simps option.map)
  qed
  note c = enumerate_keys[OF 1(1) dg sg]
  have "{k. sub_count (Trie r tb) k \<noteq> 0} = (if r \<noteq> 0 then {[]} else {}) \<union> {ch # k | ch k n. tb_get tb (unat ch) = Some n \<and> k \<in> ?K n}"
    (is "_ = ?R")
  proof -
    have "sub_count (Trie r tb) k \<noteq> 0 \<longleftrightarrow> k \<in> ?R" for k by (cases k) (auto split: option.splits)
    then show ?thesis by blast
  qed
  then have "set (?r @ ?c) = (@) buf ` {k. sub_count (Trie r tb) k \<noteq> 0}" using c(2) by (auto simp: image_Un)
  moreover have "distinct (?r @ ?c)" using c by (auto simp del: set_concat)
  ultimately show ?case using ap by blast
qed

lemma tidy_empty: "trie_inv t \<Longrightarrow> trie_tidy t \<Longrightarrow> (\<And>k. sub_count t k = 0) \<Longrightarrow> slots (tab t) = []"
proof -
  have ne: "\<exists>k. sub_count t k \<noteq> 0" if "trie_inv t" "trie_tidy t" "\<not> is_redundant t" for t
    using that
  proof (induction rule: trie_inv.induct)
    case (1 tb r)
    show ?case
    proof (cases "r = 0")
      case True
      then have "live_nodes tb \<noteq> 0" using 1(5) by (simp add: is_redundant_def)
      then obtain c n where cn: "tb_get tb c = Some n" using tb_wf_live_0[OF 1(1)] by (auto simp: fun_eq_iff)
      then obtain k where k: "sub_count n k \<noteq> 0" using 1(3)[OF cn] 1(4) by (auto simp: trie_tidy_simps)
      have "c < 256" using tb_get_range[OF cn] 1(1) by (simp add: tb_wf_def)
      then have "unat (of_nat c :: byte) = c" by (simp add: unat_of_nat)
      then have "sub_count (Trie r tb) (of_nat c # k) \<noteq> 0" using cn k by simp
      then show ?thesis by blast
    next
      case False
      then have "sub_count (Trie r tb) [] \<noteq> 0" by simp
      then show ?thesis by blast
    qed
  qed
  assume a: "trie_inv t" "trie_tidy t" "\<And>k. sub_count t k = 0"
  then have "is_redundant t" using ne by blast
  then show "slots (tab t) = []" using a(1) by (cases t) (auto simp: is_redundant_def trie_inv_simps tb_wf_live_0 tb_wf_def)
qed

section \<open>Properties\<close>

text \<open>
  Claim C17: the trie implements a multiset of subscriptions. After any sequence of fewer than \<open>2 ^ 32\<close>
  calls of \<open>add\<close> and \<open>rm\<close> no assertion has failed, every call has said whether the key was new or is now
  gone, \<open>check\<close> accepts exactly the messages that start with a key still subscribed, \<open>apply\<close> visits every
  such key once, and when none is left all nodes below the root have been pruned.
\<close>

theorem trie_implements_subscriptions:
  assumes "length xs < 2 ^ 32"
  shows "\<exists>t ks. run_subs trie_add trie_rm xs trie_t = Some (t, spec_replies xs (\<lambda>_. 0)) \<and>
    (\<forall>d. trie_check t d = Some (\<exists>p. prefix p d \<and> spec_subs xs (\<lambda>_. 0) p > 0)) \<and>
    trie_apply t = Some ks \<and> distinct ks \<and> set ks = {k. spec_subs xs (\<lambda>_. 0) k > 0} \<and>
    (ks = [] \<longrightarrow> slots (tab t) = [])"
proof -
  let ?f = "spec_subs xs (\<lambda>_. 0)"
  obtain t where t: "run_subs trie_add trie_rm xs trie_t = Some (t, spec_replies xs (\<lambda>_. 0))" "trie_inv t" "trie_tidy t"
    "\<And>k. sub_count t k = of_nat (?f k) \<and> ?f k < 2 ^ 32"
    using trie_subs.run_spec[of trie_t "\<lambda>_. 0" xs] assms by auto
  have z: "sub_count t k \<noteq> 0 \<longleftrightarrow> ?f k > 0" for k
    using t(4)[of k] by (cases "?f k") (auto simp: word_of_nat_eq_0_iff simp del: of_nat_Suc dest: dvd_imp_le)
  obtain ks where ks: "trie_apply t = Some ks" "distinct ks" "set ks = {k. ?f k > 0}"
    using apply_ok[OF t(2), of "[]"] z by (auto simp: trie_apply_def image_def)
  have "slots (tab t) = []" if "ks = []"
    using tidy_empty[OF t(2,3)] z ks(3) that by auto
  with t(1) ks check_ok[OF t(2)] z show ?thesis by simp
qed

theorem trie_implements_subscriptions_witness:
  "\<exists>t. run_subs trie_add trie_rm [Sub [1, 2], Sub [7], Sub [1, 2], Unsub [1, 2], Unsub [7]] trie_t = Some (t, [True, True, False, False, True]) \<and>
    trie_apply t = Some [[1, 2]] \<and> trie_check t [1, 2, 3] = Some True \<and> trie_check t [7, 2] = Some False"
proof -
  let ?xs = "[Sub [1, 2], Sub [7], Sub [1, 2], Unsub [1, 2], Unsub [7 :: byte]]"
  have s: "spec_subs ?xs (\<lambda>_. 0) = (\<lambda>k. if k = [1, 2] then 1 else 0)" "spec_replies ?xs (\<lambda>_. 0) = [True, True, False, False, True]"
    by (auto simp: fun_eq_iff)
  obtain t ks where t: "run_subs trie_add trie_rm ?xs trie_t = Some (t, [True, True, False, False, True])"
    "\<And>d. trie_check t d = Some (\<exists>p. prefix p d \<and> (if p = [1, 2] then 1 else 0 :: nat) > 0)"
    "trie_apply t = Some ks" "distinct ks" "set ks = {k. (if k = [1, 2 :: byte] then 1 else 0 :: nat) > 0}"
    using trie_implements_subscriptions[of ?xs, unfolded s] by auto
  have "ks = [[1, 2]]" using t(4,5) by (cases ks; cases "tl ks") (auto dest!: equalityD1 split: if_splits)
  with t show ?thesis by (intro exI[of _ t]) auto
qed

end
