(* ===== verification/Sub_Mtrie.thy ===== *)
theory Sub_Mtrie
  imports Sub_Trie
begin

text \<open>
  The multi-trie of \<open>src/src/mtrie.cpp\<close>: each node has the set of pipes that subscribe to the key leading to
  it. Pipes are numbers, which stand for their addresses (a \<open>std::set\<close> of pointers is visited in the
  order of addresses). An operation is \<open>None\<close> when an assertion fails or a NULL node is followed.
\<close>

section \<open>Model\<close>

datatype mtrie = Mtrie (mpipes: "nat set option") (mtab: "mtrie tbl")

definition mtrie_t :: mtrie where
  "mtrie_t = Mtrie None tb_empty"

definition mt_redundant :: "mtrie \<Rightarrow> bool" where
  "mt_redundant t \<longleftrightarrow> mpipes t = None \<and> live_nodes (mtab t) = 0"

fun mtrie_add :: "key \<Rightarrow> nat \<Rightarrow> mtrie \<Rightarrow> mtrie \<times> bool" where
  "mtrie_add [] p (Mtrie ps tb) =
     (Mtrie (Some (insert p (case ps of None \<Rightarrow> {} | Some s \<Rightarrow> s))) tb, ps = None)"
| "mtrie_add (ch # k) p (Mtrie ps tb) =
     (let c = unat ch; (tb2, n) = child_node mtrie_t c (extend c tb); (n', new) = mtrie_add k p n
      in (Mtrie ps (set_slot c (Some n') tb2), new))"

text \<open>\<open>pipes->erase (pipe)\<close>, then the deletion of an empty set.\<close>

definition erase_pipe :: "nat \<Rightarrow> nat set \<Rightarrow> nat set option" where
  "erase_pipe p s = (if s - {p} = {} then None else Some (s - {p}))"

fun mtrie_rm :: "key \<Rightarrow> nat \<Rightarrow> mtrie \<Rightarrow> (mtrie \<times> bool) option" where
  "mtrie_rm [] p (Mtrie ps tb) =
     (case ps of
        None \<Rightarrow> Some (Mtrie ps tb, True)
      | Some s \<Rightarrow> if p \<in> s then Some (Mtrie (erase_pipe p s) tb, erase_pipe p s = None) else None)"
| "mtrie_rm (ch # k) p (Mtrie ps tb) =
     (let c = unat ch in
      if length (slots tb) = 0 \<or> \<not> in_range c tb then Some (Mtrie ps tb, False)
      else (case slots tb ! (c - tmin tb) of
        None \<Rightarrow> Some (Mtrie ps tb, False)
      | Some n \<Rightarrow> do {
          (n', ret) \<leftarrow> mtrie_rm k p n;
          if mt_redundant n' then do { tb' \<leftarrow> mtrie_prune c tb; Some (Mtrie ps tb', ret) }
          else Some (Mtrie ps (set_slot c (Some n') tb), ret) }))"

text \<open>
  The loop over the subnodes in \<open>rm_helper\<close> for all subscriptions of a pipe, given what the recursive
  calls return: the new \<open>live_nodes\<close>, \<open>new_min\<close> and \<open>new_max\<close>, the slots and the calls of the function.
\<close>

fun rm_loop :: "nat \<Rightarrow> nat \<Rightarrow> (mtrie \<times> byte list list) option list \<Rightarrow> nat \<Rightarrow> nat \<Rightarrow> nat \<Rightarrow>
    (nat \<times> nat \<times> nat \<times> mtrie option list \<times> byte list list) option" where
  "rm_loop m c [] l lo hi = Some (l, lo, hi, [], [])"
| "rm_loop m c (None # rs) l lo hi =
     map_option (\<lambda>(l', lo', hi', ss, cs). (l', lo', hi', None # ss, cs)) (rm_loop m (c + 1) rs l lo hi)"
| "rm_loop m c (Some (n, calls) # rs) l lo hi =
     (if mt_redundant n then
        (if l > 0 then map_option (\<lambda>(l', lo', hi', ss, cs). (l', lo', hi', None # ss, calls @ cs)) (rm_loop m (c + 1) rs (l - 1) lo hi)
         else None)
      else map_option (\<lambda>(l', lo', hi', ss, cs). (l', lo', hi', Some n # ss, calls @ cs))
        (rm_loop m (c + 1) rs l (if c + m < lo then c + m else lo) (if c + m > hi then c + m else hi)))"

text \<open>The compaction after the loop.\<close>

definition rm_compact :: "nat \<Rightarrow> nat \<Rightarrow> nat \<Rightarrow> nat \<Rightarrow> nat \<Rightarrow> 'n option list \<Rightarrow> 'n tbl option" where
  "rm_compact m n l lo hi ss =
     (if l = 0 then Some (Tbl m 0 [])
      else if l = 1 then
        (if lo = hi \<and> lo \<ge> m \<and> lo < m + n \<and> ss ! (lo - m) \<noteq> None then Some (Tbl lo 1 [ss ! (lo - m)]) else None)
      else if lo > m \<or> hi < m + n - 1 then
        (if hi - lo + 1 > 1 \<and> lo \<ge> m \<and> hi \<le> m + n - 1 \<and> hi - lo + 1 < n
         then Some (Tbl lo l (take (hi - lo + 1) (drop (lo - m) ss))) else None)
      else Some (Tbl m l ss))"

text \<open>The removal of the pipe from the node itself: the set left and the call of the function.\<close>

definition rm_here :: "nat \<Rightarrow> bool \<Rightarrow> byte list \<Rightarrow> nat set option \<Rightarrow> nat set option \<times> byte list list" where
  "rm_here p uniq buf ps =
     (case ps of
        None \<Rightarrow> (None, [])
      | Some s \<Rightarrow> if p \<in> s then (erase_pipe p s, if \<not> uniq \<or> s - {p} = {} then [buf] else []) else (ps, []))"

lemma msize_slot: "Some n \<in> set ss \<Longrightarrow> size n < Suc (size_list (size_option size) ss)"
  by (induction ss) auto

function mtrie_rm_all :: "nat \<Rightarrow> bool \<Rightarrow> byte list \<Rightarrow> mtrie \<Rightarrow> (mtrie \<times> byte list list) option" where
  "mtrie_rm_all p uniq buf (Mtrie ps tb) =
     (let (ps1, calls) = rm_here p uniq buf ps; m = tmin tb; n = length (slots tb); l = live_nodes tb in
      if n = 0 then Some (Mtrie ps1 tb, calls)
      else do {
        rs \<leftarrow> those (map (\<lambda>(j, x). case x of
               None \<Rightarrow> if n = 1 then None else Some None
             | Some node \<Rightarrow> map_option Some (mtrie_rm_all p uniq (buf @ [of_nat (m + j)]) node))
            (enumerate 0 (slots tb)));
        if n = 1 then
          (case rs of
             [Some (node, cs)] \<Rightarrow>
               if mt_redundant node then (if l = 1 then Some (Mtrie ps1 (Tbl m 0 []), calls @ cs) else None)
               else Some (Mtrie ps1 (Tbl m l [Some node]), calls @ cs)
           | _ \<Rightarrow> None)
        else do {
          (l', lo, hi, ss, cs) \<leftarrow> rm_loop m 0 rs l (m + n - 1) m;
          tb' \<leftarrow> rm_compact m n l' lo hi ss;
          Some (Mtrie ps1 tb', calls @ cs) } })"
  by pat_completeness auto
termination
proof (relation "measure (\<lambda>(p, uniq, buf, t). size t)", goal_cases)
  case (2 p uniq buf ps tb x ps1 calls m n l z j y node)
  then have "Some node \<in> set (slots tb)" by (auto simp: in_set_enumerate_eq dest: nth_mem[of _ "slots tb"])
  then show ?case using msize_slot by (cases tb) fastforce
qed simp

fun mtrie_match :: "mtrie \<Rightarrow> byte list \<Rightarrow> nat list option" where
  "mtrie_match (Mtrie ps tb) data =
     map_option (\<lambda>rest. (case ps of None \<Rightarrow> [] | Some s \<Rightarrow> sorted_list_of_set s) @ rest)
       (case data of
          [] \<Rightarrow> Some []
        | ch # data' \<Rightarrow>
            if length (slots tb) = 0 then Some []
            else if length (slots tb) = 1 then
              (if unat ch \<noteq> tmin tb then Some []
               else (case slots tb ! 0 of None \<Rightarrow> None | Some n \<Rightarrow> mtrie_match n data'))
            else if unat ch < tmin tb \<or> unat ch \<ge> tmin tb + length (slots tb) then Some []
            else (case slots tb ! (unat ch - tmin tb) of None \<Rightarrow> Some [] | Some n \<Rightarrow> mtrie_match n data'))"

section \<open>Specification and invariant\<close>

fun msubs :: "mtrie \<Rightarrow> key \<Rightarrow> nat set" where
  "msubs (Mtrie ps tb) [] = (case ps of None \<Rightarrow> {} | Some s \<Rightarrow> s)"
| "msubs (Mtrie ps tb) (ch # k) = (case tb_get tb (unat ch) of None \<Rightarrow> {} | Some n \<Rightarrow> msubs n k)"

inductive mtrie_inv :: "mtrie \<Rightarrow> bool" where
  "tb_wf tb \<Longrightarrow> (\<And>s. ps = Some s \<Longrightarrow> finite s \<and> s \<noteq> {}) \<Longrightarrow>
    (\<And>c n. tb_get tb c = Some n \<Longrightarrow> mtrie_inv n) \<Longrightarrow> (\<And>c n. tb_get tb c = Some n \<Longrightarrow> \<not> mt_redundant n) \<Longrightarrow>
    mtrie_inv (Mtrie ps tb)"

inductive_simps mtrie_inv_simps: "mtrie_inv (Mtrie ps tb)"

lemma mtrie_t_simps [simp]: "mtrie_inv mtrie_t" "msubs mtrie_t k = {}"
  by (cases k; simp add: mtrie_t_def mtrie_inv_simps)+

lemma mredundant_subs: "mtrie_inv t \<Longrightarrow> mt_redundant t \<Longrightarrow> msubs t k = {}"
  by (cases t; cases k) (auto simp: mtrie_inv_simps mt_redundant_def tb_wf_live_0)

lemma msubs_set:
  assumes "tb_get tb' = (tb_get tb)(unat ch := x)"
  shows "msubs (Mtrie ps tb') = (\<lambda>k. case k of
      [] \<Rightarrow> msubs (Mtrie ps tb) [] | c # k' \<Rightarrow> if c = ch then (case x of None \<Rightarrow> {} | Some n \<Rightarrow> msubs n k') else msubs (Mtrie ps tb) k)"
  using assms by (auto simp: fun_eq_iff word_unat_eq_iff split: list.split)

lemma msubs_upd:
  assumes "tb_get tb' = (tb_get tb)(unat ch := x)"
    "(\<lambda>k. case x of None \<Rightarrow> {} | Some n \<Rightarrow> msubs n k) = (\<lambda>k. msubs (Mtrie ps tb) (ch # k))(k := v)"
  shows "msubs (Mtrie ps tb') = (msubs (Mtrie ps tb))(ch # k := v)"
proof
  fix y show "msubs (Mtrie ps tb') y = ((msubs (Mtrie ps tb))(ch # k := v)) y"
    unfolding msubs_set[OF assms(1)] using fun_cong[OF assms(2)] by (cases y) auto
qed

lemma msubs_here: "msubs (Mtrie ps' tb) = (msubs (Mtrie ps tb))([] := case ps' of None \<Rightarrow> {} | Some s \<Rightarrow> s)"
  by (rule ext, case_tac x) simp_all

section \<open>Adding and removing one subscription\<close>

lemma madd_ok:
  "mtrie_inv t \<Longrightarrow> \<exists>t'. mtrie_add k p t = (t', msubs t k = {}) \<and> mtrie_inv t' \<and> \<not> mt_redundant t' \<and>
     msubs t' = (msubs t)(k := insert p (msubs t k))"
proof (induction k arbitrary: t)
  case Nil
  obtain ps tb where t: "t = Mtrie ps tb" by (cases t)
  have e: "ps = None \<longleftrightarrow> msubs t [] = {}" using Nil t by (auto simp: mtrie_inv_simps split: option.splits)
  let ?s = "insert p (case ps of None \<Rightarrow> {} | Some s \<Rightarrow> s)"
  have "mtrie_inv (Mtrie (Some ?s) tb)" using Nil t by (auto simp: mtrie_inv_simps split: option.split)
  moreover have "msubs (Mtrie (Some ?s) tb) = (msubs t)([] := insert p (msubs t []))"
    using msubs_here[of "Some ?s" tb ps] t by simp
  ultimately show ?case using e t by (auto simp: mt_redundant_def fun_upd_def)
next
  case (Cons ch k)
  obtain ps tb where t: "t = Mtrie ps tb" by (cases t)
  let ?c = "unat ch"
  have wf: "tb_wf tb" and sub: "\<And>c n. tb_get tb c = Some n \<Longrightarrow> mtrie_inv n \<and> \<not> mt_redundant n"
    and fin: "\<And>s. ps = Some s \<Longrightarrow> finite s \<and> s \<noteq> {}" using Cons.prems t by (auto simp: mtrie_inv_simps)
  obtain tb2 n where ch: "child_node mtrie_t ?c (extend ?c tb) = (tb2, n)" by fastforce
  note a = add_child[OF wf unat_byte ch]
  have "mtrie_inv n" using a(1) sub[of ?c] by (auto split: option.splits)
  from Cons.IH[OF this] obtain n' where n': "mtrie_add k p n = (n', msubs n k = {})" "mtrie_inv n'" "\<not> mt_redundant n'"
    "msubs n' = (msubs n)(k := insert p (msubs n k))" by blast
  have cn: "msubs n y = msubs t (ch # y)" for y using a(1) t by (simp split: option.split)
  let ?t' = "Mtrie ps (set_slot ?c (Some n') tb2)"
  have "mtrie_add (ch # k) p t = (?t', msubs t (ch # k) = {})"
    using t ch n'(1) cn[of k] by (simp add: Let_def del: msubs.simps)
  moreover have "mtrie_inv ?t'" using a(2,3) sub n'(2,3) fin by (auto simp: mtrie_inv_simps split: if_splits)
  moreover have "live_nodes (set_slot ?c (Some n') tb2) \<noteq> 0" using tb_wf_live_0[OF a(3), of n'] a(2)[of n'] by simp
  moreover have "msubs ?t' = (msubs t)(ch # k := insert p (msubs t (ch # k)))"
    unfolding t by (rule msubs_upd[OF a(2)]) (use n'(4) cn t in \<open>simp add: fun_eq_iff\<close>)
  ultimately show ?case by (auto simp: mt_redundant_def fun_upd_def)
qed

lemma erase_pipe_simps: "(case erase_pipe p s of None \<Rightarrow> {} | Some s \<Rightarrow> s) = s - {p}"
  "finite s \<Longrightarrow> erase_pipe p s = Some s' \<Longrightarrow> finite s' \<and> s' \<noteq> {}"
  by (auto simp: erase_pipe_def split: if_splits)

text \<open>Whether the key leads to a node.\<close>

fun has_node :: "mtrie \<Rightarrow> key \<Rightarrow> bool" where
  "has_node t [] = True"
| "has_node t (ch # k) = (case tb_get (mtab t) (unat ch) of None \<Rightarrow> False | Some n \<Rightarrow> has_node n k)"

lemma mrm_ok:
  "mtrie_inv t \<Longrightarrow> p \<in> msubs t k \<or> msubs t k = {} \<Longrightarrow>
     \<exists>t'. mtrie_rm k p t = Some (t', msubs t k - {p} = {} \<and> has_node t k) \<and> mtrie_inv t' \<and>
       msubs t' = (msubs t)(k := msubs t k - {p})"
proof (induction k arbitrary: t)
  case Nil
  obtain ps tb where t: "t = Mtrie ps tb" by (cases t)
  show ?case
  proof (cases ps)
    case None
    have "msubs t = (msubs t)([] := {})" using t None by (simp add: fun_upd_idem)
    then show ?thesis using Nil t None by (intro exI[of _ t]) simp
  next
    case (Some s)
    have p: "p \<in> s" using Nil t Some by (auto simp: mtrie_inv_simps)
    have "mtrie_inv (Mtrie (erase_pipe p s) tb)"
      using Nil(1) t Some erase_pipe_simps(2)[of s p] by (simp add: mtrie_inv_simps)
    moreover have "msubs (Mtrie (erase_pipe p s) tb) = (msubs t)([] := msubs t [] - {p})"
      using msubs_here[of "erase_pipe p s" tb ps] t Some erase_pipe_simps(1)[of p s] by simp
    moreover have "mtrie_rm [] p t = Some (Mtrie (erase_pipe p s) tb, msubs t [] - {p} = {} \<and> has_node t [])"
      using t Some p by (auto simp: erase_pipe_def)
    ultimately show ?thesis by blast
  qed
next
  case (Cons ch k)
  obtain ps tb where t: "t = Mtrie ps tb" by (cases t)
  let ?c = "unat ch"
  have wf: "tb_wf tb" and sub: "\<And>c n. tb_get tb c = Some n \<Longrightarrow> mtrie_inv n \<and> \<not> mt_redundant n"
    and fin: "\<And>s. ps = Some s \<Longrightarrow> finite s \<and> s \<noteq> {}" using Cons.prems t by (auto simp: mtrie_inv_simps)
  show ?case
  proof (cases "tb_get tb ?c")
    case None
    then have r: "mtrie_rm (ch # k) p t = Some (t, False)"
      using t by (auto simp: tb_get_def Let_def split: if_splits)
    have z: "msubs t (ch # k) = {}" "\<not> has_node t (ch # k)" using None t by simp_all
    then have "msubs t = (msubs t)(ch # k := {})" by (simp add: fun_upd_idem)
    then show ?thesis using Cons.prems z r by (intro exI[of _ t]) simp
  next
    case (Some n)
    have nth: "in_range ?c tb" "slots tb ! (?c - tmin tb) = Some n" "slots tb \<noteq> []"
      using Some by (auto simp: tb_get_def in_range_def split: if_splits)
    have cn: "msubs n y = msubs t (ch # y)" for y using Some t by simp
    have hn: "has_node n k = has_node t (ch # k)" using Some t by simp
    from Cons.IH[of n] sub[OF Some] Cons.prems(2) cn obtain n' where
      n': "mtrie_rm k p n = Some (n', msubs n k - {p} = {} \<and> has_node n k)" "mtrie_inv n'"
        "msubs n' = (msubs n)(k := msubs n k - {p})" by blast
    have "\<exists>tb' x. mtrie_rm (ch # k) p t = Some (Mtrie ps tb', msubs n k - {p} = {} \<and> has_node n k) \<and> tb_wf tb' \<and>
      tb_get tb' = (tb_get tb)(?c := x) \<and> (x = Some n' \<and> \<not> mt_redundant n' \<or> x = None \<and> mt_redundant n')"
    proof (cases "mt_redundant n'")
      case True
      then show ?thesis using trie_prune_ok[OF wf Some] prune_same[OF wf Some] t nth n'(1) by (fastforce simp: Let_def)
    next
      case False
      then show ?thesis using set_slot_existing[OF wf Some, of n'] t nth n'(1) by (auto simp: Let_def)
    qed
    then obtain tb' x where x: "mtrie_rm (ch # k) p t = Some (Mtrie ps tb', msubs n k - {p} = {} \<and> has_node n k)" "tb_wf tb'"
      "tb_get tb' = (tb_get tb)(?c := x)" "x = Some n' \<and> \<not> mt_redundant n' \<or> x = None \<and> mt_redundant n'" by blast
    have "mtrie_inv (Mtrie ps tb')" using x sub n'(2) fin by (auto simp: mtrie_inv_simps split: if_splits)
    moreover have "(\<lambda>y. case x of None \<Rightarrow> {} | Some m \<Rightarrow> msubs m y) = msubs n'"
      using x(4) mredundant_subs[OF n'(2)] by (auto simp: fun_eq_iff)
    then have "msubs (Mtrie ps tb') = (msubs t)(ch # k := msubs t (ch # k) - {p})"
      unfolding t by (rule_tac msubs_upd[OF x(3)]) (use n'(3) cn t in \<open>simp add: fun_eq_iff\<close>)
    ultimately show ?thesis using x(1) cn[of k] hn by auto
  qed
qed

lemma mrm_abort: "mtrie_inv t \<Longrightarrow> msubs t k \<noteq> {} \<Longrightarrow> p \<notin> msubs t k \<Longrightarrow> mtrie_rm k p t = None"
proof (induction k arbitrary: t)
  case Nil
  then show ?case by (cases t) (auto split: option.splits)
next
  case (Cons ch k)
  obtain ps tb where t: "t = Mtrie ps tb" by (cases t)
  obtain n where n: "tb_get tb (unat ch) = Some n" using Cons.prems(2) t by (auto split: option.splits)
  then have "in_range (unat ch) tb" "slots tb ! (unat ch - tmin tb) = Some n" "slots tb \<noteq> []"
    by (auto simp: tb_get_def in_range_def split: if_splits)
  then show ?case using Cons.IH[of n] Cons.prems n t by (auto simp: mtrie_inv_simps Let_def)
qed

section \<open>Removing all subscriptions of a pipe\<close>

definition res_slot :: "(mtrie \<times> byte list list) option \<Rightarrow> mtrie option" where
  "res_slot r = (case r of None \<Rightarrow> None | Some (n, cs) \<Rightarrow> if mt_redundant n then None else Some n)"

definition res_calls :: "(mtrie \<times> byte list list) option \<Rightarrow> byte list list" where
  "res_calls r = (case r of None \<Rightarrow> [] | Some (n, cs) \<Rightarrow> cs)"

lemma res_simps [simp]: "res_slot None = None" "res_slot (Some (n, cs)) = (if mt_redundant n then None else Some n)"
  "res_calls None = []" "res_calls (Some (n, cs)) = cs"
  by (simp_all add: res_slot_def res_calls_def)

lemma dom_Tbl_Cons: "dom (tb_get (Tbl m l (x # xs))) = (if x = None then {} else {m}) \<union> dom (tb_get (Tbl (Suc m) l xs))"
  "m \<notin> dom (tb_get (Tbl (Suc m) l xs))"
  by (auto simp: tb_get_Tbl nth_Cons' split: if_splits)

lemma Min_Max_insert2: "finite D \<Longrightarrow> Min (insert (if x < a then x else a) D) = Min (insert a (insert x D))"
  "finite D \<Longrightarrow> Max (insert (if x > a then x else a) D) = Max (insert a (insert x D))" for x a :: nat
  by (cases "D = {}"; auto simp: min_def max_def)+

lemma rm_loop_ok:
  assumes "l = card (dom (tb_get (Tbl (m + c) 0 (map (map_option fst) rs)))) + e"
  defines "D \<equiv> dom (tb_get (Tbl (m + c) 0 (map res_slot rs)))"
  shows "rm_loop m c rs l lo hi = Some (card D + e, Min (insert lo D), Max (insert hi D), map res_slot rs, concat (map res_calls rs))"
  using assms(1) unfolding D_def
proof (induction rs arbitrary: c l lo hi e)
  case Nil
  then show ?case by (simp add: tb_get_Tbl dom_def)
next
  case (Cons r rs)
  let ?D = "dom (tb_get (Tbl (Suc (m + c)) 0 (map res_slot rs)))" and ?F = "dom (tb_get (Tbl (Suc (m + c)) 0 (map (map_option fst) rs)))"
  have ni: "m + c \<notin> ?D" "m + c \<notin> ?F" by (rule dom_Tbl_Cons(2))+
  show ?case
  proof (cases r)
    case None
    then show ?thesis using Cons.IH[of l "c + 1" e lo hi] Cons.prems by (simp add: dom_Tbl_Cons(1))
  next
    case (Some nc)
    obtain n cs where nc: "nc = (n, cs)" by fastforce
    have l: "l = Suc (card ?F) + e" using Cons.prems Some ni(2) by (simp add: dom_Tbl_Cons(1))
    show ?thesis
    proof (cases "mt_redundant n")
      case True
      then show ?thesis using Cons.IH[of "l - 1" "c + 1" e lo hi] l Some nc
        by (simp add: dom_Tbl_Cons(1))
    next
      case False
      let ?x = "c + m"
      have "rm_loop m c (r # rs) l lo hi = Some (card ?D + (e + 1), Min (insert (if ?x < lo then ?x else lo) ?D),
          Max (insert (if ?x > hi then ?x else hi) ?D), map res_slot (r # rs), concat (map res_calls (r # rs)))"
        using Cons.IH[of l "c + 1" "e + 1" "if ?x < lo then ?x else lo" "if ?x > hi then ?x else hi"] l Some nc False
        by simp
      moreover have "dom (tb_get (Tbl (m + c) 0 (map res_slot (r # rs)))) = insert ?x ?D"
        using Some nc False by (simp add: dom_Tbl_Cons(1) add.commute)
      moreover have "card ?D + (e + 1) = card (insert ?x ?D) + e" using ni(1) by (simp add: add.commute)
      ultimately show ?thesis by (simp only: Min_Max_insert2[OF tb_finite])
    qed
  qed
qed

lemma rm_compact_ok:
  assumes n: "length ss = n" "0 < n" "m + n \<le> 256"
  defines "D \<equiv> dom (tb_get (Tbl m 0 ss))"
  shows "\<exists>tb'. rm_compact m n (card D) (Min (insert (m + n - 1) D)) (Max (insert m D)) ss = Some tb' \<and> tb_wf tb' \<and>
    tb_get tb' = tb_get (Tbl m 0 ss)"
proof (cases "D = {}")
  case True
  then have "tb_get (Tbl m 0 ss) = Map.empty" by (simp add: D_def)
  then show ?thesis using True n by (auto simp: rm_compact_def tb_wf_def tb_get_Tbl dom_def fun_eq_iff)
next
  case ne: False
  have fin: "finite D" by (simp add: D_def)
  have sub: "D \<subseteq> {m..<m + n}" using tb_dom[of "Tbl m 0 ss"] n by (simp add: D_def)
  let ?lo = "Min D" and ?hi = "Max D"
  have mem: "?lo \<in> D" "?hi \<in> D" using fin ne by simp_all
  have r: "m \<le> ?lo" "?hi < m + n" using mem sub by auto
  have lohi: "?lo \<le> ?hi" using fin mem by simp
  have "?lo \<le> m + n - 1" "m \<le> ?hi" using r lohi by linarith+
  then have e: "Min (insert (m + n - 1) D) = ?lo" "Max (insert m D) = ?hi"
    by (simp_all only: Min_insert[OF fin ne] Max_insert[OF fin ne] min_absorb2 max_absorb2)
  have g: "tb_get (Tbl m 0 ss) x = (if ?lo \<le> x \<and> x \<le> ?hi then ss ! (x - m) else None)" for x
  proof (cases "x \<in> D")
    case True
    then have "?lo \<le> x" "x \<le> ?hi" using fin by auto
    then show ?thesis using r n by (simp add: tb_get_Tbl)
  next
    case False
    then have "tb_get (Tbl m 0 ss) x = None" by (simp add: D_def domIff)
    then show ?thesis using r n by (auto simp: tb_get_Tbl)
  qed
  have ends: "ss ! (?lo - m) \<noteq> None" "ss ! (?hi - m) \<noteq> None" using mem g[of ?lo] g[of ?hi] lohi by (auto simp: D_def domIff)
  consider "card D = 1" | "2 \<le> card D" using ne fin by (metis One_nat_def Suc_leI card_gt_0_iff le_neq_implies_less numeral_2_eq_2)
  then show ?thesis
  proof cases
    case 1
    then have lh: "?lo = ?hi" using mem by (metis card_1_singletonE singletonD)
    let ?t = "Tbl ?lo 1 [ss ! (?lo - m)]"
    have "tb_get ?t x = tb_get (Tbl m 0 ss) x" for x using g[of x] lh by (cases "x = ?hi") (auto simp: tb_get_Tbl[of _ "Suc 0"])
    then have gt: "tb_get ?t = tb_get (Tbl m 0 ss)" by blast
    have "tb_wf ?t" unfolding tb_wf_def gt using 1 r n ends(1) lh g[of ?lo] by (simp add: D_def)
    then show ?thesis unfolding e using 1 lh r n ends gt by (auto simp: rm_compact_def)
  next
    case 2
    then have "?lo \<noteq> ?hi"
    proof -
      have "card D \<le> 1" if "?lo = ?hi"
        using that fin ne by (metis Min_le Max_ge card_1_singletonE antisym is_singletonI' is_singleton_altdef order_refl le_numeral_extra(4))
      then show ?thesis using 2 by auto
    qed
    then have lt: "?lo < ?hi" using lohi by simp
    let ?ss = "take (?hi - ?lo + 1) (drop (?lo - m) ss)"
    have len: "length ?ss = ?hi - ?lo + 1" using r n lt by simp
    have gt: "tb_get (Tbl ?lo (card D) ?ss) = tb_get (Tbl m 0 ss)"
      using g r n lt len by (auto simp: fun_eq_iff tb_get_Tbl[of ?lo])
    have wf: "tb_wf (Tbl ?lo (card D) ?ss)" unfolding tb_wf_def gt using r n lt len ends g[of ?lo] g[of ?hi] by (auto simp: D_def)
    show ?thesis
    proof (cases "?lo > m \<or> ?hi < m + n - 1")
      case True
      then have "?hi - ?lo + 1 < n" "?hi \<le> m + n - 1" using r lt by auto
      then show ?thesis unfolding e using 2 True wf gt lt r by (auto simp: rm_compact_def)
    next
      case False
      then have "?lo = m" "?hi = m + n - 1" using r by auto
      then have "?ss = ss" using n by simp
      then show ?thesis unfolding e using 2 False wf gt \<open>?lo = m\<close> by (auto simp: rm_compact_def)
    qed
  qed
qed

text \<open>The table after the recursive calls, whichever of the branches of the code computes it.\<close>

lemma mtrie_rm_all_table:
  assumes wf: "tb_wf tb" and rs: "length rs = length (slots tb)" "\<And>j. j < length (slots tb) \<Longrightarrow> rs ! j = None \<longleftrightarrow> slots tb ! j = None"
    and those: "those (map (\<lambda>(j, x). case x of None \<Rightarrow> if length (slots tb) = 1 then None else Some None
        | Some node \<Rightarrow> map_option Some (mtrie_rm_all p uniq (buf @ [of_nat (tmin tb + j)]) node)) (enumerate 0 (slots tb))) = Some rs"
    and here: "rm_here p uniq buf ps = (ps1, calls)"
  shows "\<exists>tb'. mtrie_rm_all p uniq buf (Mtrie ps tb) = Some (Mtrie ps1 tb', calls @ concat (map res_calls rs)) \<and>
    tb_wf tb' \<and> tb_get tb' = tb_get (Tbl (tmin tb) 0 (map res_slot rs))"
proof -
  obtain m l ss where tb: "tb = Tbl m l ss" by (cases tb)
  have dm: "dom (tb_get (Tbl m 0 (map (map_option fst) rs))) = dom (tb_get tb)"
  proof -
    have "tb_get (Tbl m 0 (map (map_option fst) rs)) x = None \<longleftrightarrow> tb_get tb x = None" for x
      using rs(1) rs(2)[of "x - m"] by (auto simp: tb tb_get_Tbl)
    then show ?thesis by (simp add: dom_def)
  qed
  consider "length ss = 0" | "length ss = 1" | "1 < length ss" by linarith
  then show ?thesis
  proof cases
    case 1
    then show ?thesis using here rs(1) wf tb
      by (auto simp: mtrie_rm_all.simps tb_get_Tbl fun_eq_iff intro!: exI[of _ tb])
  next
    case 2
    obtain x where x: "ss = [Some x]" using wf 2 tb by (cases ss) (auto simp: tb_wf_def tb_get_Tbl)
    then obtain n cs where r: "rs = [Some (n, cs)]" using rs(1) rs(2)[of 0] tb by (cases rs) auto
    have "dom (tb_get tb) = {m}" unfolding tb x by (auto simp: tb_get_Tbl split: if_splits)
    then have l: "l = 1" using wf tb by (simp add: tb_wf_def)
    let ?t = "if mt_redundant n then Tbl m 0 [] else Tbl m l [Some n]"
    have "mtrie_rm_all p uniq buf (Mtrie ps tb) = Some (Mtrie ps1 ?t, calls @ cs)"
      using here those r l tb x by (simp add: mtrie_rm_all.simps[of p uniq buf ps])
    moreover have "tb_get ?t = tb_get (Tbl m 0 [if mt_redundant n then None else Some n])"
      by (auto simp: tb_get_Tbl fun_eq_iff)
    moreover have "tb_wf ?t"
    proof (cases "mt_redundant n")
      case True
      then show ?thesis using wf tb by (auto simp: tb_wf_def tb_get_Tbl dom_def)
    next
      case False
      have "dom (tb_get (Tbl m l [Some n])) = {m}" by (auto simp: tb_get_Tbl split: if_splits)
      then have "card (dom (tb_get (Tbl m l [Some n]))) = l" using l by simp
      moreover have "m + 1 \<le> 256" using wf tb x by (simp add: tb_wf_def)
      ultimately show ?thesis using False by (simp add: tb_wf_def) (simp add: tb_get_Tbl)
    qed
    ultimately show ?thesis using r tb by (intro exI[of _ ?t]) simp
  next
    case 3
    let ?D = "dom (tb_get (Tbl m 0 (map res_slot rs)))"
    have "l = card (dom (tb_get (Tbl (m + 0) 0 (map (map_option fst) rs)))) + 0" using wf tb dm by (simp add: tb_wf_def)
    from rm_loop_ok[OF this, of "tmin tb + length (slots tb) - 1" m]
    have lp: "rm_loop (tmin tb) 0 rs (live_nodes tb) (tmin tb + length (slots tb) - 1) (tmin tb) =
        Some (card ?D, Min (insert (m + length ss - 1) ?D), Max (insert m ?D), map res_slot rs, concat (map res_calls rs))"
      by (simp only: tb tbl.sel add_0_right)
    obtain tb' where t: "rm_compact m (length ss) (card ?D) (Min (insert (m + length ss - 1) ?D)) (Max (insert m ?D)) (map res_slot rs) = Some tb'"
      "tb_wf tb'" "tb_get tb' = tb_get (Tbl m 0 (map res_slot rs))"
    proof -
      have "length (map res_slot rs) = length ss" "0 < length ss" "m + length ss \<le> 256" using 3 rs(1) wf tb by (auto simp: tb_wf_def)
      from rm_compact_ok[OF this] that show thesis by blast
    qed
    have "mtrie_rm_all p uniq buf (Mtrie ps tb) = Some (Mtrie ps1 tb', calls @ concat (map res_calls rs))"
    proof -
      have n: "length (slots tb) \<noteq> 0" "length (slots tb) \<noteq> 1" using 3 tb by auto
      have t1: "rm_compact (tmin tb) (length (slots tb)) (card ?D) (Min (insert (m + length ss - 1) ?D)) (Max (insert m ?D)) (map res_slot rs) = Some tb'"
        using t(1) tb by simp
      show ?thesis using those by (simp only: mtrie_rm_all.simps Let_def here prod.case n if_False lp t1 Option.bind.simps)
    qed
    then show ?thesis using t tb by simp
  qed
qed

lemma rm_here_ok:
  assumes "rm_here p uniq buf ps = (ps1, calls)" "\<And>s. ps = Some s \<Longrightarrow> finite s \<and> s \<noteq> {}"
  shows "\<And>s. ps1 = Some s \<Longrightarrow> finite s \<and> s \<noteq> {}"
    "(case ps1 of None \<Rightarrow> {} | Some s \<Rightarrow> s) = (case ps of None \<Rightarrow> {} | Some s \<Rightarrow> s) - {p}"
    "distinct calls" "set calls = (if \<exists>s. ps = Some s \<and> p \<in> s \<and> (\<not> uniq \<or> s = {p}) then {buf} else {})"
  using assms by (cases ps; force simp: rm_here_def erase_pipe_def split: if_splits)+

definition called :: "nat \<Rightarrow> bool \<Rightarrow> mtrie \<Rightarrow> key set" where
  "called p uniq t = {k. p \<in> msubs t k \<and> (\<not> uniq \<or> msubs t k = {p})}"

lemma mrm_all_ok:
  "mtrie_inv t \<Longrightarrow> \<exists>t' cs. mtrie_rm_all p uniq buf t = Some (t', cs) \<and> mtrie_inv t' \<and> (\<forall>k. msubs t' k = msubs t k - {p}) \<and>
     distinct cs \<and> set cs = (@) buf ` called p uniq t"
proof (induction arbitrary: buf rule: mtrie_inv.induct)
  case (1 tb ps)
  let ?E = "enumerate 0 (slots tb)"
  let ?f = "\<lambda>(j, x). case x of None \<Rightarrow> if length (slots tb) = 1 then None else Some None
        | Some node \<Rightarrow> map_option Some (mtrie_rm_all p uniq (buf @ [of_nat (tmin tb + j)]) node)"
  define ok where "ok = (\<lambda>j node r. mtrie_inv (fst r) \<and> (\<forall>k. msubs (fst r) k = msubs node k - {p}) \<and> distinct (snd r) \<and>
      set (snd r) = (@) (buf @ [of_nat (tmin tb + j)]) ` called p uniq node)"
  have "\<exists>r. ?f (j, x) = Some r \<and> (case x of None \<Rightarrow> r = None | Some node \<Rightarrow> \<exists>z. r = Some z \<and> ok j node z)"
    if "(j, x) \<in> set ?E" for j x
  proof -
    have e: "slots tb ! j = x" "j < length (slots tb)" "tb_get tb (tmin tb + j) = x"
      using that by (auto simp: in_set_enumerate_eq tb_get_def in_range_def)
    show ?thesis
    proof (cases x)
      case None
      then have "length (slots tb) \<noteq> 1" using e 1(1) by (auto simp: tb_wf_def)
      then show ?thesis using None by simp
    next
      case (Some n)
      then show ?thesis using "1.IH"[of "tmin tb + j" n "buf @ [of_nat (tmin tb + j)]"] e by (auto simp: ok_def)
    qed
  qed
  note ex = this
  define g where "g e = the (?f e)" for e
  have g: "?f (j, x) = Some (g (j, x)) \<and> (case x of None \<Rightarrow> g (j, x) = None | Some node \<Rightarrow> \<exists>z. g (j, x) = Some z \<and> ok j node z)"
    if "(j, x) \<in> set ?E" for j x
    using ex[OF that] unfolding g_def by (elim exE conjE) (simp only: option.sel simp_thms)
  have "?f e = Some (g e)" if "e \<in> set ?E" for e using g[of "fst e" "snd e"] that unfolding prod.collapse by blast
  then have th: "those (map ?f ?E) = Some (map g ?E)" by (rule those_map)
  have E: "(j, slots tb ! j) \<in> set ?E" if "j < length (slots tb)" for j using that by (simp add: in_set_enumerate_eq)
  have some: "(map g ?E ! j = None) = (slots tb ! j = None)" if "j < length (slots tb)" for j
    using g[OF E[OF that]] that by (auto simp: nth_enumerate_eq split: option.splits)
  obtain ps1 calls where here: "rm_here p uniq buf ps = (ps1, calls)" by fastforce
  note ho = rm_here_ok[OF here 1(2)]
  obtain tb' where tb': "mtrie_rm_all p uniq buf (Mtrie ps tb) = Some (Mtrie ps1 tb', calls @ concat (map res_calls (map g ?E)))"
    "tb_wf tb'" "tb_get tb' = tb_get (Tbl (tmin tb) 0 (map res_slot (map g ?E)))"
    using mtrie_rm_all_table[OF 1(1) _ some th here] by auto
  have get: "tb_get tb' c = (case tb_get tb c of None \<Rightarrow> None | Some n \<Rightarrow> res_slot (g (c - tmin tb, Some n)))" for c
  proof (cases "in_range c tb")
    case True
    then have "c - tmin tb < length (slots tb)" by (auto simp: in_range_def)
    note gc = g[OF E[OF this]]
    then show ?thesis using True unfolding tb'(3)
      by (auto simp: tb_get_def[of tb] tb_get_Tbl in_range_def nth_enumerate_eq split: option.split)
  qed (auto simp: tb'(3) tb_get_def in_range_def)
  have child: "\<exists>z. g (c - tmin tb, Some n) = Some z \<and> ok (c - tmin tb) n z" if "tb_get tb c = Some n" for c n
    using g[OF E[of "c - tmin tb"]] tb_get_range[OF that] by auto
  have inv': "mtrie_inv n' \<and> \<not> mt_redundant n'" if n': "tb_get tb' c = Some n'" for c n'
  proof (cases "tb_get tb c")
    case None
    then show ?thesis using n' get[of c] by simp
  next
    case (Some n)
    then obtain z where "g (c - tmin tb, Some n) = Some z" "ok (c - tmin tb) n z" using child by blast
    then show ?thesis using n' get[of c] Some by (cases z) (auto simp: ok_def split: if_splits)
  qed
  have ms: "msubs (Mtrie ps1 tb') k = msubs (Mtrie ps tb) k - {p}" for k
  proof (cases k)
    case (Cons ch k')
    show ?thesis
    proof (cases "tb_get tb (unat ch)")
      case (Some n)
      then obtain z where z: "g (unat ch - tmin tb, Some n) = Some z" "ok (unat ch - tmin tb) n z" using child by blast
      then have "mtrie_inv (fst z)" "msubs (fst z) k' = msubs n k' - {p}" by (auto simp: ok_def)
      moreover have "mt_redundant (fst z) \<longrightarrow> msubs (fst z) k' = {}" using mredundant_subs[OF calculation(1)] by blast
      ultimately have "msubs (fst z) k' = msubs n k' - {p}" "mt_redundant (fst z) \<longrightarrow> msubs (fst z) k' = {}" by simp_all
      then show ?thesis using Cons Some z(1) get[of "unat ch"] by (cases z) auto
    qed (simp add: Cons get)
  qed (use ho(2) in simp)
  have dg: "distinct (res_calls (g e))" if "e \<in> set ?E" for e
  proof -
    obtain j x where e: "e = (j, x)" by fastforce
    show ?thesis using g[OF that[unfolded e]] e by (cases x) (auto simp: ok_def)
  qed
  have sg: "set (res_calls (g (j, x))) = (case x of None \<Rightarrow> {} | Some n \<Rightarrow> (@) (buf @ [of_nat (tmin tb + j)]) ` called p uniq n)"
    if "(j, x) \<in> set ?E" for j x using g[OF that] by (cases x) (auto simp: ok_def)
  note en = enumerate_keys[OF 1(1), of "\<lambda>e. res_calls (g e)" buf "called p uniq", OF dg sg]
  have cl: "called p uniq (Mtrie ps tb) = (if \<exists>s. ps = Some s \<and> p \<in> s \<and> (\<not> uniq \<or> s = {p}) then {[]} else {}) \<union>
      {ch # k | ch k n. tb_get tb (unat ch) = Some n \<and> k \<in> called p uniq n}" (is "_ = ?R")
  proof -
    have "k \<in> called p uniq (Mtrie ps tb) \<longleftrightarrow> k \<in> ?R" for k by (cases k) (auto simp: called_def split: option.splits)
    then show ?thesis by blast
  qed
  have "set (calls @ concat (map (\<lambda>e. res_calls (g e)) ?E)) = (@) buf ` called p uniq (Mtrie ps tb)"
    using ho(4) en(2) unfolding cl by (simp only: set_append image_Un) (auto)
  moreover have "distinct (calls @ concat (map (\<lambda>e. res_calls (g e)) ?E))"
    using ho(3,4) en by (auto simp del: set_concat split: if_splits)
  moreover have "mtrie_inv (Mtrie ps1 tb')" using tb'(2) ho(1) inv' by (auto simp: mtrie_inv_simps)
  ultimately show ?case using tb'(1) ms by (auto simp: comp_def)
qed

section \<open>Matching\<close>

lemma mmatch_ok:
  "mtrie_inv t \<Longrightarrow> mtrie_match t d = Some (concat (map (\<lambda>k. sorted_list_of_set (msubs t k)) (prefixes d)))"
proof (induction d arbitrary: t)
  case Nil
  then show ?case by (cases t) (simp split: option.split)
next
  case (Cons ch d)
  obtain ps tb where t: "t = Mtrie ps tb" by (cases t)
  have wf: "tb_wf tb" and sub: "\<And>c n. tb_get tb c = Some n \<Longrightarrow> mtrie_inv n" using Cons.prems t by (auto simp: mtrie_inv_simps)
  let ?rest = "concat (map (\<lambda>k. sorted_list_of_set (msubs t (ch # k))) (prefixes d))"
  have e: "concat (map (\<lambda>k. sorted_list_of_set (msubs t k)) (prefixes (ch # d))) =
      (case ps of None \<Rightarrow> [] | Some s \<Rightarrow> sorted_list_of_set s) @ ?rest"
    using t by (simp add: comp_def split: option.split)
  have one: "slots tb ! 0 \<noteq> None \<and> (in_range (unat ch) tb \<longleftrightarrow> unat ch = tmin tb)" if "length (slots tb) = 1"
    using wf that by (auto simp: tb_wf_def tb_get_def in_range_def)
  show ?case
  proof (cases "tb_get tb (unat ch)")
    case None
    then have "?rest = []" using t by simp
    then show ?thesis using e None t one by (auto simp: tb_get_def in_range_def split: if_splits)
  next
    case (Some n)
    have "in_range (unat ch) tb" "slots tb ! (unat ch - tmin tb) = Some n" "slots tb \<noteq> []"
      using Some by (auto simp: tb_get_def in_range_def split: if_splits)
    moreover have "mtrie_match n d = Some ?rest" using Cons.IH[OF sub[OF Some]] Some t by simp
    ultimately show ?thesis using e t one by (auto simp: in_range_def)
  qed
qed

section \<open>Properties\<close>

datatype mop = Madd key nat | Mrm key nat | Mrm_all nat bool

fun run_mops :: "mop list \<Rightarrow> mtrie \<Rightarrow> mtrie option" where
  "run_mops [] t = Some t"
| "run_mops (Madd k p # xs) t = run_mops xs (fst (mtrie_add k p t))"
| "run_mops (Mrm k p # xs) t = Option.bind (mtrie_rm k p t) (\<lambda>(t', _). run_mops xs t')"
| "run_mops (Mrm_all p u # xs) t = Option.bind (mtrie_rm_all p u [] t) (\<lambda>(t', _). run_mops xs t')"

fun mop_spec :: "mop \<Rightarrow> (key \<Rightarrow> nat set) \<Rightarrow> key \<Rightarrow> nat set" where
  "mop_spec (Madd k p) f = f(k := insert p (f k))"
| "mop_spec (Mrm k p) f = f(k := f k - {p})"
| "mop_spec (Mrm_all p u) f = (\<lambda>k. f k - {p})"

text \<open>A cancellation for a key that only others have is the one call that aborts.\<close>

fun mops_ok :: "mop list \<Rightarrow> (key \<Rightarrow> nat set) \<Rightarrow> bool" where
  "mops_ok [] f = True"
| "mops_ok (x # xs) f = ((case x of Mrm k p \<Rightarrow> p \<in> f k \<or> f k = {} | _ \<Rightarrow> True) \<and> mops_ok xs (mop_spec x f))"

lemma run_mops_ok:
  "mtrie_inv t \<Longrightarrow> mops_ok xs (msubs t) \<Longrightarrow> \<exists>t'. run_mops xs t = Some t' \<and> mtrie_inv t' \<and> msubs t' = fold mop_spec xs (msubs t)"
proof (induction xs arbitrary: t)
  case (Cons x xs)
  have "\<exists>t1. (\<forall>ys. run_mops (x # ys) t = run_mops ys t1) \<and> mtrie_inv t1 \<and> msubs t1 = mop_spec x (msubs t)"
  proof (cases x)
    case (Madd k p)
    then show ?thesis using madd_ok[OF Cons.prems(1), of k p] by auto
  next
    case (Mrm k p)
    then show ?thesis using mrm_ok[OF Cons.prems(1), of p k] Cons.prems(2) by auto
  next
    case (Mrm_all p u)
    then show ?thesis using mrm_all_ok[OF Cons.prems(1), of p u "[]"] by (force simp: fun_eq_iff)
  qed
  then obtain t1 where "run_mops (x # xs) t = run_mops xs t1" "mtrie_inv t1" "msubs t1 = mop_spec x (msubs t)" by blast
  with Cons.IH[of t1] Cons.prems(2) show ?case by simp
qed simp

text \<open>
  Claim C18: after any sequence of subscriptions, cancellations and removals of pipes in which no pipe
  cancels a key that only other pipes subscribe to, a message is sent to exactly the pipes that subscribe
  to a prefix of it: for each prefix from the shortest, each of its pipes once in the order of addresses.
\<close>

theorem mtrie_match_exact:
  assumes "mops_ok xs (\<lambda>_. {})"
  shows "\<exists>t. run_mops xs mtrie_t = Some t \<and>
    (\<forall>d. mtrie_match t d = Some (concat (map (\<lambda>k. sorted_list_of_set (fold mop_spec xs (\<lambda>_. {}) k)) (prefixes d))))"
proof -
  have "msubs mtrie_t = (\<lambda>_. {})" by auto
  then obtain t where "run_mops xs mtrie_t = Some t" "mtrie_inv t" "msubs t = fold mop_spec xs (\<lambda>_. {})"
    using run_mops_ok[of mtrie_t xs] assms by auto
  then show ?thesis using mmatch_ok[of t] by auto
qed

theorem mtrie_match_exact_witness:
  "\<exists>t. run_mops [Madd [1] 5, Madd [1, 2] 3, Madd [1] 4, Mrm [1] 5] mtrie_t = Some t \<and> mtrie_match t [1, 2] = Some [4, 3]"
proof -
  let ?xs = "[Madd [1] 5, Madd [1, 2] 3, Madd [1] 4, Mrm [1] 5]"
  have "mops_ok ?xs (\<lambda>_. {})" by simp
  from mtrie_match_exact[OF this] obtain t where t: "run_mops ?xs mtrie_t = Some t"
    "\<And>d. mtrie_match t d = Some (concat (map (\<lambda>k. sorted_list_of_set (fold mop_spec ?xs (\<lambda>_. {}) k)) (prefixes d)))" by blast
  have "insert 4 (insert 5 ({} :: nat set)) - {5} = {4}" by auto
  then have "mtrie_match t [1, 2] = Some [4, 3]" unfolding t(2) by simp
  with t(1) show ?thesis by blast
qed

text \<open>
  Claim C25: removing all subscriptions of a pipe never fails, removes the pipe from every key, and calls
  the function once for each of its keys, or, with \<open>call_on_uniq\<close>, for each key that no other pipe has.
\<close>

theorem mtrie_rm_all_exact:
  assumes "mops_ok xs (\<lambda>_. {})" "run_mops xs mtrie_t = Some t"
  shows "\<exists>t' cs. mtrie_rm_all p uniq [] t = Some (t', cs) \<and> (\<forall>k. msubs t' k = fold mop_spec xs (\<lambda>_. {}) k - {p}) \<and> distinct cs \<and>
    set cs = {k. p \<in> fold mop_spec xs (\<lambda>_. {}) k \<and> (uniq \<longrightarrow> fold mop_spec xs (\<lambda>_. {}) k = {p})}"
proof -
  have "msubs mtrie_t = (\<lambda>_. {})" by auto
  then have t: "mtrie_inv t" "msubs t = fold mop_spec xs (\<lambda>_. {})" using run_mops_ok[of mtrie_t xs] assms by auto
  from mrm_all_ok[OF t(1), of p uniq "[]"] show ?thesis unfolding called_def t(2) by auto
qed

theorem mtrie_rm_all_exact_witness:
  "\<exists>t t' cs. run_mops [Madd [1] 5, Madd [2] 5, Madd [1] 4] mtrie_t = Some t \<and> mtrie_rm_all 5 True [] t = Some (t', cs) \<and> set cs = {[2]}"
proof -
  let ?xs = "[Madd [1] 5, Madd [2] 5, Madd [1] 4]"
  have ok: "mops_ok ?xs (\<lambda>_. {})" by simp
  obtain t where t: "run_mops ?xs mtrie_t = Some t" by simp
  have "{k. (5 :: nat) \<in> fold mop_spec ?xs (\<lambda>_. {}) k \<and> (True \<longrightarrow> fold mop_spec ?xs (\<lambda>_. {}) k = {5})} = {[2]}"
    by (auto split: if_splits)
  with mtrie_rm_all_exact[OF ok t, of 5 True] t show ?thesis by auto
qed

text \<open>
  A cancellation for a key that some pipe subscribes to, but not the one that cancels, violates
  the assertion \<open>erased == 1\<close>: the process aborts.
\<close>

theorem mtrie_rm_foreign_aborts:
  assumes "mops_ok xs (\<lambda>_. {})" "run_mops xs mtrie_t = Some t" "fold mop_spec xs (\<lambda>_. {}) k \<noteq> {}" "p \<notin> fold mop_spec xs (\<lambda>_. {}) k"
  shows "mtrie_rm k p t = None"
proof -
  have "msubs mtrie_t = (\<lambda>_. {})" by auto
  then have t: "mtrie_inv t" "msubs t = fold mop_spec xs (\<lambda>_. {})" using run_mops_ok[of mtrie_t xs] assms(1,2) by auto
  show ?thesis by (rule mrm_abort[OF t(1)]) (use assms(3,4) t(2) in simp_all)
qed

theorem mtrie_rm_foreign_aborts_witness:
  "Option.bind (run_mops [Madd [9] 1] mtrie_t) (mtrie_rm [9] 2) = None"
proof -
  obtain t where t: "run_mops [Madd [9] 1] mtrie_t = Some t" by simp
  have "mtrie_rm [9] 2 t = None" by (rule mtrie_rm_foreign_aborts[OF _ t]) simp_all
  then show ?thesis unfolding t by simp
qed

end
