(* ===== verification/Tcp_Address.thy ===== *)
theory Tcp_Address
  imports Zmq_Prelude "HOL-Library.Monad_Syntax"
begin

text \<open>
  Model of \<open>src/src/tcp_address.cpp\<close> (the POSIX branches): splitting of names into address, zone, port and
  mask, and the matching of an address against a mask. The resolver of the operating system is a
  parameter. Strings are byte lists without the terminator; \<open>None\<close> is an assertion or an exception.
\<close>

unbundle bit_operations_syntax

section \<open>The operating system\<close>

datatype sa_family = AF_UNSPEC | AF_INET | AF_INET6

record sockaddr =
  sa_family :: sa_family
  sa_addr :: "byte list"
  sa_port :: "16 word"
  sa_scope_id :: "32 word"

definition no_address :: sockaddr where
  "no_address = \<lparr>sa_family = AF_UNSPEC, sa_addr = [], sa_port = 0, sa_scope_id = 0\<rparr>"

text \<open>
  \<open>getifaddrs\<close> by attempt, the interfaces by name (without address where \<open>ifa_addr\<close> is NULL);
  \<open>getaddrinfo\<close> for literals and for host names; \<open>if_nametoindex\<close>; \<open>getnameinfo\<close>.
\<close>

record net_os =
  getifaddrs :: "nat \<Rightarrow> errno + (byte list \<times> sockaddr option) list"
  addrinfo_literal :: "byte list \<Rightarrow> bool \<Rightarrow> sockaddr option"
  addrinfo_host :: "byte list \<Rightarrow> bool \<Rightarrow> errno + sockaddr"
  if_nametoindex :: "byte list \<Rightarrow> 32 word"
  getnameinfo :: "sockaddr \<Rightarrow> byte list option"

section \<open>C library\<close>

abbreviation chr :: "char \<Rightarrow> byte" where "chr c \<equiv> of_char c"

abbreviation str :: "string \<Rightarrow> byte list" where "str s \<equiv> map of_char s"

definition is_digit :: "byte \<Rightarrow> bool" where
  "is_digit c \<longleftrightarrow> 48 \<le> c \<and> c \<le> 57"

definition is_alpha :: "byte \<Rightarrow> bool" where
  "is_alpha c \<longleftrightarrow> (65 \<le> c \<and> c \<le> 90) \<or> (97 \<le> c \<and> c \<le> 122)"

definition is_space :: "byte \<Rightarrow> bool" where
  "is_space c \<longleftrightarrow> c = 32 \<or> (9 \<le> c \<and> c \<le> 13)"

definition digits_value :: "byte list \<Rightarrow> nat" where
  "digits_value ds = foldl (\<lambda>n c. n * 10 + (unat c - 48)) 0 ds"

text \<open>\<open>atoi\<close> as \<open>(int) strtol\<close>: blanks, a sign, digits; clamped to 64 bits, cut to 32.\<close>

definition c_atoi :: "byte list \<Rightarrow> 32 word" where
  "c_atoi s =
     (let t = dropWhile is_space s;
          neg = (t \<noteq> [] \<and> hd t = chr (CHR ''-''));
          u = (if t \<noteq> [] \<and> (hd t = chr (CHR ''-'') \<or> hd t = chr (CHR ''+'')) then tl t else t);
          n = int (digits_value (takeWhile is_digit u))
      in word_of_int (if neg then max (- (2 ^ 63)) (- n) else min (2 ^ 63 - 1) n))"

function decimal :: "nat \<Rightarrow> byte list" where
  "decimal n = (if n < 10 then [of_nat (n + 48)] else decimal (n div 10) @ [of_nat (n mod 10 + 48)])"
  by pat_completeness auto
termination by (relation "measure id") auto

declare decimal.simps [simp del]

text \<open>\<open>strrchr\<close> and \<open>rfind\<close>: what is before and after the last occurrence.\<close>

fun split_last :: "byte \<Rightarrow> byte list \<Rightarrow> (byte list \<times> byte list) option" where
  "split_last c [] = None"
| "split_last c (x # xs) =
     (case split_last c xs of
        Some (a, b) \<Rightarrow> Some (x # a, b)
      | None \<Rightarrow> if x = c then Some ([], xs) else None)"

section \<open>Addresses\<close>

record tcp_address =
  address :: sockaddr
  source_address :: sockaddr
  has_src_addr :: bool

definition tcp_address_t :: tcp_address where
  "tcp_address_t = \<lparr>address = no_address, source_address = no_address, has_src_addr = False\<rparr>"

definition sizeof_sa :: "sa_family \<Rightarrow> nat" where
  "sizeof_sa f = (if f = AF_INET6 then 28 else 16)"

definition tcp_address_of :: "sockaddr \<Rightarrow> nat \<Rightarrow> tcp_address option" where
  "tcp_address_of sa len =
     (if len = 0 then None
      else if sa_family sa \<noteq> AF_UNSPEC \<and> len \<ge> sizeof_sa (sa_family sa) then Some (tcp_address_t\<lparr>address := sa\<rparr>)
      else Some tcp_address_t)"

definition put_address :: "bool \<Rightarrow> sockaddr \<Rightarrow> tcp_address \<Rightarrow> tcp_address" where
  "put_address is_src sa t = (if is_src then t\<lparr>source_address := sa\<rparr> else t\<lparr>address := sa\<rparr>)"

text \<open>The retries of \<open>getifaddrs\<close>.\<close>

fun interfaces :: "(nat \<Rightarrow> errno + 'a) \<Rightarrow> nat \<Rightarrow> nat \<Rightarrow> errno + 'a" where
  "interfaces os i 0 = Inl ECONNREFUSED"
| "interfaces os i (Suc fuel) =
     (case os i of
        Inl e \<Rightarrow> if e = ECONNREFUSED then interfaces os (i + 1) fuel else Inl e
      | Inr x \<Rightarrow> Inr x)"

definition resolve_nic_name :: "net_os \<Rightarrow> byte list \<Rightarrow> bool \<Rightarrow> bool \<Rightarrow> tcp_address \<Rightarrow> tcp_address result option" where
  "resolve_nic_name os nic ipv6 is_src t =
     (case interfaces (getifaddrs os) 0 10 of
        Inl e \<Rightarrow> if e = EINVAL \<or> e = EOPNOTSUPP then Some (Inl ENODEV) else None
      | Inr ifs \<Rightarrow>
          Some (case List.find (\<lambda>(name, a). (case a of None \<Rightarrow> False
                    | Some sa \<Rightarrow> (sa_family sa = AF_INET \<or> ipv6 \<and> sa_family sa = AF_INET6) \<and> nic = name)) ifs of
             Some (_, Some sa) \<Rightarrow> Inr (put_address is_src sa t)
           | _ \<Rightarrow> Inl ENODEV))"

definition any_address :: "bool \<Rightarrow> sockaddr" where
  "any_address ipv6 =
     (if ipv6 then \<lparr>sa_family = AF_INET6, sa_addr = replicate 16 0, sa_port = 0, sa_scope_id = 0\<rparr>
      else \<lparr>sa_family = AF_INET, sa_addr = replicate 4 0, sa_port = 0, sa_scope_id = 0\<rparr>)"

definition resolve_interface :: "net_os \<Rightarrow> byte list \<Rightarrow> bool \<Rightarrow> bool \<Rightarrow> tcp_address \<Rightarrow> tcp_address result option" where
  "resolve_interface os name ipv6 is_src t =
     (if name = str ''*'' then Some (Inr (put_address is_src (any_address ipv6) t))
      else do {
        r \<leftarrow> resolve_nic_name os name ipv6 is_src t;
        if r \<noteq> Inl ENODEV then Some r
        else (case addrinfo_literal os name ipv6 of
                None \<Rightarrow> Some (Inl ENODEV)
              | Some sa \<Rightarrow> Some (Inr (put_address is_src sa t))) })"

definition resolve_hostname :: "net_os \<Rightarrow> byte list \<Rightarrow> bool \<Rightarrow> bool \<Rightarrow> tcp_address \<Rightarrow> tcp_address result" where
  "resolve_hostname os name ipv6 is_src t =
     (case addrinfo_host os name ipv6 of
        Inl e \<Rightarrow> Inl (if e = ENOMEM then ENOMEM else EINVAL)
      | Inr sa \<Rightarrow> Inr (put_address is_src sa t))"

definition strip_brackets :: "byte list \<Rightarrow> byte list" where
  "strip_brackets a =
     (if length a \<ge> 2 \<and> hd a = chr (CHR ''['') \<and> last a = chr (CHR '']'') then butlast (tl a) else a)"

text \<open>The zone after a \<open>%\<close>; \<open>if_str.at (0)\<close> throws on an empty one.\<close>

definition parse_zone :: "net_os \<Rightarrow> byte list \<Rightarrow> (byte list \<times> 32 word) result option" where
  "parse_zone os a =
     (case split_last (chr (CHR ''%'')) a of
        None \<Rightarrow> Some (Inr (a, 0))
      | Some (b, zone) \<Rightarrow>
          if zone = [] then None
          else let z = (if is_alpha (hd zone) then if_nametoindex os zone else c_atoi zone)
               in Some (if z = 0 then Inl EINVAL else Inr (b, z)))"

definition parse_port :: "byte list \<Rightarrow> (16 word) result" where
  "parse_port p =
     (if p = str ''*'' \<or> p = str ''0'' then Inr 0
      else let port = ucast (c_atoi p) in if port = 0 then Inl EINVAL else Inr port)"

definition put_port :: "bool \<Rightarrow> 16 word \<Rightarrow> 32 word \<Rightarrow> tcp_address \<Rightarrow> tcp_address" where
  "put_port is_src port zone t =
     (let sa = (if is_src then source_address t else address t);
          sa' = (if sa_family sa = AF_INET6 then sa\<lparr>sa_port := port, sa_scope_id := zone\<rparr> else sa\<lparr>sa_port := port\<rparr>)
      in put_address is_src sa' t)"

text \<open>\<open>resolve\<close> after the part for the source address.\<close>

definition resolve_addr :: "net_os \<Rightarrow> byte list \<Rightarrow> bool \<Rightarrow> bool \<Rightarrow> bool \<Rightarrow> tcp_address \<Rightarrow> tcp_address result option" where
  "resolve_addr os name local ipv6 is_src t =
     (case split_last (chr (CHR '':'')) name of
        None \<Rightarrow> Some (Inl EINVAL)
      | Some (a, p) \<Rightarrow> do {
          z \<leftarrow> parse_zone os (strip_brackets a);
          (case z of
             Inl e \<Rightarrow> Some (Inl e)
           | Inr (addr_str, zone) \<Rightarrow>
               (case parse_port p of
                  Inl e \<Rightarrow> Some (Inl e)
                | Inr port \<Rightarrow> do {
                    r \<leftarrow> (if local \<or> is_src then resolve_interface os addr_str ipv6 is_src t
                          else Some (resolve_hostname os addr_str ipv6 is_src t));
                    Some (map_sum id (put_port is_src port zone) r) })) })"

definition tcp_resolve :: "net_os \<Rightarrow> byte list \<Rightarrow> bool \<Rightarrow> bool \<Rightarrow> tcp_address \<Rightarrow> tcp_address result option" where
  "tcp_resolve os name local ipv6 t =
     (case split_last (chr (CHR '';'')) name of
        None \<Rightarrow> resolve_addr os name local ipv6 False t
      | Some (src, rest) \<Rightarrow> do {
          r \<leftarrow> resolve_addr os src local ipv6 True t;
          (case r of
             Inl e \<Rightarrow> Some (Inl e)
           | Inr t1 \<Rightarrow> resolve_addr os rest local ipv6 False (t1\<lparr>has_src_addr := True\<rparr>)) })"

definition tcp_to_string :: "net_os \<Rightarrow> tcp_address \<Rightarrow> byte list option" where
  "tcp_to_string os t =
     (let a = address t in
      if sa_family a = AF_UNSPEC then None
      else map_option (\<lambda>h.
        if sa_family a = AF_INET6 then str ''tcp://['' @ h @ str '']:'' @ decimal (unat (sa_port a))
        else str ''tcp://'' @ h @ str '':'' @ decimal (unat (sa_port a))) (getnameinfo os a))"

definition addrlen :: "tcp_address \<Rightarrow> nat" where
  "addrlen t = (if sa_family (address t) = AF_INET6 then 28 else 16)"

definition src_addrlen :: "tcp_address \<Rightarrow> nat" where
  "src_addrlen t = (if sa_family (address t) = AF_INET6 then 28 else 16)"

section \<open>Masks\<close>

record tcp_address_mask =
  mask_address :: tcp_address
  address_mask :: int

definition tcp_address_mask_t :: tcp_address_mask where
  "tcp_address_mask_t = \<lparr>mask_address = tcp_address_t, address_mask = -1\<rparr>"

definition max_mask :: "sa_family \<Rightarrow> int" where
  "max_mask f = (if f = AF_INET6 then 128 else 32)"

definition mask_resolve :: "net_os \<Rightarrow> byte list \<Rightarrow> bool \<Rightarrow> tcp_address_mask \<Rightarrow> tcp_address_mask result" where
  "mask_resolve os name ipv6 m =
     (let (addr_str, mask_str, empty) =
        (case split_last (chr (CHR ''/'')) name of
           Some (a, k) \<Rightarrow> (a, k, k = [])
         | None \<Rightarrow> (name, [], False))
      in if empty then Inl EINVAL
         else (case resolve_hostname os addr_str ipv6 False (mask_address m) of
                 Inl e \<Rightarrow> Inl e
               | Inr t \<Rightarrow>
                   let f = sa_family (address t) in
                   if mask_str = [] then Inr (m\<lparr>mask_address := t, address_mask := max_mask f\<rparr>)
                   else if mask_str = str ''0'' then Inr (m\<lparr>mask_address := t, address_mask := 0\<rparr>)
                   else let k = sint (c_atoi mask_str) in
                        if k < 1 \<or> k > max_mask f then Inl EINVAL
                        else Inr (m\<lparr>mask_address := t, address_mask := k\<rparr>)))"

definition mask_to_string :: "net_os \<Rightarrow> tcp_address_mask \<Rightarrow> byte list option" where
  "mask_to_string os m =
     (let a = address (mask_address m) in
      if sa_family a = AF_UNSPEC \<or> address_mask m = -1 then None
      else map_option (\<lambda>h.
        if sa_family a = AF_INET6 then str ''['' @ h @ str '']/'' @ decimal (nat (address_mask m))
        else h @ str ''/'' @ decimal (nat (address_mask m))) (getnameinfo os a))"

text \<open>\<open>0xffU << (8 - mask % 8)\<close> cut to a byte.\<close>

definition last_byte_bits :: "nat \<Rightarrow> byte" where
  "last_byte_bits k = ucast (push_bit (8 - k mod 8) (0xff :: 32 word))"

definition match_address :: "tcp_address_mask \<Rightarrow> sockaddr \<Rightarrow> nat \<Rightarrow> bool option" where
  "match_address m ss ss_len =
     (if address_mask m = -1 \<or> ss_len < 16 then None
      else let a = address (mask_address m) in
           if sa_family ss \<noteq> sa_family a then Some False
           else if address_mask m > 0 then
             (if ss_len \<noteq> sizeof_sa (sa_family ss) then None
              else
                let k = nat (min (address_mask m) (max_mask (sa_family ss)));
                    full_bytes = k div 8;
                    lb = last_byte_bits k
                in if take full_bytes (sa_addr a) \<noteq> take full_bytes (sa_addr ss) then Some False
                   else if lb \<noteq> 0 \<and> sa_addr ss ! full_bytes AND lb \<noteq> sa_addr a ! full_bytes AND lb then Some False
                   else Some True)
           else Some True)"

section \<open>Matching is comparison of bit prefixes\<close>

definition byte_bits :: "byte \<Rightarrow> bool list" where
  "byte_bits b = map (bit b) [7, 6, 5, 4, 3, 2, 1, 0]"

definition addr_bits :: "byte list \<Rightarrow> bool list" where
  "addr_bits bs = concat (map byte_bits bs)"

definition sockaddr_ok :: "sockaddr \<Rightarrow> bool" where
  "sockaddr_ok sa \<longleftrightarrow> (case sa_family sa of AF_UNSPEC \<Rightarrow> False | AF_INET \<Rightarrow> length (sa_addr sa) = 4 | AF_INET6 \<Rightarrow> length (sa_addr sa) = 16)"

lemma length_byte_bits [simp]: "length (byte_bits b) = 8"
  by (simp add: byte_bits_def)

lemma byte_bits_inj: "byte_bits a = byte_bits b \<longleftrightarrow> a = b"
proof
  assume "byte_bits a = byte_bits b"
  then have "bit a n = bit b n" if "n < 8" for n
    using that by (auto simp: byte_bits_def less_Suc_eq numeral_eq_Suc)
  then show "a = b" by (intro bit_word_eqI) simp
qed simp

lemma addr_bits_simps [simp]: "addr_bits [] = []" "addr_bits (b # bs) = byte_bits b @ addr_bits bs"
  by (simp_all add: addr_bits_def)

lemma take_addr_bits:
  "q < length bs \<Longrightarrow> r < 8 \<Longrightarrow> take (8 * q + r) (addr_bits bs) = addr_bits (take q bs) @ take r (byte_bits (bs ! q))"
proof (induction bs arbitrary: q)
  case (Cons b bs)
  then show ?case by (cases q) (simp_all add: add.commute add.left_commute)
qed simp

lemma take_addr_bits_full: "take (8 * q) (addr_bits bs) = addr_bits (take q bs)"
proof (induction bs arbitrary: q)
  case (Cons b bs)
  then show ?case by (cases q) simp_all
qed simp

lemma addr_bits_inj: "length a = length b \<Longrightarrow> addr_bits a = addr_bits b \<longleftrightarrow> a = b"
  by (induction a b rule: list_induct2) (auto simp: byte_bits_inj)

lemma nth_byte_bits: "i < 8 \<Longrightarrow> byte_bits b ! i = bit b (7 - i)"
proof -
  assume "i < 8"
  then have "i \<in> {0, 1, 2, 3, 4, 5, 6, 7}" by auto
  then show ?thesis unfolding byte_bits_def by (elim insertE emptyE) simp_all
qed

lemma last_bits: "bit (last_byte_bits k) n \<longleftrightarrow> 8 - k mod 8 \<le> n \<and> n < 8"
proof -
  have m: "(0xff :: 32 word) = mask 8" by (simp add: mask_eq_exp_minus_1)
  have b: "bit (0xff :: 32 word) j \<longleftrightarrow> j < 8" for j unfolding m bit_mask_iff by auto
  have p: "bit (push_bit s (0xff :: 32 word)) n \<longleftrightarrow> s \<le> n \<and> n < 32 \<and> n < 8 + s" for s n
    unfolding bit_push_bit_iff b by auto
  have "bit (ucast (push_bit s (0xff :: 32 word)) :: byte) n \<longleftrightarrow> s \<le> n \<and> n < 8" for s
    unfolding bit_ucast_iff p by auto
  then show ?thesis unfolding last_byte_bits_def .
qed

lemma masked_byte:
  "x AND last_byte_bits k = y AND last_byte_bits k \<longleftrightarrow> take (k mod 8) (byte_bits x) = take (k mod 8) (byte_bits y)"
proof -
  define r where "r = k mod 8"
  have r: "r < 8" by (simp add: r_def)
  have "x AND last_byte_bits k = y AND last_byte_bits k \<longleftrightarrow> (\<forall>n. 8 - r \<le> n \<and> n < 8 \<longrightarrow> bit x n = bit y n)"
    unfolding bit_eq_iff bit_and_iff last_bits r_def[symmetric] by auto
  also have "\<dots> \<longleftrightarrow> (\<forall>i<r. bit x (7 - i) = bit y (7 - i))"
  proof
    assume a: "\<forall>n. 8 - r \<le> n \<and> n < 8 \<longrightarrow> bit x n = bit y n"
    show "\<forall>i<r. bit x (7 - i) = bit y (7 - i)"
    proof (intro allI impI)
      fix i assume "i < r"
      then have "8 - r \<le> 7 - i \<and> 7 - i < 8" using r by linarith
      then show "bit x (7 - i) = bit y (7 - i)" using a by blast
    qed
  next
    assume a: "\<forall>i<r. bit x (7 - i) = bit y (7 - i)"
    show "\<forall>n. 8 - r \<le> n \<and> n < 8 \<longrightarrow> bit x n = bit y n"
    proof (intro allI impI)
      fix n assume "8 - r \<le> n \<and> n < 8"
      then have "7 - n < r" "7 - (7 - n) = n" using r by linarith+
      then show "bit x n = bit y n" using a by metis
    qed
  qed
  also have "\<dots> \<longleftrightarrow> take r (byte_bits x) = take r (byte_bits y)"
    using r by (simp add: list_eq_iff_nth_eq nth_byte_bits)
  finally show ?thesis by (simp only: r_def)
qed

lemma last_bits_zero: "last_byte_bits k = 0 \<longleftrightarrow> k mod 8 = 0"
proof
  assume "last_byte_bits k = 0"
  then have "\<not> bit (last_byte_bits k) 7" by simp
  then have "\<not> (8 - k mod 8 \<le> 7)" unfolding last_bits by simp
  then show "k mod 8 = 0" by linarith
next
  assume "k mod 8 = 0"
  then show "last_byte_bits k = 0" by (intro bit_eqI) (simp add: last_bits)
qed

lemma prefix_match:
  assumes "length a = n" "length b = n" "k \<le> 8 * n"
  shows "take (k div 8) a = take (k div 8) b \<and>
      (last_byte_bits k = 0 \<or> b ! (k div 8) AND last_byte_bits k = a ! (k div 8) AND last_byte_bits k) \<longleftrightarrow>
    take k (addr_bits a) = take k (addr_bits b)"
proof (cases "k mod 8 = 0")
  case True
  then have k: "take k xs = take (8 * (k div 8)) xs" for xs :: "bool list" by (metis add.right_neutral mult_div_mod_eq)
  show ?thesis unfolding k[of "addr_bits _"] take_addr_bits_full
    using assms True by (simp add: addr_bits_inj last_bits_zero)
next
  case False
  define q r where qr: "q = k div 8" "r = k mod 8"
  have k: "k = 8 * q + r" "r < 8" by (simp_all add: qr)
  have q: "q < n" using assms(3) k False qr by linarith
  have t: "take k (addr_bits xs) = addr_bits (take q xs) @ take r (byte_bits (xs ! q))" if "length xs = n" for xs
    using take_addr_bits[of q xs r] q k that by simp
  have "length (addr_bits (take q a)) = length (addr_bits (take q b))"
    using assms by (simp add: addr_bits_def length_concat comp_def sum_list_triv)
  then have "take k (addr_bits a) = take k (addr_bits b) \<longleftrightarrow>
      take q a = take q b \<and> take r (byte_bits (a ! q)) = take r (byte_bits (b ! q))"
    unfolding t[OF assms(1)] t[OF assms(2)] using assms(1,2) by (simp add: addr_bits_inj)
  then show ?thesis using False masked_byte[of "b ! q" k "a ! q"] unfolding last_bits_zero qr by auto
qed

text \<open>
  Claim C39. An address matches a mask exactly when it is of the same family and agrees with the mask's
  address on the first \<open>address_mask\<close> bits, most significant bit first; the byte comparison and the
  shifted byte mask of the code are an implementation of this.
\<close>

theorem match_address_prefix:
  assumes "sockaddr_ok ss" "sockaddr_ok (address (mask_address m))" "0 \<le> address_mask m"
    "address_mask m \<le> max_mask (sa_family (address (mask_address m)))"
  shows "match_address m ss (sizeof_sa (sa_family ss)) = Some (sa_family ss = sa_family (address (mask_address m)) \<and>
    take (nat (address_mask m)) (addr_bits (sa_addr ss)) = take (nat (address_mask m)) (addr_bits (sa_addr (address (mask_address m)))))"
proof (cases "sa_family ss = sa_family (address (mask_address m))")
  case True
  let ?a = "address (mask_address m)" and ?k = "nat (address_mask m)"
  define n where "n = (if sa_family ?a = AF_INET6 then 16 else 4 :: nat)"
  have l: "length (sa_addr ss) = n" "length (sa_addr ?a) = n" "?k \<le> 8 * n"
    using assms True by (auto simp: sockaddr_ok_def n_def max_mask_def split: sa_family.splits)
  have s: "16 \<le> sizeof_sa (sa_family ss)" "address_mask m \<noteq> -1" "min (address_mask m) (max_mask (sa_family ss)) = address_mask m"
    using assms True by (simp_all add: sizeof_sa_def)
  show ?thesis
  proof (cases "address_mask m > 0")
    case pos: True
    show ?thesis using prefix_match[OF l(2,1,3)] s pos True
      by (auto simp: match_address_def Let_def)
  next
    case False
    then have "address_mask m = 0" using assms(3) by simp
    then show ?thesis using s True by (simp add: match_address_def)
  qed
next
  case False
  then show ?thesis using assms by (auto simp: match_address_def sizeof_sa_def)
qed

theorem match_address_prefix_witness:
  "match_address \<lparr>mask_address = tcp_address_t\<lparr>address := \<lparr>sa_family = AF_INET, sa_addr = [10, 1, 128, 0], sa_port = 0, sa_scope_id = 0\<rparr>\<rparr>,
     address_mask = 17\<rparr> \<lparr>sa_family = AF_INET, sa_addr = [10, 1, 200, 9], sa_port = 80, sa_scope_id = 0\<rparr> 16 = Some True"
proof -
  let ?m = "\<lparr>mask_address = tcp_address_t\<lparr>address := \<lparr>sa_family = AF_INET, sa_addr = [10, 1, 128, 0], sa_port = 0, sa_scope_id = 0\<rparr>\<rparr>,
     address_mask = 17\<rparr>"
  let ?s = "\<lparr>sa_family = AF_INET, sa_addr = [10, 1, 200, 9], sa_port = 80, sa_scope_id = 0\<rparr>"
  have "take 17 (addr_bits [10, 1, 200, 9]) = take 17 (addr_bits [10, 1, 128, 0])"
    by (simp add: byte_bits_def)
  then show ?thesis using match_address_prefix[of ?s ?m]
    by (simp add: sockaddr_ok_def max_mask_def sizeof_sa_def)
qed

text \<open>
  The port is cut to 16 bits after the conversion: 65537 is accepted as port 1. An empty zone makes
  \<open>if_str.at (0)\<close> throw an exception that nobody catches.
\<close>

lemma parse_port_wraps: "parse_port (str ''65537'') = Inr 1"
  by (simp add: parse_port_def c_atoi_def is_space_def is_digit_def digits_value_def)

lemma empty_zone_throws: "tcp_resolve os (str ''[fe80::1%]:80'') False True tcp_address_t = None"
  by (simp add: tcp_resolve_def resolve_addr_def strip_brackets_def parse_zone_def)

end
