(* ===== verification/Z85.thy ===== *)
theory Z85
  imports Zmq_Prelude
begin

text \<open>
  Model of the Z85 codec of \<open>src/src/zmq_utils.cpp\<close>: 32 bit accumulators, the two tables of the code, and
  the loops over bytes and divisors. The counters of the code are \<open>unsigned int\<close>; they are naturals here,
  which is the same below 4 GiB of data. A table access out of bounds is \<open>None\<close>.
\<close>

section \<open>Tables\<close>

definition z85_encoder :: "byte list" where
  "z85_encoder = map of_char (
     ''0123456789'' @ ''abcdefghij'' @ ''klmnopqrst'' @ ''uvwxyzABCD'' @
     ''EFGHIJKLMN'' @ ''OPQRSTUVWX'' @ ''YZ.-:+=^!/'' @ ''*?&<>()[]{'' @
     ''}@%$#'')"

definition z85_decoder :: "byte list" where
  "z85_decoder = [
    0x00, 0x44, 0x00, 0x54, 0x53, 0x52, 0x48, 0x00,
    0x4B, 0x4C, 0x46, 0x41, 0x00, 0x3F, 0x3E, 0x45,
    0x00, 0x01, 0x02, 0x03, 0x04, 0x05, 0x06, 0x07,
    0x08, 0x09, 0x40, 0x00, 0x49, 0x42, 0x4A, 0x47,
    0x51, 0x24, 0x25, 0x26, 0x27, 0x28, 0x29, 0x2A,
    0x2B, 0x2C, 0x2D, 0x2E, 0x2F, 0x30, 0x31, 0x32,
    0x33, 0x34, 0x35, 0x36, 0x37, 0x38, 0x39, 0x3A,
    0x3B, 0x3C, 0x3D, 0x4D, 0x00, 0x4E, 0x43, 0x00,
    0x00, 0x0A, 0x0B, 0x0C, 0x0D, 0x0E, 0x0F, 0x10,
    0x11, 0x12, 0x13, 0x14, 0x15, 0x16, 0x17, 0x18,
    0x19, 0x1A, 0x1B, 0x1C, 0x1D, 0x1E, 0x1F, 0x20,
    0x21, 0x22, 0x23, 0x4F, 0x00, 0x50, 0x00, 0x00]"

section \<open>Encoding\<close>

text \<open>The inner loop \<open>while (divisor)\<close>.\<close>

function encode_digits :: "32 word \<Rightarrow> nat \<Rightarrow> byte list" where
  "encode_digits value divisor =
     (if divisor = 0 then []
      else z85_encoder ! unat (value div of_nat divisor mod 85) # encode_digits value (divisor div 85))"
  by pat_completeness auto
termination by (relation "measure snd") auto

declare encode_digits.simps [simp del]

fun z85_encode_loop :: "nat \<Rightarrow> 32 word \<Rightarrow> byte list \<Rightarrow> byte list" where
  "z85_encode_loop byte_nbr value [] = []"
| "z85_encode_loop byte_nbr value (b # data) =
     (let value' = value * 256 + ucast b in
      if (byte_nbr + 1) mod 4 = 0
      then encode_digits value' (85 * 85 * 85 * 85) @ z85_encode_loop (byte_nbr + 1) 0 data
      else z85_encode_loop (byte_nbr + 1) value' data)"

text \<open>The result is the destination string with its null terminator.\<close>

definition zmq_z85_encode :: "byte list \<Rightarrow> byte list result" where
  "zmq_z85_encode data =
     (if length data mod 4 \<noteq> 0 then Inl EINVAL else Inr (z85_encode_loop 0 0 data @ [0]))"

section \<open>Decoding\<close>

function decode_bytes :: "32 word \<Rightarrow> nat \<Rightarrow> byte list" where
  "decode_bytes value divisor =
     (if divisor = 0 then []
      else ucast (value div of_nat divisor mod 256) # decode_bytes value (divisor div 256))"
  by pat_completeness auto
termination by (relation "measure snd") auto

declare decode_bytes.simps [simp del]

definition z85_digit :: "byte \<Rightarrow> byte option" where
  "z85_digit c = (if 32 \<le> unat c \<and> unat c - 32 < length z85_decoder then Some (z85_decoder ! (unat c - 32)) else None)"

fun z85_decode_loop :: "nat \<Rightarrow> 32 word \<Rightarrow> byte list \<Rightarrow> byte list option" where
  "z85_decode_loop char_nbr value [] = Some []"
| "z85_decode_loop char_nbr value (c # string) =
     Option.bind (z85_digit c) (\<lambda>d.
       let value' = value * 85 + ucast d in
       if (char_nbr + 1) mod 5 = 0
       then map_option (\<lambda>rest. decode_bytes value' (256 * 256 * 256) @ rest) (z85_decode_loop (char_nbr + 1) 0 string)
       else z85_decode_loop (char_nbr + 1) value' string)"

text \<open>\<open>strlen\<close> of a string with its terminator.\<close>

definition c_str :: "byte list \<Rightarrow> byte list" where
  "c_str s = takeWhile (\<lambda>c. c \<noteq> 0) s"

definition zmq_z85_decode :: "byte list \<Rightarrow> byte list result option" where
  "zmq_z85_decode s =
     (if length (c_str s) mod 5 \<noteq> 0 then Some (Inl EINVAL)
      else map_option Inr (z85_decode_loop 0 0 (c_str s)))"

section \<open>Digits\<close>

lemma encoder_length [simp]: "length z85_encoder = 85"
  by (simp add: z85_encoder_def)

lemma decoder_length [simp]: "length z85_decoder = 96"
  by (simp add: z85_decoder_def)

lemma encoder_codes: "z85_encoder = [
    48, 49, 50, 51, 52, 53, 54, 55, 56, 57, 97, 98, 99, 100, 101, 102, 103, 104, 105, 106,
    107, 108, 109, 110, 111, 112, 113, 114, 115, 116, 117, 118, 119, 120, 121, 122, 65, 66, 67, 68,
    69, 70, 71, 72, 73, 74, 75, 76, 77, 78, 79, 80, 81, 82, 83, 84, 85, 86, 87, 88,
    89, 90, 46, 45, 58, 43, 61, 94, 33, 47, 42, 63, 38, 60, 62, 40, 41, 91, 93, 123,
    125, 64, 37, 36, 35]"
  by (simp add: z85_encoder_def)

lemma tables: "map z85_digit z85_encoder = map (\<lambda>d. Some (of_nat d)) [0..<85]" "0 \<notin> set z85_encoder"
  by (simp_all add: encoder_codes z85_digit_def z85_decoder_def upt_rec_numeral upt_conv_Cons)

lemma digit_encoder: "d < 85 \<Longrightarrow> z85_digit (z85_encoder ! d) = Some (of_nat d) \<and> z85_encoder ! d \<noteq> 0"
proof
  assume d: "d < 85"
  then have "map z85_digit z85_encoder ! d = map (\<lambda>d. Some (of_nat d)) [0..<85] ! d" by (simp only: tables)
  then show "z85_digit (z85_encoder ! d) = Some (of_nat d)" using d by simp
  show "z85_encoder ! d \<noteq> 0" using tables(2) d by (metis encoder_length nth_mem)
qed

lemma encode_digits_word:
  "encode_digits (of_nat n) (85 * 85 * 85 * 85) = map (\<lambda>d. z85_encoder ! d)
     [n div 52200625 mod 85, n div 614125 mod 85, n div 7225 mod 85, n div 85 mod 85, n mod 85]"
  if "n < 2 ^ 32"
proof -
  have "unat (of_nat n div of_nat k mod 85 :: 32 word) = n div k mod 85" if "k < 2 ^ 32" for k
    using \<open>n < 2 ^ 32\<close> that by (simp add: unat_mod_distrib unat_div_distrib unat_of_nat take_bit_nat_eq_self)
  from this[of 52200625] this[of 614125] this[of 7225] this[of 85] this[of 1] show ?thesis
    by (simp add: encode_digits.simps)
qed

lemma decode_bytes_word:
  "decode_bytes (of_nat n) (256 * 256 * 256) =
     [of_nat (n div 16777216), of_nat (n div 65536 mod 256), of_nat (n div 256 mod 256), of_nat (n mod 256)]"
  if "n < 2 ^ 32"
proof -
  have w: "(ucast (of_nat n div of_nat k mod 256 :: 32 word) :: byte) = of_nat (n div k mod 256)" if "k < 2 ^ 32" for k
    using \<open>n < 2 ^ 32\<close> that
    by (intro unat_eqI)
      (simp add: unsigned_ucast_eq take_bit_eq_mod unat_mod_distrib unat_div_distrib unat_of_nat take_bit_nat_eq_self)
  have "n div 16777216 mod 256 = n div 16777216" using that by simp
  with w[of 16777216] w[of 65536] w[of 256] w[of 1] show ?thesis
    by (simp add: decode_bytes.simps)
qed

lemma base85: "(((n div 52200625 mod 85 * 85 + n div 614125 mod 85) * 85 + n div 7225 mod 85) * 85 + n div 85 mod 85) * 85 + n mod 85 = n"
  if "n < 2 ^ 32" for n :: nat
proof -
  have e: "n div 614125 = n div 85 div 85 div 85" "n div 7225 = n div 85 div 85" "n div 52200625 = n div 85 div 85 div 85 div 85"
    by (simp_all add: div_mult2_eq[symmetric])
  have "n div 85 div 85 div 85 div 85 < 85" using that by (simp add: div_mult2_eq[symmetric] less_mult_imp_div_less)
  then have "n div 52200625 mod 85 = n div 85 div 85 div 85 div 85" using e(3) by simp
  then show ?thesis unfolding e by (metis div_mult_mod_eq)
qed

section \<open>Round trip\<close>

lemma decode_digits:
  assumes "k mod 5 = 0" "a < 85" "b < 85" "c < 85" "d < 85" "e < 85"
  shows "z85_decode_loop k 0 (map ((!) z85_encoder) [a, b, c, d, e] @ rest) =
     map_option (\<lambda>r. decode_bytes (of_nat ((((a * 85 + b) * 85 + c) * 85 + d) * 85 + e)) (256 * 256 * 256) @ r)
       (z85_decode_loop (k + 5) 0 rest)"
proof -
  have u: "(ucast (of_nat d :: byte) :: 32 word) = of_nat d" if "d < 85" for d
    using that by (intro unat_eqI) (simp add: unsigned_ucast_eq take_bit_nat_eq_self unat_of_nat)
  have m: "(k + 1) mod 5 \<noteq> 0" "(k + 1 + 1) mod 5 \<noteq> 0" "(k + 1 + 1 + 1) mod 5 \<noteq> 0" "(k + 1 + 1 + 1 + 1) mod 5 \<noteq> 0"
    "(k + 1 + 1 + 1 + 1 + 1) mod 5 = 0"
    using assms(1) by presburger+
  have step: "z85_decode_loop k v (z85_encoder ! x # s) = z85_decode_loop (k + 1) (v * 85 + of_nat x) s"
    if "x < 85" "(k + 1) mod 5 \<noteq> 0" for k v x s
    using that by (simp add: digit_encoder u Let_def)
  have last: "z85_decode_loop k v (z85_encoder ! x # s) =
      map_option (\<lambda>r. decode_bytes (v * 85 + of_nat x) (256 * 256 * 256) @ r) (z85_decode_loop (k + 1) 0 s)"
    if "x < 85" "(k + 1) mod 5 = 0" for k v x s
    using that by (simp add: digit_encoder u Let_def)
  have "z85_decode_loop k 0 (map ((!) z85_encoder) [a, b, c, d, e] @ rest) =
     map_option (\<lambda>r. decode_bytes (((((0 * 85 + of_nat a) * 85 + of_nat b) * 85 + of_nat c) * 85 + of_nat d) * 85 + of_nat e) (256 * 256 * 256) @ r)
       (z85_decode_loop (k + 1 + 1 + 1 + 1 + 1) 0 rest)"
    using assms m by (simp only: list.map append.simps step last if_True HOL.simp_thms)
  moreover have "k + 1 + 1 + 1 + 1 + 1 = k + 5" by simp
  ultimately show ?thesis by (simp only: of_nat_add of_nat_mult of_nat_numeral mult_zero_left add_0)
qed

lemma decode_group:
  assumes "n < 2 ^ 32" "k mod 5 = 0"
  shows "z85_decode_loop k 0 (encode_digits (of_nat n) (85 * 85 * 85 * 85) @ rest) =
     map_option (\<lambda>r. decode_bytes (of_nat n) (256 * 256 * 256) @ r) (z85_decode_loop (k + 5) 0 rest)"
  unfolding encode_digits_word[OF assms(1)] by (rule trans[OF decode_digits[OF assms(2)]])
    (simp_all only: base85[OF assms(1)] mod_less_divisor zero_less_numeral)

text \<open>One group of four bytes.\<close>

definition be32 :: "byte \<Rightarrow> byte \<Rightarrow> byte \<Rightarrow> byte \<Rightarrow> nat" where
  "be32 a b c d = ((unat a * 256 + unat b) * 256 + unat c) * 256 + unat d"

lemma unat_byte_less: "unat (b :: byte) < 256"
proof -
  have "unat b < 2 ^ LENGTH(8)" by (rule unsigned_less)
  then show ?thesis by simp
qed

lemma group_bound: "be32 a b c d < 2 ^ 32"
  using unat_byte_less[of a] unat_byte_less[of b] unat_byte_less[of c] unat_byte_less[of d] by (simp add: be32_def)

lemma ucast_of_nat: "(ucast b :: 32 word) = of_nat (unat b)" for b :: byte
  using unat_byte_less[of b] by (intro unat_eqI) (simp add: unsigned_ucast_eq unat_of_nat take_bit_nat_eq_self)

lemma group_bytes: "decode_bytes (of_nat (be32 a b c d)) (256 * 256 * 256) = [a, b, c, d]"
proof -
  have "be32 a b c d div 16777216 = unat a" "be32 a b c d div 65536 mod 256 = unat b"
    "be32 a b c d div 256 mod 256 = unat c" "be32 a b c d mod 256 = unat d"
  proof -
    have m: "(x * 256 + y) div 256 = x" "(x * 256 + y) mod 256 = y" if "y < 256" for x y :: nat using that by simp_all
    have e: "n div 65536 = n div 256 div 256" "n div 16777216 = n div 256 div 256 div 256" for n :: nat
      by (simp_all add: div_mult2_eq[symmetric])
    show "be32 a b c d div 16777216 = unat a" "be32 a b c d div 65536 mod 256 = unat b"
      "be32 a b c d div 256 mod 256 = unat c" "be32 a b c d mod 256 = unat d"
      unfolding be32_def e by (simp_all only: m unat_byte_less)
  qed
  then show ?thesis unfolding decode_bytes_word[OF group_bound] by simp
qed

lemma encode_group:
  assumes "k mod 4 = 0"
  shows "z85_encode_loop k 0 (a # b # c # d # rest) =
     encode_digits (of_nat (be32 a b c d)) (85 * 85 * 85 * 85) @ z85_encode_loop (k + 4) 0 rest"
proof -
  have "(k + 1) mod 4 \<noteq> 0" "(k + 1 + 1) mod 4 \<noteq> 0" "(k + 1 + 1 + 1) mod 4 \<noteq> 0" "(k + 1 + 1 + 1 + 1) mod 4 = 0"
    using assms by presburger+
  moreover have "(((0 * 256 + ucast a) * 256 + ucast b) * 256 + ucast c) * 256 + ucast d = (of_nat (be32 a b c d) :: 32 word)"
    unfolding ucast_of_nat be32_def by (simp only: of_nat_add of_nat_mult of_nat_numeral mult_zero_left add_0)
  moreover have "k + 1 + 1 + 1 + 1 = k + 4" by simp
  ultimately show ?thesis by (simp only: z85_encode_loop.simps Let_def if_False if_True HOL.simp_thms)
qed

lemma encode_decode:
  assumes "k mod 4 = 0" "j mod 5 = 0" "length data mod 4 = 0"
  shows "z85_decode_loop j 0 (z85_encode_loop k 0 data) = Some data \<and>
    length (z85_encode_loop k 0 data) = length data * 5 div 4 \<and> 0 \<notin> set (z85_encode_loop k 0 data)"
  using assms
proof (induction "length data" arbitrary: data k j rule: less_induct)
  case less
  show ?case
  proof (cases "data = []")
    case False
    then obtain a r1 where r1: "data = a # r1" by (cases data) auto
    then obtain b r2 where r2: "r1 = b # r2" using less.prems(3) by (cases r1) auto
    then obtain c r3 where r3: "r2 = c # r3" using less.prems(3) r1 by (cases r2) auto
    then obtain d rest where "r3 = d # rest" using less.prems(3) r1 r2 by (cases r3) auto
    with r1 r2 r3 have data: "data = a # b # c # d # rest" by simp
    have "z85_decode_loop (j + 5) 0 (z85_encode_loop (k + 4) 0 rest) = Some rest \<and>
        length (z85_encode_loop (k + 4) 0 rest) = length rest * 5 div 4 \<and> 0 \<notin> set (z85_encode_loop (k + 4) 0 rest)"
      using less.hyps[of rest "k + 4" "j + 5"] less.prems data by simp
    moreover have "length (encode_digits (of_nat (be32 a b c d)) (85 * 85 * 85 * 85)) = 5"
      "0 \<notin> set (encode_digits (of_nat (be32 a b c d)) (85 * 85 * 85 * 85))"
      unfolding encode_digits_word[OF group_bound] by (auto simp: digit_encoder)
    ultimately show ?thesis
      unfolding data encode_group[OF less.prems(1)] decode_group[OF group_bound less.prems(2)] group_bytes by simp
  qed simp
qed

text \<open>
  Claim C40. Encoding binary data whose size is a multiple of four gives a string of five characters for
  every four bytes, none of them the terminator, and decoding it gives the data back.
\<close>

theorem z85_roundtrip:
  assumes "length data mod 4 = 0"
  shows "\<exists>s. zmq_z85_encode data = Inr (s @ [0]) \<and> length s = length data * 5 div 4 \<and> c_str (s @ [0]) = s \<and>
    zmq_z85_decode (s @ [0]) = Some (Inr data)"
proof -
  let ?s = "z85_encode_loop 0 0 data"
  have e: "z85_decode_loop 0 0 ?s = Some data" "length ?s = length data * 5 div 4" "0 \<notin> set ?s"
    using encode_decode[of 0 0 data] assms by simp_all
  have c: "c_str (?s @ [0]) = ?s" using e(3) unfolding c_str_def by (subst takeWhile_append2) auto
  have "length data * 5 div 4 mod 5 = 0" using assms by presburger
  then show ?thesis using assms e c by (intro exI[of _ ?s]) (simp add: zmq_z85_encode_def zmq_z85_decode_def)
qed

theorem z85_roundtrip_witness:
  "\<exists>s. zmq_z85_encode [0x86, 0x4F, 0xD2, 0x6F] = Inr (s @ [0]) \<and> zmq_z85_decode (s @ [0]) = Some (Inr [0x86, 0x4F, 0xD2, 0x6F])"
  using z85_roundtrip[of "[0x86, 0x4F, 0xD2, 0x6F]"] by auto

text \<open>
  Decoding does not report invalid input: characters outside of the alphabet and groups above \<open>2 ^ 32\<close> are
  decoded like others.
\<close>

lemma z85_decode_accepts_invalid:
  "34 \<notin> set z85_encoder" "zmq_z85_decode [34, 34, 34, 34, 34, 0] = zmq_z85_decode [48, 48, 48, 48, 48, 0]"
  by (simp_all add: encoder_codes zmq_z85_decode_def c_str_def z85_digit_def z85_decoder_def Let_def)

end
