(* ===== verification/Options.thy ===== *)
theory Options
  imports Tcp_Address Z85
begin

text \<open>
  Model of \<open>src/src/options.cpp\<close> and \<open>options.hpp\<close> as built on Linux with CURVE and without GSSAPI, VMCI and
  militant asserts: the options of a socket, their defaults, and the checks of \<open>setsockopt\<close> and
  \<open>getsockopt\<close>. An option value is the bytes at \<open>optval_\<close>, \<open>None\<close> for a null pointer with length 0;
  integers are little endian. \<open>None\<close> as a result is an access out of bounds. \<open>identity_size\<close> is the length of
  the identity.
\<close>

section \<open>Option values\<close>

definition le_word :: "byte list \<Rightarrow> 'a :: len word" where
  "le_word bs = word_of_int (foldr (\<lambda>b n. uint b + 256 * n) bs 0)"

fun le_bytes :: "nat \<Rightarrow> int \<Rightarrow> byte list" where
  "le_bytes 0 n = []"
| "le_bytes (Suc k) n = word_of_int (n mod 256) # le_bytes k (n div 256)"

definition opt_bytes :: "byte list option \<Rightarrow> byte list" where
  "opt_bytes v = (case v of None \<Rightarrow> [] | Some bs \<Rightarrow> bs)"

text \<open>Division of C, which truncates.\<close>

definition c_div :: "int \<Rightarrow> int \<Rightarrow> int" where
  "c_div a b = sgn a * (\<bar>a\<bar> div b)"

definition int_opt :: "byte list option \<Rightarrow> (int \<Rightarrow> bool) \<Rightarrow> (int \<Rightarrow> 'a) \<Rightarrow> 'a result" where
  "int_opt v P f =
     (let x = sint (le_word (opt_bytes v) :: 32 word)
      in if length (opt_bytes v) = 4 \<and> P x then Inr (f x) else Inl EINVAL)"

definition filter_opt :: "byte list option \<Rightarrow> (32 word option \<Rightarrow> 'a) \<Rightarrow> 'a result" where
  "filter_opt v f =
     (case v of None \<Rightarrow> Inr (f None)
      | Some bs \<Rightarrow> if length bs = 4 then Inr (f (Some (le_word bs))) else Inl EINVAL)"

text \<open>
  The \<open>switch\<close> over options is divided into groups, each of which answers EINVAL to the options of the
  others.
\<close>

definition or_else :: "'a result \<Rightarrow> 'a result \<Rightarrow> 'a result" where
  "or_else a b = (case a of Inl EINVAL \<Rightarrow> b | _ \<Rightarrow> a)"

lemma or_else_simps [simp]: "or_else (Inl EINVAL) b = b" "or_else a (Inl EINVAL) = a"
  by (auto simp: or_else_def split: sum.split errno.split)

text \<open>
  A CURVE key as 32 bytes, or in Z85 with or without its terminator. Decoding overwrites the head of
  the old key. Without a terminator among 41 bytes \<open>strlen\<close> reads on.
\<close>

definition curve_key :: "byte list option \<Rightarrow> byte list \<Rightarrow> (byte list \<Rightarrow> 'a) \<Rightarrow> 'a result option" where
  "curve_key v old f =
     (let bs = opt_bytes v;
          from_z85 = (\<lambda>s. do {
            r \<leftarrow> zmq_z85_decode s;
            Some (case r of Inl _ \<Rightarrow> Inl EINVAL | Inr key \<Rightarrow> Inr (f (overwrite old 0 key))) })
      in if length bs = 32 then Some (Inr (f bs))
         else if length bs = 41 then (if 0 \<in> set bs then from_z85 bs else None)
         else if length bs = 40 then from_z85 (bs @ [0])
         else Some (Inl EINVAL))"

definition get_int :: "nat \<Rightarrow> int \<Rightarrow> byte list result" where
  "get_int len x = (if len = 4 then Inr (le_bytes 4 x) else Inl EINVAL)"

definition get_string :: "nat \<Rightarrow> byte list \<Rightarrow> byte list result" where
  "get_string len s = (if len \<ge> length s + 1 then Inr (s @ [0]) else Inl EINVAL)"

definition get_key :: "nat \<Rightarrow> byte list \<Rightarrow> byte list result" where
  "get_key len key =
     (if len = 32 then Inr key
      else if len = 41 then zmq_z85_encode key
      else Inl EINVAL)"

section \<open>Options\<close>

datatype mechanism_kind = ZMQ_NULL | ZMQ_PLAIN | ZMQ_CURVE | ZMQ_GSSAPI

fun mechanism_code :: "mechanism_kind \<Rightarrow> int" where
  "mechanism_code ZMQ_NULL = 0"
| "mechanism_code ZMQ_PLAIN = 1"
| "mechanism_code ZMQ_CURVE = 2"
| "mechanism_code ZMQ_GSSAPI = 3"

record options_t =
  o_sndhwm :: int
  o_rcvhwm :: int
  o_affinity :: "64 word"
  o_identity :: "byte list"
  o_rate :: int
  o_recovery_ivl :: int
  o_multicast_hops :: int
  o_multicast_maxtpdu :: int
  o_sndbuf :: int
  o_rcvbuf :: int
  o_tos :: int
  o_type :: int
  o_linger :: int
  o_connect_timeout :: int
  o_tcp_maxrt :: int
  o_reconnect_ivl :: int
  o_reconnect_ivl_max :: int
  o_backlog :: int
  o_maxmsgsize :: int
  o_rcvtimeo :: int
  o_sndtimeo :: int
  o_ipv6 :: bool
  o_immediate :: int
  o_filter :: bool
  o_invert_matching :: bool
  o_recv_identity :: bool
  o_raw_socket :: bool
  o_raw_notify :: bool
  o_socks_proxy_address :: "byte list"
  o_tcp_keepalive :: int
  o_tcp_keepalive_cnt :: int
  o_tcp_keepalive_idle :: int
  o_tcp_keepalive_intvl :: int
  o_tcp_accept_filters :: "tcp_address_mask list"
  o_ipc_uid_accept_filters :: "32 word set"
  o_ipc_gid_accept_filters :: "32 word set"
  o_ipc_pid_accept_filters :: "32 word set"
  o_mechanism :: mechanism_kind
  o_as_server :: int
  o_zap_domain :: "byte list"
  o_plain_username :: "byte list"
  o_plain_password :: "byte list"
  o_curve_public_key :: "byte list"
  o_curve_secret_key :: "byte list"
  o_curve_server_key :: "byte list"
  o_socket_id :: int
  o_conflate :: bool
  o_handshake_ivl :: int
  o_connected :: bool
  o_heartbeat_ttl :: "16 word"
  o_heartbeat_interval :: int
  o_heartbeat_timeout :: int
  o_use_fd :: int

definition default_options :: options_t where
  "default_options = \<lparr>o_sndhwm = 1000, o_rcvhwm = 1000, o_affinity = 0, o_identity = [], o_rate = 100, o_recovery_ivl = 10000,
    o_multicast_hops = 1, o_multicast_maxtpdu = 1500, o_sndbuf = -1, o_rcvbuf = -1, o_tos = 0, o_type = -1,
    o_linger = -1, o_connect_timeout = 0, o_tcp_maxrt = 0, o_reconnect_ivl = 100, o_reconnect_ivl_max = 0,
    o_backlog = 100, o_maxmsgsize = -1, o_rcvtimeo = -1, o_sndtimeo = -1, o_ipv6 = False, o_immediate = 0,
    o_filter = False, o_invert_matching = False, o_recv_identity = False, o_raw_socket = False,
    o_raw_notify = True, o_socks_proxy_address = [], o_tcp_keepalive = -1, o_tcp_keepalive_cnt = -1,
    o_tcp_keepalive_idle = -1, o_tcp_keepalive_intvl = -1, o_tcp_accept_filters = [],
    o_ipc_uid_accept_filters = {}, o_ipc_gid_accept_filters = {}, o_ipc_pid_accept_filters = {},
    o_mechanism = ZMQ_NULL, o_as_server = 0, o_zap_domain = [], o_plain_username = [],
    o_plain_password = [], o_curve_public_key = replicate 32 0, o_curve_secret_key = replicate 32 0,
    o_curve_server_key = replicate 32 0, o_socket_id = 0, o_conflate = False, o_handshake_ivl = 30000,
    o_connected = False, o_heartbeat_ttl = 0, o_heartbeat_interval = 0, o_heartbeat_timeout = -1,
    o_use_fd = -1\<rparr>"

datatype sockopt =
    ZMQ_SNDHWM | ZMQ_RCVHWM | ZMQ_AFFINITY | ZMQ_IDENTITY | ZMQ_RATE | ZMQ_RECOVERY_IVL | ZMQ_SNDBUF |
    ZMQ_RCVBUF | ZMQ_TOS | ZMQ_LINGER | ZMQ_CONNECT_TIMEOUT | ZMQ_TCP_MAXRT | ZMQ_RECONNECT_IVL |
    ZMQ_RECONNECT_IVL_MAX | ZMQ_BACKLOG | ZMQ_MAXMSGSIZE | ZMQ_MULTICAST_HOPS | ZMQ_MULTICAST_MAXTPDU |
    ZMQ_RCVTIMEO | ZMQ_SNDTIMEO | ZMQ_IPV4ONLY | ZMQ_IPV6 | ZMQ_SOCKS_PROXY | ZMQ_TCP_KEEPALIVE |
    ZMQ_TCP_KEEPALIVE_CNT | ZMQ_TCP_KEEPALIVE_IDLE | ZMQ_TCP_KEEPALIVE_INTVL | ZMQ_IMMEDIATE |
    ZMQ_TCP_ACCEPT_FILTER | ZMQ_IPC_FILTER_UID | ZMQ_IPC_FILTER_GID | ZMQ_IPC_FILTER_PID |
    ZMQ_PLAIN_SERVER | ZMQ_PLAIN_USERNAME | ZMQ_PLAIN_PASSWORD | ZMQ_ZAP_DOMAIN | ZMQ_CURVE_SERVER |
    ZMQ_CURVE_PUBLICKEY | ZMQ_CURVE_SECRETKEY | ZMQ_CURVE_SERVERKEY | ZMQ_CONFLATE |
    ZMQ_HANDSHAKE_IVL | ZMQ_INVERT_MATCHING | ZMQ_HEARTBEAT_IVL | ZMQ_HEARTBEAT_TTL |
    ZMQ_HEARTBEAT_TIMEOUT | ZMQ_USE_FD | ZMQ_TYPE | ZMQ_MECHANISM | Other_option int

section \<open>Setting\<close>

fun set_limit_option :: "net_os \<Rightarrow> sockopt \<Rightarrow> byte list option \<Rightarrow> options_t \<Rightarrow> options_t result option" where
  "set_limit_option os ZMQ_SNDHWM v t =
     Some (int_opt v (\<lambda>x. 0 \<le> x) (\<lambda>x. t\<lparr>o_sndhwm := x\<rparr>))"
| "set_limit_option os ZMQ_RCVHWM v t =
     Some (int_opt v (\<lambda>x. 0 \<le> x) (\<lambda>x. t\<lparr>o_rcvhwm := x\<rparr>))"
| "set_limit_option os ZMQ_AFFINITY v t =
     Some (if length (opt_bytes v) = 8 then Inr (t\<lparr>o_affinity := (le_word (opt_bytes v))\<rparr>) else Inl EINVAL)"
| "set_limit_option os ZMQ_IDENTITY v t =
     Some (if 0 < length (opt_bytes v) \<and> length (opt_bytes v) < 256 then Inr (t\<lparr>o_identity := (opt_bytes v)\<rparr>) else Inl EINVAL)"
| "set_limit_option os ZMQ_RATE v t =
     Some (int_opt v (\<lambda>x. 0 < x) (\<lambda>x. t\<lparr>o_rate := x\<rparr>))"
| "set_limit_option os ZMQ_RECOVERY_IVL v t =
     Some (int_opt v (\<lambda>x. 0 \<le> x) (\<lambda>x. t\<lparr>o_recovery_ivl := x\<rparr>))"
| "set_limit_option os ZMQ_SNDBUF v t =
     Some (int_opt v (\<lambda>x. -1 \<le> x) (\<lambda>x. t\<lparr>o_sndbuf := x\<rparr>))"
| "set_limit_option os ZMQ_RCVBUF v t =
     Some (int_opt v (\<lambda>x. -1 \<le> x) (\<lambda>x. t\<lparr>o_rcvbuf := x\<rparr>))"
| "set_limit_option os ZMQ_TOS v t =
     Some (int_opt v (\<lambda>x. 0 \<le> x) (\<lambda>x. t\<lparr>o_tos := x\<rparr>))"
| "set_limit_option os ZMQ_LINGER v t =
     Some (int_opt v (\<lambda>x. -1 \<le> x) (\<lambda>x. t\<lparr>o_linger := x\<rparr>))"
| "set_limit_option os ZMQ_CONNECT_TIMEOUT v t =
     Some (int_opt v (\<lambda>x. 0 \<le> x) (\<lambda>x. t\<lparr>o_connect_timeout := x\<rparr>))"
| "set_limit_option os ZMQ_TCP_MAXRT v t =
     Some (int_opt v (\<lambda>x. 0 \<le> x) (\<lambda>x. t\<lparr>o_tcp_maxrt := x\<rparr>))"
| "set_limit_option os ZMQ_RECONNECT_IVL v t =
     Some (int_opt v (\<lambda>x. -1 \<le> x) (\<lambda>x. t\<lparr>o_reconnect_ivl := x\<rparr>))"
| "set_limit_option os ZMQ_RECONNECT_IVL_MAX v t =
     Some (int_opt v (\<lambda>x. 0 \<le> x) (\<lambda>x. t\<lparr>o_reconnect_ivl_max := x\<rparr>))"
| "set_limit_option os ZMQ_BACKLOG v t =
     Some (int_opt v (\<lambda>x. 0 \<le> x) (\<lambda>x. t\<lparr>o_backlog := x\<rparr>))"
| "set_limit_option os ZMQ_MAXMSGSIZE v t =
     Some (if length (opt_bytes v) = 8 then Inr (t\<lparr>o_maxmsgsize := (sint (le_word (opt_bytes v) :: 64 word))\<rparr>) else Inl EINVAL)"
| "set_limit_option os ZMQ_MULTICAST_HOPS v t =
     Some (int_opt v (\<lambda>x. 0 < x) (\<lambda>x. t\<lparr>o_multicast_hops := x\<rparr>))"
| "set_limit_option os ZMQ_MULTICAST_MAXTPDU v t =
     Some (int_opt v (\<lambda>x. 0 < x) (\<lambda>x. t\<lparr>o_multicast_maxtpdu := x\<rparr>))"
| "set_limit_option os ZMQ_RCVTIMEO v t =
     Some (int_opt v (\<lambda>x. -1 \<le> x) (\<lambda>x. t\<lparr>o_rcvtimeo := x\<rparr>))"
| "set_limit_option os ZMQ_SNDTIMEO v t =
     Some (int_opt v (\<lambda>x. -1 \<le> x) (\<lambda>x. t\<lparr>o_sndtimeo := x\<rparr>))"
| "set_limit_option os _ v t = Some (Inl EINVAL)"

fun set_transport_option :: "net_os \<Rightarrow> sockopt \<Rightarrow> byte list option \<Rightarrow> options_t \<Rightarrow> options_t result option" where
  "set_transport_option os ZMQ_IPV4ONLY v t =
     Some (int_opt v (\<lambda>x. x = 0 \<or> x = 1) (\<lambda>x. t\<lparr>o_ipv6 := (x = 0)\<rparr>))"
| "set_transport_option os ZMQ_IPV6 v t =
     Some (int_opt v (\<lambda>x. x = 0 \<or> x = 1) (\<lambda>x. t\<lparr>o_ipv6 := (x \<noteq> 0)\<rparr>))"
| "set_transport_option os ZMQ_SOCKS_PROXY v t =
     Some (case v of None \<Rightarrow> Inr (t\<lparr>o_socks_proxy_address := []\<rparr>)
       | Some bs \<Rightarrow> if 0 < length bs then Inr (t\<lparr>o_socks_proxy_address := bs\<rparr>) else Inl EINVAL)"
| "set_transport_option os ZMQ_TCP_KEEPALIVE v t =
     Some (int_opt v (\<lambda>x. x = -1 \<or> x = 0 \<or> x = 1) (\<lambda>x. t\<lparr>o_tcp_keepalive := x\<rparr>))"
| "set_transport_option os ZMQ_TCP_KEEPALIVE_CNT v t =
     Some (int_opt v (\<lambda>x. x = -1 \<or> 0 \<le> x) (\<lambda>x. t\<lparr>o_tcp_keepalive_cnt := x\<rparr>))"
| "set_transport_option os ZMQ_TCP_KEEPALIVE_IDLE v t =
     Some (int_opt v (\<lambda>x. x = -1 \<or> 0 \<le> x) (\<lambda>x. t\<lparr>o_tcp_keepalive_idle := x\<rparr>))"
| "set_transport_option os ZMQ_TCP_KEEPALIVE_INTVL v t =
     Some (int_opt v (\<lambda>x. x = -1 \<or> 0 \<le> x) (\<lambda>x. t\<lparr>o_tcp_keepalive_intvl := x\<rparr>))"
| "set_transport_option os ZMQ_IMMEDIATE v t =
     Some (int_opt v (\<lambda>x. x = 0 \<or> x = 1) (\<lambda>x. t\<lparr>o_immediate := x\<rparr>))"
| "set_transport_option os ZMQ_TCP_ACCEPT_FILTER v t =
     Some (case v of None \<Rightarrow> Inr (t\<lparr>o_tcp_accept_filters := []\<rparr>)
       | Some bs \<Rightarrow> if 0 < length bs \<and> length bs < 256 \<and> hd bs \<noteq> 0
           then (case mask_resolve os (c_str bs) (o_ipv6 t) tcp_address_mask_t of
                   Inr mk \<Rightarrow> Inr (t\<lparr>o_tcp_accept_filters := (o_tcp_accept_filters t @ [mk])\<rparr>)
                 | Inl _ \<Rightarrow> Inl EINVAL)
           else Inl EINVAL)"
| "set_transport_option os ZMQ_IPC_FILTER_UID v t =
     Some (filter_opt v (\<lambda>x. t\<lparr>o_ipc_uid_accept_filters := (case x of None \<Rightarrow> {} | Some i \<Rightarrow> insert i (o_ipc_uid_accept_filters t))\<rparr>))"
| "set_transport_option os ZMQ_IPC_FILTER_GID v t =
     Some (filter_opt v (\<lambda>x. t\<lparr>o_ipc_gid_accept_filters := (case x of None \<Rightarrow> {} | Some i \<Rightarrow> insert i (o_ipc_gid_accept_filters t))\<rparr>))"
| "set_transport_option os ZMQ_IPC_FILTER_PID v t =
     Some (filter_opt v (\<lambda>x. t\<lparr>o_ipc_pid_accept_filters := (case x of None \<Rightarrow> {} | Some i \<Rightarrow> insert i (o_ipc_pid_accept_filters t))\<rparr>))"
| "set_transport_option os _ v t = Some (Inl EINVAL)"

fun set_security_option :: "net_os \<Rightarrow> sockopt \<Rightarrow> byte list option \<Rightarrow> options_t \<Rightarrow> options_t result option" where
  "set_security_option os ZMQ_PLAIN_SERVER v t =
     Some (int_opt v (\<lambda>x. x = 0 \<or> x = 1) (\<lambda>x. t\<lparr>o_as_server := x, o_mechanism := (if x \<noteq> 0 then ZMQ_PLAIN else ZMQ_NULL)\<rparr>))"
| "set_security_option os ZMQ_PLAIN_USERNAME v t =
     Some (case v of None \<Rightarrow> Inr (t\<lparr>o_mechanism := ZMQ_NULL\<rparr>)
       | Some bs \<Rightarrow> if 0 < length bs \<and> length bs < 256
           then Inr (t\<lparr>o_plain_username := bs, o_as_server := 0, o_mechanism := ZMQ_PLAIN\<rparr>) else Inl EINVAL)"
| "set_security_option os ZMQ_PLAIN_PASSWORD v t =
     Some (case v of None \<Rightarrow> Inr (t\<lparr>o_mechanism := ZMQ_NULL\<rparr>)
       | Some bs \<Rightarrow> if 0 < length bs \<and> length bs < 256
           then Inr (t\<lparr>o_plain_password := bs, o_as_server := 0, o_mechanism := ZMQ_PLAIN\<rparr>) else Inl EINVAL)"
| "set_security_option os ZMQ_ZAP_DOMAIN v t =
     Some (if length (opt_bytes v) < 256 then Inr (t\<lparr>o_zap_domain := (opt_bytes v)\<rparr>) else Inl EINVAL)"
| "set_security_option os ZMQ_CURVE_SERVER v t =
     Some (int_opt v (\<lambda>x. x = 0 \<or> x = 1) (\<lambda>x. t\<lparr>o_as_server := x, o_mechanism := (if x \<noteq> 0 then ZMQ_CURVE else ZMQ_NULL)\<rparr>))"
| "set_security_option os ZMQ_CURVE_PUBLICKEY v t =
     curve_key v (o_curve_public_key t) (\<lambda>key. t\<lparr>o_curve_public_key := key, o_mechanism := ZMQ_CURVE\<rparr>)"
| "set_security_option os ZMQ_CURVE_SECRETKEY v t =
     curve_key v (o_curve_secret_key t) (\<lambda>key. t\<lparr>o_curve_secret_key := key, o_mechanism := ZMQ_CURVE\<rparr>)"
| "set_security_option os ZMQ_CURVE_SERVERKEY v t =
     curve_key v (o_curve_server_key t) (\<lambda>key. t\<lparr>o_curve_server_key := key, o_mechanism := ZMQ_CURVE, o_as_server := 0\<rparr>)"
| "set_security_option os _ v t = Some (Inl EINVAL)"

fun set_other_option :: "net_os \<Rightarrow> sockopt \<Rightarrow> byte list option \<Rightarrow> options_t \<Rightarrow> options_t result option" where
  "set_other_option os ZMQ_CONFLATE v t =
     Some (int_opt v (\<lambda>x. x = 0 \<or> x = 1) (\<lambda>x. t\<lparr>o_conflate := (x \<noteq> 0)\<rparr>))"
| "set_other_option os ZMQ_HANDSHAKE_IVL v t =
     Some (int_opt v (\<lambda>x. 0 \<le> x) (\<lambda>x. t\<lparr>o_handshake_ivl := x\<rparr>))"
| "set_other_option os ZMQ_INVERT_MATCHING v t =
     Some (int_opt v (\<lambda>x. True) (\<lambda>x. t\<lparr>o_invert_matching := (x \<noteq> 0)\<rparr>))"
| "set_other_option os ZMQ_HEARTBEAT_IVL v t =
     Some (int_opt v (\<lambda>x. 0 \<le> x) (\<lambda>x. t\<lparr>o_heartbeat_interval := x\<rparr>))"
| "set_other_option os ZMQ_HEARTBEAT_TTL v t =
     Some (int_opt v (\<lambda>x. 0 \<le> c_div x 100 \<and> c_div x 100 \<le> 6553) (\<lambda>x. t\<lparr>o_heartbeat_ttl := (of_int (c_div x 100))\<rparr>))"
| "set_other_option os ZMQ_HEARTBEAT_TIMEOUT v t =
     Some (int_opt v (\<lambda>x. 0 \<le> x) (\<lambda>x. t\<lparr>o_heartbeat_timeout := x\<rparr>))"
| "set_other_option os ZMQ_USE_FD v t =
     Some (int_opt v (\<lambda>x. -1 \<le> x) (\<lambda>x. t\<lparr>o_use_fd := x\<rparr>))"
| "set_other_option os _ v t = Some (Inl EINVAL)"

definition setsockopt :: "net_os \<Rightarrow> sockopt \<Rightarrow> byte list option \<Rightarrow> options_t \<Rightarrow> options_t result option" where
  "setsockopt os opt v t = do {
     a \<leftarrow> set_limit_option os opt v t;
     b \<leftarrow> set_transport_option os opt v t;
     c \<leftarrow> set_security_option os opt v t;
     d \<leftarrow> set_other_option os opt v t;
     Some (or_else a (or_else b (or_else c d))) }"

section \<open>Reading\<close>

fun get_limit_option :: "sockopt \<Rightarrow> nat \<Rightarrow> options_t \<Rightarrow> byte list result" where
  "get_limit_option ZMQ_SNDHWM len t = (get_int len (o_sndhwm t))"
| "get_limit_option ZMQ_RCVHWM len t = (get_int len (o_rcvhwm t))"
| "get_limit_option ZMQ_AFFINITY len t = (if len = 8 then Inr (le_bytes 8 (uint (o_affinity t))) else Inl EINVAL)"
| "get_limit_option ZMQ_IDENTITY len t = (if length (o_identity t) \<le> len then Inr (o_identity t) else Inl EINVAL)"
| "get_limit_option ZMQ_RATE len t = (get_int len (o_rate t))"
| "get_limit_option ZMQ_RECOVERY_IVL len t = (get_int len (o_recovery_ivl t))"
| "get_limit_option ZMQ_SNDBUF len t = (get_int len (o_sndbuf t))"
| "get_limit_option ZMQ_RCVBUF len t = (get_int len (o_rcvbuf t))"
| "get_limit_option ZMQ_TOS len t = (get_int len (o_tos t))"
| "get_limit_option ZMQ_TYPE len t = (get_int len (o_type t))"
| "get_limit_option ZMQ_LINGER len t = (get_int len (o_linger t))"
| "get_limit_option ZMQ_CONNECT_TIMEOUT len t = (get_int len (o_connect_timeout t))"
| "get_limit_option ZMQ_TCP_MAXRT len t = (get_int len (o_tcp_maxrt t))"
| "get_limit_option ZMQ_RECONNECT_IVL len t = (get_int len (o_reconnect_ivl t))"
| "get_limit_option ZMQ_RECONNECT_IVL_MAX len t = (get_int len (o_reconnect_ivl_max t))"
| "get_limit_option ZMQ_BACKLOG len t = (get_int len (o_backlog t))"
| "get_limit_option ZMQ_MAXMSGSIZE len t = (if len = 8 then Inr (le_bytes 8 (o_maxmsgsize t)) else Inl EINVAL)"
| "get_limit_option ZMQ_MULTICAST_HOPS len t = (get_int len (o_multicast_hops t))"
| "get_limit_option ZMQ_MULTICAST_MAXTPDU len t = (get_int len (o_multicast_maxtpdu t))"
| "get_limit_option ZMQ_RCVTIMEO len t = (get_int len (o_rcvtimeo t))"
| "get_limit_option ZMQ_SNDTIMEO len t = (get_int len (o_sndtimeo t))"
| "get_limit_option _ len t = Inl EINVAL"

fun get_transport_option :: "sockopt \<Rightarrow> nat \<Rightarrow> options_t \<Rightarrow> byte list result" where
  "get_transport_option ZMQ_IPV4ONLY len t = (get_int len (1 - of_bool (o_ipv6 t)))"
| "get_transport_option ZMQ_IPV6 len t = (get_int len (of_bool (o_ipv6 t)))"
| "get_transport_option ZMQ_SOCKS_PROXY len t = (get_string len (o_socks_proxy_address t))"
| "get_transport_option ZMQ_TCP_KEEPALIVE len t = (get_int len (o_tcp_keepalive t))"
| "get_transport_option ZMQ_TCP_KEEPALIVE_CNT len t = (get_int len (o_tcp_keepalive_cnt t))"
| "get_transport_option ZMQ_TCP_KEEPALIVE_IDLE len t = (get_int len (o_tcp_keepalive_idle t))"
| "get_transport_option ZMQ_TCP_KEEPALIVE_INTVL len t = (get_int len (o_tcp_keepalive_intvl t))"
| "get_transport_option _ len t = Inl EINVAL"

fun get_security_option :: "sockopt \<Rightarrow> nat \<Rightarrow> options_t \<Rightarrow> byte list result" where
  "get_security_option ZMQ_IMMEDIATE len t = (get_int len (o_immediate t))"
| "get_security_option ZMQ_MECHANISM len t = (get_int len (mechanism_code (o_mechanism t)))"
| "get_security_option ZMQ_PLAIN_SERVER len t = (get_int len (of_bool (o_as_server t \<noteq> 0 \<and> o_mechanism t = ZMQ_PLAIN)))"
| "get_security_option ZMQ_PLAIN_USERNAME len t = (get_string len (o_plain_username t))"
| "get_security_option ZMQ_PLAIN_PASSWORD len t = (get_string len (o_plain_password t))"
| "get_security_option ZMQ_ZAP_DOMAIN len t = (get_string len (o_zap_domain t))"
| "get_security_option ZMQ_CURVE_SERVER len t = (get_int len (of_bool (o_as_server t \<noteq> 0 \<and> o_mechanism t = ZMQ_CURVE)))"
| "get_security_option ZMQ_CURVE_PUBLICKEY len t = (get_key len (o_curve_public_key t))"
| "get_security_option ZMQ_CURVE_SECRETKEY len t = (get_key len (o_curve_secret_key t))"
| "get_security_option ZMQ_CURVE_SERVERKEY len t = (get_key len (o_curve_server_key t))"
| "get_security_option _ len t = Inl EINVAL"

fun get_other_option :: "sockopt \<Rightarrow> nat \<Rightarrow> options_t \<Rightarrow> byte list result" where
  "get_other_option ZMQ_CONFLATE len t = (get_int len (of_bool (o_conflate t)))"
| "get_other_option ZMQ_HANDSHAKE_IVL len t = (get_int len (o_handshake_ivl t))"
| "get_other_option ZMQ_INVERT_MATCHING len t = (get_int len (of_bool (o_invert_matching t)))"
| "get_other_option ZMQ_HEARTBEAT_IVL len t = (get_int len (o_heartbeat_interval t))"
| "get_other_option ZMQ_HEARTBEAT_TTL len t = (get_int len (uint (o_heartbeat_ttl t) * 100))"
| "get_other_option ZMQ_HEARTBEAT_TIMEOUT len t = (get_int len (o_heartbeat_timeout t))"
| "get_other_option ZMQ_USE_FD len t = (get_int len (o_use_fd t))"
| "get_other_option _ len t = Inl EINVAL"

definition getsockopt :: "sockopt \<Rightarrow> nat \<Rightarrow> options_t \<Rightarrow> byte list result" where
  "getsockopt opt len t =
     or_else (get_limit_option opt len t) (or_else (get_transport_option opt len t)
       (or_else (get_security_option opt len t) (get_other_option opt len t)))"

section \<open>Well-formedness\<close>

definition i32 :: "int \<Rightarrow> bool" where
  "i32 x \<longleftrightarrow> - (2 ^ 31) \<le> x \<and> x < 2 ^ 31"

definition i64 :: "int \<Rightarrow> bool" where
  "i64 x \<longleftrightarrow> - (2 ^ 63) \<le> x \<and> x < 2 ^ 63"

definition nonneg :: "int \<Rightarrow> bool" where
  "nonneg x \<longleftrightarrow> i32 x \<and> 0 \<le> x"

definition positive :: "int \<Rightarrow> bool" where
  "positive x \<longleftrightarrow> i32 x \<and> 0 < x"

text \<open>A number, or -1 for none.\<close>

definition timeout :: "int \<Rightarrow> bool" where
  "timeout x \<longleftrightarrow> i32 x \<and> -1 \<le> x"

definition tristate :: "int \<Rightarrow> bool" where
  "tristate x \<longleftrightarrow> x = -1 \<or> x = 0 \<or> x = 1"

definition zero_one :: "int \<Rightarrow> bool" where
  "zero_one x \<longleftrightarrow> x = 0 \<or> x = 1"

definition short_string :: "byte list \<Rightarrow> bool" where
  "short_string s \<longleftrightarrow> length s < 256"

definition key_size :: "byte list \<Rightarrow> bool" where
  "key_size k \<longleftrightarrow> length k = 32"

definition ttl_ok :: "16 word \<Rightarrow> bool" where
  "ttl_ok n \<longleftrightarrow> uint n \<le> 6553"

definition mask_ok :: "tcp_address_mask \<Rightarrow> bool" where
  "mask_ok mk \<longleftrightarrow> 0 \<le> address_mask mk \<and> address_mask mk \<le> max_mask (sa_family (address (mask_address mk)))"

definition options_ok :: "options_t \<Rightarrow> bool" where
  "options_ok t \<longleftrightarrow>
     nonneg (o_sndhwm t) \<and> nonneg (o_rcvhwm t) \<and> positive (o_rate t) \<and> nonneg (o_recovery_ivl t) \<and>
     timeout (o_sndbuf t) \<and> timeout (o_rcvbuf t) \<and> nonneg (o_tos t) \<and> timeout (o_linger t) \<and>
     nonneg (o_connect_timeout t) \<and> nonneg (o_tcp_maxrt t) \<and> timeout (o_reconnect_ivl t) \<and>
     nonneg (o_reconnect_ivl_max t) \<and> nonneg (o_backlog t) \<and> positive (o_multicast_hops t) \<and>
     positive (o_multicast_maxtpdu t) \<and> timeout (o_rcvtimeo t) \<and> timeout (o_sndtimeo t) \<and>
     tristate (o_tcp_keepalive t) \<and> timeout (o_tcp_keepalive_cnt t) \<and> timeout (o_tcp_keepalive_idle t) \<and>
     timeout (o_tcp_keepalive_intvl t) \<and> zero_one (o_immediate t) \<and> nonneg (o_handshake_ivl t) \<and>
     nonneg (o_heartbeat_interval t) \<and> timeout (o_heartbeat_timeout t) \<and> timeout (o_use_fd t) \<and>
     i32 (o_type t) \<and> short_string (o_identity t) \<and> short_string (o_zap_domain t) \<and>
     short_string (o_plain_username t) \<and> short_string (o_plain_password t) \<and>
     key_size (o_curve_public_key t) \<and> key_size (o_curve_secret_key t) \<and>
     key_size (o_curve_server_key t) \<and> zero_one (o_as_server t) \<and> ttl_ok (o_heartbeat_ttl t) \<and>
     i64 (o_maxmsgsize t) \<and> list_all mask_ok (o_tcp_accept_filters t)"


lemma sint_i32 [simp]: "i32 (sint (w :: 32 word))"
  using sint_range_size[of w] by (simp add: i32_def word_size)

lemma int_optE:
  assumes "int_opt v P f = Inr t"
  obtains x where "t = f x" "P x" "i32 x" "length (opt_bytes v) = 4" "x = sint (le_word (opt_bytes v) :: 32 word)"
  using assms that by (auto simp: int_opt_def Let_def split: if_splits)

lemma filter_optE:
  assumes "filter_opt v f = Inr t"
  obtains x where "t = f x"
  using assms that by (auto simp: filter_opt_def split: option.splits if_splits)

lemma decode_bytes_length: "length (decode_bytes n (256 * 256 * 256)) = 4"
  by (simp add: decode_bytes.simps)

lemma z85_decode_length:
  "z85_decode_loop k n s = Some ds \<Longrightarrow> length ds = 4 * ((k mod 5 + length s) div 5)"
proof (induction s arbitrary: k n ds)
  case (Cons c s)
  then obtain d where d: "z85_digit c = Some d" by (auto split: bind_splits)
  show ?case
  proof (cases "(k + 1) mod 5 = 0")
    case True
    then obtain es where "z85_decode_loop (k + 1) 0 s = Some es" "ds = decode_bytes (n * 85 + ucast d) (256 * 256 * 256) @ es"
      using Cons.prems d by (auto simp: Let_def)
    then have "length ds = 4 + 4 * (((k + 1) mod 5 + length s) div 5)" using Cons.IH by (simp only: length_append decode_bytes_length)
    moreover have "k mod 5 = 4" using True by presburger
    moreover have "(5 + length s) div 5 = 1 + length s div 5" by simp
    ultimately show ?thesis using True by (simp del: div_add_self1)
  next
    case False
    then have "length ds = 4 * (((k + 1) mod 5 + length s) div 5)"
      using Cons.prems d Cons.IH by (simp add: Let_def)
    moreover have "(k + 1) mod 5 = k mod 5 + 1" using False by presburger
    ultimately show ?thesis by simp
  qed
qed simp

lemma c_str_length: "0 \<in> set s \<Longrightarrow> length (c_str s) < length s"
proof -
  assume "0 \<in> set s"
  then have "c_str s \<noteq> s" by (auto simp: c_str_def takeWhile_eq_all_conv)
  then show ?thesis unfolding c_str_def by (metis length_takeWhile_le nless_le takeWhile_eq_take take_all)
qed

lemma curve_key_length:
  assumes "curve_key v old f = Some (Inr t)" "length old = 32"
  obtains key where "t = f key" "length key = 32"
proof -
  have z: "length (overwrite old 0 key) = 32" if "zmq_z85_decode s = Some (Inr key)" "length (c_str s) \<le> 40" for s key
  proof -
    have "length key = 4 * (length (c_str s) div 5)"
      using that(1) z85_decode_length[of 0 0 "c_str s"] by (auto simp: zmq_z85_decode_def split: if_splits)
    then show ?thesis using that(2) assms(2) by simp
  qed
  show ?thesis
  proof (cases "length (opt_bytes v) = 32")
    case False
    then obtain s key where "zmq_z85_decode s = Some (Inr key)" "t = f (overwrite old 0 key)"
      "length (c_str s) < 41"
      using assms(1) c_str_length[of "opt_bytes v"] c_str_length[of "opt_bytes v @ [0]"]
      by (auto simp: curve_key_def Let_def split: if_splits bind_splits sum.splits)
    then show ?thesis using that z by simp
  qed (use assms that in \<open>auto simp: curve_key_def Let_def\<close>)
qed

lemma mask_resolve_ok: "mask_resolve os name ipv6 m = Inr mk \<Longrightarrow> mask_ok mk"
  by (auto simp: mask_resolve_def Let_def mask_ok_def max_mask_def split: option.splits sum.splits if_splits)

lemmas kind_defs = nonneg_def positive_def timeout_def tristate_def zero_one_def short_string_def key_size_def ttl_ok_def i64_def

lemma default_options_ok: "options_ok default_options"
  by (simp add: options_ok_def default_options_def kind_defs i32_def)

lemma kind_intros:
  "i32 x \<Longrightarrow> 0 \<le> x \<Longrightarrow> nonneg x" "i32 x \<Longrightarrow> 0 < x \<Longrightarrow> positive x" "i32 x \<Longrightarrow> -1 \<le> x \<Longrightarrow> timeout x"
  "i32 x \<Longrightarrow> 0 \<le> x \<Longrightarrow> timeout x" "timeout (-1)" "tristate (-1)" "tristate 0" "tristate 1" "zero_one 0" "zero_one 1"
  "length s < 256 \<Longrightarrow> short_string s" "length k = 32 \<Longrightarrow> key_size k"
  by (simp_all add: kind_defs i32_def)

lemma i64_sint: "i64 (sint (w :: 64 word))"
  using sint_range_size[of w] by (simp add: i64_def word_size)

lemma ttl_ok_intro: "0 \<le> y \<Longrightarrow> y \<le> 6553 \<Longrightarrow> ttl_ok (word_of_int y)"
  by (simp add: ttl_ok_def uint_word_of_int)

lemma curve_key_size:
  assumes "curve_key v old f = Some (Inr t)" "key_size old"
  obtains key where "t = f key" "key_size key"
  using curve_key_length[OF assms(1)] assms(2) unfolding key_size_def by metis

lemma keys_ok: "options_ok t \<Longrightarrow> key_size (o_curve_public_key t)" "options_ok t \<Longrightarrow> key_size (o_curve_secret_key t)"
  "options_ok t \<Longrightarrow> key_size (o_curve_server_key t)"
  by (simp_all add: options_ok_def)

text \<open>
  Claim C37. The options of a socket stay well-formed whatever an application sets: every integer in its
  documented range, keys of 32 bytes, credentials and identities below 256 bytes, a time to live that
  fits its 16 bits, and address filters with a valid mask, so that matching a peer against them cannot
  abort.
\<close>

theorem setsockopt_ok:
  assumes ok: "options_ok t" and set: "setsockopt os opt v t = Some (Inr t')"
  shows "options_ok t'"
proof (cases opt)
  case ZMQ_CURVE_PUBLICKEY
  with set obtain k where "t' = t\<lparr>o_curve_public_key := k, o_mechanism := ZMQ_CURVE\<rparr>" "key_size k"
    by (auto simp: setsockopt_def split: bind_splits elim: curve_key_size[OF _ keys_ok(1)[OF ok]])
  then show ?thesis using ok by (simp add: options_ok_def)
next
  case ZMQ_CURVE_SECRETKEY
  with set obtain k where "t' = t\<lparr>o_curve_secret_key := k, o_mechanism := ZMQ_CURVE\<rparr>" "key_size k"
    by (auto simp: setsockopt_def split: bind_splits elim: curve_key_size[OF _ keys_ok(2)[OF ok]])
  then show ?thesis using ok by (simp add: options_ok_def)
next
  case ZMQ_CURVE_SERVERKEY
  with set obtain k where "t' = t\<lparr>o_curve_server_key := k, o_mechanism := ZMQ_CURVE, o_as_server := 0\<rparr>" "key_size k"
    by (auto simp: setsockopt_def split: bind_splits elim: curve_key_size[OF _ keys_ok(3)[OF ok]])
  then show ?thesis using ok by (simp add: options_ok_def kind_intros)
next
  case ZMQ_TCP_ACCEPT_FILTER
  with set ok show ?thesis
    by (auto simp: setsockopt_def split: option.splits if_splits sum.splits) (simp_all add: options_ok_def mask_resolve_ok)
qed (use ok set in \<open>auto simp: setsockopt_def elim!: int_optE filter_optE split: option.splits if_splits,
    (simp_all add: options_ok_def kind_intros i64_sint ttl_ok_intro)?\<close>)

theorem setsockopt_ok_witness:
  "options_ok (default_options\<lparr>o_sndhwm := 5\<rparr>)"
  by (rule setsockopt_ok[OF default_options_ok, of _ ZMQ_SNDHWM "Some [5, 0, 0, 0]"])
    (simp add: setsockopt_def int_opt_def opt_bytes_def le_word_def)

section \<open>Reading back\<close>

lemma le_bytes_mod: "le_bytes k (x mod 256 ^ k) = le_bytes k x"
proof (induction k arbitrary: x)
  case (Suc k)
  have "x mod 256 ^ Suc k mod 256 = x mod 256" by (simp add: mod_mod_cancel)
  moreover have "x mod 256 ^ Suc k div 256 = x div 256 mod 256 ^ k"
    by (simp add: zmod_zmult2_eq) 
  ultimately show ?case using Suc[of "x div 256"] by simp
qed simp

lemma le_bytes_value: "le_bytes (length bs) (foldr (\<lambda>b n. uint b + 256 * n) bs 0) = bs"
proof (induction bs)
  case (Cons b bs)
  have "0 \<le> uint b" "uint b < 256" using uint_bounded[of b] by simp_all
  then have "(uint b + 256 * n) mod 256 = uint b" "(uint b + 256 * n) div 256 = n" for n by simp_all
  with Cons show ?case by simp
qed simp

lemma le_bytes_word:
  fixes w :: "'a :: len word"
  assumes "w = le_word bs" "LENGTH('a) = 8 * length bs"
  shows "le_bytes (length bs) (uint w) = bs" "le_bytes (length bs) (sint w) = bs"
proof -
  let ?n = "foldr (\<lambda>b n. uint b + 256 * n) bs 0"
  have p: "(2 :: int) ^ LENGTH('a) = 256 ^ length bs" unfolding assms(2) by (simp add: power_mult)
  have u: "uint w = ?n mod 256 ^ length bs"
    unfolding assms(1) le_word_def uint_word_of_int p ..
  show "le_bytes (length bs) (uint w) = bs" unfolding u le_bytes_mod by (rule le_bytes_value)
  moreover have "uint w = sint w mod 256 ^ length bs"
    using uint_word_of_int[of "sint w", where 'a = 'a] unfolding p by simp
  ultimately show "le_bytes (length bs) (sint w) = bs" using le_bytes_mod[of "length bs" "sint w"] by simp
qed

lemmas le_bytes_32 = le_bytes_word(2)[OF refl, where 'a = 32]
lemmas le_bytes_64 = le_bytes_word[OF refl, where 'a = 64]

lemma le_bytes_i32: "length bs = 4 \<Longrightarrow> le_bytes 4 (sint (le_word bs :: 32 word)) = bs"
  using le_bytes_32[of bs] by simp

lemma le_bytes_i64:
  "length bs = 8 \<Longrightarrow> le_bytes 8 (uint (le_word bs :: 64 word)) = bs"
  "length bs = 8 \<Longrightarrow> le_bytes 8 (sint (le_word bs :: 64 word)) = bs"
  using le_bytes_64[of bs] by simp_all

text \<open>What an option read back gives: strings come with their terminator.\<close>

definition echo :: "sockopt \<Rightarrow> byte list \<Rightarrow> byte list" where
  "echo opt bs =
     (if opt \<in> {ZMQ_SOCKS_PROXY, ZMQ_PLAIN_USERNAME, ZMQ_PLAIN_PASSWORD, ZMQ_ZAP_DOMAIN} then bs @ [0] else bs)"

text \<open>Options that cannot be read, and those that are stored rounded or decoded.\<close>

definition write_only :: "sockopt set" where
  "write_only = {ZMQ_TCP_ACCEPT_FILTER, ZMQ_IPC_FILTER_UID, ZMQ_IPC_FILTER_GID, ZMQ_IPC_FILTER_PID}"

definition converted :: "sockopt \<Rightarrow> byte list \<Rightarrow> bool" where
  "converted opt bs \<longleftrightarrow> opt = ZMQ_HEARTBEAT_TTL \<or> opt = ZMQ_INVERT_MATCHING \<or>
     (opt \<in> {ZMQ_CURVE_PUBLICKEY, ZMQ_CURVE_SECRETKEY, ZMQ_CURVE_SERVERKEY} \<and> length bs \<noteq> 32)"

lemma le_bytes_eq: "sint (le_word bs :: 32 word) = x \<Longrightarrow> length bs = 4 \<Longrightarrow> le_bytes 4 x = bs"
  using le_bytes_i32 by blast

text \<open>
  Claim C38. An option that was set can be read back: unless it is write-only or stored rounded or
  decoded, \<open>getsockopt\<close> with a buffer of the size gives the bytes that \<open>setsockopt\<close> accepted.
\<close>

theorem option_roundtrip:
  assumes "setsockopt os opt (Some bs) t = Some (Inr t')" "opt \<notin> write_only" "\<not> converted opt bs"
  shows "getsockopt opt (length (echo opt bs)) t' = Inr (echo opt bs)"
proof (cases opt)
  case ZMQ_HEARTBEAT_TTL
  then show ?thesis using assms(3) by (simp add: converted_def)
qed (use assms in \<open>auto simp: setsockopt_def getsockopt_def opt_bytes_def echo_def write_only_def converted_def get_int_def get_string_def get_key_def
    curve_key_def le_bytes_i32 le_bytes_i64 elim!: int_optE intro: le_bytes_eq split: if_splits\<close>)

theorem option_roundtrip_witness:
  "getsockopt ZMQ_ZAP_DOMAIN 7 (default_options\<lparr>o_zap_domain := str ''global''\<rparr>) = Inr (str ''global'' @ [0])"
proof -
  let ?s = "str ''global''"
  have "getsockopt ZMQ_ZAP_DOMAIN (length (echo ZMQ_ZAP_DOMAIN ?s)) (default_options\<lparr>o_zap_domain := ?s\<rparr>) = Inr (echo ZMQ_ZAP_DOMAIN ?s)"
    by (rule option_roundtrip[where t = default_options]) (simp_all add: setsockopt_def opt_bytes_def write_only_def converted_def)
  moreover have "echo ZMQ_ZAP_DOMAIN ?s = ?s @ [0]" by (simp add: echo_def)
  moreover have "length (?s @ [0 :: byte]) = 7" by simp
  ultimately show ?thesis by (simp only:)
qed

text \<open>A negative time to live above -100 ms is accepted as none; other times are rounded down.\<close>

lemma heartbeat_ttl_set:
  "setsockopt os ZMQ_HEARTBEAT_TTL (Some bs) t = Some (Inr t') \<Longrightarrow>
    -100 < sint (le_word bs :: 32 word) \<and> uint (o_heartbeat_ttl t') = c_div (sint (le_word bs :: 32 word)) 100"
proof (simp add: setsockopt_def, erule int_optE)
  fix x assume x: "t' = t\<lparr>o_heartbeat_ttl := word_of_int (c_div x 100)\<rparr>" "0 \<le> c_div x 100 \<and> c_div x 100 \<le> 6553"
    "x = sint (le_word (opt_bytes (Some bs)) :: 32 word)"
  have "-100 < x"
  proof (rule ccontr)
    assume "\<not> -100 < x"
    then have "1 \<le> - x div 100" by linarith
    then show False using x(2) \<open>\<not> -100 < x\<close> by (simp add: c_div_def)
  qed
  then show ?thesis using x by (simp add: opt_bytes_def uint_word_of_int)
qed

end
