(* ===== verification/Mechanism.thy ===== *)
theory Mechanism
  imports Options Wire Msg_View
begin

text \<open>
  Model of \<open>src/src/mechanism.cpp\<close>, the base of the security mechanisms: the properties (metadata) that
  peers exchange, their encoding and parser, the check of socket types; of the channel of a session to
  the authentication handler (\<open>session_base.cpp\<close>); and of the request and reply on it, which the
  mechanisms share.
\<close>

section \<open>Properties\<close>

type_synonym dict = "byte list \<Rightarrow> byte list option"

text \<open>\<open>std::map::insert\<close> keeps an old entry.\<close>

definition dict_insert :: "byte list \<Rightarrow> byte list \<Rightarrow> dict \<Rightarrow> dict" where
  "dict_insert k v d = (if d k = None then d(k \<mapsto> v) else d)"

record mechanism =
  mech_options :: options_t
  mech_identity :: "byte list"
  mech_user_id :: "byte list"
  zmtp_properties :: dict
  zap_properties :: dict

definition mechanism_t :: "options_t \<Rightarrow> mechanism" where
  "mechanism_t opts = \<lparr>mech_options = opts, mech_identity = [], mech_user_id = [],
     zmtp_properties = (\<lambda>_. None), zap_properties = (\<lambda>_. None)\<rparr>"

datatype status = Handshaking | Ready | Error

definition set_peer_identity :: "byte list \<Rightarrow> mechanism \<Rightarrow> mechanism" where
  "set_peer_identity i m = m\<lparr>mech_identity := i\<rparr>"

definition peer_identity :: "mechanism \<Rightarrow> msg" where
  "peer_identity m = \<lparr>kind = Kdata, flags = flag_identity, mdata = mech_identity m\<rparr>"

definition set_user_id :: "byte list \<Rightarrow> mechanism \<Rightarrow> mechanism" where
  "set_user_id u m = m\<lparr>mech_user_id := u, zap_properties := dict_insert (str ''User-Id'') u (zap_properties m)\<rparr>"

definition socket_type_names :: "byte list list" where
  "socket_type_names = map (\<lambda>s. str s) [''PAIR'', ''PUB'', ''SUB'', ''REQ'', ''REP'', ''DEALER'', ''ROUTER'', ''PULL'', ''PUSH'',
     ''XPUB'', ''XSUB'', ''STREAM'', ''SERVER'', ''CLIENT'', ''RADIO'', ''DISH'', ''GATHER'', ''SCATTER'', ''DGRAM'']"

definition socket_type_string :: "int \<Rightarrow> byte list option" where
  "socket_type_string t = (if 0 \<le> t \<and> t \<le> 18 then Some (socket_type_names ! nat t) else None)"

definition add_property :: "byte list \<Rightarrow> byte list \<Rightarrow> byte list option" where
  "add_property name value =
     (if length name \<le> 255 \<and> length value \<le> 0x7FFFFFFF
      then Some (of_nat (length name) # name @ put_uint32 (of_nat (length value)) @ value) else None)"

definition check_socket_type :: "int \<Rightarrow> byte list \<Rightarrow> bool" where
  "check_socket_type t n =
     (if t = ZMQ_REQ then n = str ''REP'' \<or> n = str ''ROUTER''
      else if t = ZMQ_REP then n = str ''REQ'' \<or> n = str ''DEALER''
      else if t = ZMQ_DEALER then n = str ''REP'' \<or> n = str ''DEALER'' \<or> n = str ''ROUTER''
      else if t = ZMQ_ROUTER then n = str ''REQ'' \<or> n = str ''DEALER'' \<or> n = str ''ROUTER''
      else if t = ZMQ_PUSH then n = str ''PULL''
      else if t = ZMQ_PULL then n = str ''PUSH''
      else if t = ZMQ_PUB then n = str ''SUB'' \<or> n = str ''XSUB''
      else if t = ZMQ_SUB then n = str ''PUB'' \<or> n = str ''XPUB''
      else if t = ZMQ_XPUB then n = str ''SUB'' \<or> n = str ''XSUB''
      else if t = ZMQ_XSUB then n = str ''PUB'' \<or> n = str ''XPUB''
      else if t = ZMQ_PAIR then n = str ''PAIR''
      else if t = ZMQ_SERVER then n = str ''CLIENT''
      else if t = ZMQ_CLIENT then n = str ''SERVER''
      else if t = ZMQ_RADIO then n = str ''DISH''
      else if t = ZMQ_DISH then n = str ''RADIO''
      else if t = ZMQ_GATHER then n = str ''SCATTER''
      else if t = ZMQ_SCATTER then n = str ''GATHER''
      else if t = ZMQ_DGRAM then n = str ''DGRAM''
      else False)"

text \<open>What \<open>parse_metadata\<close> does with one property.\<close>

definition take_property :: "bool \<Rightarrow> byte list \<Rightarrow> byte list \<Rightarrow> mechanism \<Rightarrow> mechanism \<times> unit result" where
  "take_property zap name value m =
     (let m1 = (if name = str ''Identity'' \<and> o_recv_identity (mech_options m) then set_peer_identity value m else m)
      in if \<not> (name = str ''Identity'' \<and> o_recv_identity (mech_options m)) \<and> name = str ''Socket-Type'' \<and>
            \<not> check_socket_type (o_type (mech_options m)) value
         then (m1, Inl EINVAL)
         else (if zap then m1\<lparr>zap_properties := dict_insert name value (zap_properties m1)\<rparr>
               else m1\<lparr>zmtp_properties := dict_insert name value (zmtp_properties m1)\<rparr>, Inr ()))"

text \<open>After a \<open>break\<close> what is left decides.\<close>

definition leftover :: "nat \<Rightarrow> mechanism \<Rightarrow> mechanism \<times> unit result" where
  "leftover bytes_left m = (m, if bytes_left > 0 then Inl EPROTO else Inr ())"

function parse_metadata :: "bool \<Rightarrow> byte list \<Rightarrow> mechanism \<Rightarrow> mechanism \<times> unit result" where
  "parse_metadata zap ptr m =
     (if length ptr > 1 then
        let name_length = unat (hd ptr); p1 = tl ptr in
        if length p1 < name_length then leftover (length p1) m
        else let name = take name_length p1; p2 = drop name_length p1 in
        if length p2 < 4 then leftover (length p2) m
        else let value_length = unat (get_uint32 p2); p3 = drop 4 p2 in
        if length p3 < value_length then leftover (length p3) m
        else (case take_property zap name (take value_length p3) m of
                (m1, Inl e) \<Rightarrow> (m1, Inl e)
              | (m1, Inr _) \<Rightarrow> parse_metadata zap (drop value_length p3) m1)
      else leftover (length ptr) m)"
  by pat_completeness auto
termination by (relation "measure (\<lambda>(zap, ptr, m). length ptr)") auto

declare parse_metadata.simps [simp del]

text \<open>
  A property as \<open>add_property\<close> writes it is what the parser takes, whatever follows.
\<close>

lemma parse_add_property:
  assumes "add_property name value = Some p"
  shows "parse_metadata zap (p @ rest) m =
     (case take_property zap name value m of
        (m1, Inl e) \<Rightarrow> (m1, Inl e)
      | (m1, Inr _) \<Rightarrow> parse_metadata zap rest m1)"
proof -
  have p: "p = of_nat (length name) # name @ put_uint32 (of_nat (length value)) @ value"
    and n: "length name \<le> 255" and v: "length value \<le> 0x7FFFFFFF"
    using assms by (auto simp: add_property_def split: if_splits)
  have n': "unat (of_nat (length name) :: byte) = length name"
    using n by (simp add: unat_of_nat)
  have v': "unat (of_nat (length value) :: 32 word) = length value"
    using v by (simp add: unat_of_nat)
  show ?thesis
    by (subst parse_metadata.simps) (simp add: p n' v' Let_def)
qed

lemma parse_metadata_Nil [simp]: "parse_metadata zap [] m = (m, Inr ())"
  by (simp add: parse_metadata.simps leftover_def)

text \<open>
  The parser leaves the loop when a name or a value is cut off, and then only asks whether bytes are left:
  metadata that ends right after a length is accepted.
\<close>

lemma truncated_metadata_accepted:
  assumes "0 < n" "n < 256" "length name = n"
  shows "parse_metadata zap (of_nat n # name) m = (m, Inr ())"
    "0 < unat k \<Longrightarrow> parse_metadata zap (of_nat n # name @ put_uint32 k) m = (m, Inr ())"
proof -
  have n': "unat (of_nat n :: byte) = n" using assms(2) by (simp add: unat_of_nat)
  show "parse_metadata zap (of_nat n # name) m = (m, Inr ())"
    using assms n' by (subst parse_metadata.simps) (auto simp: leftover_def Let_def)
  show "0 < unat k \<Longrightarrow> parse_metadata zap (of_nat n # name @ put_uint32 k) m = (m, Inr ())"
    using assms n' get_put_uint32[of k "[]"] by (subst parse_metadata.simps) (auto simp: leftover_def Let_def)
qed

section \<open>The authentication handler\<close>

text \<open>
  What the session knows of the handler: the socket bound to the handler's endpoint (its type and whether
  it wants identities), and the pipe to it once connected: the frames it can read and those it wrote.
\<close>

record zap_session =
  zap_endpoint :: "(int \<times> bool) option"
  zap_pipe :: "(msg list \<times> msg list) option"

definition zap_connect :: "zap_session \<Rightarrow> (zap_session \<times> unit result) option" where
  "zap_connect z =
     (if zap_pipe z \<noteq> None then None
      else Some (case zap_endpoint z of
        None \<Rightarrow> (z, Inl ECONNREFUSED)
      | Some (t, ids) \<Rightarrow>
          if t \<noteq> ZMQ_REP \<and> t \<noteq> ZMQ_ROUTER \<and> t \<noteq> ZMQ_SERVER then (z, Inl ECONNREFUSED)
          else (z\<lparr>zap_pipe := Some ([], if ids then [\<lparr>kind = Kdata, flags = flag_identity, mdata = []\<rparr>] else [])\<rparr>, Inr ())))"

definition read_zap_msg :: "zap_session \<Rightarrow> zap_session \<times> msg result" where
  "read_zap_msg z =
     (case zap_pipe z of
        None \<Rightarrow> (z, Inl ENOTCONN)
      | Some (i, out) \<Rightarrow> (case i of [] \<Rightarrow> (z, Inl EAGAIN) | m # i' \<Rightarrow> (z\<lparr>zap_pipe := Some (i', out)\<rparr>, Inr m)))"

definition write_zap_msg :: "msg \<Rightarrow> zap_session \<Rightarrow> zap_session \<times> unit result" where
  "write_zap_msg m z =
     (case zap_pipe z of
        None \<Rightarrow> (z, Inl ENOTCONN)
      | Some (i, out) \<Rightarrow> (z\<lparr>zap_pipe := Some (i, out @ [m])\<rparr>, Inr ()))"

text \<open>\<open>rc = session->write_zap_msg (&msg); errno_assert (rc == 0)\<close> for each frame of a request.\<close>

fun write_frames :: "msg list \<Rightarrow> zap_session \<Rightarrow> zap_session option" where
  "write_frames [] z = Some z"
| "write_frames (m # ms) z =
     (case write_zap_msg m z of (z1, Inl _) \<Rightarrow> None | (z1, Inr _) \<Rightarrow> write_frames ms z1)"

definition frame :: "bool \<Rightarrow> byte list \<Rightarrow> msg" where
  "frame mo bs = \<lparr>kind = Kdata, flags = (if mo then flag_more else 0), mdata = bs\<rparr>"

text \<open>
  The frames of a request: delimiter, version, request id, domain, address, identity, mechanism, and the
  mechanism's credentials; all but the last with the flag \<open>more\<close>.
\<close>

definition zap_request :: "options_t \<Rightarrow> byte list \<Rightarrow> byte list \<Rightarrow> byte list list \<Rightarrow> msg list" where
  "zap_request opts addr mech credentials =
     (let bs = [[], str ''1.0'', str ''1'', o_zap_domain opts, addr, o_identity opts, mech] @ credentials
      in map (frame True) (butlast bs) @ [frame False (last bs)])"

definition incomplete_reply :: "nat \<Rightarrow> msg \<Rightarrow> bool" where
  "incomplete_reply i m \<longleftrightarrow> (flags m AND flag_more) = (if i < 6 then 0 else flag_more)"

text \<open>The loop over the frames of a reply, at frame \<open>i\<close> of 7.\<close>

function read_reply :: "nat \<Rightarrow> zap_session \<Rightarrow> zap_session \<times> msg list result" where
  "read_reply i z =
     (if i < 7 then
        (case read_zap_msg z of
           (z1, Inl e) \<Rightarrow> (z1, Inl e)
         | (z1, Inr m) \<Rightarrow>
             if incomplete_reply i m then (z1, Inl EPROTO)
             else (case read_reply (i + 1) z1 of
                     (z2, Inl e) \<Rightarrow> (z2, Inl e)
                   | (z2, Inr ms) \<Rightarrow> (z2, Inr (m # ms))))
      else (z, Inr []))"
  by pat_completeness auto
termination by (relation "measure (\<lambda>(i, z). 7 - i)") auto

declare read_reply.simps [simp del]

text \<open>
  \<open>receive_and_process_zap_reply\<close>, with the error number of the mechanism for a malformed status code; the
  new status code is that of the reply once it was saved.
\<close>

definition zap_reply :: "errno \<Rightarrow> zap_session \<Rightarrow> mechanism \<Rightarrow> byte list \<Rightarrow>
    zap_session \<times> mechanism \<times> byte list \<times> unit result" where
  "zap_reply bad_status z m code =
     (case read_reply 0 z of
        (z1, Inl e) \<Rightarrow> (z1, m, code, Inl e)
      | (z1, Inr fs) \<Rightarrow>
          if length (mdata (fs ! 0)) > 0 then (z1, m, code, Inl EPROTO)
          else if mdata (fs ! 1) \<noteq> str ''1.0'' then (z1, m, code, Inl EPROTO)
          else if mdata (fs ! 2) \<noteq> str ''1'' then (z1, m, code, Inl EPROTO)
          else if length (mdata (fs ! 3)) \<noteq> 3 then (z1, m, code, Inl bad_status)
          else (case parse_metadata True (mdata (fs ! 6)) (set_user_id (mdata (fs ! 5)) m) of
                  (m1, r) \<Rightarrow> (z1, m1, mdata (fs ! 3), r)))"

text \<open>
  What can happen to a mechanism: the engine asks for a command, has one from the peer, or reports frames
  from the handler; and the handler sends frames, or its pipe goes away.
\<close>

datatype handshake_event = Ev_next | Ev_process msg | Ev_zap_available | Ev_handler "msg list" | Ev_zap_lost

definition handler_sends :: "msg list \<Rightarrow> zap_session \<Rightarrow> zap_session" where
  "handler_sends fs z = z\<lparr>zap_pipe := map_option (\<lambda>(i, out). (i @ fs, out)) (zap_pipe z)\<rparr>"

definition zap_lost :: "zap_session \<Rightarrow> zap_session" where
  "zap_lost z = z\<lparr>zap_pipe := None\<rparr>"

fun handler_frames :: "handshake_event list \<Rightarrow> msg list" where
  "handler_frames [] = []"
| "handler_frames (Ev_handler fs # evs) = fs @ handler_frames evs"
| "handler_frames (_ # evs) = handler_frames evs"

lemma handler_frames_append [simp]: "handler_frames (xs @ ys) = handler_frames xs @ handler_frames ys"
  by (induction xs rule: handler_frames.induct) auto

text \<open>Seven frames in a row of what the handler sent, with the given status.\<close>

definition reply_among :: "msg list \<Rightarrow> byte list \<Rightarrow> bool" where
  "reply_among fs code \<longleftrightarrow> (\<exists>pre reply post. fs = pre @ reply @ post \<and> length reply = 7 \<and> mdata (reply ! 3) = code)"

lemma reply_among_append: "reply_among fs code \<Longrightarrow> reply_among (fs @ gs) code"
  unfolding reply_among_def by (metis append.assoc)

text \<open>What is left in the pipe from the handler is the end of what it sent.\<close>

definition zap_input :: "msg list \<Rightarrow> zap_session \<Rightarrow> bool" where
  "zap_input fs z \<longleftrightarrow> (case zap_pipe z of None \<Rightarrow> True | Some (i, _) \<Rightarrow> \<exists>pre. fs = pre @ i)"

lemma zap_input_handler: "zap_input fs z \<Longrightarrow> zap_input (fs @ gs) (handler_sends gs z)"
  by (auto simp: zap_input_def handler_sends_def split: option.splits)

lemma zap_input_lost [simp]: "zap_input fs (zap_lost z)"
  by (simp add: zap_input_def zap_lost_def)

lemma read_reply_pipe:
  "read_reply i z = (z1, r) \<Longrightarrow>
     zap_endpoint z1 = zap_endpoint z \<and> (zap_pipe z = None \<longrightarrow> zap_pipe z1 = None) \<and>
     (\<forall>inp out. zap_pipe z = Some (inp, out) \<longrightarrow> (\<exists>k inp'. inp = k @ inp' \<and> zap_pipe z1 = Some (inp', out) \<and>
        (\<forall>fs. r = Inr fs \<longrightarrow> fs = k)))"
proof (induction i z arbitrary: z1 r rule: read_reply.induct)
  case (1 i z)
  show ?case
  proof (cases "i < 7")
    case False
    then show ?thesis using 1(2) by (subst (asm) read_reply.simps) auto
  next
    case i: True
    show ?thesis
    proof (cases "zap_pipe z")
      case None
      then show ?thesis using 1(2) i by (subst (asm) read_reply.simps) (auto simp: read_zap_msg_def)
    next
      case (Some io)
      then obtain inp out where io: "zap_pipe z = Some (inp, out)" by (cases io) auto
      show ?thesis
      proof (cases inp)
        case Nil
        then show ?thesis using 1(2) i io by (subst (asm) read_reply.simps) (auto simp: read_zap_msg_def)
      next
        case (Cons m inp')
        let ?z = "z\<lparr>zap_pipe := Some (inp', out)\<rparr>"
        have rd: "read_zap_msg z = (?z, Inr m)" using Cons io by (simp add: read_zap_msg_def)
        have step: "read_reply i z = (if incomplete_reply i m then (?z, Inl EPROTO) else case read_reply (i + 1) ?z of
            (z2, Inl e) \<Rightarrow> (z2, Inl e) | (z2, Inr ms) \<Rightarrow> (z2, Inr (m # ms)))"
          by (subst read_reply.simps) (simp only: i rd if_True prod.case sum.case)
        show ?thesis
        proof (cases "incomplete_reply i m")
          case True
          then have "z1 = ?z" "\<exists>e. r = Inl e" using 1(2) unfolding step by auto
          then show ?thesis using io Cons by auto
        next
          case False
          obtain z2 r2 where r2: "read_reply (i + 1) ?z = (z2, r2)" by (cases "read_reply (i + 1) ?z")
          have "z1 = z2" "r = map_sum id (\<lambda>ms. m # ms) r2"
            using 1(2) False r2 unfolding step by (auto split: sum.splits)
          moreover obtain k i2 where "inp' = k @ i2" "zap_pipe z2 = Some (i2, out)" "zap_endpoint z2 = zap_endpoint z" "\<forall>fs. r2 = Inr fs \<longrightarrow> fs = k"
            using 1(1)[OF i rd[symmetric] refl _ r2] False by auto
          ultimately show ?thesis using io Cons
            by (cases r2) (auto intro!: exI[of _ "m # k"])
        qed
      qed
    qed
  qed
qed

lemma read_reply_length:
  "read_reply i z = (z1, Inr fs) \<Longrightarrow> i \<le> 7 \<Longrightarrow> length fs = 7 - i"
proof (induction i z arbitrary: z1 fs rule: read_reply.induct)
  case (1 i z)
  show ?case
  proof (cases "i < 7")
    case False
    then show ?thesis using 1(2,3) by (subst (asm) read_reply.simps) auto
  next
    case True
    then obtain z2 m ms where "read_zap_msg z = (z2, Inr m)" "\<not> incomplete_reply i m"
      "read_reply (i + 1) z2 = (z1, Inr ms)" "fs = m # ms"
      using 1(2) by (subst (asm) read_reply.simps) (auto split: prod.splits sum.splits if_splits)
    then show ?thesis using 1(1)[OF True _ refl _, of z2] True by fastforce
  qed
qed

lemma zap_reply_input:
  assumes "zap_reply e z m code = (z1, m1, code1, r)" "zap_input fs z"
  shows "zap_input fs z1"
proof -
  obtain q where q: "read_reply 0 z = (z1, q)"
    using assms(1) by (auto simp: zap_reply_def split: prod.splits sum.splits if_splits)
  show ?thesis using read_reply_pipe[OF q] assms(2) by (cases "zap_pipe z") (auto simp: zap_input_def)
qed

lemma zap_reply_code:
  assumes "zap_reply e z m code = (z1, m1, code1, r)" "zap_input fs z"
  shows "code1 = code \<and> r \<noteq> Inr () \<or> reply_among fs code1 \<and> length code1 = 3"
proof -
  obtain q where q: "read_reply 0 z = (z1, q)"
    using assms(1) by (auto simp: zap_reply_def split: prod.splits sum.splits if_splits)
  show ?thesis
  proof (cases "code1 = code \<and> r \<noteq> Inr ()")
    case False
    then obtain rs where rs: "q = Inr rs" "code1 = mdata (rs ! 3)" "length code1 = 3"
      using assms(1) q by (auto simp: zap_reply_def split: prod.splits sum.splits if_splits)
    have l: "length rs = 7" using read_reply_length q rs(1) by fastforce
    obtain inp out where p: "zap_pipe z = Some (inp, out)"
      using q rs(1) l by (cases "zap_pipe z") (auto simp: read_reply.simps[of 0] read_zap_msg_def)
    then obtain inp' where "inp = rs @ inp'" using read_reply_pipe[OF q] rs(1) by auto
    then have "reply_among fs code1"
      using assms(2) p l rs(2) by (auto simp: zap_input_def reply_among_def)
    then show ?thesis using rs(3) by simp
  qed simp
qed

text \<open>A reply that accepts the peer, and what becomes of it.\<close>

definition accepting_reply :: "msg list" where
  "accepting_reply = map (frame True) [[], str ''1.0'', str ''1'', str ''200'', [], str ''joe''] @ [frame False []]"

lemma read_accepting_reply:
  "read_reply 0 (z\<lparr>zap_pipe := Some (accepting_reply, out)\<rparr>) = (z\<lparr>zap_pipe := Some ([], out)\<rparr>, Inr accepting_reply)"
  by (simp add: read_reply.simps read_zap_msg_def accepting_reply_def frame_def incomplete_reply_def)

lemma accept_reply:
  "zap_reply e (z\<lparr>zap_pipe := Some (accepting_reply, out)\<rparr>) m code =
     (z\<lparr>zap_pipe := Some ([], out)\<rparr>, set_user_id (str ''joe'') m, str ''200'', Inr ())"
  by (simp add: zap_reply_def read_accepting_reply) (simp add: accepting_reply_def frame_def)

lemma empty_reply:
  "zap_reply e (z\<lparr>zap_pipe := Some ([], out)\<rparr>) m code = (z\<lparr>zap_pipe := Some ([], out)\<rparr>, m, code, Inl EAGAIN)"
  by (simp add: zap_reply_def read_reply.simps read_zap_msg_def)

lemma write_frames_connected:
  "zap_pipe z = Some (i, out) \<Longrightarrow> write_frames ms z = Some (z\<lparr>zap_pipe := Some (i, out @ ms)\<rparr>)"
  by (induction ms arbitrary: z out) (auto simp: write_zap_msg_def)

section \<open>The properties of a socket\<close>

text \<open>
  The end of INITIATE and READY: the socket type, and the identity of sockets that have one. \<open>None\<close> if an
  assertion fails or the buffer of 512 bytes is too small.
\<close>

definition own_properties :: "byte list \<Rightarrow> options_t \<Rightarrow> byte list option" where
  "own_properties cmd opts = do {
     name \<leftarrow> socket_type_string (o_type opts);
     p1 \<leftarrow> add_property (str ''Socket-Type'') name;
     p2 \<leftarrow> (if o_type opts = ZMQ_REQ \<or> o_type opts = ZMQ_DEALER \<or> o_type opts = ZMQ_ROUTER
            then add_property (str ''Identity'') (o_identity opts) else Some []);
     let c = cmd @ p1 @ p2;
     if length c \<le> 512 then Some c else None }"

text \<open>What a mechanism learns from the properties of a peer with the options \<open>opts\<close>.\<close>

definition socket_type_name :: "options_t \<Rightarrow> byte list" where
  "socket_type_name opts = socket_type_names ! nat (o_type opts)"

definition sends_identity :: "options_t \<Rightarrow> bool" where
  "sends_identity opts \<longleftrightarrow> o_type opts = ZMQ_REQ \<or> o_type opts = ZMQ_DEALER \<or> o_type opts = ZMQ_ROUTER"

definition learn_properties :: "options_t \<Rightarrow> mechanism \<Rightarrow> mechanism" where
  "learn_properties opts m =
     (let m1 = m\<lparr>zmtp_properties := dict_insert (str ''Socket-Type'') (socket_type_name opts) (zmtp_properties m)\<rparr>
      in if sends_identity opts
         then (if o_recv_identity (mech_options m) then m1\<lparr>mech_identity := o_identity opts\<rparr> else m1)
                \<lparr>zmtp_properties := dict_insert (str ''Identity'') (o_identity opts) (zmtp_properties m1)\<rparr>
         else m1)"

definition valid_socket_type :: "options_t \<Rightarrow> bool" where
  "valid_socket_type opts \<longleftrightarrow> 0 \<le> o_type opts \<and> o_type opts \<le> 18"

lemma socket_type_name_length: "valid_socket_type opts \<Longrightarrow> length (socket_type_name opts) \<le> 7"
proof -
  assume "valid_socket_type opts"
  then have "nat (o_type opts) < 19" by (simp add: valid_socket_type_def nat_less_iff)
  then have "socket_type_name opts \<in> set socket_type_names"
    unfolding socket_type_name_def by (rule_tac nth_mem) (simp add: socket_type_names_def)
  then show ?thesis by (auto simp: socket_type_names_def)
qed

text \<open>
  The properties of a socket always fit into the buffer of 512 bytes, and the parser of a peer takes them as
  they were.
\<close>

lemma own_properties_parsed:
  assumes "options_ok opts" "valid_socket_type opts" "length cmd \<le> 9"
  obtains ps where "own_properties cmd opts = Some (cmd @ ps)"
    "\<And>m. check_socket_type (o_type (mech_options m)) (socket_type_name opts) \<Longrightarrow>
       parse_metadata False ps m = (learn_properties opts m, Inr ())"
proof -
  have id: "length (o_identity opts) < 256" using assms(1) by (simp add: options_ok_def short_string_def)
  have nm: "socket_type_string (o_type opts) = Some (socket_type_name opts)"
    using assms(2) by (simp add: socket_type_string_def socket_type_name_def valid_socket_type_def)
  have l: "length (socket_type_name opts) \<le> 7" using assms(2) by (rule socket_type_name_length)
  then obtain p1 where p1: "add_property (str ''Socket-Type'') (socket_type_name opts) = Some p1" "length p1 \<le> 23"
    by (auto simp: add_property_def)
  obtain p2 where p2: "(if sends_identity opts then add_property (str ''Identity'') (o_identity opts) else Some []) = Some p2"
      "length p2 \<le> 268"
    using id that by (cases "sends_identity opts") (auto simp: add_property_def)
  have "own_properties cmd opts = Some (cmd @ p1 @ p2)"
    using assms(3) p1 p2 nm by (simp add: own_properties_def sends_identity_def Let_def)
  moreover have "parse_metadata False (p1 @ p2) m = (learn_properties opts m, Inr ())"
    if "check_socket_type (o_type (mech_options m)) (socket_type_name opts)" for m
  proof (cases "sends_identity opts")
    case True
    then have "parse_metadata zap p2 m' = parse_metadata zap (p2 @ []) m'" "add_property (str ''Identity'') (o_identity opts) = Some p2"
      for zap m' using p2 by simp_all
    then show ?thesis using that True parse_add_property[of "str ''Identity''" "o_identity opts" p2 False "[]"]
      by (simp add: parse_add_property[OF p1(1)] take_property_def learn_properties_def set_peer_identity_def Let_def)
  next
    case False
    then show ?thesis using that p2 parse_add_property[OF p1(1), of False "[]"]
      by (simp add: take_property_def learn_properties_def Let_def)
  qed
  ultimately show thesis using that by blast
qed

end
