(* ===== verification/Null_Mechanism.thy ===== *)
theory Null_Mechanism
  imports Mechanism
begin

text \<open>
  Model of \<open>src/src/null_mechanism.cpp\<close>: the handshake of the NULL mechanism, with the authentication
  request it makes when a domain is set. The message of a command is its value; an outer \<open>None\<close> is a failed
  assertion.
\<close>

section \<open>State and commands\<close>

record null_mechanism =
  n_mechanism :: mechanism
  n_peer_address :: "byte list"
  status_code :: "byte list"
  ready_command_sent :: bool
  error_command_sent :: bool
  ready_command_received :: bool
  error_command_received :: bool
  zap_connected :: bool
  zap_request_sent :: bool
  zap_reply_received :: bool

definition null_mechanism_t :: "options_t \<Rightarrow> byte list \<Rightarrow> zap_session \<Rightarrow> (null_mechanism \<times> zap_session) option" where
  "null_mechanism_t opts addr z = do {
     (z1, ok) \<leftarrow> (if length (o_zap_domain opts) > 0
                  then do { (z1, r) \<leftarrow> zap_connect z; Some (z1, r = Inr ()) }
                  else Some (z, False));
     Some (\<lparr>n_mechanism = mechanism_t opts, n_peer_address = addr, status_code = [], ready_command_sent = False,
            error_command_sent = False, ready_command_received = False, error_command_received = False,
            zap_connected = ok, zap_request_sent = False, zap_reply_received = False\<rparr>, z1) }"

definition null_options :: "null_mechanism \<Rightarrow> options_t" where
  "null_options n = mech_options (n_mechanism n)"

definition null_receive :: "null_mechanism \<Rightarrow> zap_session \<Rightarrow> null_mechanism \<times> zap_session \<times> unit result" where
  "null_receive n z =
     (case zap_reply EPROTO z (n_mechanism n) (status_code n) of
        (z1, m1, code, r) \<Rightarrow> (n\<lparr>n_mechanism := m1, status_code := code\<rparr>, z1, r))"

text \<open>ERROR or READY, once the handler has answered.\<close>

definition null_produce :: "null_mechanism \<Rightarrow> (null_mechanism \<times> msg) option" where
  "null_produce n =
     (if zap_reply_received n \<and> status_code n \<noteq> str ''200''
      then Some (n\<lparr>error_command_sent := True\<rparr>, frame False (5 # str ''ERROR'' @ 3 # status_code n))
      else do {
        c \<leftarrow> own_properties (5 # str ''READY'') (null_options n);
        Some (n\<lparr>ready_command_sent := True\<rparr>, frame False c) })"

definition null_next :: "null_mechanism \<Rightarrow> zap_session \<Rightarrow> (null_mechanism \<times> zap_session \<times> msg result) option" where
  "null_next n z =
     (if ready_command_sent n \<or> error_command_sent n then Some (n, z, Inl EAGAIN)
      else if zap_connected n \<and> \<not> zap_reply_received n then
        (if zap_request_sent n then Some (n, z, Inl EAGAIN)
         else do {
           z1 \<leftarrow> write_frames (zap_request (null_options n) (n_peer_address n) (str ''NULL'') []) z;
           (case null_receive (n\<lparr>zap_request_sent := True\<rparr>) z1 of
              (n2, z2, Inl e) \<Rightarrow> Some (n2, z2, Inl e)
            | (n2, z2, Inr _) \<Rightarrow> do {
                (n3, m) \<leftarrow> null_produce (n2\<lparr>zap_reply_received := True\<rparr>);
                Some (n3, z2, Inr m) }) })
      else do { (n1, m) \<leftarrow> null_produce n; Some (n1, z, Inr m) })"

definition null_process_ready :: "byte list \<Rightarrow> null_mechanism \<Rightarrow> null_mechanism \<times> unit result" where
  "null_process_ready cmd n =
     (case parse_metadata False (drop 6 cmd) (n_mechanism n) of
        (m1, r) \<Rightarrow> (n\<lparr>ready_command_received := True, n_mechanism := m1\<rparr>, r))"

definition null_process_error :: "byte list \<Rightarrow> null_mechanism \<Rightarrow> null_mechanism \<times> unit result" where
  "null_process_error cmd n =
     (if length cmd < 7 then (n, Inl EPROTO)
      else if unat (cmd ! 6) > length cmd - 7 then (n, Inl EPROTO)
      else (n\<lparr>error_command_received := True\<rparr>, Inr ()))"

definition null_process :: "msg \<Rightarrow> null_mechanism \<Rightarrow> null_mechanism \<times> msg \<times> unit result" where
  "null_process m n =
     (if ready_command_received n \<or> error_command_received n then (n, m, Inl EPROTO)
      else (case (if length (mdata m) \<ge> 6 \<and> take 6 (mdata m) = 5 # str ''READY'' then null_process_ready (mdata m) n
                  else if length (mdata m) \<ge> 6 \<and> take 6 (mdata m) = 5 # str ''ERROR'' then null_process_error (mdata m) n
                  else (n, Inl EPROTO)) of
              (n1, Inl e) \<Rightarrow> (n1, m, Inl e)
            | (n1, Inr _) \<Rightarrow> (n1, empty_msg, Inr ())))"

definition null_zap_msg_available :: "null_mechanism \<Rightarrow> zap_session \<Rightarrow> null_mechanism \<times> zap_session \<times> unit result" where
  "null_zap_msg_available n z =
     (if zap_reply_received n then (n, z, Inl EFSM)
      else (case null_receive n z of
              (n1, z1, Inl e) \<Rightarrow> (n1, z1, Inl e)
            | (n1, z1, Inr _) \<Rightarrow> (n1\<lparr>zap_reply_received := True\<rparr>, z1, Inr ())))"

definition null_status :: "null_mechanism \<Rightarrow> status" where
  "null_status n =
     (if ready_command_sent n \<and> ready_command_received n then Ready
      else if (ready_command_sent n \<or> error_command_sent n) \<and> (ready_command_received n \<or> error_command_received n)
      then Error else Handshaking)"

section \<open>Two peers\<close>

text \<open>
  Peers that need no authentication: each produces its READY, each takes that of the other.
\<close>

definition null_peer :: "options_t \<Rightarrow> byte list \<Rightarrow> null_mechanism" where
  "null_peer opts addr = \<lparr>n_mechanism = mechanism_t opts, n_peer_address = addr, status_code = [],
     ready_command_sent = False, error_command_sent = False, ready_command_received = False,
     error_command_received = False, zap_connected = False, zap_request_sent = False, zap_reply_received = False\<rparr>"

lemma null_mechanism_no_domain:
  "o_zap_domain opts = [] \<Longrightarrow> null_mechanism_t opts addr z = Some (null_peer opts addr, z)"
  by (simp add: null_mechanism_t_def null_peer_def)

lemma take_drop_cmd: "length cmd = k \<Longrightarrow> take k (cmd @ ps) = cmd \<and> drop k (cmd @ ps) = ps"
  by simp

lemma null_exchange:
  assumes "options_ok a" "valid_socket_type a"
    "check_socket_type (o_type (null_options n)) (socket_type_name a)"
    "\<not> ready_command_received n" "\<not> error_command_received n"
  obtains m where "null_next (null_peer a addr) z = Some ((null_peer a addr)\<lparr>ready_command_sent := True\<rparr>, z, Inr m)"
    "null_process m n = (n\<lparr>ready_command_received := True,
       n_mechanism := learn_properties a (n_mechanism n)\<rparr>, empty_msg, Inr ())"
proof -
  obtain ps where ps: "own_properties (5 # str ''READY'') a = Some ((5 # str ''READY'') @ ps)"
    "\<And>m. check_socket_type (o_type (mech_options m)) (socket_type_name a) \<Longrightarrow>
       parse_metadata False ps m = (learn_properties a m, Inr ())"
    using own_properties_parsed[OF assms(1,2), of "5 # str ''READY''"] by auto
  show thesis
  proof
    show "null_next (null_peer a addr) z =
        Some ((null_peer a addr)\<lparr>ready_command_sent := True\<rparr>, z, Inr (frame False ((5 # str ''READY'') @ ps)))"
      using ps(1) by (simp add: null_next_def null_peer_def null_produce_def null_options_def mechanism_t_def)
    show "null_process (frame False ((5 # str ''READY'') @ ps)) n = (n\<lparr>ready_command_received := True,
        n_mechanism := learn_properties a (n_mechanism n)\<rparr>, empty_msg, Inr ())"
      using assms(3-5) ps(2)[of "n_mechanism n"]
      by (simp add: null_process_def frame_def null_process_ready_def null_options_def)
  qed
qed

text \<open>
  Two peers with the NULL mechanism, no authentication domain and compatible socket types: each
  makes its READY command, each accepts the command of the other, both are ready, and each knows the socket
  type and the identity of the other as \<open>learn_properties\<close> says.
\<close>

theorem null_handshake_completes:
  assumes "options_ok a" "valid_socket_type a" "check_socket_type (o_type b) (socket_type_name a)"
    "options_ok b" "valid_socket_type b" "check_socket_type (o_type a) (socket_type_name b)"
    "o_zap_domain a = []" "o_zap_domain b = []"
  shows "\<exists>na nb na' nb' ma mb.
     null_mechanism_t a addr_a za = Some (na, za) \<and> null_mechanism_t b addr_b zb = Some (nb, zb) \<and>
     null_next na za = Some (na', za, Inr ma) \<and> null_next nb zb = Some (nb', zb, Inr mb) \<and>
     (\<exists>na2 nb2. null_process mb na' = (na2, empty_msg, Inr ()) \<and> null_process ma nb' = (nb2, empty_msg, Inr ()) \<and>
        null_status na2 = Ready \<and> null_status nb2 = Ready \<and>
        n_mechanism na2 = learn_properties b (mechanism_t a) \<and> n_mechanism nb2 = learn_properties a (mechanism_t b))"
proof -
  let ?sent = "\<lambda>opts addr. (null_peer opts addr)\<lparr>ready_command_sent := True\<rparr>"
  obtain ma where ma: "null_next (null_peer a addr_a) za = Some (?sent a addr_a, za, Inr ma)"
    "null_process ma (?sent b addr_b) = ((?sent b addr_b)\<lparr>ready_command_received := True,
       n_mechanism := learn_properties a (mechanism_t b)\<rparr>, empty_msg, Inr ())"
    using null_exchange[OF assms(1,2), of "?sent b addr_b" addr_a za] assms(3)
    by (auto simp: null_peer_def null_options_def mechanism_t_def)
  obtain mb where mb: "null_next (null_peer b addr_b) zb = Some (?sent b addr_b, zb, Inr mb)"
    "null_process mb (?sent a addr_a) = ((?sent a addr_a)\<lparr>ready_command_received := True,
       n_mechanism := learn_properties b (mechanism_t a)\<rparr>, empty_msg, Inr ())"
    using null_exchange[OF assms(4,5), of "?sent a addr_a" addr_b zb] assms(6)
    by (auto simp: null_peer_def null_options_def mechanism_t_def)
  show ?thesis
    using ma mb null_mechanism_no_domain[OF assms(7)] null_mechanism_no_domain[OF assms(8)]
    by (auto simp: null_status_def)
qed

theorem null_handshake_completes_witness:
  "\<exists>na nb na' nb' ma mb.
     null_mechanism_t (default_options\<lparr>o_type := ZMQ_REQ\<rparr>) [] \<lparr>zap_endpoint = None, zap_pipe = None\<rparr> =
       Some (na, \<lparr>zap_endpoint = None, zap_pipe = None\<rparr>) \<and>
     null_mechanism_t (default_options\<lparr>o_type := ZMQ_REP\<rparr>) [] \<lparr>zap_endpoint = None, zap_pipe = None\<rparr> =
       Some (nb, \<lparr>zap_endpoint = None, zap_pipe = None\<rparr>) \<and>
     null_next na \<lparr>zap_endpoint = None, zap_pipe = None\<rparr> = Some (na', \<lparr>zap_endpoint = None, zap_pipe = None\<rparr>, Inr ma) \<and>
     null_next nb \<lparr>zap_endpoint = None, zap_pipe = None\<rparr> = Some (nb', \<lparr>zap_endpoint = None, zap_pipe = None\<rparr>, Inr mb) \<and>
     (\<exists>na2 nb2. null_process mb na' = (na2, empty_msg, Inr ()) \<and> null_process ma nb' = (nb2, empty_msg, Inr ()) \<and>
        null_status na2 = Ready \<and> null_status nb2 = Ready \<and>
        n_mechanism na2 = learn_properties (default_options\<lparr>o_type := ZMQ_REP\<rparr>) (mechanism_t (default_options\<lparr>o_type := ZMQ_REQ\<rparr>)) \<and>
        n_mechanism nb2 = learn_properties (default_options\<lparr>o_type := ZMQ_REQ\<rparr>) (mechanism_t (default_options\<lparr>o_type := ZMQ_REP\<rparr>)))"
  by (rule null_handshake_completes)
    (simp_all add: options_ok_def default_options_def kind_defs i32_def valid_socket_type_def check_socket_type_def
      socket_type_name_def socket_type_names_def)

section \<open>Authentication\<close>

definition null_event :: "handshake_event \<Rightarrow> null_mechanism \<times> zap_session \<Rightarrow> (null_mechanism \<times> zap_session) option" where
  "null_event ev = (\<lambda>(n, z).
     (case ev of
        Ev_next \<Rightarrow> map_option (\<lambda>(n1, z1, _). (n1, z1)) (null_next n z)
      | Ev_process m \<Rightarrow> Some (fst (null_process m n), z)
      | Ev_zap_available \<Rightarrow> (case null_zap_msg_available n z of (n1, z1, _) \<Rightarrow> Some (n1, z1))
      | Ev_handler fs \<Rightarrow> Some (n, handler_sends fs z)
      | Ev_zap_lost \<Rightarrow> Some (n, zap_lost z)))"

fun null_run :: "handshake_event list \<Rightarrow> null_mechanism \<times> zap_session \<Rightarrow> (null_mechanism \<times> zap_session) option" where
  "null_run [] s = Some s"
| "null_run (ev # evs) s = Option.bind (null_event ev s) (null_run evs)"

text \<open>
  What holds of a mechanism that is connected to the handler, the handler having sent \<open>fs\<close> so far.
\<close>

definition null_inv :: "msg list \<Rightarrow> null_mechanism \<Rightarrow> zap_session \<Rightarrow> bool" where
  "null_inv fs n z \<longleftrightarrow> zap_connected n \<and> zap_input fs z \<and>
     (zap_reply_received n \<longrightarrow> reply_among fs (status_code n)) \<and>
     (ready_command_sent n \<longrightarrow> zap_reply_received n \<and> status_code n = str ''200'')"

lemma null_receive_inv:
  assumes "null_receive n z = (n1, z1, r)" "null_inv fs n z" "\<not> zap_reply_received n"
  shows "null_inv fs n1 z1" "r = Inr () \<Longrightarrow> null_inv fs (n1\<lparr>zap_reply_received := True\<rparr>) z1"
    "\<not> zap_reply_received n1" "\<not> ready_command_sent n1" "zap_connected n1"
proof -
  obtain m1 code where z: "zap_reply EPROTO z (n_mechanism n) (status_code n) = (z1, m1, code, r)"
    and n1: "n1 = n\<lparr>n_mechanism := m1, status_code := code\<rparr>"
    using assms(1) by (auto simp: null_receive_def split: prod.splits)
  have i: "zap_input fs z" using assms(2) by (simp add: null_inv_def)
  note zi = zap_reply_input[OF z i] and zc = zap_reply_code[OF z i]
  show "null_inv fs n1 z1" "r = Inr () \<Longrightarrow> null_inv fs (n1\<lparr>zap_reply_received := True\<rparr>) z1"
    "\<not> zap_reply_received n1" "\<not> ready_command_sent n1" "zap_connected n1"
    using zi zc assms(2,3) by (auto simp: null_inv_def n1)
qed

lemma null_produce_inv:
  assumes "null_produce n = Some (n1, m)" "null_inv fs n z" "zap_reply_received n"
  shows "null_inv fs n1 z"
  using assms by (auto simp: null_produce_def null_inv_def split: if_splits bind_splits)

lemma write_frames_input:
  "write_frames ms z = Some z1 \<Longrightarrow> zap_input fs z1 = zap_input fs z"
  by (induction ms z rule: write_frames.induct)
    (auto simp: write_zap_msg_def zap_input_def split: prod.splits sum.splits option.splits)

lemma null_next_inv:
  assumes "null_next n z = Some (n1, z1, r)" "null_inv fs n z"
  shows "null_inv fs n1 z1"
proof (cases "ready_command_sent n \<or> error_command_sent n \<or> zap_reply_received n \<or> zap_request_sent n")
  case True
  then show ?thesis using assms null_produce_inv[of n _ _ fs z]
    by (auto simp: null_next_def null_inv_def split: if_splits bind_splits prod.splits)
next
  case False
  let ?n = "n\<lparr>zap_request_sent := True\<rparr>"
  have c: "zap_connected n" using assms(2) by (simp add: null_inv_def)
  obtain z2 n2 z3 q where w: "write_frames (zap_request (null_options n) (n_peer_address n) (str ''NULL'') []) z = Some z2"
    and q: "null_receive ?n z2 = (n2, z3, q)"
    using assms(1) False c by (auto simp: null_next_def split: bind_splits) (metis prod_cases3)
  have i: "null_inv fs ?n z2" using assms(2) write_frames_input[OF w] by (simp add: null_inv_def)
  note r = null_receive_inv[OF q i]
  show ?thesis
  proof (cases q)
    case (Inl e)
    then show ?thesis using assms(1) False c w q r by (simp add: null_next_def)
  next
    case (Inr u)
    then show ?thesis using assms(1) False c w q r null_produce_inv[of "n2\<lparr>zap_reply_received := True\<rparr>" _ _ fs z3]
      by (auto simp: null_next_def split: bind_splits)
  qed
qed

lemma null_process_inv:
  "null_inv fs n z \<Longrightarrow> null_inv fs (fst (null_process m n)) z"
  by (auto simp: null_process_def null_process_ready_def null_process_error_def null_inv_def
      split: prod.splits sum.splits if_splits)

lemma null_event_inv:
  assumes "null_event ev (n, z) = Some (n1, z1)" "null_inv fs n z"
  shows "null_inv (fs @ handler_frames [ev]) n1 z1"
proof (cases ev)
  case Ev_next
  then show ?thesis using assms null_next_inv by (auto simp: null_event_def)
next
  case (Ev_process m)
  then show ?thesis using assms null_process_inv by (auto simp: null_event_def)
next
  case Ev_zap_available
  then show ?thesis using assms null_receive_inv
    by (auto simp: null_event_def null_zap_msg_available_def split: if_splits prod.splits sum.splits)
next
  case (Ev_handler gs)
  then show ?thesis using assms
    by (auto simp: null_event_def null_inv_def zap_input_handler reply_among_append)
next
  case Ev_zap_lost
  then show ?thesis using assms by (auto simp: null_event_def null_inv_def)
qed

lemma null_run_inv:
  "null_run evs (n, z) = Some (n1, z1) \<Longrightarrow> null_inv fs n z \<Longrightarrow> null_inv (fs @ handler_frames evs) n1 z1"
proof (induction evs arbitrary: n z fs)
  case (Cons ev evs)
  then obtain n2 z2 where "null_event ev (n, z) = Some (n2, z2)" "null_run evs (n2, z2) = Some (n1, z1)"
    by (auto split: bind_splits)
  then show ?case
    using Cons.IH[of n2 z2 "fs @ handler_frames [ev]"] null_event_inv Cons.prems(2) handler_frames_append[of "[ev]" evs]
    by (metis append.assoc append_Cons append_Nil)
qed simp

text \<open>
  Claim C36. A peer whose authentication domain is set and whose handler could be reached sends READY, and so
  gets ready, only after the handler sent a reply of seven frames with the status 200, in whatever order
  commands, frames of the handler and the loss of its pipe come.
\<close>

theorem null_ready_authenticated:
  assumes "null_mechanism_t opts addr z = Some (n0, z0)" "zap_connected n0"
    and "null_run evs (n0, z0) = Some (n, z1)" "ready_command_sent n"
  shows "reply_among (handler_frames evs) (str ''200'')"
proof -
  have "null_inv [] n0 z0"
    using assms(1,2) by (auto simp: null_mechanism_t_def null_inv_def zap_connect_def zap_input_def
        split: if_splits bind_splits option.splits prod.splits)
  then have "null_inv (handler_frames evs) n z1" using null_run_inv[OF assms(3)] by force
  then show ?thesis using assms(4) by (auto simp: null_inv_def)
qed

text \<open>A run: the handler answers after the first call of \<open>next_handshake_command\<close>.\<close>

definition example_options :: options_t where
  "example_options = default_options\<lparr>o_type := ZMQ_REP, o_zap_domain := str ''global''\<rparr>"

definition example_session :: zap_session where
  "example_session = \<lparr>zap_endpoint = Some (ZMQ_REP, False), zap_pipe = None\<rparr>"

lemma null_run_example:
  obtains n0 z0 n z1 where "null_mechanism_t example_options [] example_session = Some (n0, z0)" "zap_connected n0"
    "null_run [Ev_next, Ev_handler accepting_reply, Ev_zap_available, Ev_next] (n0, z0) = Some (n, z1)"
    "ready_command_sent n"
proof -
  have "options_ok example_options" "valid_socket_type example_options"
    by (simp_all add: example_options_def options_ok_def default_options_def kind_defs i32_def valid_socket_type_def)
  then obtain ps where ps: "own_properties (5 # str ''READY'') example_options = Some ((5 # str ''READY'') @ ps)"
    using own_properties_parsed[of example_options "5 # str ''READY''"] by auto
  define n0 where "n0 = (null_peer example_options [])\<lparr>zap_connected := True\<rparr>"
  define z0 where "z0 = example_session\<lparr>zap_pipe := Some ([], [])\<rparr>"
  define rq where "rq = zap_request example_options [] (str ''NULL'') []"
  define n1 where "n1 = n0\<lparr>zap_request_sent := True\<rparr>"
  define n2 where "n2 = n1\<lparr>n_mechanism := set_user_id (str ''joe'') (n_mechanism n1), status_code := str ''200'',
    zap_reply_received := True\<rparr>"
  have 0: "null_mechanism_t example_options [] example_session = Some (n0, z0)"
    by (simp add: example_options_def null_mechanism_t_def zap_connect_def example_session_def null_peer_def n0_def z0_def)
  have n0: "null_options n0 = example_options" "n_peer_address n0 = []" "zap_connected n0"
    "\<not> ready_command_sent n0" "\<not> error_command_sent n0" "\<not> zap_reply_received n0" "\<not> zap_request_sent n0"
    "status_code n0 = []"
    by (simp_all add: n0_def null_peer_def null_options_def mechanism_t_def)
  have 1: "null_event Ev_next (n0, z0) = Some (n1, z0\<lparr>zap_pipe := Some ([], rq)\<rparr>)"
    by (simp add: null_event_def null_next_def n0 null_receive_def z0_def rq_def write_frames_connected
        empty_reply n1_def)
  have 2: "null_event (Ev_handler accepting_reply) (n1, z0\<lparr>zap_pipe := Some ([], rq)\<rparr>) =
      Some (n1, z0\<lparr>zap_pipe := Some (accepting_reply, rq)\<rparr>)"
    by (simp add: null_event_def handler_sends_def)
  have 3: "null_event Ev_zap_available (n1, z0\<lparr>zap_pipe := Some (accepting_reply, rq)\<rparr>) =
      Some (n2, z0\<lparr>zap_pipe := Some ([], rq)\<rparr>)"
    by (simp add: null_event_def null_zap_msg_available_def null_receive_def accept_reply n1_def n0 n2_def)
  have o2: "null_options n2 = example_options"
    using n0(1) by (simp add: n2_def n1_def null_options_def set_user_id_def)
  have 4: "null_event Ev_next (n2, z0\<lparr>zap_pipe := Some ([], rq)\<rparr>) =
      Some (n2\<lparr>ready_command_sent := True\<rparr>, z0\<lparr>zap_pipe := Some ([], rq)\<rparr>)"
    using n0 by (simp add: null_event_def null_next_def null_produce_def ps[simplified] o2) (simp add: n2_def n1_def)
  show thesis
    by (rule that[OF 0, of "n2\<lparr>ready_command_sent := True\<rparr>"]) (simp_all add: n0 1 2 3 4)
qed

theorem null_ready_authenticated_witness:
  "reply_among (handler_frames [Ev_next, Ev_handler accepting_reply, Ev_zap_available, Ev_next]) (str ''200'')"
  by (rule null_run_example) (rule null_ready_authenticated)

text \<open>
  When a session that reconnects still has the pipe to the handler, the new mechanism does not get past the
  assertion of \<open>zap_connect\<close>.
\<close>

lemma null_reconnect_aborts:
  assumes "o_zap_domain opts \<noteq> []" "null_mechanism_t opts addr z = Some (n, z1)" "zap_connected n"
  shows "null_mechanism_t opts addr z1 = None"
  using assms by (auto simp: null_mechanism_t_def zap_connect_def split: if_splits bind_splits option.splits)

end
