(* ===== verification/Plain_Mechanism.thy ===== *)
theory Plain_Mechanism
  imports Mechanism
begin

text \<open>
  Model of \<open>src/src/plain_client.cpp\<close> and \<open>src/src/plain_server.cpp\<close>: the two state machines of the PLAIN
  handshake HELLO, WELCOME, INITIATE, READY, and the authentication of the user by the handler. An outer
  \<open>None\<close> is a failed assertion.
\<close>

section \<open>Client\<close>

datatype plain_client_state = Sending_hello | Waiting_for_welcome | Sending_initiate | Waiting_for_ready
  | Error_command_received | Client_ready

record plain_client =
  pc_mechanism :: mechanism
  pc_state :: plain_client_state

definition plain_client_t :: "options_t \<Rightarrow> plain_client" where
  "plain_client_t opts = \<lparr>pc_mechanism = mechanism_t opts, pc_state = Sending_hello\<rparr>"

definition pc_options :: "plain_client \<Rightarrow> options_t" where
  "pc_options c = mech_options (pc_mechanism c)"

definition produce_hello :: "options_t \<Rightarrow> byte list option" where
  "produce_hello opts =
     (let u = o_plain_username opts; p = o_plain_password opts
      in if length u < 256 \<and> length p < 256
         then Some ((5 # str ''HELLO'') @ [of_nat (length u)] @ u @ [of_nat (length p)] @ p) else None)"

definition produce_initiate :: "options_t \<Rightarrow> byte list option" where
  "produce_initiate opts = own_properties (8 # str ''INITIATE'') opts"

definition plain_client_next :: "plain_client \<Rightarrow> (plain_client \<times> msg result) option" where
  "plain_client_next c =
     (case pc_state c of
        Sending_hello \<Rightarrow> do {
          bs \<leftarrow> produce_hello (pc_options c);
          Some (c\<lparr>pc_state := Waiting_for_welcome\<rparr>, Inr (frame False bs)) }
      | Sending_initiate \<Rightarrow> do {
          bs \<leftarrow> produce_initiate (pc_options c);
          Some (c\<lparr>pc_state := Waiting_for_ready\<rparr>, Inr (frame False bs)) }
      | _ \<Rightarrow> Some (c, Inl EAGAIN))"

definition process_welcome :: "byte list \<Rightarrow> plain_client \<Rightarrow> plain_client \<times> unit result" where
  "process_welcome cmd c =
     (if pc_state c \<noteq> Waiting_for_welcome then (c, Inl EPROTO)
      else if length cmd \<noteq> 8 then (c, Inl EPROTO)
      else (c\<lparr>pc_state := Sending_initiate\<rparr>, Inr ()))"

definition process_ready :: "byte list \<Rightarrow> plain_client \<Rightarrow> plain_client \<times> unit result" where
  "process_ready cmd c =
     (if pc_state c \<noteq> Waiting_for_ready then (c, Inl EPROTO)
      else (case parse_metadata False (drop 6 cmd) (pc_mechanism c) of
              (m1, Inl e) \<Rightarrow> (c\<lparr>pc_mechanism := m1\<rparr>, Inl e)
            | (m1, Inr _) \<Rightarrow> (c\<lparr>pc_mechanism := m1, pc_state := Client_ready\<rparr>, Inr ())))"

definition process_error :: "byte list \<Rightarrow> plain_client \<Rightarrow> plain_client \<times> unit result" where
  "process_error cmd c =
     (if pc_state c \<noteq> Waiting_for_welcome \<and> pc_state c \<noteq> Waiting_for_ready then (c, Inl EPROTO)
      else if length cmd < 7 then (c, Inl EPROTO)
      else if unat (cmd ! 6) > length cmd - 7 then (c, Inl EPROTO)
      else (c\<lparr>pc_state := Error_command_received\<rparr>, Inr ()))"

text \<open>A processed command is closed, and the message initialised again.\<close>

definition close_on_success :: "msg \<Rightarrow> 'a \<times> unit result \<Rightarrow> 'a \<times> msg \<times> unit result" where
  "close_on_success m = (\<lambda>(c, r). (c, if r = Inr () then empty_msg else m, r))"

definition plain_client_process :: "msg \<Rightarrow> plain_client \<Rightarrow> plain_client \<times> msg \<times> unit result" where
  "plain_client_process m c =
     (let cmd = mdata m
      in close_on_success m
          (if length cmd \<ge> 8 \<and> take 8 cmd = 7 # str ''WELCOME'' then process_welcome cmd c
           else if length cmd \<ge> 6 \<and> take 6 cmd = 5 # str ''READY'' then process_ready cmd c
           else if length cmd \<ge> 6 \<and> take 6 cmd = 5 # str ''ERROR'' then process_error cmd c
           else (c, Inl EPROTO)))"

definition plain_client_status :: "plain_client \<Rightarrow> status" where
  "plain_client_status c =
     (if pc_state c = Client_ready then Ready
      else if pc_state c = Error_command_received then Error else Handshaking)"

section \<open>Server\<close>

datatype plain_server_state = Waiting_for_hello | Sending_welcome | Waiting_for_initiate | Sending_ready
  | Waiting_for_zap_reply | Sending_error | Error_command_sent | Server_ready

record plain_server =
  ps_mechanism :: mechanism
  ps_peer_address :: "byte list"
  ps_status_code :: "byte list"
  ps_state :: plain_server_state

definition plain_server_t :: "options_t \<Rightarrow> byte list \<Rightarrow> plain_server" where
  "plain_server_t opts addr = \<lparr>ps_mechanism = mechanism_t opts, ps_peer_address = addr, ps_status_code = [],
     ps_state = Waiting_for_hello\<rparr>"

definition ps_options :: "plain_server \<Rightarrow> options_t" where
  "ps_options s = mech_options (ps_mechanism s)"

definition produce_welcome :: "byte list" where
  "produce_welcome = 7 # str ''WELCOME''"

definition produce_ready :: "options_t \<Rightarrow> byte list option" where
  "produce_ready opts = own_properties (5 # str ''READY'') opts"

definition produce_error :: "byte list \<Rightarrow> byte list option" where
  "produce_error code =
     (if length code = 3 then Some ((5 # str ''ERROR'') @ of_nat (length code) # code) else None)"

definition plain_server_next :: "plain_server \<Rightarrow> (plain_server \<times> msg result) option" where
  "plain_server_next s =
     (case ps_state s of
        Sending_welcome \<Rightarrow> Some (s\<lparr>ps_state := Waiting_for_initiate\<rparr>, Inr (frame False produce_welcome))
      | Sending_ready \<Rightarrow> do {
          bs \<leftarrow> produce_ready (ps_options s);
          Some (s\<lparr>ps_state := Server_ready\<rparr>, Inr (frame False bs)) }
      | Sending_error \<Rightarrow> do {
          bs \<leftarrow> produce_error (ps_status_code s);
          Some (s\<lparr>ps_state := Error_command_sent\<rparr>, Inr (frame False bs)) }
      | _ \<Rightarrow> Some (s, Inl EAGAIN))"

text \<open>User name and password of a HELLO command, which must have nothing else.\<close>

definition parse_hello :: "byte list \<Rightarrow> (byte list \<times> byte list) result" where
  "parse_hello ptr =
     (if length ptr < 6 \<or> take 6 ptr \<noteq> 5 # str ''HELLO'' then Inl EPROTO
      else let p1 = drop 6 ptr in
      if length p1 < 1 then Inl EPROTO
      else let username_length = unat (hd p1); p2 = tl p1 in
      if length p2 < username_length then Inl EPROTO
      else let username = take username_length p2; p3 = drop username_length p2 in
      if length p3 < 1 then Inl EPROTO
      else let password_length = unat (hd p3); p4 = tl p3 in
      if length p4 < password_length then Inl EPROTO
      else let password = take password_length p4; p5 = drop password_length p4 in
      if length p5 > 0 then Inl EPROTO
      else Inr (username, password))"

definition plain_receive :: "plain_server \<Rightarrow> zap_session \<Rightarrow> plain_server \<times> zap_session \<times> unit result" where
  "plain_receive s z =
     (case zap_reply EACCES z (ps_mechanism s) (ps_status_code s) of
        (z1, m1, code, r) \<Rightarrow> (s\<lparr>ps_mechanism := m1, ps_status_code := code\<rparr>, z1, r))"

definition after_reply :: "plain_server \<Rightarrow> plain_server" where
  "after_reply s = s\<lparr>ps_state := (if ps_status_code s = str ''200'' then Sending_welcome else Sending_error)\<rparr>"

definition process_hello :: "msg \<Rightarrow> plain_server \<Rightarrow> zap_session \<Rightarrow> (plain_server \<times> zap_session \<times> unit result) option" where
  "process_hello m s z =
     (case parse_hello (mdata m) of
        Inl e \<Rightarrow> Some (s, z, Inl e)
      | Inr (username, password) \<Rightarrow> do {
          (z1, rc) \<leftarrow> zap_connect z;
          if rc = Inr () then do {
            z2 \<leftarrow> write_frames (zap_request (ps_options s) (ps_peer_address s) (str ''PLAIN'') [username, password]) z1;
            (case plain_receive s z2 of
               (s1, z3, Inr _) \<Rightarrow> Some (after_reply s1, z3, Inr ())
             | (s1, z3, Inl e) \<Rightarrow>
                 if e = EAGAIN then Some (s1\<lparr>ps_state := Waiting_for_zap_reply\<rparr>, z3, Inr ())
                 else Some (s1, z3, Inl e)) }
          else Some (s\<lparr>ps_state := Sending_welcome\<rparr>, z1, Inr ()) })"

definition process_initiate :: "msg \<Rightarrow> plain_server \<Rightarrow> plain_server \<times> unit result" where
  "process_initiate m s =
     (if length (mdata m) < 9 \<or> take 9 (mdata m) \<noteq> 8 # str ''INITIATE'' then (s, Inl EPROTO)
      else (case parse_metadata False (drop 9 (mdata m)) (ps_mechanism s) of
              (m1, Inl e) \<Rightarrow> (s\<lparr>ps_mechanism := m1\<rparr>, Inl e)
            | (m1, Inr _) \<Rightarrow> (s\<lparr>ps_mechanism := m1, ps_state := Sending_ready\<rparr>, Inr ())))"

definition plain_server_process ::
  "msg \<Rightarrow> plain_server \<Rightarrow> zap_session \<Rightarrow> (plain_server \<times> zap_session \<times> msg \<times> unit result) option" where
  "plain_server_process m s z = do {
     (s1, z1, r) \<leftarrow>
       (case ps_state s of
          Waiting_for_hello \<Rightarrow> process_hello m s z
        | Waiting_for_initiate \<Rightarrow> (case process_initiate m s of (s1, r) \<Rightarrow> Some (s1, z, r))
        | _ \<Rightarrow> Some (s, z, Inl EPROTO));
     Some (s1, z1, if r = Inr () then empty_msg else m, r) }"

definition plain_zap_msg_available :: "plain_server \<Rightarrow> zap_session \<Rightarrow> plain_server \<times> zap_session \<times> unit result" where
  "plain_zap_msg_available s z =
     (if ps_state s \<noteq> Waiting_for_zap_reply then (s, z, Inl EFSM)
      else (case plain_receive s z of
              (s1, z1, Inl e) \<Rightarrow> (s1, z1, Inl e)
            | (s1, z1, Inr _) \<Rightarrow> (after_reply s1, z1, Inr ())))"

definition plain_server_status :: "plain_server \<Rightarrow> status" where
  "plain_server_status s =
     (if ps_state s = Server_ready then Ready
      else if ps_state s = Error_command_sent then Error else Handshaking)"

section \<open>The dialogue of a client and a server\<close>

lemma hello_roundtrip:
  assumes "produce_hello opts = Some bs"
  shows "parse_hello bs = Inr (o_plain_username opts, o_plain_password opts)"
proof -
  let ?u = "o_plain_username opts" and ?p = "o_plain_password opts"
  have l: "length ?u < 256" "length ?p < 256"
    and bs: "bs = (5 # str ''HELLO'') @ [of_nat (length ?u)] @ ?u @ [of_nat (length ?p)] @ ?p"
    using assms by (auto simp: produce_hello_def Let_def split: if_splits)
  have n: "unat (of_nat (length ?u) :: byte) = length ?u" "unat (of_nat (length ?p) :: byte) = length ?p"
    using l by (simp_all add: unat_of_nat)
  show ?thesis by (simp add: bs parse_hello_def Let_def n)
qed

definition ok :: "'a result \<Rightarrow> 'a option" where
  "ok r = (case r of Inl _ \<Rightarrow> None | Inr x \<Rightarrow> Some x)"

lemma ok_simps [simp]: "ok (Inl e) = None" "ok (Inr x) = Some x"
  by (simp_all add: ok_def)

text \<open>
  The calls of a handshake in their order, each of which has to succeed; \<open>answer\<close> is what happens between
  HELLO and WELCOME.
\<close>

definition plain_dialogue :: "(plain_server \<times> zap_session \<Rightarrow> (plain_server \<times> zap_session) option) \<Rightarrow>
    plain_client \<Rightarrow> plain_server \<Rightarrow> zap_session \<Rightarrow> (plain_client \<times> plain_server \<times> zap_session) option" where
  "plain_dialogue answer c s z = do {
     (c1, r1) \<leftarrow> plain_client_next c;
     hello \<leftarrow> ok r1;
     (s1, z1, _, r2) \<leftarrow> plain_server_process hello s z;
     ok r2;
     (s2, z2) \<leftarrow> answer (s1, z1);
     (s3, r3) \<leftarrow> plain_server_next s2;
     welcome \<leftarrow> ok r3;
     let (c2, _, r4) = plain_client_process welcome c1;
     ok r4;
     (c3, r5) \<leftarrow> plain_client_next c2;
     initiate \<leftarrow> ok r5;
     (s4, z3, _, r6) \<leftarrow> plain_server_process initiate s3 z2;
     ok r6;
     (s5, r7) \<leftarrow> plain_server_next s4;
     ready \<leftarrow> ok r7;
     let (c4, _, r8) = plain_client_process ready c3;
     ok r8;
     Some (c4, s5, z3) }"

text \<open>The handler accepts the user.\<close>

definition handler_accepts :: "plain_server \<times> zap_session \<Rightarrow> (plain_server \<times> zap_session) option" where
  "handler_accepts = (\<lambda>(s, z). do {
     let (s1, z1, r) = plain_zap_msg_available s (handler_sends accepting_reply z);
     ok r;
     Some (s1, z1) })"

definition reachable_handler :: "zap_session \<Rightarrow> bool" where
  "reachable_handler z \<longleftrightarrow>
     (\<exists>t ids. zap_endpoint z = Some (t, ids) \<and> (t = ZMQ_REP \<or> t = ZMQ_ROUTER \<or> t = ZMQ_SERVER))"

definition first_frames :: "zap_session \<Rightarrow> msg list" where
  "first_frames z = (if (\<exists>t. zap_endpoint z = Some (t, True)) then [\<lparr>kind = Kdata, flags = flag_identity, mdata = []\<rparr>] else [])"

lemma zap_connect_reachable:
  assumes "reachable_handler z" "zap_pipe z = None"
  shows "zap_connect z = Some (z\<lparr>zap_pipe := Some ([], first_frames z)\<rparr>, Inr ())"
  using assms by (auto simp: reachable_handler_def zap_connect_def first_frames_def)

text \<open>The second half, from a server that is about to say WELCOME.\<close>

lemma plain_second_half:
  assumes "options_ok a" "valid_socket_type a" "check_socket_type (o_type b) (socket_type_name a)"
    "options_ok b" "valid_socket_type b" "check_socket_type (o_type a) (socket_type_name b)"
    and s: "ps_state s2 = Sending_welcome" "ps_options s2 = b"
    and c: "c1 = (plain_client_t a)\<lparr>pc_state := Waiting_for_welcome\<rparr>"
  obtains initiate ready where
    "plain_server_next s2 = Some (s2\<lparr>ps_state := Waiting_for_initiate\<rparr>, Inr (frame False produce_welcome))"
    "plain_client_process (frame False produce_welcome) c1 = (c1\<lparr>pc_state := Sending_initiate\<rparr>, empty_msg, Inr ())"
    "plain_client_next (c1\<lparr>pc_state := Sending_initiate\<rparr>) =
       Some (c1\<lparr>pc_state := Waiting_for_ready\<rparr>, Inr (frame False initiate))"
    "\<And>z. plain_server_process (frame False initiate) (s2\<lparr>ps_state := Waiting_for_initiate\<rparr>) z =
       Some (s2\<lparr>ps_mechanism := learn_properties a (ps_mechanism s2), ps_state := Sending_ready\<rparr>, z, empty_msg, Inr ())"
    "plain_server_next (s2\<lparr>ps_mechanism := learn_properties a (ps_mechanism s2), ps_state := Sending_ready\<rparr>) =
       Some (s2\<lparr>ps_mechanism := learn_properties a (ps_mechanism s2), ps_state := Server_ready\<rparr>, Inr (frame False ready))"
    "plain_client_process (frame False ready) (c1\<lparr>pc_state := Waiting_for_ready\<rparr>) =
       (c1\<lparr>pc_mechanism := learn_properties b (pc_mechanism c1), pc_state := Client_ready\<rparr>, empty_msg, Inr ())"
proof -
  obtain pa where pa: "own_properties (8 # str ''INITIATE'') a = Some ((8 # str ''INITIATE'') @ pa)"
    "\<And>m. check_socket_type (o_type (mech_options m)) (socket_type_name a) \<Longrightarrow>
       parse_metadata False pa m = (learn_properties a m, Inr ())"
    using own_properties_parsed[OF assms(1,2), of "8 # str ''INITIATE''"] by auto
  obtain pb where pb: "own_properties (5 # str ''READY'') b = Some ((5 # str ''READY'') @ pb)"
    "\<And>m. check_socket_type (o_type (mech_options m)) (socket_type_name b) \<Longrightarrow>
       parse_metadata False pb m = (learn_properties b m, Inr ())"
    using own_properties_parsed[OF assms(4,5), of "5 # str ''READY''"] by auto
  have lo: "mech_options (learn_properties a m) = mech_options m" for m
    by (simp add: learn_properties_def Let_def)
  have co: "pc_options c1 = a" "mech_options (pc_mechanism c1) = a"
    by (simp_all add: c plain_client_t_def pc_options_def mechanism_t_def)
  have so: "mech_options (ps_mechanism s2) = b" using s(2) by (simp add: ps_options_def)
  show thesis
  proof (rule that)
    show "plain_server_next s2 = Some (s2\<lparr>ps_state := Waiting_for_initiate\<rparr>, Inr (frame False produce_welcome))"
      using s(1) by (simp add: plain_server_next_def)
    show "plain_client_process (frame False produce_welcome) c1 = (c1\<lparr>pc_state := Sending_initiate\<rparr>, empty_msg, Inr ())"
      by (simp add: plain_client_process_def frame_def produce_welcome_def process_welcome_def close_on_success_def c)
    show "plain_client_next (c1\<lparr>pc_state := Sending_initiate\<rparr>) =
        Some (c1\<lparr>pc_state := Waiting_for_ready\<rparr>, Inr (frame False ((8 # str ''INITIATE'') @ pa)))"
      using pa(1) co by (simp add: plain_client_next_def produce_initiate_def pc_options_def)
    show "plain_server_process (frame False ((8 # str ''INITIATE'') @ pa)) (s2\<lparr>ps_state := Waiting_for_initiate\<rparr>) z =
        Some (s2\<lparr>ps_mechanism := learn_properties a (ps_mechanism s2), ps_state := Sending_ready\<rparr>, z, empty_msg, Inr ())" for z
      using pa(2)[of "ps_mechanism s2"] assms(3) so
      by (simp add: plain_server_process_def process_initiate_def frame_def)
    show "plain_server_next (s2\<lparr>ps_mechanism := learn_properties a (ps_mechanism s2), ps_state := Sending_ready\<rparr>) =
        Some (s2\<lparr>ps_mechanism := learn_properties a (ps_mechanism s2), ps_state := Server_ready\<rparr>,
              Inr (frame False ((5 # str ''READY'') @ pb)))"
      using pb(1) so lo by (simp add: plain_server_next_def produce_ready_def ps_options_def)
    show "plain_client_process (frame False ((5 # str ''READY'') @ pb)) (c1\<lparr>pc_state := Waiting_for_ready\<rparr>) =
        (c1\<lparr>pc_mechanism := learn_properties b (pc_mechanism c1), pc_state := Client_ready\<rparr>, empty_msg, Inr ())"
      using pb(2)[of "pc_mechanism c1"] assms(6) co
      by (simp add: plain_client_process_def process_ready_def frame_def close_on_success_def)
  qed
qed

lemma plain_hello:
  assumes "options_ok a"
  obtains hello where "plain_client_next (plain_client_t a) =
      Some ((plain_client_t a)\<lparr>pc_state := Waiting_for_welcome\<rparr>, Inr (frame False hello))"
    "parse_hello hello = Inr (o_plain_username a, o_plain_password a)"
proof -
  obtain bs where "produce_hello a = Some bs"
    using assms by (simp add: produce_hello_def options_ok_def short_string_def Let_def)
  then show thesis using that hello_roundtrip
    by (simp add: plain_client_next_def plain_client_t_def pc_options_def mechanism_t_def)
qed

text \<open>
  Claim C35. A PLAIN client and a PLAIN server with compatible socket types, the server with a handler that
  accepts the user: the handshake runs to its end without an error, both are ready, the handler was sent the
  client's user name and password and nothing else, and each side knows the properties of the other, the
  server also the user id from the handler.
\<close>

theorem plain_handshake_completes:
  assumes "options_ok a" "valid_socket_type a" "check_socket_type (o_type b) (socket_type_name a)"
    "options_ok b" "valid_socket_type b" "check_socket_type (o_type a) (socket_type_name b)"
    "reachable_handler z" "zap_pipe z = None"
  shows "\<exists>c s z'. plain_dialogue handler_accepts (plain_client_t a) (plain_server_t b addr) z = Some (c, s, z') \<and>
     plain_client_status c = Ready \<and> plain_server_status s = Ready \<and>
     zap_pipe z' = Some ([], first_frames z @
       zap_request b addr (str ''PLAIN'') [o_plain_username a, o_plain_password a]) \<and>
     pc_mechanism c = learn_properties b (mechanism_t a) \<and>
     ps_mechanism s = learn_properties a (set_user_id (str ''joe'') (mechanism_t b))"
proof -
  define rq where "rq = first_frames z @ zap_request b addr (str ''PLAIN'') [o_plain_username a, o_plain_password a]"
  define s0 where "s0 = plain_server_t b addr"
  define z1 where "z1 = z\<lparr>zap_pipe := Some ([], rq)\<rparr>"
  define s1 where "s1 = s0\<lparr>ps_state := Waiting_for_zap_reply\<rparr>"
  define s2 where "s2 = s1\<lparr>ps_mechanism := set_user_id (str ''joe'') (mechanism_t b), ps_status_code := str ''200'',
    ps_state := Sending_welcome\<rparr>"
  define c1 where "c1 = (plain_client_t a)\<lparr>pc_state := Waiting_for_welcome\<rparr>"
  obtain hello where h: "plain_client_next (plain_client_t a) = Some (c1, Inr (frame False hello))"
    "parse_hello hello = Inr (o_plain_username a, o_plain_password a)"
    using plain_hello[OF assms(1)] unfolding c1_def by metis
  have b: "ps_options s0 = b" "ps_state s0 = Waiting_for_hello" "ps_peer_address s0 = addr" "ps_mechanism s0 = mechanism_t b"
    by (simp_all add: s0_def ps_options_def plain_server_t_def mechanism_t_def)
  have 1: "plain_server_process (frame False hello) s0 z = Some (s1, z1, empty_msg, Inr ())"
    using zap_connect_reachable[OF assms(7,8)] h(2) b unfolding z1_def rq_def
    by (simp add: plain_server_process_def process_hello_def frame_def write_frames_connected plain_receive_def empty_reply s1_def)
  have 2: "handler_accepts (s1, z1) = Some (s2, z1)"
    using b by (simp add: handler_accepts_def handler_sends_def plain_zap_msg_available_def plain_receive_def accept_reply
        after_reply_def s2_def s1_def z1_def)
  have s2: "ps_state s2 = Sending_welcome" "ps_options s2 = b"
    by (simp_all add: s2_def ps_options_def set_user_id_def mechanism_t_def)
  note half = plain_second_half[OF assms(1-6) s2 c1_def]
  show ?thesis
  proof (rule half)
    fix initiate ready
    assume e: "plain_server_next s2 = Some (s2\<lparr>ps_state := Waiting_for_initiate\<rparr>, Inr (frame False produce_welcome))"
      "plain_client_process (frame False produce_welcome) c1 = (c1\<lparr>pc_state := Sending_initiate\<rparr>, empty_msg, Inr ())"
      "plain_client_next (c1\<lparr>pc_state := Sending_initiate\<rparr>) =
         Some (c1\<lparr>pc_state := Waiting_for_ready\<rparr>, Inr (frame False initiate))"
      "\<And>z. plain_server_process (frame False initiate) (s2\<lparr>ps_state := Waiting_for_initiate\<rparr>) z =
         Some (s2\<lparr>ps_mechanism := learn_properties a (ps_mechanism s2), ps_state := Sending_ready\<rparr>, z, empty_msg, Inr ())"
      "plain_server_next (s2\<lparr>ps_mechanism := learn_properties a (ps_mechanism s2), ps_state := Sending_ready\<rparr>) =
         Some (s2\<lparr>ps_mechanism := learn_properties a (ps_mechanism s2), ps_state := Server_ready\<rparr>, Inr (frame False ready))"
      "plain_client_process (frame False ready) (c1\<lparr>pc_state := Waiting_for_ready\<rparr>) =
         (c1\<lparr>pc_mechanism := learn_properties b (pc_mechanism c1), pc_state := Client_ready\<rparr>, empty_msg, Inr ())"
    have "plain_dialogue handler_accepts (plain_client_t a) s0 z =
        Some (c1\<lparr>pc_mechanism := learn_properties b (pc_mechanism c1), pc_state := Client_ready\<rparr>,
          s2\<lparr>ps_mechanism := learn_properties a (ps_mechanism s2), ps_state := Server_ready\<rparr>, z1)"
      by (simp add: plain_dialogue_def h(1) 1 2 e)
    then show ?thesis
      unfolding s0_def[symmetric]
      by (intro exI conjI, assumption)
        (simp_all add: plain_client_status_def plain_server_status_def z1_def rq_def s2_def c1_def plain_client_t_def)
  qed
qed

definition user_options :: "int \<Rightarrow> options_t" where
  "user_options t = default_options\<lparr>o_type := t, o_plain_username := str ''joe'', o_plain_password := str ''secret''\<rparr>"

lemma user_options_ok: "0 \<le> t \<Longrightarrow> t \<le> 18 \<Longrightarrow> options_ok (user_options t) \<and> valid_socket_type (user_options t)"
  by (simp add: user_options_def options_ok_def default_options_def kind_defs i32_def valid_socket_type_def)

definition rep_session :: zap_session where
  "rep_session = \<lparr>zap_endpoint = Some (ZMQ_REP, False), zap_pipe = None\<rparr>"

lemma rep_session_reachable: "reachable_handler rep_session \<and> zap_pipe rep_session = None"
  by (auto simp: reachable_handler_def rep_session_def)

theorem plain_handshake_completes_witness:
  "\<exists>c s z'. plain_dialogue handler_accepts (plain_client_t (user_options ZMQ_DEALER)) (plain_server_t (user_options ZMQ_ROUTER) [])
       rep_session = Some (c, s, z') \<and>
     plain_client_status c = Ready \<and> plain_server_status s = Ready \<and>
     zap_pipe z' = Some ([], first_frames rep_session @
       zap_request (user_options ZMQ_ROUTER) [] (str ''PLAIN'')
         [o_plain_username (user_options ZMQ_DEALER), o_plain_password (user_options ZMQ_DEALER)]) \<and>
     pc_mechanism c = learn_properties (user_options ZMQ_ROUTER) (mechanism_t (user_options ZMQ_DEALER)) \<and>
     ps_mechanism s = learn_properties (user_options ZMQ_DEALER) (set_user_id (str ''joe'') (mechanism_t (user_options ZMQ_ROUTER)))"
  by (rule plain_handshake_completes)
    (simp_all add: user_options_ok, simp_all add: user_options_def check_socket_type_def socket_type_name_def
      socket_type_names_def rep_session_reachable)

text \<open>
  Without a handler to ask the server accepts every user name and password.
\<close>

lemma plain_without_handler_accepts:
  assumes "zap_endpoint z = None" "zap_pipe z = None" "parse_hello (mdata m) = Inr up"
  shows "plain_server_process m (plain_server_t opts addr) z =
    Some ((plain_server_t opts addr)\<lparr>ps_state := Sending_welcome\<rparr>, z, empty_msg, Inr ())"
  using assms by (cases up) (simp add: plain_server_process_def plain_server_t_def process_hello_def zap_connect_def)

section \<open>Authentication\<close>

definition plain_event :: "handshake_event \<Rightarrow> plain_server \<times> zap_session \<Rightarrow> (plain_server \<times> zap_session) option" where
  "plain_event ev = (\<lambda>(s, z).
     (case ev of
        Ev_next \<Rightarrow> map_option (\<lambda>(s1, _). (s1, z)) (plain_server_next s)
      | Ev_process m \<Rightarrow> map_option (\<lambda>(s1, z1, _). (s1, z1)) (plain_server_process m s z)
      | Ev_zap_available \<Rightarrow> (case plain_zap_msg_available s z of (s1, z1, _) \<Rightarrow> Some (s1, z1))
      | Ev_handler fs \<Rightarrow> Some (s, handler_sends fs z)
      | Ev_zap_lost \<Rightarrow> Some (s, zap_lost z)))"

fun plain_run :: "handshake_event list \<Rightarrow> plain_server \<times> zap_session \<Rightarrow> (plain_server \<times> zap_session) option" where
  "plain_run [] s = Some s"
| "plain_run (ev # evs) s = Option.bind (plain_event ev s) (plain_run evs)"

text \<open>
  A HELLO of the past whose user name and password are in the request at the end of what the handler was
  sent, unless the pipe to the handler is lost.
\<close>

definition asked :: "handshake_event list \<Rightarrow> plain_server \<Rightarrow> zap_session \<Rightarrow> bool" where
  "asked evs s z \<longleftrightarrow> (\<exists>m username password. Ev_process m \<in> set evs \<and> parse_hello (mdata m) = Inr (username, password) \<and>
     (\<forall>i out. zap_pipe z = Some (i, out) \<longrightarrow>
        out = first_frames z @ zap_request (ps_options s) (ps_peer_address s) (str ''PLAIN'') [username, password]))"

definition plain_inv :: "handshake_event list \<Rightarrow> plain_server \<Rightarrow> zap_session \<Rightarrow> bool" where
  "plain_inv evs s z \<longleftrightarrow> reachable_handler z \<and> zap_input (handler_frames evs) z \<and>
     (ps_state s \<noteq> Waiting_for_hello \<longrightarrow> asked evs s z) \<and>
     (ps_state s \<in> {Sending_welcome, Waiting_for_initiate, Sending_ready, Server_ready} \<longrightarrow>
        reply_among (handler_frames evs) (str ''200''))"

lemma take_property_options: "take_property zap nm v m = (m1, r) \<Longrightarrow> mech_options m1 = mech_options m"
  by (auto simp: take_property_def set_peer_identity_def Let_def split: if_splits)

lemma parse_metadata_options: "parse_metadata zap ptr m = (m1, r) \<Longrightarrow> mech_options m1 = mech_options m"
proof (induction zap ptr m rule: parse_metadata.induct)
  case (1 zap ptr m)
  show ?case
    using 1(1) 1(2)[unfolded parse_metadata.simps[of zap ptr m]]
    by (auto simp: Let_def leftover_def dest: take_property_options split: prod.splits sum.splits if_splits)
qed

lemma plain_receive_facts:
  assumes "plain_receive s z = (s1, z1, r)" "zap_input fs z"
  shows "ps_options s1 = ps_options s" "ps_peer_address s1 = ps_peer_address s" "ps_state s1 = ps_state s"
    "zap_input fs z1" "r = Inr () \<Longrightarrow> reply_among fs (ps_status_code s1)" "zap_endpoint z1 = zap_endpoint z"
    "\<forall>i out. zap_pipe z1 = Some (i, out) \<longrightarrow> (\<exists>i'. zap_pipe z = Some (i', out))"
proof -
  obtain m1 code where z: "zap_reply EACCES z (ps_mechanism s) (ps_status_code s) = (z1, m1, code, r)"
    and s1: "s1 = s\<lparr>ps_mechanism := m1, ps_status_code := code\<rparr>"
    using assms(1) by (auto simp: plain_receive_def split: prod.splits)
  obtain q where q: "read_reply 0 z = (z1, q)"
    using z by (auto simp: zap_reply_def split: prod.splits sum.splits if_splits)
  have "mech_options m1 = mech_options (ps_mechanism s)"
    using z by (auto simp: zap_reply_def set_user_id_def dest: parse_metadata_options split: prod.splits sum.splits if_splits)
  then show "ps_options s1 = ps_options s" by (simp add: ps_options_def s1)
  show "ps_peer_address s1 = ps_peer_address s" "ps_state s1 = ps_state s" by (simp_all add: s1)
  show "zap_input fs z1" by (rule zap_reply_input[OF z assms(2)])
  show "r = Inr () \<Longrightarrow> reply_among fs (ps_status_code s1)" using zap_reply_code[OF z assms(2)] by (auto simp: s1)
  show "zap_endpoint z1 = zap_endpoint z" using read_reply_pipe[OF q] by simp
  show "\<forall>i out. zap_pipe z1 = Some (i, out) \<longrightarrow> (\<exists>i'. zap_pipe z = Some (i', out))"
    using read_reply_pipe[OF q] by (cases "zap_pipe z") auto
qed

lemma asked_mono: "asked evs s z \<Longrightarrow> asked (evs @ evs') s z"
  unfolding asked_def by auto

lemma asked_cong:
  "asked evs s z \<Longrightarrow> ps_options s1 = ps_options s \<Longrightarrow> ps_peer_address s1 = ps_peer_address s \<Longrightarrow>
    zap_endpoint z1 = zap_endpoint z \<Longrightarrow>
    (\<forall>i out. zap_pipe z1 = Some (i, out) \<longrightarrow> (\<exists>i'. zap_pipe z = Some (i', out))) \<Longrightarrow> asked evs s1 z1"
  unfolding asked_def first_frames_def by (elim exE conjE) (intro exI conjI allI impI; assumption?; force)

lemma plain_receive_asked:
  assumes "plain_receive s z = (s1, z1, r)" "zap_input fs z" "asked evs s z"
  shows "asked evs s1 z1"
  by (rule asked_cong[OF assms(3)]) (use plain_receive_facts[OF assms(1,2)] in auto)

lemma plain_inv_state:
  assumes "plain_inv evs s z" "ps_options s1 = ps_options s" "ps_peer_address s1 = ps_peer_address s"
    "ps_state s1 = ps_state s \<or> ps_state s \<in> {Sending_welcome, Waiting_for_initiate, Sending_ready, Server_ready} \<or>
      ps_state s \<noteq> Waiting_for_hello \<and> ps_state s1 \<in> {Sending_error, Error_command_sent}"
  shows "plain_inv evs s1 z"
  using assms asked_cong[of evs s z s1 z] unfolding plain_inv_def by (elim conjE disjE) auto

lemma plain_next_inv:
  assumes "plain_server_next s = Some (s1, r)" "plain_inv evs s z"
  shows "plain_inv evs s1 z"
  by (rule plain_inv_state[OF assms(2)])
    (use assms(1) in \<open>auto simp: plain_server_next_def ps_options_def split: plain_server_state.splits bind_splits\<close>)

lemma after_reply_inv:
  assumes "reachable_handler z" "zap_input (handler_frames evs) z" "asked evs s z"
    "reply_among (handler_frames evs) (ps_status_code s)"
  shows "plain_inv evs (after_reply s) z"
  using assms asked_cong[of evs s z "after_reply s" z]
  unfolding plain_inv_def by (auto simp: after_reply_def ps_options_def)

lemma plain_zap_available_inv:
  assumes "plain_zap_msg_available s z = (s1, z1, r)" "plain_inv evs s z"
  shows "plain_inv evs s1 z1"
proof (cases "ps_state s = Waiting_for_zap_reply")
  case True
  obtain s2 r2 where q: "plain_receive s z = (s2, z1, r2)" "s1 = (if r2 = Inr () then after_reply s2 else s2)"
    using assms(1) True by (auto simp: plain_zap_msg_available_def split: prod.splits sum.splits)
  have i: "zap_input (handler_frames evs) z" "reachable_handler z" "asked evs s z"
    using assms(2) True by (auto simp: plain_inv_def)
  note f = plain_receive_facts[OF q(1) i(1)]
  have a: "asked evs s2 z1" by (rule plain_receive_asked[OF q(1) i(1,3)])
  have "reachable_handler z1" using i(2) f(6) by (simp add: reachable_handler_def)
  then show ?thesis
    using after_reply_inv[OF _ f(4) a] f a q(2) True by (cases "r2 = Inr ()") (auto simp: plain_inv_def)
next
  case False
  then show ?thesis using assms by (simp add: plain_zap_msg_available_def)
qed

lemma process_hello_inv:
  assumes "process_hello m s z = Some (s1, z1, r)" "plain_inv evs s z" "ps_state s = Waiting_for_hello"
  shows "plain_inv (evs @ [Ev_process m]) s1 z1"
proof (cases "parse_hello (mdata m)")
  case (Inl e)
  then show ?thesis using assms by (auto simp: process_hello_def plain_inv_def)
next
  case (Inr up)
  obtain u p where up: "parse_hello (mdata m) = Inr (u, p)" using Inr by (cases up) auto
  let ?rq = "first_frames z @ zap_request (ps_options s) (ps_peer_address s) (str ''PLAIN'') [u, p]"
  let ?z = "z\<lparr>zap_pipe := Some ([], ?rq)\<rparr>" and ?evs = "evs @ [Ev_process m]"
  have reach: "reachable_handler z" using assms(2) by (simp add: plain_inv_def)
  have n: "zap_pipe z = None"
  proof (rule ccontr)
    assume "zap_pipe z \<noteq> None"
    then have "zap_connect z = None" by (simp add: zap_connect_def)
    then show False using assms(1) up by (simp add: process_hello_def)
  qed
  obtain s2 z2 r2 where q: "plain_receive s ?z = (s2, z2, r2)" by (metis prod_cases3)
  have s1: "s1 = (if r2 = Inr () then after_reply s2 else if r2 = Inl EAGAIN then s2\<lparr>ps_state := Waiting_for_zap_reply\<rparr> else s2)"
    "z1 = z2"
    using assms(1) up q zap_connect_reachable[OF reach n]
    by (auto simp: process_hello_def write_frames_connected split: sum.splits if_splits)
  have i: "zap_input (handler_frames ?evs) ?z" by (simp add: zap_input_def)
  note f = plain_receive_facts[OF q i]
  have "asked ?evs s ?z" unfolding asked_def using up by (auto simp: first_frames_def)
  then have a: "asked ?evs s2 z2" by (rule plain_receive_asked[OF q i])
  have r: "reachable_handler z2" using reach f(6) by (simp add: reachable_handler_def)
  have w: "asked ?evs (s2\<lparr>ps_state := Waiting_for_zap_reply\<rparr>) z2" using a by (simp add: asked_def ps_options_def)
  consider "r2 = Inr ()" | "r2 = Inl EAGAIN" | "r2 \<noteq> Inr ()" "r2 \<noteq> Inl EAGAIN" by blast
  then show ?thesis
  proof cases
    case 1
    then show ?thesis using after_reply_inv[OF r f(4) a] f(5) s1 by simp
  next
    case 2
    then show ?thesis using s1 w r f(4) by (simp add: plain_inv_def)
  next
    case 3
    then show ?thesis using s1 r f(3,4) assms(3) by (simp add: plain_inv_def)
  qed
qed

lemma plain_inv_mono:
  "plain_inv evs s z \<Longrightarrow> plain_inv (evs @ evs') s z \<longleftrightarrow> zap_input (handler_frames (evs @ evs')) z"
  by (auto simp: plain_inv_def asked_mono reply_among_append)

lemma plain_event_inv:
  assumes "plain_event ev (s, z) = Some (s1, z1)" "plain_inv evs s z"
  shows "plain_inv (evs @ [ev]) s1 z1"
proof (cases ev)
  case Ev_next
  then have "plain_inv evs s1 z1" using assms plain_next_inv by (auto simp: plain_event_def)
  then show ?thesis using plain_inv_mono[of evs s1 z1 "[ev]"] Ev_next by (simp add: plain_inv_def)
next
  case (Ev_process m)
  then obtain r where q: "(case ps_state s of Waiting_for_hello \<Rightarrow> process_hello m s z
        | Waiting_for_initiate \<Rightarrow> (case process_initiate m s of (s1, r) \<Rightarrow> Some (s1, z, r))
        | _ \<Rightarrow> Some (s, z, Inl EPROTO)) = Some (s1, z1, r)"
    using assms(1) by (auto simp: plain_event_def plain_server_process_def split: bind_splits)
  show ?thesis
  proof (cases "ps_state s = Waiting_for_hello")
    case True
    then show ?thesis using process_hello_inv[of m s z s1 z1 r evs] q assms(2) Ev_process by simp
  next
    case False
    have "plain_inv evs s1 z \<and> z1 = z"
    proof (cases "ps_state s = Waiting_for_initiate")
      case True
      then have "z1 = z" "ps_options s1 = ps_options s" "ps_peer_address s1 = ps_peer_address s"
        using q by (auto simp: process_initiate_def ps_options_def dest: parse_metadata_options
            split: prod.splits sum.splits if_splits)
      then show ?thesis using True by (auto intro: plain_inv_state[OF assms(2)])
    next
      case f: False
      then show ?thesis using False q assms(2) by (cases "ps_state s") auto
    qed
    then show ?thesis using plain_inv_mono[of evs s1 z1 "[ev]"] Ev_process by (auto simp: plain_inv_def)
  qed
next
  case Ev_zap_available
  then have "plain_inv evs s1 z1" using assms plain_zap_available_inv
    by (auto simp: plain_event_def split: prod.splits)
  then show ?thesis using plain_inv_mono[of evs s1 z1 "[ev]"] Ev_zap_available by (simp add: plain_inv_def)
next
  case (Ev_handler fs)
  then have e: "s1 = s" "z1 = handler_sends fs z" using assms(1) by (auto simp: plain_event_def)
  have "reachable_handler z1 = reachable_handler z" by (simp add: e(2) reachable_handler_def handler_sends_def)
  moreover have "asked evs s z1" if "asked evs s z"
    by (rule asked_cong[OF that]) (auto simp: e(2) handler_sends_def)
  ultimately have "plain_inv (evs @ [ev]) s z1"
    using assms(2) zap_input_handler[of "handler_frames evs" z fs] asked_mono reply_among_append Ev_handler
    by (auto simp: plain_inv_def e(2))
  then show ?thesis by (simp add: e(1))
next
  case Ev_zap_lost
  then have e: "s1 = s" "z1 = zap_lost z" using assms(1) by (auto simp: plain_event_def)
  have "asked evs s z1" if "asked evs s z"
    by (rule asked_cong[OF that]) (auto simp: e(2) zap_lost_def)
  moreover have "reachable_handler z1 = reachable_handler z" by (simp add: e(2) reachable_handler_def zap_lost_def)
  ultimately show ?thesis using assms(2) asked_mono Ev_zap_lost by (auto simp: plain_inv_def e)
qed

lemma plain_run_inv:
  "plain_run evs (s, z) = Some (s1, z1) \<Longrightarrow> plain_inv evs0 s z \<Longrightarrow> plain_inv (evs0 @ evs) s1 z1"
proof (induction evs arbitrary: s z evs0)
  case (Cons ev evs)
  then obtain s2 z2 where "plain_event ev (s, z) = Some (s2, z2)" "plain_run evs (s2, z2) = Some (s1, z1)"
    by (auto split: bind_splits)
  then show ?case
    using Cons.IH[of s2 z2 "evs0 @ [ev]"] plain_event_inv Cons.prems(2) by fastforce
qed simp


definition hello_joe :: msg where
  "hello_joe = frame False ((5 # str ''HELLO'') @ [3] @ str ''joe'' @ [6] @ str ''secret'')"

lemma parse_hello_joe: "parse_hello (mdata hello_joe) = Inr (str ''joe'', str ''secret'')"
  by (simp add: hello_joe_def frame_def parse_hello_def Let_def)

lemma plain_run_example:
  obtains s z1 where
    "plain_run [Ev_process hello_joe, Ev_handler accepting_reply, Ev_zap_available]
       (plain_server_t default_options [], rep_session) = Some (s, z1)" "ps_state s = Sending_welcome"
proof -
  define s0 where "s0 = plain_server_t default_options []"
  define rq where "rq = first_frames rep_session @
    zap_request (ps_options s0) (ps_peer_address s0) (str ''PLAIN'') [str ''joe'', str ''secret'']"
  have s0: "ps_state s0 = Waiting_for_hello" by (simp add: s0_def plain_server_t_def)
  have 1: "plain_event (Ev_process hello_joe) (s0, rep_session) =
      Some (s0\<lparr>ps_state := Waiting_for_zap_reply\<rparr>, rep_session\<lparr>zap_pipe := Some ([], rq)\<rparr>)"
    using zap_connect_reachable[of rep_session] rep_session_reachable s0 parse_hello_joe
    by (simp add: plain_event_def plain_server_process_def process_hello_def write_frames_connected plain_receive_def
        empty_reply rq_def)
  have 2: "plain_event (Ev_handler accepting_reply)
      (s0\<lparr>ps_state := Waiting_for_zap_reply\<rparr>, rep_session\<lparr>zap_pipe := Some ([], rq)\<rparr>) =
      Some (s0\<lparr>ps_state := Waiting_for_zap_reply\<rparr>, rep_session\<lparr>zap_pipe := Some (accepting_reply, rq)\<rparr>)"
    by (simp add: plain_event_def handler_sends_def)
  obtain s3 z3 where 3: "plain_event Ev_zap_available
      (s0\<lparr>ps_state := Waiting_for_zap_reply\<rparr>, rep_session\<lparr>zap_pipe := Some (accepting_reply, rq)\<rparr>) = Some (s3, z3)"
    "ps_state s3 = Sending_welcome"
    by (auto simp: plain_event_def plain_zap_msg_available_def plain_receive_def accept_reply after_reply_def)
  show thesis by (rule that[of s3 z3]) (simp_all add: s0_def[symmetric] 1 2 3)
qed


end
