(* ===== verification/Own.thy ===== *)
theory Own
  imports Zmq_Prelude "HOL-Library.Monad_Syntax"
begin

text \<open>
  Model of \<open>src/src/own.cpp\<close>: the tree of objects (socket, sessions, listeners, connecters) in which an object
  owns those it launched, and the protocol that deallocates the tree from the leaves to the root. Objects are
  addresses; a deallocated object has no entry, and to use it (call it, send to it) is the result \<open>None\<close>, like
  a failed assertion. The commands sent to an object are processed in the order in which they were sent (they
  go through one mailbox), those of different objects in any order.
\<close>

section \<open>State\<close>

datatype own_command = Cmd_plug | Cmd_own nat | Cmd_bind | Cmd_term_req nat | Cmd_term int | Cmd_term_ack

record own_t =
  terminating :: bool
  sent_seqnum :: "32 word"
  processed_seqnum :: "64 word"
  owner :: "nat option"
  owned :: "nat set"
  term_acks :: int
  own_linger :: int

text \<open>
  The objects and their mailboxes; \<open>postponed\<close> are the sessions that have put off their termination, and
  \<open>events\<close> counts the events other than commands (terminating pipes) for which an object has registered.
\<close>

record own_sys =
  objs :: "nat \<Rightarrow> own_t option"
  inbox :: "nat \<Rightarrow> own_command list"
  next_id :: nat
  postponed :: "nat set"
  events :: "nat \<Rightarrow> nat"

definition own_new :: "int \<Rightarrow> own_t" where
  "own_new linger = \<lparr>terminating = False, sent_seqnum = 0, processed_seqnum = 0, owner = None, owned = {},
     term_acks = 0, own_linger = linger\<rparr>"

definition own_upd :: "nat \<Rightarrow> (own_t \<Rightarrow> own_t) \<Rightarrow> own_sys \<Rightarrow> own_sys option" where
  "own_upd a f s = (case objs s a of None \<Rightarrow> None | Some x \<Rightarrow> Some (s\<lparr>objs := (objs s)(a \<mapsto> f x)\<rparr>))"

definition send_command :: "nat \<Rightarrow> own_command \<Rightarrow> own_sys \<Rightarrow> own_sys option" where
  "send_command d c s = (if objs s d = None then None else Some (s\<lparr>inbox := (inbox s)(d := inbox s d @ [c])\<rparr>))"

section \<open>Operations\<close>

definition set_owner :: "nat \<Rightarrow> nat \<Rightarrow> own_sys \<Rightarrow> own_sys option" where
  "set_owner a ow s = do {
     x \<leftarrow> objs s a;
     if owner x \<noteq> None then None else own_upd a (\<lambda>x. x\<lparr>owner := Some ow\<rparr>) s }"

definition inc_seqnum :: "nat \<Rightarrow> own_sys \<Rightarrow> own_sys option" where
  "inc_seqnum a = own_upd a (\<lambda>x. x\<lparr>sent_seqnum := sent_seqnum x + 1\<rparr>)"

definition send_plug :: "nat \<Rightarrow> own_sys \<Rightarrow> own_sys option" where
  "send_plug d s = Option.bind (inc_seqnum d s) (send_command d Cmd_plug)"

definition send_own :: "nat \<Rightarrow> nat \<Rightarrow> own_sys \<Rightarrow> own_sys option" where
  "send_own d c s = Option.bind (inc_seqnum d s) (send_command d (Cmd_own c))"

definition send_bind :: "nat \<Rightarrow> own_sys \<Rightarrow> own_sys option" where
  "send_bind d s = Option.bind (inc_seqnum d s) (send_command d Cmd_bind)"

definition launch_child :: "nat \<Rightarrow> nat \<Rightarrow> own_sys \<Rightarrow> own_sys option" where
  "launch_child a c s = do {
     s1 \<leftarrow> set_owner c a s;
     s2 \<leftarrow> send_plug c s1;
     send_own a c s2 }"

definition register_term_acks :: "nat \<Rightarrow> int \<Rightarrow> own_sys \<Rightarrow> own_sys option" where
  "register_term_acks a n = own_upd a (\<lambda>x. x\<lparr>term_acks := term_acks x + n\<rparr>)"

definition process_destroy :: "nat \<Rightarrow> own_sys \<Rightarrow> own_sys" where
  "process_destroy a s = s\<lparr>objs := (objs s)(a := None)\<rparr>"

definition check_term_acks :: "nat \<Rightarrow> own_sys \<Rightarrow> own_sys option" where
  "check_term_acks a s = do {
     x \<leftarrow> objs s a;
     if terminating x \<and> processed_seqnum x = ucast (sent_seqnum x) \<and> term_acks x = 0 then
       if owned x \<noteq> {} then None
       else do {
         s1 \<leftarrow> (case owner x of None \<Rightarrow> Some s | Some ow \<Rightarrow> send_command ow Cmd_term_ack s);
         Some (process_destroy a s1) }
     else Some s }"

definition process_seqnum :: "nat \<Rightarrow> own_sys \<Rightarrow> own_sys option" where
  "process_seqnum a s =
     Option.bind (own_upd a (\<lambda>x. x\<lparr>processed_seqnum := processed_seqnum x + 1\<rparr>) s) (check_term_acks a)"

definition process_term_req :: "nat \<Rightarrow> nat \<Rightarrow> own_sys \<Rightarrow> own_sys option" where
  "process_term_req a c s = do {
     x \<leftarrow> objs s a;
     if terminating x then Some s
     else if c \<notin> owned x then Some s
     else do {
       s1 \<leftarrow> own_upd a (\<lambda>x. x\<lparr>owned := owned x - {c}\<rparr>) s;
       s2 \<leftarrow> register_term_acks a 1 s1;
       send_command c (Cmd_term (own_linger x)) s2 } }"

definition term_child :: "nat \<Rightarrow> nat \<Rightarrow> own_sys \<Rightarrow> own_sys option" where
  "term_child = process_term_req"

definition process_own :: "nat \<Rightarrow> nat \<Rightarrow> own_sys \<Rightarrow> own_sys option" where
  "process_own a c s = do {
     x \<leftarrow> objs s a;
     if terminating x then do {
       s1 \<leftarrow> register_term_acks a 1 s;
       send_command c (Cmd_term 0) s1 }
     else own_upd a (\<lambda>x. x\<lparr>owned := insert c (owned x)\<rparr>) s }"

text \<open>The loop over the owned objects sends one command to each of them.\<close>

definition send_term_all :: "nat set \<Rightarrow> int \<Rightarrow> own_sys \<Rightarrow> own_sys option" where
  "send_term_all D l s =
     (if \<exists>d\<in>D. objs s d = None then None
      else Some (s\<lparr>inbox := (\<lambda>d. if d \<in> D then inbox s d @ [Cmd_term l] else inbox s d)\<rparr>))"

definition process_term :: "nat \<Rightarrow> int \<Rightarrow> own_sys \<Rightarrow> own_sys option" where
  "process_term a l s = do {
     x \<leftarrow> objs s a;
     if terminating x then None
     else do {
       s1 \<leftarrow> send_term_all (owned x) l s;
       s2 \<leftarrow> register_term_acks a (int (card (owned x))) s1;
       s3 \<leftarrow> own_upd a (\<lambda>x. x\<lparr>owned := {}, terminating := True\<rparr>) s2;
       check_term_acks a s3 } }"

definition own_terminate :: "nat \<Rightarrow> own_sys \<Rightarrow> own_sys option" where
  "own_terminate a s = do {
     x \<leftarrow> objs s a;
     if terminating x then Some s
     else (case owner x of
             None \<Rightarrow> process_term a (own_linger x) s
           | Some ow \<Rightarrow> send_command ow (Cmd_term_req a) s) }"

definition unregister_term_ack :: "nat \<Rightarrow> own_sys \<Rightarrow> own_sys option" where
  "unregister_term_ack a s = do {
     x \<leftarrow> objs s a;
     if term_acks x \<le> 0 then None
     else Option.bind (own_upd a (\<lambda>x. x\<lparr>term_acks := term_acks x - 1\<rparr>) s) (check_term_acks a) }"

definition process_term_ack :: "nat \<Rightarrow> own_sys \<Rightarrow> own_sys option" where
  "process_term_ack = unregister_term_ack"

text \<open>The dispatch of \<open>object_t::process_command\<close>.\<close>

definition process_own_command :: "nat \<Rightarrow> own_command \<Rightarrow> own_sys \<Rightarrow> own_sys option" where
  "process_own_command a c s =
     (case c of
        Cmd_plug \<Rightarrow> process_seqnum a s
      | Cmd_own b \<Rightarrow> Option.bind (process_own a b s) (process_seqnum a)
      | Cmd_bind \<Rightarrow> process_seqnum a s
      | Cmd_term_req b \<Rightarrow> process_term_req a b s
      | Cmd_term l \<Rightarrow> process_term a l s
      | Cmd_term_ack \<Rightarrow> process_term_ack a s)"

section \<open>Runs\<close>

text \<open>
  What the objects do. A launched object is new. Others send only to objects that exist (a bind to an endpoint
  that is registered, an attach to one's owner). An event an object waits for was registered before. A session
  may postpone its termination (its pipes are emptied first) and resume it later.
\<close>

datatype own_action = A_launch nat int | A_send nat | A_terminate nat | A_term_child nat nat
  | A_register nat | A_unregister nat | A_deliver nat | A_postpone nat | A_resume nat

definition is_term :: "own_command \<Rightarrow> bool" where
  "is_term c \<longleftrightarrow> (case c of Cmd_term _ \<Rightarrow> True | _ \<Rightarrow> False)"

fun enabled :: "own_action \<Rightarrow> own_sys \<Rightarrow> bool" where
  "enabled (A_launch a l) s \<longleftrightarrow> objs s a \<noteq> None"
| "enabled (A_send d) s \<longleftrightarrow> objs s d \<noteq> None"
| "enabled (A_terminate a) s \<longleftrightarrow> objs s a \<noteq> None"
| "enabled (A_term_child a c) s \<longleftrightarrow> objs s a \<noteq> None"
| "enabled (A_register a) s \<longleftrightarrow> objs s a \<noteq> None"
| "enabled (A_unregister a) s \<longleftrightarrow> events s a > 0"
| "enabled (A_deliver a) s \<longleftrightarrow> inbox s a \<noteq> []"
| "enabled (A_postpone a) s \<longleftrightarrow> inbox s a \<noteq> [] \<and> is_term (hd (inbox s a))"
| "enabled (A_resume a) s \<longleftrightarrow> a \<in> postponed s"

text \<open>The actions that need no new request or object.\<close>

fun internal :: "own_action \<Rightarrow> bool" where
  "internal (A_unregister a) = True"
| "internal (A_deliver a) = True"
| "internal (A_postpone a) = True"
| "internal (A_resume a) = True"
| "internal _ = False"

definition pop :: "nat \<Rightarrow> own_sys \<Rightarrow> own_sys" where
  "pop a s = s\<lparr>inbox := (inbox s)(a := tl (inbox s a))\<rparr>"

fun own_exec :: "own_action \<Rightarrow> own_sys \<Rightarrow> own_sys option" where
  "own_exec (A_launch a l) s =
     (let c = next_id s in launch_child a c (s\<lparr>objs := (objs s)(c \<mapsto> own_new l), next_id := Suc c\<rparr>))"
| "own_exec (A_send d) s = send_bind d s"
| "own_exec (A_terminate a) s = own_terminate a s"
| "own_exec (A_term_child a c) s = term_child a c s"
| "own_exec (A_register a) s = register_term_acks a 1 (s\<lparr>events := (events s)(a := events s a + 1)\<rparr>)"
| "own_exec (A_unregister a) s = unregister_term_ack a (s\<lparr>events := (events s)(a := events s a - 1)\<rparr>)"
| "own_exec (A_deliver a) s = process_own_command a (hd (inbox s a)) (pop a s)"
| "own_exec (A_postpone a) s =
     (if objs s a = None \<or> a \<in> postponed s then None
      else Some (pop a (s\<lparr>postponed := insert a (postponed s)\<rparr>)))"
| "own_exec (A_resume a) s = process_term a 0 (s\<lparr>postponed := postponed s - {a}\<rparr>)"

text \<open>A socket that nobody owns, and what can become of it in a number of steps.\<close>

definition own_start :: "int \<Rightarrow> own_sys" where
  "own_start l = \<lparr>objs = [0 \<mapsto> own_new l], inbox = (\<lambda>_. []), next_id = 1, postponed = {}, events = (\<lambda>_. 0)\<rparr>"

inductive own_reachable :: "nat \<Rightarrow> own_sys \<Rightarrow> bool" where
  own_init: "own_reachable 0 (own_start l)"
| own_step: "own_reachable n s \<Longrightarrow> enabled a s \<Longrightarrow> own_exec a s = Some s' \<Longrightarrow> own_reachable (Suc n) s'"

section \<open>Invariant\<close>

definition is_own :: "nat \<Rightarrow> own_command \<Rightarrow> bool" where
  "is_own b c \<longleftrightarrow> c = Cmd_own b"

definition is_seq :: "own_command \<Rightarrow> bool" where
  "is_seq c \<longleftrightarrow> (case c of Cmd_plug \<Rightarrow> True | Cmd_own _ \<Rightarrow> True | Cmd_bind \<Rightarrow> True | _ \<Rightarrow> False)"

definition count_of :: "(own_command \<Rightarrow> bool) \<Rightarrow> own_command list \<Rightarrow> nat" where
  "count_of P cs = length (filter P cs)"

lemma count_of_simps [simp]:
  "count_of P [] = 0" "count_of P (c # cs) = (if P c then 1 else 0) + count_of P cs"
  "count_of P (cs @ ds) = count_of P cs + count_of P ds"
  by (simp_all add: count_of_def)

lemma count_of_0: "count_of P cs = 0 \<longleftrightarrow> (\<forall>c\<in>set cs. \<not> P c)"
  by (simp add: count_of_def filter_empty_conv)

lemma own_count: "count_of (is_own b) cs > 0 \<longleftrightarrow> Cmd_own b \<in> set cs"
  by (auto simp: count_of_def is_own_def filter_empty_conv)

lemma is_simps [simp]:
  "is_term Cmd_plug = False" "is_term (Cmd_own b) = False" "is_term Cmd_bind = False" "is_term (Cmd_term_req b) = False"
  "is_term (Cmd_term l)" "is_term Cmd_term_ack = False"
  "is_seq Cmd_plug" "is_seq (Cmd_own b)" "is_seq Cmd_bind" "is_seq (Cmd_term_req b) = False"
  "is_seq (Cmd_term l) = False" "is_seq Cmd_term_ack = False"
  "is_own b Cmd_plug = False" "is_own b (Cmd_own b') = (b' = b)" "is_own b Cmd_bind = False"
  "is_own b (Cmd_term_req b') = False" "is_own b (Cmd_term l) = False" "is_own b Cmd_term_ack = False"
  by (simp_all add: is_term_def is_seq_def is_own_def)

text \<open>How often an object was asked to terminate: the command is on its way, postponed or was obeyed.\<close>

definition asked_to_term :: "own_sys \<Rightarrow> nat \<Rightarrow> own_t \<Rightarrow> nat" where
  "asked_to_term s c x = count_of is_term (inbox s c) + (if c \<in> postponed s then 1 else 0) + (if terminating x then 1 else 0)"

text \<open>The children of an object whose acknowledgement it waits for.\<close>

definition awaited :: "own_sys \<Rightarrow> nat \<Rightarrow> nat set" where
  "awaited s a = {c. \<exists>x. objs s c = Some x \<and> owner x = Some a \<and> asked_to_term s c x > 0}"

definition caught_up :: "own_t \<Rightarrow> bool" where
  "caught_up x \<longleftrightarrow> processed_seqnum x = ucast (sent_seqnum x) \<and> term_acks x = 0"

text \<open>
  What holds of one object: its place in the tree; that it is owned, is about to be owned or was asked to
  terminate, exactly one of these; the acknowledgements it waits for; and its sequence numbers, where \<open>n\<close>
  bounds the number of its commands.
\<close>

definition is_child :: "own_sys \<Rightarrow> nat \<Rightarrow> nat \<Rightarrow> bool" where
  "is_child s a c \<longleftrightarrow> (\<exists>y. objs s c = Some y \<and> owner y = Some a)"

definition tree_ok :: "own_sys \<Rightarrow> nat \<Rightarrow> own_t \<Rightarrow> bool" where
  "tree_ok s a x \<longleftrightarrow>
     a < next_id s \<and> (owner x = None \<longleftrightarrow> a = 0) \<and> (terminating x \<longrightarrow> owned x = {}) \<and>
     (\<forall>c\<in>owned x. is_child s a c) \<and> (\<forall>c. Cmd_own c \<in> set (inbox s a) \<longrightarrow> is_child s a c)"

definition phase_ok :: "own_sys \<Rightarrow> nat \<Rightarrow> own_t \<Rightarrow> bool" where
  "phase_ok s a x \<longleftrightarrow>
     (case owner x of
        None \<Rightarrow> count_of is_term (inbox s a) = 0 \<and> a \<notin> postponed s
      | Some ow \<Rightarrow> ow < a \<and> (\<exists>y. objs s ow = Some y \<and>
          count_of (is_own a) (inbox s ow) + (if a \<in> owned y then 1 else 0) + asked_to_term s a x = 1))"

definition is_ack :: "own_command \<Rightarrow> bool" where
  "is_ack c \<longleftrightarrow> c = Cmd_term_ack"

lemma is_ack_simps [simp]:
  "is_ack Cmd_plug = False" "is_ack (Cmd_own b) = False" "is_ack Cmd_bind = False" "is_ack (Cmd_term_req b) = False"
  "is_ack (Cmd_term l) = False" "is_ack Cmd_term_ack"
  by (simp_all add: is_ack_def)

definition acks_ok :: "own_sys \<Rightarrow> nat \<Rightarrow> own_t \<Rightarrow> bool" where
  "acks_ok s a x \<longleftrightarrow>
     term_acks x = int (events s a) + int (count_of is_ack (inbox s a)) + int (card (awaited s a))"

definition seq_ok :: "nat \<Rightarrow> own_sys \<Rightarrow> nat \<Rightarrow> own_t \<Rightarrow> bool" where
  "seq_ok n s a x \<longleftrightarrow>
     (\<exists>p. processed_seqnum x = of_nat p \<and> sent_seqnum x = of_nat (p + count_of is_seq (inbox s a)) \<and>
        p + count_of is_seq (inbox s a) \<le> n)"

definition obj_ok :: "nat \<Rightarrow> own_sys \<Rightarrow> nat \<Rightarrow> own_t \<Rightarrow> bool" where
  "obj_ok n s a x \<longleftrightarrow> tree_ok s a x \<and> phase_ok s a x \<and> acks_ok s a x \<and> seq_ok n s a x"

definition mail_ok :: "own_sys \<Rightarrow> bool" where
  "mail_ok s \<longleftrightarrow> (\<forall>a. objs s a = None \<longrightarrow> inbox s a = [] \<and> a \<notin> postponed s \<and> events s a = 0) \<and>
     (\<forall>a xs c ys. inbox s a = xs @ Cmd_term_req c # ys \<longrightarrow>
        is_child s a c \<or> Cmd_term_ack \<in> set ys)"

definition own_inv0 :: "nat \<Rightarrow> own_sys \<Rightarrow> bool" where
  "own_inv0 n s \<longleftrightarrow> mail_ok s \<and> (\<forall>a x. objs s a = Some x \<longrightarrow> obj_ok n s a x)"

text \<open>A terminating object still has something to wait for; between calls this holds of all of them.\<close>

definition waits_except :: "own_sys \<Rightarrow> nat set \<Rightarrow> bool" where
  "waits_except s A \<longleftrightarrow> (\<forall>a x. objs s a = Some x \<longrightarrow> a \<notin> A \<longrightarrow> terminating x \<longrightarrow> \<not> caught_up x)"

definition own_inv :: "nat \<Rightarrow> own_sys \<Rightarrow> bool" where
  "own_inv n s \<longleftrightarrow> own_inv0 n s \<and> waits_except s {}"

lemma own_inv0D:
  assumes "own_inv0 n s" "objs s a = Some x"
  shows "tree_ok s a x" "phase_ok s a x" "acks_ok s a x" "seq_ok n s a x"
  using assms by (auto simp: own_inv0_def obj_ok_def)

lemma below_next: "own_inv0 n s \<Longrightarrow> objs s a = Some x \<Longrightarrow> a < next_id s"
  using own_inv0D(1) by (simp add: tree_ok_def)

lemma awaited_finite: "own_inv0 n s \<Longrightarrow> finite (awaited s a)"
  by (rule finite_subset[of _ "{..<next_id s}"]) (auto simp: awaited_def intro: below_next)

lemma owned_finite:
  assumes "own_inv0 n s" "objs s a = Some x"
  shows "finite (owned x)"
proof (rule finite_subset)
  show "owned x \<subseteq> {..<next_id s}"
    using own_inv0D(1)[OF assms] below_next[OF assms(1)] by (auto simp: tree_ok_def is_child_def)
qed simp

lemma child_phase:
  assumes "own_inv0 n s" "objs s a = Some x" "objs s c = Some y" "owner y = Some a"
  shows "count_of (is_own c) (inbox s a) + (if c \<in> owned x then 1 else 0) + asked_to_term s c y = 1" "a < c"
  using own_inv0D(2)[OF assms(1,3)] assms(2,4) by (auto simp: phase_ok_def)

lemma phase_asked:
  assumes "own_inv0 n s" "objs s c = Some y" "terminating y"
  shows "asked_to_term s c y = 1" "count_of is_term (inbox s c) = 0" "c \<notin> postponed s"
proof -
  have "phase_ok s c y" by (rule own_inv0D[OF assms(1,2)])
  moreover have "asked_to_term s c y \<ge> 1" using assms(3) by (simp add: asked_to_term_def)
  ultimately show "asked_to_term s c y = 1"
    using assms(3) by (auto simp: phase_ok_def asked_to_term_def split: option.splits)
  then show "count_of is_term (inbox s c) = 0" "c \<notin> postponed s"
    using assms(3) by (auto simp: asked_to_term_def split: if_splits)
qed

text \<open>An object that has nothing to wait for has no children and no commands left.\<close>

lemma seq_caught_up:
  assumes "seq_ok n s a x" "processed_seqnum x = ucast (sent_seqnum x)" "n < 2 ^ 32"
  shows "count_of is_seq (inbox s a) = 0"
proof -
  obtain p where p: "processed_seqnum x = of_nat p" "sent_seqnum x = of_nat (p + count_of is_seq (inbox s a))"
    "p + count_of is_seq (inbox s a) \<le> n"
    using assms(1) by (auto simp: seq_ok_def)
  have "unat (processed_seqnum x) = p" using p(1,3) assms(3) by (simp add: unat_of_nat)
  moreover have "unat (sent_seqnum x) = p + count_of is_seq (inbox s a)"
    using p(3) assms(3) unfolding p(2) unat_of_nat by simp
  moreover have "unat (ucast (sent_seqnum x) :: 64 word) = unat (sent_seqnum x)"
  proof -
    have "unat (sent_seqnum x) < 2 ^ LENGTH(32)" by (rule unsigned_less)
    then show ?thesis by (simp add: unsigned_ucast_eq take_bit_nat_eq_self)
  qed
  ultimately show ?thesis using assms(2) by simp
qed

lemma done_alone:
  assumes "own_inv0 n s" "n < 2 ^ 32" "objs s a = Some x" "terminating x" "caught_up x"
  shows "\<not> is_child s a c" "inbox s a = []" "events s a = 0" "awaited s a = {}"
proof -
  note d = own_inv0D[OF assms(1,3)]
  have sq: "count_of is_seq (inbox s a) = 0" using seq_caught_up[OF d(4) _ assms(2)] assms(5) by (simp add: caught_up_def)
  have ac: "events s a = 0" "count_of is_ack (inbox s a) = 0" "card (awaited s a) = 0"
    using d(3) assms(5) by (auto simp: acks_ok_def caught_up_def)
  show "events s a = 0" by (rule ac(1))
  show aw: "awaited s a = {}" using ac(3) awaited_finite[OF assms(1)] by simp
  have ow: "owned x = {}" using d(1) assms(4) by (simp add: tree_ok_def)
  show nc: "\<not> is_child s a c" for c
  proof
    assume "is_child s a c"
    then obtain y where y: "objs s c = Some y" "owner y = Some a" by (auto simp: is_child_def)
    have "count_of (is_own c) (inbox s a) = 0" using sq by (auto simp: count_of_0 is_own_def)
    then have "asked_to_term s c y > 0" using child_phase[OF assms(1,3) y] ow by simp
    then have "c \<in> awaited s a" using y by (auto simp: awaited_def)
    then show False using aw by simp
  qed
  show "inbox s a = []"
  proof (rule ccontr)
    assume "inbox s a \<noteq> []"
    then obtain m cs where m: "inbox s a = m # cs" by (cases "inbox s a") auto
    show False
    proof (cases m)
      case (Cmd_term_req c)
      then have "is_child s a c \<or> Cmd_term_ack \<in> set cs"
        using assms(1) m unfolding own_inv0_def mail_ok_def by (metis append_Nil)
      then show False using nc ac(2) m by (auto simp: count_of_0)
    next
      case (Cmd_term l)
      then show False using phase_asked(2)[OF assms(1,3,4)] m by simp
    qed (use sq ac(2) m in auto)
  qed
qed

text \<open>What the end of an object leaves.\<close>

lemma destroy_inv:
  assumes inv: "own_inv0 n s" and n: "n < 2 ^ 32" and a: "objs s a = Some x" "terminating x" "caught_up x"
    and s': "s' = (case owner x of None \<Rightarrow> s | Some ow \<Rightarrow> s\<lparr>inbox := (inbox s)(ow := inbox s ow @ [Cmd_term_ack])\<rparr>)
      \<lparr>objs := (objs s)(a := None)\<rparr>"
  shows "own_inv0 n s'"
proof -
  note alone = done_alone[OF inv n a]
  note pa = phase_asked[OF inv a(1,2)]
  have objs: "objs s' = (objs s)(a := None)" "next_id s' = next_id s" "postponed s' = postponed s" "events s' = events s"
    using s' by (simp_all split: option.splits)
  have box: "inbox s' b = (if owner x = Some b then inbox s b @ [Cmd_term_ack] else inbox s b)" for b
    using s' by (auto split: option.splits)
  have own: "ow \<noteq> a \<and> objs s ow \<noteq> None" if "owner x = Some ow" for ow
    using own_inv0D(2)[OF inv a(1)] that by (auto simp: phase_ok_def)
  have cnt: "count_of P (inbox s' b) = count_of P (inbox s b)" if "\<not> P Cmd_term_ack" for P b
    using that by (simp add: box)
  have ask: "asked_to_term s' b y = asked_to_term s b y" for b y
    by (simp add: asked_to_term_def cnt objs)
  have child: "is_child s' b c \<longleftrightarrow> is_child s b c \<and> c \<noteq> a" for b c
    by (auto simp: is_child_def objs)
  have aw: "awaited s' b = awaited s b - {a}" for b
    by (auto simp: awaited_def objs ask)
  have gone: "a \<notin> owned y" "Cmd_own a \<notin> set (inbox s b)" if y: "objs s b = Some y" for b y
  proof -
    show "a \<notin> owned y"
    proof
      assume "a \<in> owned y"
      then have "owner x = Some b" using own_inv0D(1)[OF inv y] a(1) by (auto simp: tree_ok_def is_child_def)
      then show False using child_phase(1)[OF inv y a(1)] pa(1) \<open>a \<in> owned y\<close> by simp
    qed
    show "Cmd_own a \<notin> set (inbox s b)"
    proof
      assume m: "Cmd_own a \<in> set (inbox s b)"
      then have "owner x = Some b" using own_inv0D(1)[OF inv y] a(1) by (auto simp: tree_ok_def is_child_def)
      then have "count_of (is_own a) (inbox s b) = 0" using child_phase(1)[OF inv y a(1)] pa(1) by simp
      then show False using m by (auto simp: count_of_0 is_own_def)
    qed
  qed
  have "obj_ok n s' b y" if y: "objs s' b = Some y" for b y
  proof -
    have b: "b \<noteq> a" "objs s b = Some y" using y by (auto simp: objs split: if_splits)
    note d = own_inv0D[OF inv b(2)]
    have "Cmd_own c \<in> set (inbox s' b) \<longleftrightarrow> Cmd_own c \<in> set (inbox s b)" for c by (simp add: box)
    moreover have "c \<noteq> a" if "c \<in> owned y \<or> Cmd_own c \<in> set (inbox s b)" for c using that gone[OF b(2)] by auto
    ultimately have "tree_ok s' b y" using d(1) unfolding tree_ok_def child objs(2) by auto
    moreover have "phase_ok s' b y"
    proof (cases "owner y")
      case None
      then show ?thesis using d(2) by (simp add: phase_ok_def cnt objs)
    next
      case (Some ow)
      then have "ow \<noteq> a" using alone(1)[of b] b(2) by (auto simp: is_child_def)
      then show ?thesis using d(2) Some by (simp add: phase_ok_def cnt objs ask)
    qed
    moreover have "acks_ok s' b y"
    proof (cases "owner x = Some b")
      case True
      have "a \<in> awaited s b" using a(1) True pa(1) by (simp add: awaited_def)
      then have "card (awaited s b) = Suc (card (awaited s' b))"
        using card_Suc_Diff1[OF awaited_finite[OF inv]] by (simp add: aw)
      then show ?thesis using d(3) True by (simp add: acks_ok_def box objs)
    next
      case False
      then have "a \<notin> awaited s b" using a(1) by (auto simp: awaited_def)
      then have "awaited s' b = awaited s b" by (simp add: aw)
      then show ?thesis using d(3) False by (simp add: acks_ok_def box objs)
    qed
    moreover have "seq_ok n s' b y" using d(4) by (simp add: seq_ok_def cnt)
    ultimately show ?thesis by (simp add: obj_ok_def)
  qed
  moreover have "mail_ok s'"
  proof -
    have m: "mail_ok s" using inv by (simp add: own_inv0_def)
    have "inbox s' b = [] \<and> b \<notin> postponed s' \<and> events s' b = 0" if "objs s' b = None" for b
      using that m alone(2,3) pa(3) own by (auto simp: mail_ok_def objs box split: if_splits)
    moreover have "is_child s' b c \<or> Cmd_term_ack \<in> set ys" if e: "inbox s' b = xs @ Cmd_term_req c # ys" for b xs c ys
    proof (cases "owner x = Some b")
      case True
      then have e1: "inbox s b @ [Cmd_term_ack] = xs @ Cmd_term_req c # ys" using e by (simp add: box)
      then show ?thesis by (cases ys rule: rev_cases) auto
    next
      case False
      then have "inbox s b = xs @ Cmd_term_req c # ys" using e by (simp add: box)
      then have "is_child s b c \<or> Cmd_term_ack \<in> set ys" using m unfolding mail_ok_def by blast
      then show ?thesis using False a(1) unfolding child by (auto simp: is_child_def)
    qed
    ultimately show ?thesis by (simp add: mail_ok_def)
  qed
  ultimately show ?thesis by (simp add: own_inv0_def)
qed

text \<open>
  The work that is left: commands other than \<open>term\<close>, events, and the phases the objects still have to go
  through.
\<close>

definition rank :: "own_sys \<Rightarrow> nat \<Rightarrow> nat" where
  "rank s a = (case objs s a of None \<Rightarrow> 0 | Some x \<Rightarrow>
     if terminating x then 2 else if a \<in> postponed s then 3 else if count_of is_term (inbox s a) > 0 then 4 else 5)"

definition load :: "own_sys \<Rightarrow> nat \<Rightarrow> nat" where
  "load s a = rank s a + count_of (\<lambda>c. \<not> is_term c) (inbox s a) + events s a"

definition work :: "own_sys \<Rightarrow> nat" where
  "work s = (\<Sum>a<next_id s. load s a)"

lemma work_less:
  assumes "next_id s' = next_id s" "a < next_id s" "load s' a < load s a" "\<And>b. b \<noteq> a \<Longrightarrow> load s' b \<le> load s b"
  shows "work s' < work s"
  unfolding work_def assms(1)
  by (rule sum_strict_mono_ex1) (use assms(2-4) in \<open>auto intro: less_imp_le\<close>, metis assms(3,4) less_imp_le)

lemma work_destroy:
  assumes inv: "own_inv0 n s" and a: "objs s a = Some x" "terminating x" "a \<notin> postponed s"
    and s': "s' = (case owner x of None \<Rightarrow> s | Some ow \<Rightarrow> s\<lparr>inbox := (inbox s)(ow := inbox s ow @ [Cmd_term_ack])\<rparr>)
      \<lparr>objs := (objs s)(a := None)\<rparr>"
  shows "work s' \<le> work s"
proof -
  have n: "next_id s' = next_id s" using s' by (simp split: option.splits)
  have an: "a < next_id s" by (rule below_next[OF inv a(1)])
  have la: "load s' a + 2 = load s a" if "owner x \<noteq> Some a"
    using a that by (auto simp: load_def rank_def s' split: option.splits)
  have lb: "load s' b = load s b + (if owner x = Some b then 1 else 0)" if "b \<noteq> a" for b
    using that by (auto simp: load_def rank_def s' split: option.splits)
  have sp: "(\<Sum>b<next_id s. f b) = f a + (\<Sum>b\<in>{..<next_id s} - {a}. f b)" for f :: "nat \<Rightarrow> nat"
    using an by (simp add: sum.remove)
  have ow: "owner x \<noteq> Some a" using own_inv0D(2)[OF inv a(1)] by (auto simp: phase_ok_def)
  have "(\<Sum>b\<in>{..<next_id s} - {a}. load s' b) =
      (\<Sum>b\<in>{..<next_id s} - {a}. load s b) + (\<Sum>b\<in>{..<next_id s} - {a}. if owner x = Some b then 1 else 0)"
    by (subst sum.distrib[symmetric]) (rule sum.cong, auto simp: lb)
  moreover have "(\<Sum>b\<in>{..<next_id s} - {a}. if owner x = Some b then 1 else 0) \<le> (1 :: nat)"
  proof (cases "owner x")
    case (Some w)
    then show ?thesis by (simp add: sum.delta)
  qed simp
  ultimately show ?thesis using la[OF ow] unfolding work_def n sp by linarith
qed

lemma check_inv:
  assumes "own_inv0 n s" "n < 2 ^ 32" "objs s a = Some x" "waits_except s {a}"
  shows "\<exists>s'. check_term_acks a s = Some s' \<and> own_inv n s' \<and> work s' \<le> work s"
proof (cases "terminating x \<and> caught_up x")
  case False
  then have "check_term_acks a s = Some s" using assms(3) by (auto simp: check_term_acks_def caught_up_def)
  moreover have "waits_except s {}"
    using False assms(3,4) unfolding waits_except_def by (metis option.inject singletonD)
  ultimately show ?thesis using assms(1) by (simp add: own_inv_def)
next
  case True
  have ow: "owned x = {}" using own_inv0D(1)[OF assms(1,3)] True by (simp add: tree_ok_def)
  have al: "objs s b \<noteq> None" if "owner x = Some b" for b
    using own_inv0D(2)[OF assms(1,3)] that by (auto simp: phase_ok_def)
  let ?s = "(case owner x of None \<Rightarrow> s | Some ow \<Rightarrow> s\<lparr>inbox := (inbox s)(ow := inbox s ow @ [Cmd_term_ack])\<rparr>)
      \<lparr>objs := (objs s)(a := None)\<rparr>"
  have "check_term_acks a s = Some ?s"
    using True ow al assms(3)
    by (auto simp: check_term_acks_def caught_up_def send_command_def process_destroy_def split: option.splits)
  moreover have "own_inv0 n ?s" by (rule destroy_inv[OF assms(1-3) _ _ refl]) (use True in auto)
  moreover have "work ?s \<le> work s"
    by (rule work_destroy[OF assms(1,3) _ _ refl]) (use True phase_asked[OF assms(1,3)] in auto)
  moreover have "waits_except ?s {}" using assms(4) by (auto simp: waits_except_def split: if_splits option.splits)
  ultimately show ?thesis by (simp add: own_inv_def)
qed

text \<open>
  What a handler of \<open>a\<close> does before it checks for the end: it takes a command from the mailbox, changes its
  own object, and asks the children \<open>D\<close> to terminate.
\<close>

lemma local_inv:
  assumes inv: "own_inv0 n s" and a: "objs s a = Some x"
    and objs: "objs s' = (objs s)(a \<mapsto> x')" "next_id s' = next_id s"
    and box: "\<And>b. inbox s' b = (if b = a then I' else if b \<in> D then inbox s b @ [Cmd_term l] else inbox s b)"
    and rest: "\<And>b. b \<noteq> a \<Longrightarrow> (b \<in> postponed s') = (b \<in> postponed s) \<and> events s' b = events s b"
    and ow: "owner x' = owner x" and te: "terminating x' \<Longrightarrow> owned x' = {}"
    and D: "finite D" "\<And>c. c \<in> D \<Longrightarrow> is_child s a c"
    and move: "\<And>c. count_of (is_own c) I' + (if c \<in> owned x' then 1 else 0) + (if c \<in> D then 1 else 0) =
      count_of (is_own c) (inbox s a) + (if c \<in> owned x then 1 else 0)"
    and ask: "owner x \<noteq> None \<Longrightarrow>
      count_of is_term I' + (if a \<in> postponed s' then 1 else 0) + (if terminating x' then 1 else 0) = asked_to_term s a x"
    and root: "owner x = None \<Longrightarrow> count_of is_term I' = 0 \<and> a \<notin> postponed s'"
    and acks: "term_acks x' - term_acks x = int (events s' a) - int (events s a) + int (count_of is_ack I') -
      int (count_of is_ack (inbox s a)) + int (card D)"
    and seq: "processed_seqnum x' = processed_seqnum x + of_nat k" "count_of is_seq I' + k = count_of is_seq (inbox s a)"
      "sent_seqnum x' = sent_seqnum x"
    and suf: "inbox s a = pre @ I'"
  shows "own_inv0 n s'"
proof -
  have child: "is_child s' b c = is_child s b c" for b c
    using a ow by (auto simp: is_child_def objs)
  have Da: "a \<notin> D" "a < c" if "c \<in> D" for c
  proof -
    show "a < c" using D(2)[OF that] child_phase(2)[OF inv a] by (auto simp: is_child_def)
    have "owner x \<noteq> Some a" using own_inv0D(2)[OF inv a] by (auto simp: phase_ok_def)
    then show "a \<notin> D" using D(2)[of a] a by (auto simp: is_child_def)
  qed
  have cnt: "count_of P (inbox s' b) = count_of P (inbox s b)" if "b \<noteq> a" "\<not> P (Cmd_term l)" for P b
    using that by (simp add: box)
  have ask_a: "asked_to_term s' a x' = asked_to_term s a x" if "owner x \<noteq> None"
    using ask[OF that] by (simp add: asked_to_term_def box)
  have ask_b: "asked_to_term s' b y = asked_to_term s b y + (if b \<in> D then 1 else 0)" if "b \<noteq> a" for b y
    using that rest by (simp add: asked_to_term_def box)
  have D_new: "asked_to_term s c y = 0" if "c \<in> D" "objs s c = Some y" for c y
    using move[of c] child_phase(1)[OF inv a that(2)] D(2)[OF that(1)] that by (auto simp: is_child_def split: if_splits)
  have aw_a: "awaited s' a = awaited s a \<union> D"
  proof -
    have "c \<in> awaited s' a \<longleftrightarrow> c \<in> awaited s a \<or> c \<in> D" for c
    proof (cases "c = a")
      case True
      then show ?thesis using a ow Da own_inv0D(2)[OF inv a] by (auto simp: awaited_def objs phase_ok_def)
    next
      case False
      then show ?thesis using D(2)[of c] by (auto simp: awaited_def objs ask_b is_child_def)
    qed
    then show ?thesis by auto
  qed
  have aw_disj: "awaited s a \<inter> D = {}" using D_new by (auto simp: awaited_def)
  have aw_b: "awaited s' b = awaited s b" if "b \<noteq> a" for b
  proof -
    have "c \<in> awaited s' b \<longleftrightarrow> c \<in> awaited s b" for c
    proof (cases "c = a")
      case True
      then show ?thesis using a ow ask_a by (auto simp: awaited_def objs)
    next
      case False
      then show ?thesis using D(2)[of c] that by (auto simp: awaited_def objs ask_b is_child_def)
    qed
    then show ?thesis by auto
  qed
  have "obj_ok n s' a x'"
  proof -
    note d = own_inv0D[OF inv a]
    have "is_child s a c" if c: "c \<in> owned x' \<or> Cmd_own c \<in> set I'" for c
    proof -
      have "count_of (is_own c) (inbox s a) + (if c \<in> owned x then 1 else 0) > 0"
        using c move[of c] own_count[of c I'] by auto
      then have "c \<in> owned x \<or> Cmd_own c \<in> set (inbox s a)"
        using own_count[of c "inbox s a"] by (auto split: if_splits)
      then show ?thesis using d(1) by (auto simp: tree_ok_def)
    qed
    then have "tree_ok s' a x'" using d(1) te ow by (auto simp: tree_ok_def child box objs)
    moreover have "phase_ok s' a x'"
    proof (cases "owner x")
      case None
      then show ?thesis using root ow by (simp add: phase_ok_def box)
    next
      case (Some w)
      then have "w < a" using d(2) by (simp add: phase_ok_def)
      then have "w \<notin> D" "w \<noteq> a" using Da(2) by fastforce+
      then show ?thesis using d(2) Some ow ask_a by (simp add: phase_ok_def objs box)
    qed
    moreover have "acks_ok s' a x'"
      using d(3) acks card_Un_disjoint[OF awaited_finite[OF inv] D(1) aw_disj] by (simp add: acks_ok_def aw_a box)
    moreover have "seq_ok n s' a x'"
    proof -
      obtain p where p: "processed_seqnum x = of_nat p" "sent_seqnum x = of_nat (p + count_of is_seq (inbox s a))"
        "p + count_of is_seq (inbox s a) \<le> n" using d(4) by (auto simp: seq_ok_def)
      have e: "p + count_of is_seq (inbox s a) = (p + k) + count_of is_seq (inbox s' a)" using seq(2) by (simp add: box)
      show ?thesis unfolding seq_ok_def
      proof (intro exI conjI)
        show "processed_seqnum x' = of_nat (p + k)" using p(1) seq(1) by simp
        show "sent_seqnum x' = of_nat (p + k + count_of is_seq (inbox s' a))" using p(2) seq(3) e by simp
        show "p + k + count_of is_seq (inbox s' a) \<le> n" using p(3) e by simp
      qed
    qed
    ultimately show ?thesis by (simp add: obj_ok_def)
  qed
  moreover have "obj_ok n s' b y" if b: "b \<noteq> a" "objs s b = Some y" for b y
  proof -
    note d = own_inv0D[OF inv b(2)]
    have "tree_ok s' b y" using d(1) b by (auto simp: tree_ok_def child box objs)
    moreover have "phase_ok s' b y"
    proof (cases "owner y")
      case None
      then have "b \<notin> D" using D(2)[of b] b by (auto simp: is_child_def)
      then show ?thesis using d(2) None b rest by (simp add: phase_ok_def box)
    next
      case (Some w)
      show ?thesis
      proof (cases "w = a")
        case True
        then have "count_of (is_own b) I' + (if b \<in> owned x' then 1 else 0) + asked_to_term s' b y = 1"
          using child_phase(1)[OF inv a b(2)] Some move[of b] ask_b[OF b(1)] by simp
        then show ?thesis using d(2) Some True by (simp add: phase_ok_def objs box)
      next
        case False
        then have "b \<notin> D" using D(2)[of b] b Some by (auto simp: is_child_def)
        then show ?thesis using d(2) Some False b by (simp add: phase_ok_def objs cnt ask_b)
      qed
    qed
    moreover have "acks_ok s' b y" using d(3) b rest by (simp add: acks_ok_def aw_b cnt)
    moreover have "seq_ok n s' b y" using d(4) b by (simp add: seq_ok_def cnt)
    ultimately show ?thesis by (simp add: obj_ok_def)
  qed
  moreover have "mail_ok s'"
  proof -
    have m: "mail_ok s" using inv by (simp add: own_inv0_def)
    have "inbox s' b = [] \<and> b \<notin> postponed s' \<and> events s' b = 0" if "objs s' b = None" for b
    proof -
      have b: "b \<noteq> a" "objs s b = None" using that by (auto simp: objs split: if_splits)
      then have "b \<notin> D" using D(2)[of b] by (auto simp: is_child_def)
      then show ?thesis using m b rest by (simp add: mail_ok_def box)
    qed
    moreover have "is_child s' b c \<or> Cmd_term_ack \<in> set ys" if e: "inbox s' b = xs @ Cmd_term_req c # ys" for b xs c ys
    proof (cases "b = a")
      case True
      then have "inbox s a = (pre @ xs) @ Cmd_term_req c # ys" using e suf by (simp add: box)
      then show ?thesis using m True unfolding mail_ok_def child by blast
    next
      case False
      then obtain zs where "inbox s b = xs @ Cmd_term_req c # zs" "set zs \<subseteq> set ys"
        using e by (cases ys rule: rev_cases) (auto simp: box split: if_splits)
      then show ?thesis using m unfolding mail_ok_def child by blast
    qed
    ultimately show ?thesis by (simp add: mail_ok_def)
  qed
  ultimately show ?thesis by (auto simp: own_inv0_def objs split: if_splits)
qed

text \<open>Asking children costs nothing, if the object itself gets ahead.\<close>

lemma local_work:
  assumes inv: "own_inv0 n s" and a: "objs s a = Some x"
    and objs: "objs s' = (objs s)(a \<mapsto> x')" "next_id s' = next_id s"
    and box: "\<And>b. inbox s' b = (if b = a then I' else if b \<in> D then inbox s b @ [Cmd_term l] else inbox s b)"
    and rest: "\<And>b. b \<noteq> a \<Longrightarrow> (b \<in> postponed s') = (b \<in> postponed s) \<and> events s' b = events s b"
    and D: "\<And>c. c \<in> D \<Longrightarrow> is_child s a c \<and> (c \<in> owned x \<or> Cmd_own c \<in> set (inbox s a))"
    and less: "load s' a < load s a"
  shows "work s' < work s"
proof (rule work_less[OF objs(2) below_next[OF inv a] less])
  fix b assume b: "b \<noteq> a"
  show "load s' b \<le> load s b"
  proof (cases "b \<in> D")
    case False
    then show ?thesis using b rest by (simp add: load_def rank_def objs box)
  next
    case True
    then obtain y where y: "objs s b = Some y" "owner y = Some a" using D by (auto simp: is_child_def)
    have "asked_to_term s b y = 0"
      using child_phase(1)[OF inv a y] D[OF True] own_count[of b "inbox s a"] by (auto split: if_splits)
    then have "load s b = 5 + count_of (\<lambda>c. \<not> is_term c) (inbox s b) + events s b"
      using y by (auto simp: load_def rank_def asked_to_term_def split: if_splits)
    then show ?thesis using b y rest True by (simp add: load_def rank_def objs box)
  qed
qed

section \<open>The handlers keep the invariant\<close>

lemma alive_if:
  assumes "own_inv0 n s" "inbox s a \<noteq> [] \<or> a \<in> postponed s \<or> events s a > 0"
  obtains x where "objs s a = Some x"
  using assms unfolding own_inv0_def mail_ok_def by (metis not_None_eq not_gr_zero)

lemma inv_waits: "own_inv n s \<Longrightarrow> waits_except s A"
  by (auto simp: own_inv_def waits_except_def)

lemma waits_upd: "waits_except s A \<Longrightarrow> objs s' = (objs s)(a \<mapsto> x') \<Longrightarrow> waits_except s' (insert a A)"
  by (auto simp: waits_except_def)

lemma process_term_eq:
  assumes "objs t a = Some x" "\<not> terminating x" "\<And>c. c \<in> owned x \<Longrightarrow> objs t c \<noteq> None"
  shows "process_term a l t = check_term_acks a (t\<lparr>
     inbox := (\<lambda>d. if d \<in> owned x then inbox t d @ [Cmd_term l] else inbox t d),
     objs := (objs t)(a \<mapsto> x\<lparr>term_acks := term_acks x + int (card (owned x)), owned := {}, terminating := True\<rparr>)\<rparr>)"
proof -
  have "(\<exists>c\<in>owned x. objs t c = None) = False" using assms(3) by blast
  then have "send_term_all (owned x) l t = Some (t\<lparr>inbox := (\<lambda>d. if d \<in> owned x then inbox t d @ [Cmd_term l] else inbox t d)\<rparr>)"
    by (simp only: send_term_all_def if_False)
  then show ?thesis using assms(1,2)
    by (simp add: process_term_def register_term_acks_def own_upd_def)
qed

lemma process_term_inv:
  assumes inv: "own_inv n s" and n: "n < 2 ^ 32" and a: "objs s a = Some x" "\<not> terminating x"
    and t: "objs t = objs s" "next_id t = next_id s" "inbox t = (inbox s)(a := I')"
      "\<And>b. b \<noteq> a \<Longrightarrow> (b \<in> postponed t) = (b \<in> postponed s)" "events t = events s"
    and I': "\<And>c. count_of (is_own c) I' = count_of (is_own c) (inbox s a)" "count_of is_ack I' = count_of is_ack (inbox s a)"
      "count_of is_seq I' = count_of is_seq (inbox s a)" "inbox s a = pre @ I'"
    and nt: "count_of (\<lambda>c. \<not> is_term c) I' = count_of (\<lambda>c. \<not> is_term c) (inbox s a)"
    and ask: "owner x \<noteq> None \<Longrightarrow> count_of is_term I' + (if a \<in> postponed t then 1 else 0) + 1 = asked_to_term s a x"
    and root: "owner x = None \<Longrightarrow> count_of is_term I' = 0 \<and> a \<notin> postponed t"
  shows "\<exists>s'. process_term a l t = Some s' \<and> own_inv n s' \<and> work s' < work s"
proof -
  have i0: "own_inv0 n s" using inv by (simp add: own_inv_def)
  have ch: "is_child s a c" if "c \<in> owned x" for c using own_inv0D(1)[OF i0 a(1)] that by (simp add: tree_ok_def)
  have a_own: "a \<notin> owned x" using ch[of a] child_phase(2)[OF i0 a(1)] by (auto simp: is_child_def)
  let ?x = "x\<lparr>term_acks := term_acks x + int (card (owned x)), owned := {}, terminating := True\<rparr>"
  let ?s = "t\<lparr>inbox := (\<lambda>d. if d \<in> owned x then inbox t d @ [Cmd_term l] else inbox t d), objs := (objs t)(a \<mapsto> ?x)\<rparr>"
  have e: "process_term a l t = check_term_acks a ?s"
    by (rule process_term_eq) (use a ch in \<open>auto simp: t(1) is_child_def\<close>)
  have "own_inv0 n ?s"
    by (rule local_inv[OF i0 a(1), where x' = "?x" and D = "owned x" and I' = I' and l = l and k = 0 and pre = pre])
      (use t I' ask root ch a_own owned_finite[OF i0 a(1)] in auto)
  moreover have "work ?s < work s"
    by (rule local_work[OF i0 a(1), where x' = "?x" and D = "owned x" and I' = I' and l = l])
      (use t ch a_own a nt in \<open>auto simp: load_def rank_def\<close>)
  moreover have "waits_except ?s {a}"
    using waits_upd[OF inv_waits[OF inv, of "{}"], of ?s a ?x] t(1) by simp
  ultimately show ?thesis unfolding e using check_inv[OF _ n, of ?s a ?x] by fastforce
qed

lemma seqnum_inv:
  assumes inv: "own_inv n s" and n: "n < 2 ^ 32" and a: "objs s a = Some x" and m: "inbox s a = c # cs" "is_seq c"
    and "\<And>b. c \<noteq> Cmd_own b"
  shows "\<exists>s'. process_seqnum a (pop a s) = Some s' \<and> own_inv n s' \<and> work s' < work s"
proof -
  have i0: "own_inv0 n s" using inv by (simp add: own_inv_def)
  let ?x = "x\<lparr>processed_seqnum := processed_seqnum x + 1\<rparr>"
  let ?s = "(pop a s)\<lparr>objs := (objs s)(a \<mapsto> ?x)\<rparr>"
  have e: "process_seqnum a (pop a s) = check_term_acks a ?s"
    using a by (simp add: process_seqnum_def own_upd_def pop_def)
  have c: "\<not> is_ack c" "\<not> is_term c" "\<And>b. \<not> is_own b c" using assms(5,6) by (cases c; simp add: is_own_def)+
  have "own_inv0 n ?s"
    by (rule local_inv[OF i0 a, where x' = "?x" and D = "{}" and I' = cs and k = 1 and pre = "[c]"])
      (use m c own_inv0D(1,2)[OF i0 a] in \<open>auto simp: pop_def asked_to_term_def tree_ok_def phase_ok_def\<close>)
  moreover have "work ?s < work s"
    by (rule local_work[OF i0 a, where x' = "?x" and D = "{}" and I' = cs])
      (use m c a in \<open>auto simp: pop_def load_def rank_def\<close>)
  moreover have "waits_except ?s {a}" using waits_upd[OF inv_waits[OF inv, of "{}"], of ?s a ?x] by simp
  ultimately show ?thesis unfolding e using check_inv[OF _ n, of ?s a ?x] by fastforce
qed

lemma process_own_inv:
  assumes inv: "own_inv n s" and n: "n < 2 ^ 32" and a: "objs s a = Some x" and m: "inbox s a = Cmd_own c # cs"
  shows "\<exists>s'. process_own_command a (Cmd_own c) (pop a s) = Some s' \<and> own_inv n s' \<and> work s' < work s"
proof -
  have i0: "own_inv0 n s" using inv by (simp add: own_inv_def)
  have ch: "is_child s a c" using own_inv0D(1)[OF i0 a] m by (simp add: tree_ok_def)
  then obtain y where y: "objs s c = Some y" "owner y = Some a" by (auto simp: is_child_def)
  have c: "c \<noteq> a" "c \<notin> owned x" using child_phase[OF i0 a y] m by (auto split: if_splits)
  have ph: "owner x \<noteq> None \<or> count_of is_term cs = 0 \<and> a \<notin> postponed s"
    using own_inv0D(2)[OF i0 a] m by (auto simp: phase_ok_def)
  show ?thesis
  proof (cases "terminating x")
    case True
    then have ow: "owned x = {}" using own_inv0D(1)[OF i0 a] by (simp add: tree_ok_def)
    let ?x = "x\<lparr>term_acks := term_acks x + 1, processed_seqnum := processed_seqnum x + 1\<rparr>"
    let ?s = "s\<lparr>inbox := (inbox s)(a := cs, c := inbox s c @ [Cmd_term 0]), objs := (objs s)(a \<mapsto> ?x)\<rparr>"
    have e: "process_own_command a (Cmd_own c) (pop a s) = check_term_acks a ?s"
      using a True y c m by (simp add: process_own_command_def process_own_def register_term_acks_def own_upd_def
          send_command_def process_seqnum_def pop_def fun_upd_twist)
    have "own_inv0 n ?s"
      by (rule local_inv[OF i0 a, where x' = "?x" and D = "{c}" and I' = cs and k = 1 and pre = "[Cmd_own c]" and l = 0])
        (use m c ch ow ph in \<open>auto simp: asked_to_term_def\<close>)
    moreover have "work ?s < work s"
      by (rule local_work[OF i0 a, where x' = "?x" and D = "{c}" and I' = cs and l = 0])
        (use m c ch a in \<open>auto simp: load_def rank_def\<close>)
    moreover have "waits_except ?s {a}" using waits_upd[OF inv_waits[OF inv, of "{}"], of ?s a ?x] by simp
    ultimately show ?thesis unfolding e using check_inv[OF _ n, of ?s a ?x] by fastforce
  next
    case False
    let ?x = "x\<lparr>owned := insert c (owned x), processed_seqnum := processed_seqnum x + 1\<rparr>"
    let ?s = "s\<lparr>inbox := (inbox s)(a := cs), objs := (objs s)(a \<mapsto> ?x)\<rparr>"
    have e: "process_own_command a (Cmd_own c) (pop a s) = check_term_acks a ?s"
      using a False m by (simp add: process_own_command_def process_own_def own_upd_def process_seqnum_def pop_def)
    have "own_inv0 n ?s"
      by (rule local_inv[OF i0 a, where x' = "?x" and D = "{}" and I' = cs and k = 1 and pre = "[Cmd_own c]"])
        (use m c ph False in \<open>auto simp: asked_to_term_def\<close>)
    moreover have "work ?s < work s"
      by (rule local_work[OF i0 a, where x' = "?x" and D = "{}" and I' = cs])
        (use m a in \<open>auto simp: load_def rank_def\<close>)
    moreover have "waits_except ?s {a}" using waits_upd[OF inv_waits[OF inv, of "{}"], of ?s a ?x] by simp
    ultimately show ?thesis unfolding e using check_inv[OF _ n, of ?s a ?x] by fastforce
  qed
qed

lemma own_inv_waits:
  assumes "own_inv0 n s'" "own_inv n s" "objs s' = (objs s)(a \<mapsto> x')" "terminating x' \<Longrightarrow> \<not> caught_up x'"
  shows "own_inv n s'"
  using assms by (auto simp: own_inv_def waits_except_def split: if_splits)

text \<open>A request, from the mailbox (\<open>I'\<close> is its rest) or by a call.\<close>

lemma process_term_req_inv:
  assumes inv: "own_inv n s" and a: "objs s a = Some x"
    and t: "t = s\<lparr>inbox := (inbox s)(a := I')\<rparr>" and m: "inbox s a = I' \<or> inbox s a = Cmd_term_req c # I'"
  shows "\<exists>s'. process_term_req a c t = Some s' \<and> own_inv n s' \<and> (inbox s a = I' \<or> work s' < work s)"
proof -
  have i0: "own_inv0 n s" using inv by (simp add: own_inv_def)
  have cnt: "count_of is_term I' = count_of is_term (inbox s a)" "count_of is_ack I' = count_of is_ack (inbox s a)"
    "count_of is_seq I' = count_of is_seq (inbox s a)" "count_of (is_own b) I' = count_of (is_own b) (inbox s a)" for b
    using m by auto
  obtain pre where pre: "inbox s a = pre @ I'" using m by auto
  have ph: "owner x \<noteq> None \<or> count_of is_term I' = 0 \<and> a \<notin> postponed s"
    using own_inv0D(2)[OF i0 a] cnt by (auto simp: phase_ok_def)
  show ?thesis
  proof (cases "terminating x \<or> c \<notin> owned x")
    case True
    have e: "process_term_req a c t = Some t" using True a by (auto simp: process_term_req_def t)
    have "own_inv0 n t"
      by (rule local_inv[OF i0 a, where x' = x and D = "{}" and I' = I' and k = 0 and pre = pre])
        (use cnt ph pre a own_inv0D(1)[OF i0 a] in \<open>auto simp: t asked_to_term_def tree_ok_def\<close>)
    then have "own_inv n t" using inv by (auto simp: own_inv_def waits_except_def t)
    moreover have "work t < work s" if "inbox s a \<noteq> I'"
      by (rule local_work[OF i0 a, where x' = x and D = "{}" and I' = I'])
        (use m a that in \<open>auto simp: t load_def rank_def\<close>)
    ultimately show ?thesis using e by blast
  next
    case False
    have ch: "is_child s a c" using own_inv0D(1)[OF i0 a] False by (simp add: tree_ok_def)
    then obtain y where y: "objs s c = Some y" "owner y = Some a" by (auto simp: is_child_def)
    have c: "c \<noteq> a" using child_phase(2)[OF i0 a y] by simp
    let ?x = "x\<lparr>owned := owned x - {c}, term_acks := term_acks x + 1\<rparr>"
    let ?s = "s\<lparr>inbox := (inbox s)(a := I', c := inbox s c @ [Cmd_term (own_linger x)]), objs := (objs s)(a \<mapsto> ?x)\<rparr>"
    have e: "process_term_req a c t = Some ?s"
      using a y c False by (simp add: process_term_req_def register_term_acks_def own_upd_def send_command_def t)
    have "own_inv0 n ?s"
      by (rule local_inv[OF i0 a, where x' = ?x and D = "{c}" and I' = I' and k = 0 and pre = pre and l = "own_linger x"])
        (use cnt ph pre c ch False in \<open>auto simp: asked_to_term_def\<close>)
    moreover have "work ?s < work s" if "inbox s a \<noteq> I'"
      by (rule local_work[OF i0 a, where x' = ?x and D = "{c}" and I' = I' and l = "own_linger x"])
        (use m a c ch False that in \<open>auto simp: load_def rank_def\<close>)
    ultimately show ?thesis using e own_inv_waits[OF _ inv, of ?s a ?x] False by auto
  qed
qed

lemma unregister_inv:
  assumes inv: "own_inv n s" and n: "n < 2 ^ 32" and a: "objs s a = Some x"
    and t: "objs t = objs s" "next_id t = next_id s" "postponed t = postponed s" "inbox t = (inbox s)(a := I')"
      "\<And>b. b \<noteq> a \<Longrightarrow> events t b = events s b"
    and m: "inbox s a = I' \<and> events s a = Suc (events t a) \<or> inbox s a = Cmd_term_ack # I' \<and> events s a = events t a"
  shows "\<exists>s'. unregister_term_ack a t = Some s' \<and> own_inv n s' \<and> work s' < work s"
proof -
  have i0: "own_inv0 n s" using inv by (simp add: own_inv_def)
  have cnt: "count_of is_term I' = count_of is_term (inbox s a)"
    "count_of is_seq I' = count_of is_seq (inbox s a)" "count_of (is_own b) I' = count_of (is_own b) (inbox s a)"
    "events s a + count_of is_ack (inbox s a) = Suc (events t a + count_of is_ack I')" for b
    using m by auto
  obtain pre where pre: "inbox s a = pre @ I'" using m by auto
  have ph: "owner x \<noteq> None \<or> count_of is_term I' = 0 \<and> a \<notin> postponed s"
    using own_inv0D(2)[OF i0 a] cnt by (auto simp: phase_ok_def)
  have pos: "term_acks x > 0" using own_inv0D(3)[OF i0 a] cnt(4) by (simp add: acks_ok_def)
  let ?x = "x\<lparr>term_acks := term_acks x - 1\<rparr>"
  let ?s = "t\<lparr>objs := (objs s)(a \<mapsto> ?x)\<rparr>"
  have e: "unregister_term_ack a t = check_term_acks a ?s"
    using a pos by (simp add: unregister_term_ack_def own_upd_def t)
  have "own_inv0 n ?s"
    by (rule local_inv[OF i0 a, where x' = ?x and D = "{}" and I' = I' and k = 0 and pre = pre])
      (use cnt ph pre t own_inv0D(1)[OF i0 a] in \<open>auto simp: asked_to_term_def tree_ok_def\<close>)
  moreover have "work ?s < work s"
    by (rule local_work[OF i0 a, where x' = ?x and D = "{}" and I' = I'])
      (use m a t in \<open>auto simp: load_def rank_def\<close>)
  moreover have "waits_except ?s {a}" using waits_upd[OF inv_waits[OF inv, of "{}"], of ?s a ?x] by simp
  ultimately show ?thesis unfolding e using check_inv[OF _ n, of ?s a ?x] by fastforce
qed

lemma register_inv:
  assumes inv: "own_inv n s" and a: "objs s a = Some x"
  shows "\<exists>s'. own_exec (A_register a) s = Some s' \<and> own_inv n s'"
proof -
  have i0: "own_inv0 n s" using inv by (simp add: own_inv_def)
  let ?x = "x\<lparr>term_acks := term_acks x + 1\<rparr>"
  let ?s = "s\<lparr>events := (events s)(a := events s a + 1), objs := (objs s)(a \<mapsto> ?x)\<rparr>"
  have e: "own_exec (A_register a) s = Some ?s" using a by (simp add: register_term_acks_def own_upd_def)
  have ph: "owner x \<noteq> None \<or> count_of is_term (inbox s a) = 0 \<and> a \<notin> postponed s"
    using own_inv0D(2)[OF i0 a] by (auto simp: phase_ok_def)
  have "own_inv0 n ?s"
    by (rule local_inv[OF i0 a, where x' = ?x and D = "{}" and I' = "inbox s a" and k = 0 and pre = "[]"])
      (use ph own_inv0D(1)[OF i0 a] in \<open>auto simp: asked_to_term_def tree_ok_def\<close>)
  moreover have "\<not> caught_up ?x" using own_inv0D(3)[OF i0 a] by (simp add: caught_up_def acks_ok_def)
  ultimately show ?thesis using e own_inv_waits[OF _ inv, of ?s a ?x] by auto
qed

lemma postpone_inv:
  assumes inv: "own_inv n s" and m: "inbox s a = Cmd_term l # cs"
  shows "\<exists>s'. own_exec (A_postpone a) s = Some s' \<and> own_inv n s' \<and> work s' < work s"
proof -
  have i0: "own_inv0 n s" using inv by (simp add: own_inv_def)
  obtain x where a: "objs s a = Some x" using alive_if[OF i0, of a] m by auto
  have ph: "owner x \<noteq> None" "asked_to_term s a x = 1"
    using own_inv0D(2)[OF i0 a] m by (auto simp: phase_ok_def asked_to_term_def split: option.splits)
  then have np: "a \<notin> postponed s" "\<not> terminating x" "count_of is_term cs = 0"
    using m by (auto simp: asked_to_term_def split: if_splits)
  let ?s = "pop a (s\<lparr>postponed := insert a (postponed s)\<rparr>)"
  have "own_inv0 n ?s"
    by (rule local_inv[OF i0 a, where x' = x and D = "{}" and I' = cs and k = 0 and pre = "[Cmd_term l]"])
      (use m ph np a in \<open>auto simp: pop_def\<close>)
  then have "own_inv n ?s" using inv by (auto simp: own_inv_def waits_except_def pop_def)
  moreover have "work ?s < work s"
    by (rule local_work[OF i0 a, where x' = x and D = "{}" and I' = cs])
      (use m a np in \<open>auto simp: pop_def load_def rank_def\<close>)
  ultimately show ?thesis using a np(1) by auto
qed

text \<open>A command that neither asks to terminate nor acknowledges, sent to a live object.\<close>

lemma append_inv:
  assumes inv: "own_inv n s" and n: "n + k < 2 ^ 32" and d: "objs s d = Some x"
    and s': "objs s' = (objs s)(d \<mapsto> x\<lparr>sent_seqnum := sent_seqnum x + of_nat k\<rparr>)" "next_id s' = next_id s"
      "inbox s' = (inbox s)(d := inbox s d @ [c])" "postponed s' = postponed s" "events s' = events s"
    and c: "\<not> is_term c" "\<not> is_ack c" "\<And>b. \<not> is_own b c" "count_of is_seq [c] = k" "\<And>b. c = Cmd_term_req b \<Longrightarrow> is_child s d b"
  shows "own_inv (n + k) s'"
proof -
  have i0: "own_inv0 n s" using inv by (simp add: own_inv_def)
  let ?x = "x\<lparr>sent_seqnum := sent_seqnum x + of_nat k\<rparr>"
  have child: "is_child s' b e = is_child s b e" for b e using d by (auto simp: is_child_def s'(1))
  have cnt: "count_of is_term (inbox s' b) = count_of is_term (inbox s b)" "count_of is_ack (inbox s' b) = count_of is_ack (inbox s b)"
    "count_of (is_own e) (inbox s' b) = count_of (is_own e) (inbox s b)" for b e
    using c by (auto simp: s'(3))
  have own: "Cmd_own e \<in> set (inbox s' b) \<longleftrightarrow> Cmd_own e \<in> set (inbox s b)" for b e
    using cnt(3)[of e b] own_count[of e] by metis
  have ask: "asked_to_term s' b y = asked_to_term s b z" if "terminating y = terminating z" for b y z
    using that by (simp add: asked_to_term_def cnt s'(4))
  have aw: "awaited s' b = awaited s b" for b
    using d by (auto simp: awaited_def s'(1,4) asked_to_term_def cnt split: if_splits)
  have ok: "obj_ok (n + k) s' b y'" if y': "objs s' b = Some y'" for b y'
  proof -
    obtain y where y: "objs s b = Some y" "owner y' = owner y" "owned y' = owned y" "terminating y' = terminating y"
      "term_acks y' = term_acks y" "processed_seqnum y' = processed_seqnum y"
      "sent_seqnum y' = sent_seqnum y + (if b = d then of_nat k else 0)"
      using y' d by (auto simp: s'(1) split: if_splits)
    note g = own_inv0D[OF i0 y(1)]
    have "tree_ok s' b y'" using g(1) y by (simp add: tree_ok_def child own s'(2))
    moreover have "phase_ok s' b y'"
    proof (cases "owner y")
      case None
      then show ?thesis using g(2) y by (simp add: phase_ok_def cnt s'(4))
    next
      case (Some w)
      then obtain z where z: "objs s w = Some z" "w < b"
        "count_of (is_own b) (inbox s w) + (if b \<in> owned z then 1 else 0) + asked_to_term s b y = 1"
        using g(2) by (auto simp: phase_ok_def)
      obtain z' where "objs s' w = Some z'" "owned z' = owned z" using z(1) d by (cases "w = d") (auto simp: s'(1))
      then show ?thesis using Some z(2,3) y(2,4) by (simp add: phase_ok_def cnt ask[of y' y])
    qed
    moreover have "acks_ok s' b y'" using g(3) y by (simp add: acks_ok_def cnt aw s'(5))
    moreover have "seq_ok (n + k) s' b y'"
    proof -
      obtain p where p: "processed_seqnum y = of_nat p" "sent_seqnum y = of_nat (p + count_of is_seq (inbox s b))"
        "p + count_of is_seq (inbox s b) \<le> n" using g(4) by (auto simp: seq_ok_def)
      then show ?thesis using y c(4) by (auto simp: seq_ok_def s'(3) intro!: exI[of _ p])
    qed
    ultimately show ?thesis by (simp add: obj_ok_def)
  qed
  have mail: "mail_ok s'"
  proof -
    have m: "mail_ok s" using i0 by (simp add: own_inv0_def)
    have "inbox s' b = [] \<and> b \<notin> postponed s' \<and> events s' b = 0" if "objs s' b = None" for b
      using that m by (auto simp: mail_ok_def s' split: if_splits)
    moreover have "is_child s' b e \<or> Cmd_term_ack \<in> set ys" if q: "inbox s' b = xs @ Cmd_term_req e # ys" for b xs e ys
    proof (cases "b = d \<and> ys = []")
      case True
      then show ?thesis using q c(5) child by (auto simp: s'(3))
    next
      case False
      then obtain zs where "inbox s b = xs @ Cmd_term_req e # zs" "set zs \<subseteq> set ys"
        using q by (cases ys rule: rev_cases) (auto simp: s'(3) split: if_splits)
      then show ?thesis using m unfolding mail_ok_def child by blast
    qed
    ultimately show ?thesis by (simp add: mail_ok_def)
  qed
  have "waits_except s' {}"
  proof -
    have "\<not> caught_up ?x" if "terminating x"
    proof
      assume u: "caught_up ?x"
      have nc: "\<not> caught_up x" using inv d that by (auto simp: own_inv_def waits_except_def)
      show False
      proof (cases "k = 0")
        case True
        then show False using u nc by (simp add: caught_up_def)
      next
        case False
        have "seq_ok (n + k) s' d ?x" using ok[of d ?x] by (simp add: s'(1) obj_ok_def)
        then have "count_of is_seq (inbox s' d) = 0"
          using seq_caught_up[OF _ _ n] u by (simp add: caught_up_def)
        then show False using False c(4) by (simp add: s'(3) split: if_splits)
      qed
    qed
    then show ?thesis using inv by (auto simp: own_inv_def waits_except_def s'(1) split: if_splits)
  qed
  then show ?thesis using ok mail by (auto simp: own_inv_def own_inv0_def)
qed

lemma own_inv_mono: "own_inv n s \<Longrightarrow> n \<le> m \<Longrightarrow> own_inv m s"
  unfolding own_inv_def own_inv0_def obj_ok_def seq_ok_def by (meson le_trans)

lemma send_bind_inv:
  assumes inv: "own_inv n s" and n: "Suc n < 2 ^ 32" and d: "objs s d = Some x"
  shows "\<exists>s'. send_bind d s = Some s' \<and> own_inv (Suc n) s'"
proof -
  let ?s = "s\<lparr>objs := (objs s)(d \<mapsto> x\<lparr>sent_seqnum := sent_seqnum x + 1\<rparr>), inbox := (inbox s)(d := inbox s d @ [Cmd_bind])\<rparr>"
  have "send_bind d s = Some ?s" using d by (simp add: send_bind_def inc_seqnum_def own_upd_def send_command_def)
  moreover have "own_inv (n + 1) ?s"
    by (rule append_inv[OF inv _ d, where c = Cmd_bind]) (use n in auto)
  ultimately show ?thesis by simp
qed

lemma own_terminate_inv:
  assumes inv: "own_inv n s" and n: "n < 2 ^ 32" and a: "objs s a = Some x"
  shows "\<exists>s'. own_terminate a s = Some s' \<and> own_inv n s'"
proof -
  have i0: "own_inv0 n s" using inv by (simp add: own_inv_def)
  note g = own_inv0D[OF i0 a]
  consider "terminating x" | "\<not> terminating x" "owner x = None" | w where "\<not> terminating x" "owner x = Some w" by fastforce
  then show ?thesis
  proof cases
    case 1
    then show ?thesis using a inv by (simp add: own_terminate_def)
  next
    case 2
    then have "\<exists>s'. process_term a (own_linger x) s = Some s' \<and> own_inv n s' \<and> work s' < work s"
      by (intro process_term_inv[OF inv n a, where I' = "inbox s a" and pre = "[]"])
        (use g(2) in \<open>auto simp: phase_ok_def\<close>)
    then show ?thesis using 2 a by (auto simp: own_terminate_def)
  next
    case 3
    then obtain y where y: "objs s w = Some y" using g(2) by (auto simp: phase_ok_def)
    let ?s = "s\<lparr>inbox := (inbox s)(w := inbox s w @ [Cmd_term_req a])\<rparr>"
    have "own_terminate a s = Some ?s" using a 3 y by (simp add: own_terminate_def send_command_def)
    moreover have "own_inv (n + 0) ?s"
      by (rule append_inv[OF inv _ y, where c = "Cmd_term_req a"])
        (use n a 3 y in \<open>auto simp: is_child_def fun_upd_idem_iff\<close>)
    ultimately show ?thesis by simp
  qed
qed

lemma launch_inv:
  assumes inv: "own_inv n s" and n: "Suc n < 2 ^ 32" and a: "objs s a = Some x"
  shows "\<exists>s'. own_exec (A_launch a l) s = Some s' \<and> own_inv (Suc n) s'"
proof -
  have i0: "own_inv0 n s" using inv by (simp add: own_inv_def)
  define c where "c = next_id s"
  let ?x = "x\<lparr>sent_seqnum := sent_seqnum x + 1\<rparr>" and ?y = "(own_new l)\<lparr>owner := Some a, sent_seqnum := 1\<rparr>"
  let ?s = "s\<lparr>next_id := Suc c, objs := (objs s)(c \<mapsto> ?y, a \<mapsto> ?x),
    inbox := (inbox s)(c := [Cmd_plug], a := inbox s a @ [Cmd_own c])\<rparr>"
  have m: "mail_ok s" using i0 by (simp add: own_inv0_def)
  have lt: "b < c" if "objs s b = Some y" for b y using below_next[OF i0 that] by (simp add: c_def)
  then have c: "objs s c = None" "c \<noteq> a" using a by (metis less_irrefl not_None_eq, metis a less_irrefl)
  have new: "inbox s c = []" "c \<notin> postponed s" "events s c = 0" using m c(1) by (auto simp: mail_ok_def)
  have "own_exec (A_launch a l) s = Some ?s"
    using a c new(1) by (simp add: c_def[symmetric] Let_def launch_child_def set_owner_def own_upd_def send_plug_def send_own_def
        inc_seqnum_def send_command_def own_new_def fun_upd_twist)
  moreover have "own_inv (Suc n) ?s"
  proof -
    have child: "is_child ?s b e \<longleftrightarrow> is_child s b e \<or> b = a \<and> e = c" for b e
      using a c by (auto simp: is_child_def)
    have cnt: "count_of P (inbox ?s b) = count_of P (inbox s b)" if "b \<noteq> c" "\<not> P (Cmd_own c)" for P b
      using that by simp
    have ask: "asked_to_term ?s b y = asked_to_term s b z" if "b \<noteq> c" "terminating y = terminating z" for b y z
      using that by (simp add: asked_to_term_def)
    have ask_c: "asked_to_term ?s c ?y = 0" using new c by (simp add: asked_to_term_def own_new_def)
    have aw: "awaited ?s b = awaited s b" for b
    proof -
      have "e \<in> awaited ?s b \<longleftrightarrow> e \<in> awaited s b" for e
        using a c ask_c ask[of e] by (cases "e = c") (auto simp: awaited_def asked_to_term_def split: if_splits)
      then show ?thesis by auto
    qed
    have aw_c: "awaited s c = {}"
    proof -
      have "owner y \<noteq> Some c" if "objs s e = Some y" for e y
        using own_inv0D(2)[OF i0 that] lt[OF that] by (auto simp: phase_ok_def)
      then show ?thesis by (auto simp: awaited_def)
    qed
    have no_own: "c \<notin> owned y" "Cmd_own c \<notin> set (inbox s b)" if "objs s b = Some y" for b y
      using own_inv0D(1)[OF i0 that] c(1) by (auto simp: tree_ok_def is_child_def)
    have new_ok: "obj_ok (Suc n) ?s c ?y"
    proof -
      have "tree_ok ?s c ?y" using c lt[OF a] by (auto simp: tree_ok_def own_new_def)
      moreover have "phase_ok ?s c ?y"
        using c lt[OF a] no_own[OF a] ask_c own_count[of c "inbox s a"] by (auto simp: phase_ok_def own_new_def)
      moreover have "acks_ok ?s c ?y" using c new aw_c by (simp add: acks_ok_def aw) (simp add: own_new_def)
      moreover have "seq_ok (Suc n) ?s c ?y" using c by (auto simp: seq_ok_def own_new_def intro!: exI[of _ 0])
      ultimately show ?thesis by (simp add: obj_ok_def)
    qed
    have old: "obj_ok (Suc n) ?s b y'" if y': "objs ?s b = Some y'" "b \<noteq> c" for b y'
    proof -
      obtain y where y: "objs s b = Some y" "owner y' = owner y" "owned y' = owned y" "terminating y' = terminating y"
        "term_acks y' = term_acks y" "processed_seqnum y' = processed_seqnum y"
        "sent_seqnum y' = sent_seqnum y + (if b = a then 1 else 0)"
        using y' a by (auto split: if_splits)
      note g = own_inv0D[OF i0 y(1)]
      have "tree_ok ?s b y'" using g(1) y y'(2) child lt[OF y(1)] by (auto simp: tree_ok_def)
      moreover have "phase_ok ?s b y'"
      proof (cases "owner y")
        case None
        then show ?thesis using g(2) y y'(2) by (auto simp: phase_ok_def)
      next
        case (Some w)
        then obtain z where z: "objs s w = Some z" "w < b"
          "count_of (is_own b) (inbox s w) + (if b \<in> owned z then 1 else 0) + asked_to_term s b y = 1"
          using g(2) by (auto simp: phase_ok_def)
        then have wc: "w \<noteq> c" using c(1) by auto
        obtain z' where "objs ?s w = Some z'" "owned z' = owned z" using z(1) a wc by (cases "w = a") auto
        then show ?thesis using Some z(2,3) y(2,4) y'(2) wc
          by (auto simp: phase_ok_def cnt ask[of b y' y] own_count)
      qed
      moreover have "acks_ok ?s b y'" using g(3) y y'(2) by (simp add: acks_ok_def aw)
      moreover have "seq_ok (Suc n) ?s b y'"
      proof -
        obtain p where p: "processed_seqnum y = of_nat p" "sent_seqnum y = of_nat (p + count_of is_seq (inbox s b))"
          "p + count_of is_seq (inbox s b) \<le> n" using g(4) by (auto simp: seq_ok_def)
        then show ?thesis using y y'(2) by (auto simp: seq_ok_def intro!: exI[of _ p])
      qed
      ultimately show ?thesis by (simp add: obj_ok_def)
    qed
    have mail: "mail_ok ?s"
    proof -
      have "inbox ?s b = [] \<and> b \<notin> postponed ?s \<and> events ?s b = 0" if "objs ?s b = None" for b
        using that m by (auto simp: mail_ok_def split: if_splits)
      moreover have "is_child ?s b e \<or> Cmd_term_ack \<in> set ys" if q: "inbox ?s b = xs @ Cmd_term_req e # ys" for b xs e ys
      proof (cases "b = c")
        case True
        then show ?thesis using q c(2) by (auto simp: Cons_eq_append_conv)
      next
        case False
        then obtain zs where "inbox s b = xs @ Cmd_term_req e # zs" "set zs \<subseteq> set ys"
          using q by (cases ys rule: rev_cases) (auto split: if_splits)
        then show ?thesis using m unfolding mail_ok_def child by blast
      qed
      ultimately show ?thesis by (simp add: mail_ok_def)
    qed
    have waits: "waits_except ?s {}"
    proof -
      have "\<not> caught_up ?x"
      proof
        assume u: "caught_up ?x"
        have q: "seq_ok (Suc n) ?s a ?x" using old[of a ?x] c(2) by (simp add: obj_ok_def)
        have "processed_seqnum ?x = ucast (sent_seqnum ?x)" using u by (simp add: caught_up_def)
        from seq_caught_up[OF q this n] have "count_of is_seq (inbox ?s a) = 0" .
        then show False by simp
      qed
      then show ?thesis using inv by (auto simp: own_inv_def waits_except_def own_new_def split: if_splits)
    qed
    have "obj_ok (Suc n) ?s b y'" if b: "objs ?s b = Some y'" for b y'
    proof (cases "b = c")
      case True
      then have "y' = ?y" using b c(2) by simp
      then show ?thesis using new_ok True by (simp only:)
    next
      case False
      then show ?thesis by (rule old[OF b])
    qed
    then show ?thesis using mail waits unfolding own_inv_def own_inv0_def by (intro conjI allI impI)
  qed
  ultimately show ?thesis by blast
qed

section \<open>Safety\<close>

lemma deliver_inv:
  assumes inv: "own_inv n s" and n: "n < 2 ^ 32" and e: "inbox s a = c # cs"
  shows "\<exists>s'. process_own_command a c (pop a s) = Some s' \<and> own_inv n s' \<and> work s' < work s"
proof -
  have i0: "own_inv0 n s" using inv by (simp add: own_inv_def)
  obtain x where a: "objs s a = Some x" using alive_if[OF i0, of a] e by auto
  note g = own_inv0D[OF i0 a]
  have p: "pop a s = s\<lparr>inbox := (inbox s)(a := cs)\<rparr>" using e by (simp add: pop_def)
  show ?thesis
  proof (cases c)
    case Cmd_plug
    then show ?thesis using seqnum_inv[OF inv n a e] by (simp add: process_own_command_def)
  next
    case (Cmd_own b)
    then show ?thesis using process_own_inv[OF inv n a] e by simp
  next
    case Cmd_bind
    then show ?thesis using seqnum_inv[OF inv n a e] by (simp add: process_own_command_def)
  next
    case (Cmd_term_req b)
    then show ?thesis using process_term_req_inv[OF inv a p, of b] e by (simp add: process_own_command_def)
  next
    case (Cmd_term l)
    have ow: "owner x \<noteq> None" and one: "asked_to_term s a x = 1"
      using g(2) e Cmd_term by (auto simp: phase_ok_def asked_to_term_def split: option.splits)
    then have nt: "\<not> terminating x" "a \<notin> postponed s" "count_of is_term cs = 0"
      using e Cmd_term by (auto simp: asked_to_term_def split: if_splits)
    have "\<exists>s'. process_term a l (pop a s) = Some s' \<and> own_inv n s' \<and> work s' < work s"
      by (rule process_term_inv[OF inv n a nt(1), where I' = cs and pre = "[Cmd_term l]"])
        (use e Cmd_term ow one nt in \<open>auto simp: p\<close>)
    then show ?thesis using Cmd_term by (simp add: process_own_command_def)
  next
    case Cmd_term_ack
    then show ?thesis using unregister_inv[OF inv n a, of "pop a s" cs] e
      by (simp add: process_own_command_def process_term_ack_def p)
  qed
qed

lemma own_exec_inv:
  assumes inv: "own_inv n s" and n: "Suc n < 2 ^ 32" and en: "enabled act s"
  shows "\<exists>s'. own_exec act s = Some s' \<and> own_inv (Suc n) s' \<and> (internal act \<longrightarrow> own_inv n s' \<and> work s' < work s)"
proof -
  have i0: "own_inv0 n s" using inv by (simp add: own_inv_def)
  have n': "n < 2 ^ 32" using n by simp
  have lift: "\<exists>s'. r = Some s' \<and> own_inv (Suc n) s' \<and> (internal act \<longrightarrow> own_inv n s' \<and> work s' < work s)"
    if "\<exists>s'. r = Some s' \<and> own_inv n s' \<and> work s' < work s" for r
    using that own_inv_mono by fastforce
  have lift': "\<exists>s'. r = Some s' \<and> own_inv (Suc n) s' \<and> (internal act \<longrightarrow> own_inv n s' \<and> work s' < work s)"
    if "\<exists>s'. r = Some s' \<and> own_inv n s' \<and> P s'" "\<not> internal act" for r P
    using that own_inv_mono by fastforce
  show ?thesis
  proof (cases act)
    case (A_launch a l)
    then obtain x where "objs s a = Some x" using en by auto
    then show ?thesis using launch_inv[OF inv n, of a x l] A_launch by auto
  next
    case (A_send d)
    then obtain x where "objs s d = Some x" using en by auto
    then show ?thesis using send_bind_inv[OF inv n] A_send by auto
  next
    case (A_terminate a)
    then obtain x where "objs s a = Some x" using en by auto
    then show ?thesis using lift'[of _ "\<lambda>_. True"] own_terminate_inv[OF inv n'] A_terminate by auto
  next
    case (A_term_child a c)
    then obtain x where "objs s a = Some x" using en by auto
    then show ?thesis using lift'[OF process_term_req_inv[OF inv, of a x s "inbox s a" c]] A_term_child
      by (simp add: term_child_def)
  next
    case (A_register a)
    then obtain x where "objs s a = Some x" using en by auto
    then show ?thesis using lift'[of _ "\<lambda>_. True"] register_inv[OF inv] A_register by auto
  next
    case (A_unregister a)
    then obtain x where "objs s a = Some x" using en alive_if[OF i0, of a] by auto
    then show ?thesis
      using lift[OF unregister_inv[OF inv n', of a x "s\<lparr>events := (events s)(a := events s a - 1)\<rparr>" "inbox s a"]] en A_unregister
      by simp
  next
    case (A_deliver a)
    then obtain c cs where "inbox s a = c # cs" using en by (cases "inbox s a") auto
    then show ?thesis using lift[OF deliver_inv[OF inv n']] A_deliver by simp
  next
    case (A_postpone a)
    then obtain l cs where "inbox s a = Cmd_term l # cs" using en by (cases "inbox s a") (auto simp: is_term_def split: own_command.splits)
    then show ?thesis using lift[OF postpone_inv[OF inv]] A_postpone by simp
  next
    case (A_resume a)
    then obtain x where a: "objs s a = Some x" using en alive_if[OF i0, of a] by auto
    have ow: "owner x \<noteq> None" and one: "asked_to_term s a x = 1"
      using own_inv0D(2)[OF i0 a] en A_resume by (auto simp: phase_ok_def asked_to_term_def split: option.splits)
    then have nt: "\<not> terminating x" "count_of is_term (inbox s a) = 0"
      using en A_resume by (auto simp: asked_to_term_def split: if_splits)
    have "\<exists>s'. process_term a 0 (s\<lparr>postponed := postponed s - {a}\<rparr>) = Some s' \<and> own_inv n s' \<and> work s' < work s"
      by (rule process_term_inv[OF inv n' a nt(1), where I' = "inbox s a" and pre = "[]"])
        (use ow one nt en A_resume in \<open>auto\<close>)
    then show ?thesis using lift A_resume by simp
  qed
qed

lemma own_start_inv: "own_inv 0 (own_start l)"
  by (auto simp: own_inv_def own_inv0_def waits_except_def mail_ok_def obj_ok_def tree_ok_def phase_ok_def acks_ok_def
      seq_ok_def own_start_def own_new_def awaited_def is_child_def split: if_splits intro!: exI[of _ 0])

lemma own_reachable_inv: "own_reachable n s \<Longrightarrow> n < 2 ^ 32 \<Longrightarrow> own_inv n s"
proof (induction rule: own_reachable.induct)
  case (own_init l)
  then show ?case by (simp add: own_start_inv)
next
  case (own_step n s a s')
  then show ?case using own_exec_inv[of n s a] by force
qed

text \<open>
  Claim C32. The termination protocol is safe: in a tree that grew from a socket by any number of steps below
  \<open>2\<close> to the power of 32 (launches, commands from outside, requests to terminate at any object, commands processed
  in any order between objects, postponed terminations) every further call and every command that is processed
  returns: no assertion of \<open>own.cpp\<close> fails (no object is terminated twice, none is deallocated while it owns
  another, no acknowledgement is one too many), and nothing is sent to or done with a deallocated object. Every
  object that has commands in its mailbox exists.
\<close>

theorem own_protocol_safe:
  assumes "own_reachable n s" "Suc n < 2 ^ 32" "enabled act s"
  shows "own_exec act s \<noteq> None \<and> (\<forall>a. inbox s a \<noteq> [] \<longrightarrow> objs s a \<noteq> None)"
proof -
  have inv: "own_inv n s" using own_reachable_inv[OF assms(1)] assms(2) by simp
  then have "inbox s a \<noteq> [] \<longrightarrow> objs s a \<noteq> None" for a by (auto simp: own_inv_def own_inv0_def mail_ok_def)
  then show ?thesis using own_exec_inv[OF inv assms(2,3)] by auto
qed

text \<open>A run: the session at 1 asks to be terminated while its owner is, with commands on their way.\<close>

fun own_run :: "own_action list \<Rightarrow> own_sys \<Rightarrow> own_sys option" where
  "own_run [] s = Some s"
| "own_run (act # acts) s = (if enabled act s then Option.bind (own_exec act s) (own_run acts) else None)"

lemma own_run_reachable:
  "own_run acts s = Some s' \<Longrightarrow> own_reachable n s \<Longrightarrow> own_reachable (n + length acts) s'"
proof (induction acts arbitrary: s n)
  case (Cons act acts)
  then obtain t where t: "enabled act s" "own_exec act s = Some t" "own_run acts t = Some s'"
    by (auto split: if_splits bind_splits)
  then show ?case using Cons.IH[OF t(3) own_step[OF Cons.prems(2) t(1,2)]] by simp
qed simp

definition own_example :: "own_action list" where
  "own_example = [A_launch 0 100, A_terminate 1, A_send 1, A_terminate 0, A_deliver 0]"

lemma own_example_runs:
  "\<exists>s. own_run own_example (own_start 0) = Some s \<and> enabled (A_deliver 1) s \<and> internal (A_deliver 1) \<and>
     (\<exists>x. objs s 0 = Some x \<and> terminating x) \<and> objs s 1 \<noteq> None"
  by (simp add: own_example_def own_start_def launch_child_def set_owner_def own_upd_def send_plug_def send_own_def
      inc_seqnum_def send_command_def own_new_def own_terminate_def send_bind_def process_term_def send_term_all_def
      register_term_acks_def check_term_acks_def pop_def process_own_command_def process_own_def process_seqnum_def)

theorem own_protocol_safe_witness:
  "\<exists>s. own_run own_example (own_start 0) = Some s \<and>
     own_exec (A_deliver 1) s \<noteq> None \<and> (\<forall>a. inbox s a \<noteq> [] \<longrightarrow> objs s a \<noteq> None)"
proof -
  obtain s where s: "own_run own_example (own_start 0) = Some s" "enabled (A_deliver 1) s" using own_example_runs by blast
  have "own_reachable (0 + length own_example) s" by (rule own_run_reachable[OF s(1) own_init])
  then show ?thesis using own_protocol_safe[of "length own_example" s "A_deliver 1"] s by (auto simp: own_example_def)
qed

section \<open>Completion\<close>

definition root_term :: "own_sys \<Rightarrow> bool" where
  "root_term s \<longleftrightarrow> (\<forall>x. objs s 0 = Some x \<longrightarrow> terminating x)"

lemma root_upd:
  "own_upd a f s = Some s' \<Longrightarrow> root_term s \<Longrightarrow> (\<And>x. terminating x \<Longrightarrow> terminating (f x)) \<Longrightarrow> root_term s'"
  by (auto simp: own_upd_def root_term_def split: option.splits if_splits)

lemma root_send: "send_command d c s = Some s' \<Longrightarrow> root_term s \<Longrightarrow> root_term s'"
  by (auto simp: send_command_def root_term_def split: if_splits)

lemma root_check: "check_term_acks a s = Some s' \<Longrightarrow> root_term s \<Longrightarrow> root_term s'"
  by (auto simp: check_term_acks_def process_destroy_def send_command_def root_term_def split: bind_splits if_splits option.splits)

lemma root_process_term: "process_term a l s = Some s' \<Longrightarrow> root_term s \<Longrightarrow> root_term s'"
  by (auto simp: process_term_def send_term_all_def register_term_acks_def root_term_def
      dest!: root_check root_upd split: bind_splits if_splits)

lemma root_seqnum: "process_seqnum a s = Some s' \<Longrightarrow> root_term s \<Longrightarrow> root_term s'"
  by (auto simp: process_seqnum_def split: bind_splits elim!: root_check root_upd)

lemma root_unregister: "unregister_term_ack a s = Some s' \<Longrightarrow> root_term s \<Longrightarrow> root_term s'"
  by (auto simp: unregister_term_ack_def split: bind_splits if_splits elim!: root_check root_upd)

lemma root_command:
  assumes "process_own_command a c s = Some s'" "root_term s"
  shows "root_term s'"
proof (cases c)
  case (Cmd_own b)
  then obtain t where t: "process_own a b s = Some t" "process_seqnum a t = Some s'"
    using assms(1) by (auto simp: process_own_command_def split: bind_splits)
  have "root_term t" using t(1) assms(2)
    by (auto simp: process_own_def register_term_acks_def split: bind_splits if_splits elim!: root_send root_upd)
  then show ?thesis using t(2) by (rule root_seqnum[rotated])
next
  case (Cmd_term_req b)
  then show ?thesis using assms
    by (auto simp: process_own_command_def process_term_req_def register_term_acks_def split: bind_splits if_splits
        elim!: root_send root_upd)
next
  case (Cmd_term l)
  then show ?thesis using assms root_process_term by (simp add: process_own_command_def)
next
  case Cmd_term_ack
  then show ?thesis using assms root_unregister by (simp add: process_own_command_def process_term_ack_def)
qed (use assms root_seqnum in \<open>auto simp: process_own_command_def\<close>)

lemma root_internal:
  assumes "own_exec act s = Some s'" "internal act" "root_term s"
  shows "root_term s'"
proof (cases act)
  case (A_deliver a)
  then show ?thesis using assms root_command[of a _ "pop a s"] by (simp add: root_term_def pop_def)
next
  case (A_unregister a)
  then show ?thesis using assms root_unregister[of a "s\<lparr>events := (events s)(a := events s a - 1)\<rparr>"]
    by (simp add: root_term_def)
next
  case (A_resume a)
  then show ?thesis using assms root_process_term[of a 0 "s\<lparr>postponed := postponed s - {a}\<rparr>"] by (simp add: root_term_def)
next
  case (A_postpone a)
  then show ?thesis using assms by (auto simp: root_term_def pop_def split: if_splits)
qed (use assms in auto)

lemma idle_terminating:
  assumes inv: "own_inv n s" and n: "n < 2 ^ 32"
    and idle: "\<And>a. inbox s a = []" "postponed s = {}" "\<And>a. events s a = 0"
  shows "objs s a = Some x \<Longrightarrow> \<not> terminating x"
proof (induction "next_id s - a" arbitrary: a x rule: less_induct)
  case less
  have i0: "own_inv0 n s" using inv by (simp add: own_inv_def)
  note g = own_inv0D[OF i0 less.prems]
  show ?case
  proof
    assume t: "terminating x"
    then have nc: "\<not> caught_up x" using inv less.prems by (auto simp: own_inv_def waits_except_def)
    obtain p where p: "processed_seqnum x = of_nat p" "sent_seqnum x = of_nat p" "p \<le> n"
      using g(4) idle(1) by (auto simp: seq_ok_def)
    have "unat (ucast (of_nat p :: 32 word) :: 64 word) = p"
      using p(3) n by (simp add: unsigned_ucast_eq unat_of_nat take_bit_nat_eq_self)
    then have "ucast (sent_seqnum x) = processed_seqnum x"
      unfolding p(1,2) by (intro unat_eqI) (use p(3) n in \<open>simp add: unat_of_nat\<close>)
    then have "term_acks x \<noteq> 0" using nc by (simp add: caught_up_def)
    then have "awaited s a \<noteq> {}" using g(3) idle by (auto simp: acks_ok_def)
    then obtain c y where c: "objs s c = Some y" "owner y = Some a" "asked_to_term s c y > 0"
      by (auto simp: awaited_def)
    then have "terminating y" using idle by (simp add: asked_to_term_def split: if_splits)
    moreover have "a < c" using own_inv0D(2)[OF i0 c(1)] c(2) by (simp add: phase_ok_def)
    moreover have "c < next_id s" by (rule below_next[OF i0 c(1)])
    ultimately show False using less.hyps[OF _ c(1)] by simp
  qed
qed

lemma alive_root:
  assumes i0: "own_inv0 n s"
  shows "objs s a = Some x \<Longrightarrow> objs s 0 \<noteq> None"
proof (induction a arbitrary: x rule: less_induct)
  case (less a)
  show ?case
  proof (cases "owner x")
    case None
    then have "a = 0" using own_inv0D(1)[OF i0 less.prems] by (simp add: tree_ok_def)
    then show ?thesis using less.prems by simp
  next
    case (Some w)
    then obtain y where "w < a" "objs s w = Some y" using own_inv0D(2)[OF i0 less.prems] by (auto simp: phase_ok_def)
    then show ?thesis by (rule less.IH)
  qed
qed

lemma idle_all_gone:
  assumes inv: "own_inv n s" and n: "n < 2 ^ 32" and root: "root_term s"
    and stuck: "\<And>act. internal act \<Longrightarrow> \<not> enabled act s"
  shows "objs s a = None"
proof (rule ccontr)
  assume "objs s a \<noteq> None"
  then obtain x where "objs s a = Some x" by auto
  then obtain r where r: "objs s 0 = Some r" using alive_root inv unfolding own_inv_def by blast
  have "inbox s b = []" "events s b = 0" "b \<notin> postponed s" for b
    using stuck[of "A_deliver b"] stuck[of "A_unregister b"] stuck[of "A_resume b"] by auto
  then have "\<not> terminating r" using idle_terminating[OF inv n _ _ _ r] by blast
  then show False using root r by (simp add: root_term_def)
qed

lemma own_run_internal:
  "own_run acts s = Some s' \<Longrightarrow> own_inv n s \<Longrightarrow> Suc n < 2 ^ 32 \<Longrightarrow> root_term s \<Longrightarrow> (\<forall>act\<in>set acts. internal act) \<Longrightarrow>
    length acts + work s' \<le> work s \<and> own_inv n s' \<and> root_term s'"
proof (induction acts arbitrary: s)
  case (Cons act acts)
  then obtain t where t: "enabled act s" "own_exec act s = Some t" "own_run acts t = Some s'"
    by (auto split: if_splits bind_splits)
  have i: "internal act" using Cons.prems(5) by simp
  have "own_inv n t" "work t < work s" using own_exec_inv[OF Cons.prems(2,3) t(1)] t(2) i by auto
  moreover have "root_term t" by (rule root_internal[OF t(2) i Cons.prems(4)])
  ultimately show ?case using Cons.IH[OF t(3)] Cons.prems(3,5) by fastforce
qed simp

text \<open>
  Claim C33. Once the socket at the root terminates, the tree is taken down: whatever was going on, every run of
  the commands that are on their way, the events that are waited for and the terminations that were postponed
  is of at most \<open>work s\<close> steps, and when none of these is left every object has been deallocated.
\<close>

theorem own_shutdown_completes:
  assumes "own_reachable n s" "Suc n < 2 ^ 32" "objs s 0 = Some x" "terminating x"
    and "own_run acts s = Some s'" "\<forall>act\<in>set acts. internal act"
  shows "length acts \<le> work s \<and> ((\<forall>act. internal act \<longrightarrow> \<not> enabled act s') \<longrightarrow> (\<forall>a. objs s' a = None))"
proof -
  have inv: "own_inv n s" using own_reachable_inv[OF assms(1)] assms(2) by simp
  have root: "root_term s" using assms(3,4) by (simp add: root_term_def)
  have r: "length acts + work s' \<le> work s \<and> own_inv n s' \<and> root_term s'"
    by (rule own_run_internal[OF assms(5) inv assms(2) root assms(6)])
  have "n < 2 ^ 32" using assms(2) by simp
  then have "objs s' a = None" if "\<forall>act. internal act \<longrightarrow> \<not> enabled act s'" for a
    using idle_all_gone[of n s' a] r that by blast
  then show ?thesis using r by auto
qed

definition own_example_end :: "own_action list" where
  "own_example_end = [A_deliver 0, A_deliver 1, A_deliver 1, A_deliver 1, A_deliver 0]"

lemma own_example_ends:
  "\<exists>s s'. own_run own_example (own_start 0) = Some s \<and> (\<exists>x. objs s 0 = Some x \<and> terminating x) \<and>
     own_run own_example_end s = Some s'"
  by (simp add: own_example_def own_example_end_def own_start_def launch_child_def set_owner_def own_upd_def send_plug_def
      send_own_def inc_seqnum_def send_command_def own_new_def own_terminate_def send_bind_def process_term_def send_term_all_def
      register_term_acks_def check_term_acks_def pop_def process_own_command_def process_own_def process_seqnum_def
      process_term_req_def process_term_ack_def unregister_term_ack_def process_destroy_def)

theorem own_shutdown_completes_witness:
  "\<exists>s s'. own_run own_example (own_start 0) = Some s \<and> own_run own_example_end s = Some s' \<and>
     length own_example_end \<le> work s \<and>
     ((\<forall>act. internal act \<longrightarrow> \<not> enabled act s') \<longrightarrow> (\<forall>a. objs s' a = None))"
proof -
  obtain s x s' where s: "own_run own_example (own_start 0) = Some s" "objs s 0 = Some x" "terminating x"
    "own_run own_example_end s = Some s'"
    using own_example_ends by blast
  have "own_reachable (0 + length own_example) s" by (rule own_run_reachable[OF s(1) own_init])
  from own_shutdown_completes[OF this _ s(2,3,4)] show ?thesis using s
    by (auto simp: own_example_def own_example_end_def)
qed

text \<open>
  \<open>sent_seqnum\<close> has 32 bits, \<open>processed_seqnum\<close> 64: an object that has processed \<open>2\<close> to the power of 32 commands never
  catches up.
\<close>

lemma own_seqnum_wraps:
  assumes "processed_seqnum x = of_nat p" "sent_seqnum x = of_nat p" "2 ^ 32 \<le> p" "p < 2 ^ 64"
  shows "\<not> caught_up x"
proof
  assume "caught_up x"
  then have "unat (processed_seqnum x) = unat (ucast (sent_seqnum x) :: 64 word)" by (simp add: caught_up_def)
  moreover have "unat (ucast (sent_seqnum x) :: 64 word) < 2 ^ 32"
  proof -
    have "unat (sent_seqnum x) < 2 ^ LENGTH(32)" by (rule unsigned_less)
    then show ?thesis by (simp add: unsigned_ucast_eq take_bit_nat_eq_self)
  qed
  moreover have "unat (processed_seqnum x) = p" using assms(1,4) by (simp add: unat_of_nat)
  ultimately show False using assms(3) by simp
qed

end
