(* ===== verification/Pipe_Io.thy ===== *)
theory Pipe_Io
  imports Queue_Pipes Load_Balancer Distributor Options
begin

text \<open>
  What a socket type does to its pipes (\<open>i_pipe_events\<close> and the calls on \<open>pipe_t\<close>), as a record of operations on
  a state of all pipes, so that the socket types can be composed with any pipes; \<open>bank_io\<close> are the operations on
  the pipe pairs of \<open>Pipe\<close>, whose side \<open>P0\<close> the socket has. \<open>None\<close> is an aborted process.
\<close>

record 's pipe_io =
  io_read :: "nat \<Rightarrow> 's \<Rightarrow> ('s \<times> msg option) option"
  io_write :: "nat \<Rightarrow> msg \<Rightarrow> 's \<Rightarrow> ('s \<times> bool) option"
  io_check_read :: "nat \<Rightarrow> 's \<Rightarrow> ('s \<times> bool) option"
  io_check_write :: "nat \<Rightarrow> 's \<Rightarrow> ('s \<times> bool) option"
  io_flush :: "nat \<Rightarrow> 's \<Rightarrow> 's option"
  io_rollback :: "nat \<Rightarrow> 's \<Rightarrow> 's option"
  io_terminate :: "nat \<Rightarrow> bool \<Rightarrow> 's \<Rightarrow> 's option"
  io_set_nodelay :: "nat \<Rightarrow> 's \<Rightarrow> 's"
  io_identity :: "nat \<Rightarrow> 's \<Rightarrow> byte list"
  io_set_identity :: "nat \<Rightarrow> byte list \<Rightarrow> 's \<Rightarrow> 's"
  io_routing_id :: "nat \<Rightarrow> 's \<Rightarrow> 32 word"
  io_set_routing_id :: "nat \<Rightarrow> 32 word \<Rightarrow> 's \<Rightarrow> 's"
  io_credential :: "nat \<Rightarrow> 's \<Rightarrow> byte list"
  io_check_hwm :: "nat \<Rightarrow> 's \<Rightarrow> bool"

definition bank_field :: "(pipe_t \<Rightarrow> 'a) \<Rightarrow> 'a \<Rightarrow> nat \<Rightarrow> pipe_bank \<Rightarrow> 'a" where
  "bank_field f d p W = (case pipes (W p) P0 of None \<Rightarrow> d | Some q \<Rightarrow> f q)"

definition bank_upd :: "nat \<Rightarrow> (pipe_t \<Rightarrow> pipe_t) \<Rightarrow> pipe_bank \<Rightarrow> pipe_bank" where
  "bank_upd p f W = W(p := upd P0 f (W p))"

definition bank_lift :: "(world \<Rightarrow> (world \<times> 'a) option) \<Rightarrow> nat \<Rightarrow> pipe_bank \<Rightarrow> (pipe_bank \<times> 'a) option" where
  "bank_lift f p W = map_option (\<lambda>(w, r). (W(p := w), r)) (f (W p))"

definition bank_act :: "(world \<Rightarrow> world option) \<Rightarrow> nat \<Rightarrow> pipe_bank \<Rightarrow> pipe_bank option" where
  "bank_act f p W = map_option (\<lambda>w. W(p := w)) (f (W p))"

definition bank_io :: "pipe_bank pipe_io" where
  "bank_io = \<lparr>
     io_read = bank_read,
     io_write = (\<lambda>p m. bank_lift (pipe_write P0 m) p),
     io_check_read = bank_lift (pipe_check_read P0),
     io_check_write = bank_lift (pipe_check_write P0),
     io_flush = bank_act (pipe_flush P0),
     io_rollback = bank_act (pipe_rollback P0),
     io_terminate = (\<lambda>p dly. bank_act (pipe_terminate P0 dly) p),
     io_set_nodelay = (\<lambda>p. bank_upd p set_nodelay),
     io_identity = bank_field identity [],
     io_set_identity = (\<lambda>p i. bank_upd p (pipe_set_identity i)),
     io_routing_id = bank_field routing_id 0,
     io_set_routing_id = (\<lambda>p r. bank_upd p (pipe_set_routing_id r)),
     io_credential = bank_field credential [],
     io_check_hwm = bank_field check_hwm False\<rparr>"

text \<open>The integer value of a socket option, if it has the size of one.\<close>

definition int_value :: "byte list \<Rightarrow> int option" where
  "int_value bs = (if length bs = 4 then Some (sint (le_word bs :: 32 word)) else None)"

definition has_flag_more :: "msg \<Rightarrow> msg" where
  "has_flag_more m = m\<lparr>flags := flags m OR flag_more\<rparr>"

text \<open>For the evaluation of a run: only what decides the next step is rewritten.\<close>

lemma bind_cong_weak: "x = y \<Longrightarrow> Option.bind x f = Option.bind y f"
  by simp

lemmas weak_congs = bind_cong_weak option.case_cong_weak if_weak_cong prod.case_cong_weak sum.case_cong_weak

text \<open>One pipe with messages to read, which takes every message; the identity of its peer.\<close>

definition inbox_io :: "(msg list \<times> byte list) pipe_io" where
  "inbox_io = \<lparr>
     io_read = (\<lambda>p (r, i). case r of [] \<Rightarrow> Some (([], i), None) | m # ms \<Rightarrow> Some ((ms, i), Some m)),
     io_write = (\<lambda>p m s. Some (s, True)),
     io_check_read = (\<lambda>p (r, i). Some ((r, i), r \<noteq> [])),
     io_check_write = (\<lambda>p s. Some (s, True)),
     io_flush = (\<lambda>p s. Some s),
     io_rollback = (\<lambda>p s. Some s),
     io_terminate = (\<lambda>p dly s. Some s),
     io_set_nodelay = (\<lambda>p s. s),
     io_identity = (\<lambda>p (r, i). i),
     io_set_identity = (\<lambda>p j (r, i). (r, j)),
     io_routing_id = (\<lambda>p s. 0),
     io_set_routing_id = (\<lambda>p n s. s),
     io_credential = (\<lambda>p s. []),
     io_check_hwm = (\<lambda>p s. True)\<rparr>"

lemma inbox_simps:
  "io_read inbox_io p ([], i) = Some (([], i), None)"
  "io_read inbox_io p (m # ms, i) = Some ((ms, i), Some m)"
  "io_write inbox_io p m s = Some (s, True)"
  "io_flush inbox_io p s = Some s"
  "io_check_write inbox_io p s = Some (s, True)"
  "io_identity inbox_io p (ms, i) = i"
  "io_set_identity inbox_io p j (ms, i) = (ms, j)"
  by (simp_all add: inbox_io_def)

lemma frame_flags [simp]:
  "has_more \<lparr>kind = k, flags = flag_more, mdata = d\<rparr>" "\<not> has_more \<lparr>kind = k, flags = 0, mdata = d\<rparr>"
  "\<not> has_identity \<lparr>kind = k, flags = flag_more, mdata = d\<rparr>" "\<not> has_identity \<lparr>kind = k, flags = 0, mdata = d\<rparr>"
  by (simp_all add: has_more_def has_identity_def)

section \<open>Identities\<close>

text \<open>
  What a socket that tells its peers apart by their identities needs of its pipes: that only \<open>set_identity\<close>
  changes an identity. \<open>has p\<close> says that the pipe is there.
\<close>

definition same_identities :: "'s pipe_io \<Rightarrow> (nat \<Rightarrow> 's \<Rightarrow> bool) \<Rightarrow> 's \<Rightarrow> 's \<Rightarrow> bool" where
  "same_identities io has s s' \<longleftrightarrow> (\<forall>q. has q s \<longrightarrow> has q s' \<and> io_identity io q s' = io_identity io q s)"

lemma same_identities_refl [simp]: "same_identities io has s s"
  by (simp add: same_identities_def)

lemma same_identities_trans: "same_identities io has s s1 \<Longrightarrow> same_identities io has s1 s2 \<Longrightarrow> same_identities io has s s2"
  by (simp add: same_identities_def)

locale identified_pipes =
  fixes io :: "'s pipe_io" and has :: "nat \<Rightarrow> 's \<Rightarrow> bool"
  assumes read_ids: "io_read io p s = Some (s', m) \<Longrightarrow> same_identities io has s s'"
    and write_ids: "io_write io p x s = Some (s', b) \<Longrightarrow> same_identities io has s s'"
    and check_write_ids: "io_check_write io p s = Some (s', b) \<Longrightarrow> same_identities io has s s'"
    and flush_ids: "io_flush io p s = Some s' \<Longrightarrow> same_identities io has s s'"
    and rollback_ids: "io_rollback io p s = Some s' \<Longrightarrow> same_identities io has s s'"
    and terminate_ids: "io_terminate io p dly s = Some s' \<Longrightarrow> same_identities io has s s'"
    and set_identity_ids: "has p s \<Longrightarrow> has q s \<Longrightarrow>
      has q (io_set_identity io p i s) \<and> io_identity io q (io_set_identity io p i s) = (if q = p then i else io_identity io q s)"
begin

lemmas keeps_identities = read_ids write_ids check_write_ids flush_ids rollback_ids terminate_ids

lemma fq_recvpipe_ids:
  "fq_recvpipe (io_read io) f s = Some (f', s', r) \<Longrightarrow> same_identities io has s s'"
proof (induction "io_read io" f s arbitrary: f' s' r rule: fq_recvpipe.induct)
  case (1 f s)
  show ?case
  proof (cases "fq_active f > 0")
    case True
    then obtain p s1 x where x: "arr_at (fq_current f) (fq_pipes f) = Some p" "io_read io p s = Some (s1, x)"
      using 1(2) by (subst (asm) fq_recvpipe.simps) (auto split: bind_splits)
    show ?thesis
    proof (cases x)
      case (Some m)
      then show ?thesis using 1(2) True x read_ids[OF x(2)]
        by (subst (asm) fq_recvpipe.simps) (simp add: Let_def)
    next
      case None
      then obtain f1 where f1: "\<not> fq_more f" "fq_deactivate f = Some f1" "fq_recvpipe (io_read io) f1 s1 = Some (f', s', r)"
        using 1(2) True x by (subst (asm) fq_recvpipe.simps) (auto split: bind_splits if_splits)
      have "same_identities io has s1 s'" by (rule 1(1)[OF True x(1) x(2) HOL.refl None f1(1,2,3)])
      then show ?thesis by (rule same_identities_trans[OF read_ids[OF x(2)]])
    qed
  next
    case False
    then show ?thesis using 1(2) by (subst (asm) fq_recvpipe.simps) simp
  qed
qed

end

definition bank_has :: "nat \<Rightarrow> pipe_bank \<Rightarrow> bool" where
  "bank_has p W \<longleftrightarrow> pipes (W p) P0 \<noteq> None"

definition keeps_id :: "world \<Rightarrow> world \<Rightarrow> bool" where
  "keeps_id w w' \<longleftrightarrow> (\<forall>q. pipes w P0 = Some q \<longrightarrow> (\<exists>q'. pipes w' P0 = Some q' \<and> identity q' = identity q))"

lemma keeps_id_refl [simp]: "keeps_id w w"
  by (simp add: keeps_id_def)

lemma keeps_id_trans: "keeps_id w w1 \<Longrightarrow> keeps_id w1 w2 \<Longrightarrow> keeps_id w w2"
  by (force simp: keeps_id_def)

lemma keeps_id_simps [simp]:
  "keeps_id w (put_up a u w1) = keeps_id w w1" "keeps_id (put_up a u w) w1 = keeps_id w w1"
  "keeps_id w (send_peer s c w1) = keeps_id w w1" "keeps_id (send_peer s c w) w1 = keeps_id w w1"
  by (simp_all add: keeps_id_def put_up_def send_peer_def)

lemma keeps_id_upd [simp]:
  assumes "\<And>q. identity (f q) = identity q"
  shows "keeps_id w (upd s f w1) = keeps_id w w1" "keeps_id (upd s f w) w1 = keeps_id w w1"
  using assms by (cases "pipes w1 P0"; cases "pipes w P0"; simp add: keeps_id_def upd_def)+

lemma process_delimiter_id: "process_delimiter s w = Some w' \<Longrightarrow> keeps_id w w'"
  by (auto simp: process_delimiter_def split: bind_splits if_splits)

lemma count_read_id: "keeps_id w (count_read s m p w1) = keeps_id w w1"
  by (simp add: count_read_def Let_def)

lemma pipe_read_id:
  assumes "pipe_read s w = Some (w', r)"
  shows "keeps_id w w'"
proof -
  obtain p where p: "pipes w s = Some p" using assms by (auto simp: pipe_read_def split: bind_splits)
  show ?thesis
  proof (cases "readable p")
    case True
    then obtain a u u1 cred x where x: "inpipe p = Some a" "upipes w a = Some u" "read_message u (credential p) = (u1, cred, x)"
      using assms p by (auto simp: pipe_read_def split: bind_splits) (metis prod_cases3)
    show ?thesis
    proof (cases x)
      case None
      then have "w' = upd s (\<lambda>p. p\<lparr>in_active := False\<rparr>) (upd s (\<lambda>p. p\<lparr>credential := cred\<rparr>) (put_up a u1 w))"
        using assms p True x by (simp add: pipe_read_def Let_def)
      then show ?thesis by simp
    next
      case (Some m)
      then show ?thesis using assms p True x
        by (auto simp: pipe_read_def Let_def count_read_id dest!: process_delimiter_id split: bind_splits if_splits)
    qed
  qed (use assms p in \<open>simp add: pipe_read_def\<close>)
qed

lemma pipe_check_write_id: "pipe_check_write s w = Some (w', r) \<Longrightarrow> keeps_id w w'"
  by (auto simp: pipe_check_write_def split: bind_splits if_splits)

lemma pipe_check_read_id:
  assumes "pipe_check_read s w = Some (w', r)"
  shows "keeps_id w w'"
  using assms by (auto simp: pipe_check_read_def Let_def dest!: process_delimiter_id split: bind_splits if_splits option.splits prod.splits)

lemma pipe_write_id: "pipe_write s m w = Some (w', r) \<Longrightarrow> keeps_id w w'"
  by (auto simp: pipe_write_def Let_def dest!: pipe_check_write_id split: bind_splits if_splits)

lemma pipe_flush_id: "pipe_flush s w = Some w' \<Longrightarrow> keeps_id w w'"
  by (auto simp: pipe_flush_def Let_def split: bind_splits if_splits option.splits prod.splits)

lemma pipe_rollback_id: "pipe_rollback s w = Some w' \<Longrightarrow> keeps_id w w'"
  by (auto simp: pipe_rollback_def split: bind_splits option.splits)

lemma pipe_terminate_id:
  assumes "pipe_terminate s dly w = Some w'"
  shows "keeps_id w w'"
  using assms
  by (auto simp: pipe_terminate_def Let_def dest!: pipe_rollback_id pipe_flush_id split: bind_splits if_splits option.splits
      intro: keeps_id_trans)

lemma bank_ids:
  "keeps_id (W p) w \<Longrightarrow> same_identities bank_io bank_has W (W(p := w))"
  by (auto simp: same_identities_def bank_io_def bank_field_def bank_has_def keeps_id_def)

interpretation bank_peers: identified_pipes bank_io bank_has
proof (unfold_locales, goal_cases)
  case (7 p W q i)
  then show ?case by (auto simp: bank_io_def bank_field_def bank_has_def bank_upd_def upd_def pipe_set_identity_def)
qed (auto simp: bank_io_def bank_read_def bank_lift_def bank_act_def pipe_write_id pipe_read_id pipe_check_write_id pipe_flush_id
    pipe_rollback_id pipe_terminate_id intro!: bank_ids[unfolded bank_io_def])

end
