(* ===== verification/Req.thy ===== *)
theory Req
  imports Pipe_Io
begin

text \<open>
  Model of \<open>src/src/dealer.cpp\<close> and \<open>src/src/req.cpp\<close> over fair queueing and load balancing: the DEALER socket, and
  the REQ socket with its alternation of requests and replies, request ids and the session that checks the frames
  of replies. Loops over received messages are \<open>partial_function\<close>s: \<open>None\<close> is a failed assertion, or that pipes
  which never run dry keep the loop from ending.
\<close>

section \<open>DEALER\<close>

record dealer =
  de_fq :: fq
  de_lb :: lb
  probe_router :: bool

definition dealer_t :: dealer where
  "dealer_t = \<lparr>de_fq = fq_t, de_lb = lb_t, probe_router = False\<rparr>"

definition dealer_attach_pipe :: "'s pipe_io \<Rightarrow> nat \<Rightarrow> dealer \<Rightarrow> 's \<Rightarrow> (dealer \<times> 's) option" where
  "dealer_attach_pipe io p d s = do {
     s1 \<leftarrow> (if probe_router d then do { (s1, _) \<leftarrow> io_write io p empty_msg s; io_flush io p s1 } else Some s);
     f \<leftarrow> fq_attach p (de_fq d);
     l \<leftarrow> lb_attach p (de_lb d);
     Some (d\<lparr>de_fq := f, de_lb := l\<rparr>, s1) }"

datatype dealer_option = Opt_probe_router | Opt_req_correlate | Opt_req_relaxed | Opt_other

definition dealer_setsockopt :: "dealer_option \<Rightarrow> byte list \<Rightarrow> dealer \<Rightarrow> dealer \<times> unit result" where
  "dealer_setsockopt opt v d =
     (case opt of
        Opt_probe_router \<Rightarrow>
          (case int_value v of
             Some n \<Rightarrow> if n \<ge> 0 then (d\<lparr>probe_router := n \<noteq> 0\<rparr>, Inr ()) else (d, Inl EINVAL)
           | None \<Rightarrow> (d, Inl EINVAL))
      | _ \<Rightarrow> (d, Inl EINVAL))"

definition dealer_sendpipe :: "'s pipe_io \<Rightarrow> msg \<Rightarrow> dealer \<Rightarrow> 's \<Rightarrow> (dealer \<times> 's \<times> nat option result) option" where
  "dealer_sendpipe io m d s =
     map_option (\<lambda>(l, s1, r). (d\<lparr>de_lb := l\<rparr>, s1, r))
       (lb_sendpipe (io_write io) (io_rollback io) (io_flush io) m (de_lb d) s)"

definition dealer_recvpipe :: "'s pipe_io \<Rightarrow> dealer \<Rightarrow> 's \<Rightarrow> (dealer \<times> 's \<times> (msg \<times> nat) option) option" where
  "dealer_recvpipe io d s = map_option (\<lambda>(f, s1, r). (d\<lparr>de_fq := f\<rparr>, s1, r)) (fq_recvpipe (io_read io) (de_fq d) s)"

definition dealer_xsend :: "'s pipe_io \<Rightarrow> msg \<Rightarrow> dealer \<Rightarrow> 's \<Rightarrow> (dealer \<times> 's \<times> unit result) option" where
  "dealer_xsend io m d s = map_option (\<lambda>(d1, s1, r). (d1, s1, map_sum id (\<lambda>_. ()) r)) (dealer_sendpipe io m d s)"

definition dealer_xrecv :: "'s pipe_io \<Rightarrow> dealer \<Rightarrow> 's \<Rightarrow> (dealer \<times> 's \<times> msg option) option" where
  "dealer_xrecv io d s = map_option (\<lambda>(d1, s1, r). (d1, s1, map_option fst r)) (dealer_recvpipe io d s)"

definition dealer_xhas_in :: "'s pipe_io \<Rightarrow> dealer \<Rightarrow> 's \<Rightarrow> (dealer \<times> 's \<times> bool) option" where
  "dealer_xhas_in io d s = map_option (\<lambda>(f, s1, r). (d\<lparr>de_fq := f\<rparr>, s1, r)) (fq_has_in (io_check_read io) (de_fq d) s)"

definition dealer_xhas_out :: "'s pipe_io \<Rightarrow> dealer \<Rightarrow> 's \<Rightarrow> (dealer \<times> 's \<times> bool) option" where
  "dealer_xhas_out io d s = map_option (\<lambda>(l, s1, r). (d\<lparr>de_lb := l\<rparr>, s1, r)) (lb_has_out (io_check_write io) (de_lb d) s)"

definition dealer_xread_activated :: "nat \<Rightarrow> dealer \<Rightarrow> dealer option" where
  "dealer_xread_activated p d = map_option (\<lambda>f. d\<lparr>de_fq := f\<rparr>) (fq_activated p (de_fq d))"

definition dealer_xwrite_activated :: "nat \<Rightarrow> dealer \<Rightarrow> dealer option" where
  "dealer_xwrite_activated p d = map_option (\<lambda>l. d\<lparr>de_lb := l\<rparr>) (lb_activated p (de_lb d))"

definition dealer_xpipe_terminated :: "'s pipe_io \<Rightarrow> nat \<Rightarrow> dealer \<Rightarrow> 's \<Rightarrow> dealer option" where
  "dealer_xpipe_terminated io p d s = do {
     f \<leftarrow> fq_pipe_terminated (\<lambda>q. io_credential io q s) p (de_fq d);
     l \<leftarrow> lb_pipe_terminated p (de_lb d);
     Some (d\<lparr>de_fq := f, de_lb := l\<rparr>) }"

definition dealer_get_credential :: "'s pipe_io \<Rightarrow> dealer \<Rightarrow> 's \<Rightarrow> byte list" where
  "dealer_get_credential io d s = fq_get_credential (\<lambda>q. io_credential io q s) (de_fq d)"

section \<open>REQ\<close>

record req =
  rq_dealer :: dealer
  receiving_reply :: bool
  message_begins :: bool
  reply_pipe :: "nat option"
  request_id_frames_enabled :: bool
  request_id :: "32 word"
  strict :: bool

definition req_t :: "32 word \<Rightarrow> req" where
  "req_t random = \<lparr>rq_dealer = dealer_t, receiving_reply = False, message_begins = True, reply_pipe = None,
     request_id_frames_enabled = False, request_id = random, strict = True\<rparr>"

definition request_id_msg :: "32 word \<Rightarrow> msg" where
  "request_id_msg n = \<lparr>kind = Kdata, flags = flag_more, mdata = le_bytes 4 (uint n)\<rparr>"

definition bottom_msg :: msg where
  "bottom_msg = \<lparr>kind = Kdata, flags = flag_more, mdata = []\<rparr>"

text \<open>
  A frame before the request. The pipe it went to is the pipe of the reply; the load balancer leaves the
  variable as it was when it drops the message.
\<close>

definition req_send_prefix :: "'s pipe_io \<Rightarrow> msg \<Rightarrow> req \<Rightarrow> 's \<Rightarrow> (req \<times> 's \<times> unit result) option" where
  "req_send_prefix io m q s = do {
     (d, s1, r) \<leftarrow> dealer_sendpipe io m (rq_dealer q) s;
     let q1 = q\<lparr>rq_dealer := d\<rparr>;
     (case r of
        Inl e \<Rightarrow> Some (q1, s1, Inl e)
      | Inr p \<Rightarrow> Some (if p = None then q1 else q1\<lparr>reply_pipe := p\<rparr>, s1, Inr ())) }"

text \<open>\<open>while (true) { rc = dealer_t::xrecv (&drop); if (rc != 0) break; }\<close>\<close>

partial_function (option) req_drop_all :: "'s pipe_io \<Rightarrow> req \<Rightarrow> 's \<Rightarrow> (req \<times> 's) option" where
  "req_drop_all io q s =
     Option.bind (dealer_xrecv io (rq_dealer q) s) (\<lambda>(d, s1, r).
       case r of None \<Rightarrow> Some (q\<lparr>rq_dealer := d\<rparr>, s1) | Some m \<Rightarrow> req_drop_all io (q\<lparr>rq_dealer := d\<rparr>) s1)"

definition req_begin :: "'s pipe_io \<Rightarrow> req \<Rightarrow> 's \<Rightarrow> (req \<times> 's \<times> unit result) option" where
  "req_begin io q0 s = do {
     let q = q0\<lparr>reply_pipe := None\<rparr>;
     (q1, s1, r1) \<leftarrow> (if request_id_frames_enabled q
        then let q = q\<lparr>request_id := request_id q + 1\<rparr> in req_send_prefix io (request_id_msg (request_id q)) q s
        else Some (q, s, Inr ()));
     if r1 \<noteq> Inr () then Some (q1, s1, r1)
     else do {
       (q2, s2, r2) \<leftarrow> req_send_prefix io bottom_msg q1 s1;
       if r2 \<noteq> Inr () then Some (q2, s2, r2)
       else if reply_pipe q2 = None then None
       else do {
         (q3, s3) \<leftarrow> req_drop_all io (q2\<lparr>message_begins := False\<rparr>) s2;
         Some (q3, s3, Inr ()) } } }"

definition req_xsend :: "'s pipe_io \<Rightarrow> msg \<Rightarrow> req \<Rightarrow> 's \<Rightarrow> (req \<times> 's \<times> unit result) option" where
  "req_xsend io m q s =
     (if receiving_reply q \<and> strict q then Some (q, s, Inl EFSM)
      else do {
        let q1 = (if receiving_reply q then q\<lparr>receiving_reply := False, message_begins := True\<rparr> else q);
        (q2, s2, r) \<leftarrow> (if message_begins q1 then req_begin io q1 s else Some (q1, s, Inr ()));
        if r \<noteq> Inr () then Some (q2, s2, r)
        else do {
          (d, s3, r3) \<leftarrow> dealer_xsend io m (rq_dealer q2) s2;
          let q3 = q2\<lparr>rq_dealer := d\<rparr>;
          if r3 \<noteq> Inr () then Some (q3, s3, r3)
          else Some (if \<not> has_more m then q3\<lparr>receiving_reply := True, message_begins := True\<rparr> else q3, s3, Inr ()) } })"

partial_function (option) recv_reply_pipe :: "'s pipe_io \<Rightarrow> req \<Rightarrow> 's \<Rightarrow> (req \<times> 's \<times> msg option) option" where
  "recv_reply_pipe io q s =
     Option.bind (dealer_recvpipe io (rq_dealer q) s) (\<lambda>(d, s1, r).
       let q1 = q\<lparr>rq_dealer := d\<rparr> in
       (case r of
          None \<Rightarrow> Some (q1, s1, None)
        | Some mp \<Rightarrow> if reply_pipe q = None \<or> reply_pipe q = Some (snd mp) then Some (q1, s1, Some (fst mp))
            else recv_reply_pipe io q1 s1))"

text \<open>The rest of a message that is skipped, each frame of which has to be there.\<close>

partial_function (option) req_skip_rest :: "'s pipe_io \<Rightarrow> msg \<Rightarrow> req \<Rightarrow> 's \<Rightarrow> (req \<times> 's) option" where
  "req_skip_rest io m q s =
     (if has_more m then
        Option.bind (recv_reply_pipe io q s) (\<lambda>(q1, s1, r).
          case r of None \<Rightarrow> None | Some m1 \<Rightarrow> req_skip_rest io m1 q1 s1)
      else Some (q, s))"

text \<open>One turn of the loop over the first frames of a message: go on, give up, or have them.\<close>

datatype turn = Again | Give_up | Have

definition req_first_frames :: "'s pipe_io \<Rightarrow> req \<Rightarrow> 's \<Rightarrow> (req \<times> 's \<times> turn) option" where
  "req_first_frames io q s = do {
     (q1, s1, t) \<leftarrow> (if request_id_frames_enabled q then do {
           (q1, s1, r) \<leftarrow> recv_reply_pipe io q s;
           (case r of
              None \<Rightarrow> Some (q1, s1, Give_up)
            | Some m \<Rightarrow>
                if \<not> has_more m \<or> length (mdata m) \<noteq> 4 \<or> le_word (mdata m) \<noteq> request_id q1
                then do { (q2, s2) \<leftarrow> req_skip_rest io m q1 s1; Some (q2, s2, Again) }
                else Some (q1, s1, Have)) }
         else Some (q, s, Have));
     if t \<noteq> Have then Some (q1, s1, t)
     else do {
       (q2, s2, r) \<leftarrow> recv_reply_pipe io q1 s1;
       (case r of
          None \<Rightarrow> Some (q2, s2, Give_up)
        | Some m \<Rightarrow>
            if \<not> has_more m \<or> mdata m \<noteq> []
            then do { (q3, s3) \<leftarrow> req_skip_rest io m q2 s2; Some (q3, s3, Again) }
            else Some (q2\<lparr>message_begins := False\<rparr>, s2, Have)) } }"

partial_function (option) req_find_reply :: "'s pipe_io \<Rightarrow> req \<Rightarrow> 's \<Rightarrow> (req \<times> 's \<times> bool) option" where
  "req_find_reply io q s =
     (if message_begins q then
        Option.bind (req_first_frames io q s) (\<lambda>(q1, s1, t).
          if t = Give_up then Some (q1, s1, False) else req_find_reply io q1 s1)
      else Some (q, s, True))"

definition req_xrecv :: "'s pipe_io \<Rightarrow> req \<Rightarrow> 's \<Rightarrow> (req \<times> 's \<times> msg result) option" where
  "req_xrecv io q s =
     (if \<not> receiving_reply q then Some (q, s, Inl EFSM)
      else do {
        (q1, s1, found) \<leftarrow> req_find_reply io q s;
        if \<not> found then Some (q1, s1, Inl EAGAIN)
        else do {
          (q2, s2, r) \<leftarrow> recv_reply_pipe io q1 s1;
          (case r of
             None \<Rightarrow> Some (q2, s2, Inl EAGAIN)
           | Some m \<Rightarrow> Some (if \<not> has_more m then q2\<lparr>receiving_reply := False, message_begins := True\<rparr> else q2, s2, Inr m)) } })"

definition req_xhas_in :: "'s pipe_io \<Rightarrow> req \<Rightarrow> 's \<Rightarrow> (req \<times> 's \<times> bool) option" where
  "req_xhas_in io q s =
     (if \<not> receiving_reply q then Some (q, s, False)
      else map_option (\<lambda>(d, s1, r). (q\<lparr>rq_dealer := d\<rparr>, s1, r)) (dealer_xhas_in io (rq_dealer q) s))"

definition req_xhas_out :: "'s pipe_io \<Rightarrow> req \<Rightarrow> 's \<Rightarrow> (req \<times> 's \<times> bool) option" where
  "req_xhas_out io q s =
     (if receiving_reply q then Some (q, s, False)
      else map_option (\<lambda>(d, s1, r). (q\<lparr>rq_dealer := d\<rparr>, s1, r)) (dealer_xhas_out io (rq_dealer q) s))"

definition req_setsockopt :: "dealer_option \<Rightarrow> byte list \<Rightarrow> req \<Rightarrow> req \<times> unit result" where
  "req_setsockopt opt v q =
     (case (opt, int_value v) of
        (Opt_req_correlate, Some n) \<Rightarrow>
          if n \<ge> 0 then (q\<lparr>request_id_frames_enabled := n \<noteq> 0\<rparr>, Inr ()) else (q, Inl EINVAL)
      | (Opt_req_relaxed, Some n) \<Rightarrow> if n \<ge> 0 then (q\<lparr>strict := n = 0\<rparr>, Inr ()) else (q, Inl EINVAL)
      | _ \<Rightarrow> (case dealer_setsockopt opt v (rq_dealer q) of (d, r) \<Rightarrow> (q\<lparr>rq_dealer := d\<rparr>, r)))"

definition req_xpipe_terminated :: "'s pipe_io \<Rightarrow> nat \<Rightarrow> req \<Rightarrow> 's \<Rightarrow> req option" where
  "req_xpipe_terminated io p q s =
     map_option (\<lambda>d. q\<lparr>reply_pipe := (if reply_pipe q = Some p then None else reply_pipe q), rq_dealer := d\<rparr>)
       (dealer_xpipe_terminated io p (rq_dealer q) s)"

section \<open>The session of a REQ socket\<close>

datatype req_session_state = Sess_request_id | Sess_body | Sess_bottom

definition more_only :: "msg \<Rightarrow> bool" where
  "more_only m \<longleftrightarrow> flags m = flag_more"

text \<open>Which frames \<open>push_msg\<close> passes on: the next state, if the frame is the result of the push.\<close>

definition req_session_next :: "msg \<Rightarrow> req_session_state \<Rightarrow> req_session_state option" where
  "req_session_next m ss =
     (case ss of
        Sess_bottom \<Rightarrow>
          if more_only m then
            if length (mdata m) = 4 then Some Sess_request_id else if mdata m = [] then Some Sess_body else None
          else None
      | Sess_request_id \<Rightarrow> if more_only m \<and> mdata m = [] then Some Sess_body else None
      | Sess_body \<Rightarrow> if more_only m then Some Sess_body else if flags m = 0 then Some Sess_bottom else None)"

definition req_session_push :: "(msg \<Rightarrow> 's \<Rightarrow> 's \<times> unit result) \<Rightarrow> msg \<Rightarrow> req_session_state \<Rightarrow> 's \<Rightarrow>
    req_session_state \<times> 's \<times> unit result" where
  "req_session_push push m ss s =
     (case req_session_next m ss of
        None \<Rightarrow> (ss, s, Inl EFAULT)
      | Some ss1 \<Rightarrow> (case push m s of (s1, r) \<Rightarrow> (ss1, s1, r)))"

definition req_session_reset :: "req_session_state \<Rightarrow> req_session_state" where
  "req_session_reset ss = Sess_bottom"

section \<open>Alternation\<close>

text \<open>
  What happens to a REQ socket, and what its user sees of it: complete requests that were sent and complete
  replies that were received. The pipes may do anything in between (\<open>Rq_world\<close>).
\<close>

datatype 's req_event = Rq_send msg | Rq_recv | Rq_attach nat | Rq_read_activated nat | Rq_write_activated nat
  | Rq_terminated nat | Rq_poll | Rq_world "'s \<Rightarrow> 's"

datatype seen = Request_sent | Reply_received

definition upd_dealer :: "req \<Rightarrow> (dealer \<times> 's) option \<Rightarrow> (req \<times> 's \<times> seen list) option" where
  "upd_dealer q r = map_option (\<lambda>(d, s1). (q\<lparr>rq_dealer := d\<rparr>, s1, [])) r"

definition req_step :: "'s pipe_io \<Rightarrow> 's req_event \<Rightarrow> req \<times> 's \<Rightarrow> (req \<times> 's \<times> seen list) option" where
  "req_step io ev = (\<lambda>(q, s).
     (case ev of
        Rq_send m \<Rightarrow> map_option (\<lambda>(q1, s1, r). (q1, s1, if r = Inr () \<and> \<not> has_more m then [Request_sent] else []))
          (req_xsend io m q s)
      | Rq_recv \<Rightarrow> map_option (\<lambda>(q1, s1, r). (q1, s1, case r of Inr m \<Rightarrow> if \<not> has_more m then [Reply_received] else [] | Inl _ \<Rightarrow> []))
          (req_xrecv io q s)
      | Rq_attach p \<Rightarrow> upd_dealer q (dealer_attach_pipe io p (rq_dealer q) s)
      | Rq_read_activated p \<Rightarrow> upd_dealer q (map_option (\<lambda>d. (d, s)) (dealer_xread_activated p (rq_dealer q)))
      | Rq_write_activated p \<Rightarrow> upd_dealer q (map_option (\<lambda>d. (d, s)) (dealer_xwrite_activated p (rq_dealer q)))
      | Rq_terminated p \<Rightarrow> map_option (\<lambda>q1. (q1, s, [])) (req_xpipe_terminated io p q s)
      | Rq_poll \<Rightarrow> map_option (\<lambda>(q1, s1, _). (q1, s1, [])) (req_xhas_in io q s)
      | Rq_world f \<Rightarrow> Some (q, f s, [])))"

fun req_run :: "'s pipe_io \<Rightarrow> 's req_event list \<Rightarrow> req \<times> 's \<Rightarrow> (req \<times> 's \<times> seen list) option" where
  "req_run io [] qs = Some (fst qs, snd qs, [])"
| "req_run io (ev # evs) qs = do {
     (q1, s1, o1) \<leftarrow> req_step io ev qs;
     (q2, s2, o2) \<leftarrow> req_run io evs (q1, s1);
     Some (q2, s2, o1 @ o2) }"

text \<open>Requests and replies alternate; the next one is a reply iff the argument says so.\<close>

fun alternates :: "bool \<Rightarrow> seen list \<Rightarrow> bool" where
  "alternates b [] = True"
| "alternates b (Request_sent # xs) = (\<not> b \<and> alternates True xs)"
| "alternates b (Reply_received # xs) = (b \<and> alternates False xs)"

text \<open>The loops keep the state of the alternation.\<close>

definition same_phase :: "req \<Rightarrow> req \<Rightarrow> bool" where
  "same_phase q q' \<longleftrightarrow> receiving_reply q' = receiving_reply q \<and> strict q' = strict q"

lemma same_phase_refl [simp]: "same_phase q q"
  by (simp add: same_phase_def)

lemma same_phase_trans: "same_phase q q1 \<Longrightarrow> same_phase q1 q2 \<Longrightarrow> same_phase q q2"
  by (simp add: same_phase_def)

lemma same_phase_upd [simp]:
  "same_phase (q\<lparr>rq_dealer := d\<rparr>) q' = same_phase q q'" "same_phase q (q'\<lparr>rq_dealer := d\<rparr>) = same_phase q q'"
  "same_phase (q\<lparr>message_begins := b\<rparr>) q' = same_phase q q'" "same_phase q (q'\<lparr>message_begins := b\<rparr>) = same_phase q q'"
  "same_phase (q\<lparr>reply_pipe := p\<rparr>) q' = same_phase q q'" "same_phase q (q'\<lparr>reply_pipe := p\<rparr>) = same_phase q q'"
  "same_phase (q\<lparr>request_id := n\<rparr>) q' = same_phase q q'" "same_phase q (q'\<lparr>request_id := n\<rparr>) = same_phase q q'"
  by (simp_all add: same_phase_def)

lemma recv_reply_pipe_phase: "recv_reply_pipe io q s = Some r \<Longrightarrow> same_phase q (fst r)"
proof (erule recv_reply_pipe.raw_induct[rotated, where P = "\<lambda>io q s r. same_phase q (fst r)"], goal_cases)
  case (1 f io q s r)
  then obtain d s1 x where d: "dealer_recvpipe io (rq_dealer q) s = Some (d, s1, x)"
    "(case x of None \<Rightarrow> Some (q\<lparr>rq_dealer := d\<rparr>, s1, None)
      | Some mp \<Rightarrow> if reply_pipe q = None \<or> reply_pipe q = Some (snd mp) then Some (q\<lparr>rq_dealer := d\<rparr>, s1, Some (fst mp))
          else f io (q\<lparr>rq_dealer := d\<rparr>) s1) = Some r"
    by (auto simp: Let_def split: bind_split_asm)
  then show ?case using 1(1)[of io "q\<lparr>rq_dealer := d\<rparr>" s1 r] by (auto split: option.splits if_splits)
qed

lemma req_drop_all_phase: "req_drop_all io q s = Some r \<Longrightarrow> same_phase q (fst r)"
proof (erule req_drop_all.raw_induct[rotated, where P = "\<lambda>io q s r. same_phase q (fst r)"], goal_cases)
  case (1 f io q s r)
  then obtain d s1 x where d: "dealer_xrecv io (rq_dealer q) s = Some (d, s1, x)"
    "(case x of None \<Rightarrow> Some (q\<lparr>rq_dealer := d\<rparr>, s1) | Some m \<Rightarrow> f io (q\<lparr>rq_dealer := d\<rparr>) s1) = Some r"
    by (auto split: bind_split_asm)
  then show ?case using 1(1)[of io "q\<lparr>rq_dealer := d\<rparr>" s1 r] by (auto split: option.splits)
qed

lemma req_skip_rest_phase: "req_skip_rest io m q s = Some r \<Longrightarrow> same_phase q (fst r)"
proof (erule req_skip_rest.raw_induct[rotated, where P = "\<lambda>io m q s r. same_phase q (fst r)"], goal_cases)
  case (1 f io m q s r)
  show ?case
  proof (cases "has_more m")
    case True
    then obtain q1 s1 m1 where r: "recv_reply_pipe io q s = Some (q1, s1, Some m1)" "f io m1 q1 s1 = Some r"
      using 1(2) by (auto split: bind_splits option.splits)
    then show ?thesis using 1(1)[OF r(2)] recv_reply_pipe_phase[OF r(1)] same_phase_trans by force
  qed (use 1(2) in auto)
qed

lemmas phase_facts = recv_reply_pipe_phase req_drop_all_phase req_skip_rest_phase

lemma phase_pairs:
  "recv_reply_pipe io q s = Some (q', s', r) \<Longrightarrow> same_phase q q'"
  "req_drop_all io q s = Some (q', s') \<Longrightarrow> same_phase q q'"
  "req_skip_rest io m q s = Some (q', s') \<Longrightarrow> same_phase q q'"
  by (auto dest: phase_facts)

lemma req_first_frames_phase:
  assumes "req_first_frames io q s = Some (q', s', t)"
  shows "same_phase q q'"
proof -
  obtain q1 s1 t1 where a: "(if request_id_frames_enabled q then do {
           (q1, s1, r) \<leftarrow> recv_reply_pipe io q s;
           (case r of
              None \<Rightarrow> Some (q1, s1, Give_up)
            | Some m \<Rightarrow>
                if \<not> has_more m \<or> length (mdata m) \<noteq> 4 \<or> le_word (mdata m) \<noteq> request_id q1
                then do { (q2, s2) \<leftarrow> req_skip_rest io m q1 s1; Some (q2, s2, Again) }
                else Some (q1, s1, Have)) }
         else Some (q, s, Have)) = Some (q1, s1, t1)"
    and b: "(if t1 \<noteq> Have then Some (q1, s1, t1)
     else do {
       (q2, s2, r) \<leftarrow> recv_reply_pipe io q1 s1;
       (case r of
          None \<Rightarrow> Some (q2, s2, Give_up)
        | Some m \<Rightarrow>
            if \<not> has_more m \<or> mdata m \<noteq> []
            then do { (q3, s3) \<leftarrow> req_skip_rest io m q2 s2; Some (q3, s3, Again) }
            else Some (q2\<lparr>message_begins := False\<rparr>, s2, Have)) }) = Some (q', s', t)"
    using assms unfolding req_first_frames_def by (auto split: bind_split_asm)
  have "same_phase q q1"
  proof (cases "request_id_frames_enabled q")
    case True
    then obtain q2 s2 r where r: "recv_reply_pipe io q s = Some (q2, s2, r)" using a by (auto split: bind_split_asm)
    then show ?thesis using a True phase_pairs(1)[OF r] same_phase_trans
      by (auto split: option.splits if_splits bind_split_asm dest!: phase_pairs)
  qed (use a in auto)
  moreover have "same_phase q1 q'"
  proof (cases "t1 = Have")
    case True
    then obtain q2 s2 r where r: "recv_reply_pipe io q1 s1 = Some (q2, s2, r)" using b by (auto split: bind_split_asm)
    then show ?thesis using b True phase_pairs(1)[OF r] same_phase_trans
      by (auto split: option.splits if_splits bind_split_asm dest!: phase_pairs)
  qed (use b in auto)
  ultimately show ?thesis by (rule same_phase_trans)
qed

lemma req_find_reply_phase: "req_find_reply io q s = Some r \<Longrightarrow> same_phase q (fst r)"
proof (erule req_find_reply.raw_induct[rotated, where P = "\<lambda>io q s r. same_phase q (fst r)"], goal_cases)
  case (1 f io q s r)
  show ?case
  proof (cases "message_begins q")
    case True
    then obtain q1 s1 t where r: "req_first_frames io q s = Some (q1, s1, t)"
      "(if t = Give_up then Some (q1, s1, False) else f io q1 s1) = Some r"
      using 1(2) by (auto split: bind_split_asm)
    then show ?thesis using 1(1)[of io q1 s1 r] req_first_frames_phase[OF r(1)] same_phase_trans
      by (auto split: if_splits)
  qed (use 1(2) in auto)
qed

lemma req_send_prefix_phase:
  assumes "req_send_prefix io m q s = Some (q', s', r)"
  shows "same_phase q q'"
  using assms unfolding req_send_prefix_def by (auto simp: Let_def split: bind_split_asm sum.splits if_splits)

lemma req_begin_phase:
  assumes "req_begin io q0 s = Some (q', s', r)"
  shows "same_phase q0 q'"
proof -
  let ?q = "q0\<lparr>reply_pipe := None\<rparr>"
  obtain q1 s1 r1 where a: "(if request_id_frames_enabled ?q
        then let q = ?q\<lparr>request_id := request_id ?q + 1\<rparr> in req_send_prefix io (request_id_msg (request_id q)) q s
        else Some (?q, s, Inr ())) = Some (q1, s1, r1)"
    and b: "(if r1 \<noteq> Inr () then Some (q1, s1, r1)
     else do {
       (q2, s2, r2) \<leftarrow> req_send_prefix io bottom_msg q1 s1;
       if r2 \<noteq> Inr () then Some (q2, s2, r2)
       else if reply_pipe q2 = None then None
       else do {
         (q3, s3) \<leftarrow> req_drop_all io (q2\<lparr>message_begins := False\<rparr>) s2;
         Some (q3, s3, Inr ()) } }) = Some (q', s', r)"
    using assms unfolding req_begin_def Let_def by (auto split: bind_split_asm)
  have "same_phase q0 q1"
    using a req_send_prefix_phase by (fastforce simp: Let_def split: if_splits)
  moreover have "same_phase q1 q'"
  proof (cases "r1 = Inr ()")
    case True
    then obtain q2 s2 r2 where c: "req_send_prefix io bottom_msg q1 s1 = Some (q2, s2, r2)" using b by (auto split: bind_split_asm)
    from req_send_prefix_phase[OF c] show ?thesis using b c True same_phase_trans
      by (auto split: if_splits bind_split_asm dest!: phase_pairs)
  qed (use b in auto)
  ultimately show ?thesis by (rule same_phase_trans)
qed

lemma req_xsend_phase:
  assumes "req_xsend io m q s = Some (q', s', r)" "strict q"
  shows "strict q' \<and> (if r = Inr () \<and> \<not> has_more m then \<not> receiving_reply q \<and> receiving_reply q'
           else receiving_reply q' = receiving_reply q)"
proof (cases "receiving_reply q")
  case False
  then obtain q2 s2 r2 where a: "(if message_begins q then req_begin io q s else Some (q, s, Inr ())) = Some (q2, s2, r2)"
    and b: "(if r2 \<noteq> Inr () then Some (q2, s2, r2)
        else do {
          (d, s3, r3) \<leftarrow> dealer_xsend io m (rq_dealer q2) s2;
          let q3 = q2\<lparr>rq_dealer := d\<rparr>;
          if r3 \<noteq> Inr () then Some (q3, s3, r3)
          else Some (if \<not> has_more m then q3\<lparr>receiving_reply := True, message_begins := True\<rparr> else q3, s3, Inr ()) }) = Some (q', s', r)"
    using assms unfolding req_xsend_def by (auto simp: Let_def split: bind_split_asm)
  have "same_phase q q2" using a req_begin_phase by (auto split: if_splits)
  then show ?thesis using b False assms(2) unfolding same_phase_def
    by (auto simp: Let_def split: if_splits bind_split_asm)
qed (use assms in \<open>auto simp: req_xsend_def\<close>)

lemma req_xrecv_phase:
  assumes "req_xrecv io q s = Some (q', s', r)"
  shows "strict q' = strict q \<and> (case r of Inr m \<Rightarrow> receiving_reply q \<and> receiving_reply q' = has_more m
           | Inl _ \<Rightarrow> receiving_reply q' = receiving_reply q)"
proof (cases "receiving_reply q")
  case True
  then obtain q1 s1 b where a: "req_find_reply io q s = Some (q1, s1, b)"
    using assms unfolding req_xrecv_def by (auto split: bind_split_asm)
  have "same_phase q q1" using req_find_reply_phase[OF a] by simp
  then show ?thesis using assms a True unfolding req_xrecv_def
    by (auto simp: same_phase_def split: if_splits bind_split_asm option.splits dest!: phase_pairs(1))
qed (use assms in \<open>auto simp: req_xrecv_def\<close>)

lemma req_step_alternates:
  assumes "req_step io ev (q, s) = Some (q', s', obs)" "strict q"
  shows "strict q' \<and> (\<forall>rest. alternates (receiving_reply q') rest \<longrightarrow> alternates (receiving_reply q) (obs @ rest))"
proof (cases ev)
  case (Rq_send m)
  then obtain r where "req_xsend io m q s = Some (q', s', r)" "obs = (if r = Inr () \<and> \<not> has_more m then [Request_sent] else [])"
    using assms(1) by (auto simp: req_step_def)
  then show ?thesis using req_xsend_phase[OF _ assms(2)] by (force split: if_splits)
next
  case Rq_recv
  then obtain r where "req_xrecv io q s = Some (q', s', r)"
    "obs = (case r of Inr m \<Rightarrow> if \<not> has_more m then [Reply_received] else [] | Inl _ \<Rightarrow> [])"
    using assms(1) by (auto simp: req_step_def)
  then show ?thesis using req_xrecv_phase[of io q s q' s' r] assms(2) by (auto split: sum.splits)
qed (use assms in \<open>auto simp: req_step_def upd_dealer_def req_xpipe_terminated_def req_xhas_in_def split: if_splits\<close>)

text \<open>
  Claim C23. A strict REQ socket alternates: whatever its user calls in which order, whatever its pipes do in between, and
  whether its calls succeed or not, what it sent and received completely is request, reply, request, reply,
  and so on, starting with a request. In particular a second request before the reply is never sent.
\<close>

theorem req_alternates:
  "req_run io evs (req_t random, s) = Some (q, s', obs) \<Longrightarrow> alternates False obs"
proof -
  have "req_run io evs (q0, s) = Some (q, s', obs) \<Longrightarrow> strict q0 \<Longrightarrow> alternates (receiving_reply q0) obs" for q0
  proof (induction evs arbitrary: q0 s obs)
    case (Cons ev evs)
    then obtain q1 s1 o1 o2 where a: "req_step io ev (q0, s) = Some (q1, s1, o1)"
      "req_run io evs (q1, s1) = Some (q, s', o2)" "obs = o1 @ o2"
      by (auto split: bind_split_asm)
    then show ?case using req_step_alternates[OF a(1) Cons.prems(2)] Cons.IH[OF a(2)] by blast
  qed simp
  then show "req_run io evs (req_t random, s) = Some (q, s', obs) \<Longrightarrow> alternates False obs"
    by (force simp: req_t_def)
qed

text \<open>A pipe whose peer sends every complete message back: the parts written so far, and the parts to be read.\<close>

definition echo_io :: "(msg list \<times> msg list) pipe_io" where
  "echo_io = \<lparr>
     io_read = (\<lambda>p (w, r). case r of [] \<Rightarrow> Some ((w, []), None) | m # ms \<Rightarrow> Some ((w, ms), Some m)),
     io_write = (\<lambda>p m (w, r). Some ((w @ [m], r), True)),
     io_check_read = (\<lambda>p (w, r). Some ((w, r), r \<noteq> [])),
     io_check_write = (\<lambda>p s. Some (s, True)),
     io_flush = (\<lambda>p (w, r). Some (([], r @ w))),
     io_rollback = (\<lambda>p (w, r). Some ([], r)),
     io_terminate = (\<lambda>p dly s. Some s),
     io_set_nodelay = (\<lambda>p s. s),
     io_identity = (\<lambda>p s. []),
     io_set_identity = (\<lambda>p i s. s),
     io_routing_id = (\<lambda>p s. 0),
     io_set_routing_id = (\<lambda>p r s. s),
     io_credential = (\<lambda>p s. []),
     io_check_hwm = (\<lambda>p s. True)\<rparr>"

abbreviation hello_msg :: msg where
  "hello_msg \<equiv> \<lparr>kind = Kdata, flags = 0, mdata = [104, 105]\<rparr>"

lemmas dealer_defs = dealer_t_def dealer_attach_pipe_def dealer_sendpipe_def dealer_recvpipe_def dealer_xsend_def dealer_xrecv_def
  fq_t_def lb_t_def fq_attach_def lb_attach_def lb_activated_def lb_sendpipe_def fq_activated_def
  fq_deactivate_def arr_empty_def arr_at_def arr_push_back_def arr_index_def arr_swap_def exchange_def Let_def

lemmas req_defs = req_step_def upd_dealer_def req_t_def req_xsend_def req_begin_def req_send_prefix_def req_xrecv_def
  req_first_frames_def

lemma has_more_frames [simp]:
  "has_more bottom_msg" "mdata bottom_msg = []" "\<not> has_more hello_msg"
  by (simp_all add: has_more_def bottom_msg_def)

lemma echo_simps:
  "io_read echo_io p (w, []) = Some ((w, []), None)"
  "io_read echo_io p (w, m # ms) = Some ((w, ms), Some m)"
  "io_write echo_io p m (w, r) = Some ((w @ [m], r), True)"
  "io_flush echo_io p (w, r) = Some ([], r @ w)"
  by (simp_all add: echo_io_def)

lemmas echo_eval = req_defs dealer_defs dealer_xread_activated_def echo_simps fq_recvpipe.simps lb_send_loop.simps

lemma echo_run:
  "map_option (snd \<circ> snd) (req_run echo_io [Rq_attach 0, Rq_recv, Rq_send hello_msg, Rq_send hello_msg, Rq_read_activated 0, Rq_recv, Rq_recv,
     Rq_send hello_msg] (req_t 7, ([], []))) = Some [Request_sent, Reply_received, Request_sent]"
  apply (simp add: echo_eval cong: weak_congs split del: if_split)
  apply (subst req_drop_all.simps, simp add: echo_eval cong: weak_congs split del: if_split)
  apply (subst req_find_reply.simps, simp add: echo_eval cong: weak_congs split del: if_split)
  apply (subst recv_reply_pipe.simps, simp add: echo_eval cong: weak_congs split del: if_split)
  apply (subst req_find_reply.simps, simp add: echo_eval cong: weak_congs split del: if_split)
  apply (subst recv_reply_pipe.simps, simp add: echo_eval cong: weak_congs split del: if_split)
  apply (subst req_drop_all.simps, simp add: echo_eval cong: weak_congs split del: if_split)
  done

theorem req_alternates_witness:
  "\<exists>q s. req_run echo_io [Rq_attach 0, Rq_recv, Rq_send hello_msg, Rq_send hello_msg, Rq_read_activated 0, Rq_recv, Rq_recv, Rq_send hello_msg]
     (req_t 7, ([], [])) = Some (q, s, [Request_sent, Reply_received, Request_sent]) \<and>
     alternates False [Request_sent, Reply_received, Request_sent]"
  using echo_run req_alternates by fastforce

end
