(* ===== verification/Router.thy ===== *)
theory Router
  imports Pipe_Io Wire "HOL-Library.AList"
begin

text \<open>
  Model of \<open>src/src/router.cpp\<close> and \<open>src/src/rep.cpp\<close>: the ROUTER socket, which addresses its peers by their
  identities, and the REP socket on top of it. \<open>outpipes\<close> is the routing table; anonymous pipes have not sent
  their identity yet. \<open>None\<close> is a failed assertion, or a loop over received messages that pipes which never
  run dry keep from ending.
\<close>

section \<open>ROUTER\<close>

record outpipe =
  op_pipe :: nat
  op_active :: bool

record router =
  ro_fq :: fq
  prefetched :: bool
  identity_sent :: bool
  prefetched_id :: msg
  prefetched_msg :: msg
  current_in :: "nat option"
  terminate_current_in :: bool
  more_in :: bool
  anonymous_pipes :: "nat set"
  outpipes :: "(byte list \<times> outpipe) list"
  current_out :: "nat option"
  more_out :: bool
  next_rid :: "32 word"
  connect_rid :: "byte list"
  mandatory :: bool
  raw_socket :: bool
  opt_raw_socket :: bool
  ro_probe_router :: bool
  handover :: bool

definition router_t :: "32 word \<Rightarrow> router" where
  "router_t random = \<lparr>ro_fq = fq_t, prefetched = False, identity_sent = False, prefetched_id = empty_msg, prefetched_msg = empty_msg,
     current_in = None, terminate_current_in = False, more_in = False, anonymous_pipes = {}, outpipes = [], current_out = None,
     more_out = False, next_rid = random, connect_rid = [], mandatory = False, raw_socket = False, opt_raw_socket = False,
     ro_probe_router = False, handover = False\<rparr>"

datatype router_option = Opt_connect_rid | Opt_router_raw | Opt_router_mandatory | Opt_probe_router | Opt_router_handover | Opt_unknown

definition router_setsockopt :: "router_option \<Rightarrow> byte list \<Rightarrow> router \<Rightarrow> router \<times> unit result" where
  "router_setsockopt opt v r =
     (let flag = (case int_value v of Some n \<Rightarrow> if n \<ge> 0 then Some (n \<noteq> 0) else None | None \<Rightarrow> None) in
      case (opt, flag) of
        (Opt_connect_rid, _) \<Rightarrow> if v \<noteq> [] then (r\<lparr>connect_rid := v\<rparr>, Inr ()) else (r, Inl EINVAL)
      | (Opt_router_raw, Some b) \<Rightarrow> (r\<lparr>raw_socket := b, opt_raw_socket := (b \<or> opt_raw_socket r)\<rparr>, Inr ())
      | (Opt_router_mandatory, Some b) \<Rightarrow> (r\<lparr>mandatory := b\<rparr>, Inr ())
      | (Opt_probe_router, Some b) \<Rightarrow> (r\<lparr>ro_probe_router := b\<rparr>, Inr ())
      | (Opt_router_handover, Some b) \<Rightarrow> (r\<lparr>handover := b\<rparr>, Inr ())
      | _ \<Rightarrow> (r, Inl EINVAL))"

text \<open>The identity \<open>buf\<close> made of the next routing id.\<close>

definition generated_identity :: "router \<Rightarrow> byte list" where
  "generated_identity r = 0 # put_uint32 (next_rid r)"

text \<open>\<open>outpipes.insert\<close>, whose success is asserted.\<close>

definition outpipes_insert :: "byte list \<Rightarrow> outpipe \<Rightarrow> router \<Rightarrow> router option" where
  "outpipes_insert i e r = (if map_of (outpipes r) i = None then Some (r\<lparr>outpipes := (i, e) # outpipes r\<rparr>) else None)"

text \<open>A peer with an identity in use: the pipe that has it gets another one and is terminated.\<close>

definition take_over :: "'s pipe_io \<Rightarrow> byte list \<Rightarrow> outpipe \<Rightarrow> router \<Rightarrow> 's \<Rightarrow> (router \<times> 's) option" where
  "take_over io i e r s = do {
     let new_identity = generated_identity r;
     let s1 = io_set_identity io (op_pipe e) new_identity s;
     r1 \<leftarrow> outpipes_insert new_identity e (r\<lparr>next_rid := next_rid r + 1\<rparr>);
     let r2 = r1\<lparr>outpipes := AList.delete i (outpipes r1)\<rparr>;
     if current_in r2 = Some (op_pipe e) then Some (r2\<lparr>terminate_current_in := True\<rparr>, s1)
     else map_option (\<lambda>s2. (r2, s2)) (io_terminate io (op_pipe e) True s1) }"

text \<open>The identity of a new peer, \<open>None\<close> when it is not known yet or ignored.\<close>

definition choose_identity :: "'s pipe_io \<Rightarrow> nat \<Rightarrow> router \<Rightarrow> 's \<Rightarrow> (router \<times> 's \<times> byte list option) option" where
  "choose_identity io p r s =
     (if connect_rid r \<noteq> [] then
        if map_of (outpipes r) (connect_rid r) \<noteq> None then None else Some (r\<lparr>connect_rid := []\<rparr>, s, Some (connect_rid r))
      else if opt_raw_socket r then Some (r\<lparr>next_rid := next_rid r + 1\<rparr>, s, Some (generated_identity r))
      else do {
        (s1, m) \<leftarrow> io_read io p s;
        (case m of
           None \<Rightarrow> Some (r, s1, None)
         | Some m \<Rightarrow>
             if mdata m = [] then Some (r\<lparr>next_rid := next_rid r + 1\<rparr>, s1, Some (generated_identity r))
             else (case map_of (outpipes r) (mdata m) of
                 None \<Rightarrow> Some (r, s1, Some (mdata m))
               | Some e \<Rightarrow>
                   if \<not> handover r then Some (r, s1, None)
                   else map_option (\<lambda>(r2, s2). (r2, s2, Some (mdata m))) (take_over io (mdata m) e r s1))) })"

definition identify_peer :: "'s pipe_io \<Rightarrow> nat \<Rightarrow> router \<Rightarrow> 's \<Rightarrow> (router \<times> 's \<times> bool) option" where
  "identify_peer io p r s = do {
     (r1, s1, i) \<leftarrow> choose_identity io p r s;
     (case i of
        None \<Rightarrow> Some (r1, s1, False)
      | Some i \<Rightarrow> map_option (\<lambda>r2. (r2, io_set_identity io p i s1, True)) (outpipes_insert i \<lparr>op_pipe = p, op_active = True\<rparr> r1)) }"

definition router_attach_pipe :: "'s pipe_io \<Rightarrow> nat \<Rightarrow> router \<Rightarrow> 's \<Rightarrow> (router \<times> 's) option" where
  "router_attach_pipe io p r s = do {
     s1 \<leftarrow> (if ro_probe_router r then do { (s1, _) \<leftarrow> io_write io p empty_msg s; io_flush io p s1 } else Some s);
     (r1, s2, ok) \<leftarrow> identify_peer io p r s1;
     if ok then map_option (\<lambda>f. (r1\<lparr>ro_fq := f\<rparr>, s2)) (fq_attach p (ro_fq r1))
     else Some (r1\<lparr>anonymous_pipes := insert p (anonymous_pipes r1)\<rparr>, s2) }"

definition router_xpipe_terminated :: "'s pipe_io \<Rightarrow> nat \<Rightarrow> router \<Rightarrow> 's \<Rightarrow> router option" where
  "router_xpipe_terminated io p r s =
     (if p \<in> anonymous_pipes r then Some (r\<lparr>anonymous_pipes := anonymous_pipes r - {p}\<rparr>)
      else if map_of (outpipes r) (io_identity io p s) = None then None
      else do {
        f \<leftarrow> fq_pipe_terminated (\<lambda>q. io_credential io q s) p (ro_fq r);
        Some (r\<lparr>ro_fq := f, outpipes := AList.delete (io_identity io p s) (outpipes r),
                current_out := (if current_out r = Some p then None else current_out r)\<rparr>) })"

definition router_xread_activated :: "'s pipe_io \<Rightarrow> nat \<Rightarrow> router \<Rightarrow> 's \<Rightarrow> (router \<times> 's) option" where
  "router_xread_activated io p r s =
     (if p \<notin> anonymous_pipes r then map_option (\<lambda>f. (r\<lparr>ro_fq := f\<rparr>, s)) (fq_activated p (ro_fq r))
      else do {
        (r1, s1, ok) \<leftarrow> identify_peer io p r s;
        if ok then map_option (\<lambda>f. (r1\<lparr>anonymous_pipes := anonymous_pipes r1 - {p}, ro_fq := f\<rparr>, s1)) (fq_attach p (ro_fq r1))
        else Some (r1, s1) })"

text \<open>At most one entry has the pipe, so that the order in which the table is searched has no effect.\<close>

definition router_xwrite_activated :: "nat \<Rightarrow> router \<Rightarrow> router option" where
  "router_xwrite_activated p r =
     (case find (\<lambda>(i, e). op_pipe e = p) (outpipes r) of
        None \<Rightarrow> None
      | Some (i, e) \<Rightarrow> if op_active e then None else Some (r\<lparr>outpipes := AList.update i (e\<lparr>op_active := True\<rparr>) (outpipes r)\<rparr>))"

text \<open>The first part of a message, the identity of its receiver.\<close>

definition router_address :: "'s pipe_io \<Rightarrow> msg \<Rightarrow> router \<Rightarrow> 's \<Rightarrow> (router \<times> 's \<times> unit result) option" where
  "router_address io m r s =
     (case map_of (outpipes r) (mdata m) of
        None \<Rightarrow> Some (if mandatory r then (r, s, Inl EHOSTUNREACH) else (r\<lparr>more_out := True\<rparr>, s, Inr ()))
      | Some e \<Rightarrow> do {
          (s1, ok) \<leftarrow> io_check_write io (op_pipe e) s;
          Some (if ok then (r\<lparr>more_out := True, current_out := Some (op_pipe e)\<rparr>, s1, Inr ())
                else let r1 = r\<lparr>outpipes := AList.update (mdata m) (e\<lparr>op_active := False\<rparr>) (outpipes r)\<rparr> in
                  if mandatory r then (r1, s1, Inl EAGAIN) else (r1\<lparr>more_out := True\<rparr>, s1, Inr ())) })"

text \<open>Any other part.\<close>

definition router_send_part :: "'s pipe_io \<Rightarrow> msg \<Rightarrow> router \<Rightarrow> 's \<Rightarrow> (router \<times> 's) option" where
  "router_send_part io m0 r0 s =
     (let m = (if opt_raw_socket r0 then m0\<lparr>flags := flags m0 AND NOT flag_more\<rparr> else m0);
          r = r0\<lparr>more_out := has_more m\<rparr>
      in case current_out r of
           None \<Rightarrow> Some (r, s)
         | Some p \<Rightarrow>
             if raw_socket r \<and> mdata m = [] then map_option (\<lambda>s1. (r\<lparr>current_out := None\<rparr>, s1)) (io_terminate io p False s)
             else do {
               (s1, ok) \<leftarrow> io_write io p m s;
               if \<not> ok then Some (r\<lparr>current_out := None\<rparr>, s1)
               else if \<not> has_more m then map_option (\<lambda>s2. (r\<lparr>current_out := None\<rparr>, s2)) (io_flush io p s1)
               else Some (r, s1) })"

definition router_xsend :: "'s pipe_io \<Rightarrow> msg \<Rightarrow> router \<Rightarrow> 's \<Rightarrow> (router \<times> 's \<times> unit result) option" where
  "router_xsend io m r s =
     (if \<not> more_out r then
        if current_out r \<noteq> None then None
        else if has_more m then router_address io m r s
        else Some (r, s, Inr ())
      else map_option (\<lambda>(r1, s1). (r1, s1, Inr ())) (router_send_part io m r s))"

text \<open>The end of a message: \<open>more_in\<close> is cleared, and the pipe is terminated if its peer was replaced.\<close>

definition router_part_received :: "'s pipe_io \<Rightarrow> msg \<Rightarrow> router \<Rightarrow> 's \<Rightarrow> (router \<times> 's) option" where
  "router_part_received io m r s =
     (let r1 = r\<lparr>more_in := has_more m\<rparr> in
      if has_more m then Some (r1, s)
      else if terminate_current_in r then do {
        p \<leftarrow> current_in r;
        s1 \<leftarrow> io_terminate io p True s;
        Some (r1\<lparr>terminate_current_in := False, current_in := None\<rparr>, s1) }
      else Some (r1\<lparr>current_in := None\<rparr>, s))"

text \<open>Reading past the identities that peers send after a reconnection.\<close>

partial_function (option) router_recvpipe :: "'s pipe_io \<Rightarrow> fq \<Rightarrow> 's \<Rightarrow> (fq \<times> 's \<times> (msg \<times> nat) option) option" where
  "router_recvpipe io f s =
     Option.bind (fq_recvpipe (io_read io) f s) (\<lambda>(f1, s1, x).
       case x of
         None \<Rightarrow> Some (f1, s1, None)
       | Some mp \<Rightarrow> if has_identity (fst mp) then router_recvpipe io f1 s1 else Some (f1, s1, Some mp))"

definition identity_frame :: "'s pipe_io \<Rightarrow> nat \<Rightarrow> 's \<Rightarrow> msg" where
  "identity_frame io p s = \<lparr>kind = Kdata, flags = flag_more, mdata = io_identity io p s\<rparr>"

definition router_xrecv :: "'s pipe_io \<Rightarrow> router \<Rightarrow> 's \<Rightarrow> (router \<times> 's \<times> msg option) option" where
  "router_xrecv io r s =
     (if prefetched r then
        let (m, r1) = (if \<not> identity_sent r then (prefetched_id r, r\<lparr>prefetched_id := empty_msg, identity_sent := True\<rparr>)
                       else (prefetched_msg r, r\<lparr>prefetched_msg := empty_msg, prefetched := False\<rparr>))
        in map_option (\<lambda>(r2, s2). (r2, s2, Some m)) (router_part_received io m r1 s)
      else do {
        (f, s1, x) \<leftarrow> router_recvpipe io (ro_fq r) s;
        let r1 = r\<lparr>ro_fq := f\<rparr>;
        (case x of
           None \<Rightarrow> Some (r1, s1, None)
         | Some (m, p) \<Rightarrow>
             if more_in r1 then map_option (\<lambda>(r2, s2). (r2, s2, Some m)) (router_part_received io m r1 s1)
             else Some (r1\<lparr>prefetched_msg := m, prefetched := True, current_in := Some p, identity_sent := True\<rparr>, s1,
                    Some (identity_frame io p s1))) })"

definition router_rollback :: "'s pipe_io \<Rightarrow> router \<Rightarrow> 's \<Rightarrow> (router \<times> 's) option" where
  "router_rollback io r s =
     (case current_out r of
        None \<Rightarrow> Some (r, s)
      | Some p \<Rightarrow> map_option (\<lambda>s1. (r\<lparr>current_out := None, more_out := False\<rparr>, s1)) (io_rollback io p s))"

definition router_xhas_in :: "'s pipe_io \<Rightarrow> router \<Rightarrow> 's \<Rightarrow> (router \<times> 's \<times> bool) option" where
  "router_xhas_in io r s =
     (if more_in r \<or> prefetched r then Some (r, s, True)
      else do {
        (f, s1, x) \<leftarrow> router_recvpipe io (ro_fq r) s;
        let r1 = r\<lparr>ro_fq := f\<rparr>;
        (case x of
           None \<Rightarrow> Some (r1, s1, False)
         | Some (m, p) \<Rightarrow>
             Some (r1\<lparr>prefetched_msg := m, prefetched_id := identity_frame io p s1, prefetched := True, identity_sent := False,
                      current_in := Some p\<rparr>, s1, True)) })"

definition router_xhas_out :: "router \<Rightarrow> bool" where
  "router_xhas_out r = True"

definition router_get_credential :: "'s pipe_io \<Rightarrow> router \<Rightarrow> 's \<Rightarrow> byte list" where
  "router_get_credential io r s = fq_get_credential (\<lambda>q. io_credential io q s) (ro_fq r)"

section \<open>REP\<close>

record rep =
  rp_router :: router
  sending_reply :: bool
  request_begins :: bool

definition rep_t :: "32 word \<Rightarrow> rep" where
  "rep_t random = \<lparr>rp_router = router_t random, sending_reply = False, request_begins = True\<rparr>"

definition rep_xsend :: "'s pipe_io \<Rightarrow> msg \<Rightarrow> rep \<Rightarrow> 's \<Rightarrow> (rep \<times> 's \<times> unit result) option" where
  "rep_xsend io m q s =
     (if \<not> sending_reply q then Some (q, s, Inl EFSM)
      else do {
        (r, s1, x) \<leftarrow> router_xsend io m (rp_router q) s;
        let q1 = q\<lparr>rp_router := r\<rparr>;
        Some (if x = Inr () \<and> \<not> has_more m then q1\<lparr>sending_reply := False\<rparr> else q1, s1, x) })"

text \<open>The loop that copies the labels of a request to the reply pipe, up to the empty part below them.\<close>

partial_function (option) rep_labels :: "'s pipe_io \<Rightarrow> router \<Rightarrow> 's \<Rightarrow> (router \<times> 's \<times> bool) option" where
  "rep_labels io r s =
     Option.bind (router_xrecv io r s) (\<lambda>(r1, s1, x).
       case x of
         None \<Rightarrow> Some (r1, s1, False)
       | Some m \<Rightarrow>
           if has_more m then
             Option.bind (router_xsend io m r1 s1) (\<lambda>(r2, s2, y).
               if y \<noteq> Inr () then None
               else if mdata m = [] then Some (r2, s2, True) else rep_labels io r2 s2)
           else Option.bind (router_rollback io r1 s1) (\<lambda>(r2, s2). rep_labels io r2 s2))"

definition rep_xrecv :: "'s pipe_io \<Rightarrow> rep \<Rightarrow> 's \<Rightarrow> (rep \<times> 's \<times> msg result) option" where
  "rep_xrecv io q s =
     (if sending_reply q then Some (q, s, Inl EFSM)
      else do {
        (r, s1, ok) \<leftarrow> (if request_begins q then rep_labels io (rp_router q) s else Some (rp_router q, s, True));
        if \<not> ok then Some (q\<lparr>rp_router := r\<rparr>, s1, Inl EAGAIN)
        else do {
          (r2, s2, x) \<leftarrow> router_xrecv io r s1;
          let q1 = q\<lparr>rp_router := r2, request_begins := False\<rparr>;
          (case x of
             None \<Rightarrow> Some (q1, s2, Inl EAGAIN)
           | Some m \<Rightarrow> Some (if \<not> has_more m then q1\<lparr>sending_reply := True, request_begins := True\<rparr> else q1, s2, Inr m)) } })"

definition rep_xhas_in :: "'s pipe_io \<Rightarrow> rep \<Rightarrow> 's \<Rightarrow> (rep \<times> 's \<times> bool) option" where
  "rep_xhas_in io q s =
     (if sending_reply q then Some (q, s, False)
      else map_option (\<lambda>(r, s1, b). (q\<lparr>rp_router := r\<rparr>, s1, b)) (router_xhas_in io (rp_router q) s))"

definition rep_xhas_out :: "rep \<Rightarrow> bool" where
  "rep_xhas_out q = (sending_reply q \<and> router_xhas_out (rp_router q))"

section \<open>The routing table\<close>

definition table_ok :: "'s pipe_io \<Rightarrow> (nat \<Rightarrow> 's \<Rightarrow> bool) \<Rightarrow> nat set \<Rightarrow> router \<Rightarrow> 's \<Rightarrow> bool" where
  "table_ok io has P r s \<longleftrightarrow> distinct (map fst (outpipes r)) \<and>
     (\<forall>i e. map_of (outpipes r) i = Some e \<longrightarrow> has (op_pipe e) s \<and> io_identity io (op_pipe e) s = i \<and> op_pipe e \<in> P) \<and>
     (\<forall>p\<in>P. \<exists>e. map_of (outpipes r) (io_identity io p s) = Some e \<and> op_pipe e = p)"

definition attached :: "router \<Rightarrow> nat set" where
  "attached r = fq_members (ro_fq r) \<union> anonymous_pipes r"

definition router_ok :: "'s pipe_io \<Rightarrow> (nat \<Rightarrow> 's \<Rightarrow> bool) \<Rightarrow> router \<Rightarrow> 's \<Rightarrow> bool" where
  "router_ok io has r s \<longleftrightarrow> fq_ok (ro_fq r) \<and> table_ok io has (fq_members (ro_fq r)) r s \<and>
     fq_members (ro_fq r) \<inter> anonymous_pipes r = {} \<and> (\<forall>p\<in>anonymous_pipes r. has p s) \<and>
     (current_out r \<noteq> None \<longrightarrow> more_out r) \<and> (raw_socket r \<longrightarrow> opt_raw_socket r)"

text \<open>What identifying a peer leaves alone.\<close>

definition same_traffic :: "router \<Rightarrow> router \<Rightarrow> bool" where
  "same_traffic r r' \<longleftrightarrow> ro_fq r' = ro_fq r \<and> anonymous_pipes r' = anonymous_pipes r \<and> current_out r' = current_out r \<and>
     more_out r' = more_out r \<and> raw_socket r' = raw_socket r \<and> opt_raw_socket r' = opt_raw_socket r \<and> ro_probe_router r' = ro_probe_router r"

lemma table_okI:
  assumes "distinct (map fst (outpipes r))"
    "\<And>i e. map_of (outpipes r) i = Some e \<Longrightarrow> has (op_pipe e) s \<and> io_identity io (op_pipe e) s = i \<and> op_pipe e \<in> P"
    "\<And>p. p \<in> P \<Longrightarrow> \<exists>e. map_of (outpipes r) (io_identity io p s) = Some e \<and> op_pipe e = p"
  shows "table_ok io has P r s"
  unfolding table_ok_def using assms by blast

lemma table_distinct: "table_ok io has P r s \<Longrightarrow> distinct (map fst (outpipes r))"
  unfolding table_ok_def by blast

lemma table_lookup:
  "table_ok io has P r s \<Longrightarrow> map_of (outpipes r) i = Some e \<Longrightarrow> has (op_pipe e) s \<and> io_identity io (op_pipe e) s = i \<and> op_pipe e \<in> P"
  unfolding table_ok_def by blast

lemma table_member:
  assumes "table_ok io has P r s" "p \<in> P"
  obtains e where "map_of (outpipes r) (io_identity io p s) = Some e" "op_pipe e = p" "has p s"
proof -
  obtain e where e: "map_of (outpipes r) (io_identity io p s) = Some e" "op_pipe e = p"
    using assms unfolding table_ok_def by blast
  with table_lookup[OF assms(1) e(1)] that show thesis by blast
qed

lemma table_unique:
  assumes "table_ok io has P r s" "p \<in> P" "q \<in> P" "io_identity io p s = io_identity io q s"
  shows "p = q"
proof -
  obtain e d where "map_of (outpipes r) (io_identity io p s) = Some e" "op_pipe e = p"
    "map_of (outpipes r) (io_identity io q s) = Some d" "op_pipe d = q"
    using table_member[OF assms(1,2)] table_member[OF assms(1,3)] by metis
  then show ?thesis using assms(4) by simp
qed

lemma table_ok_ids:
  assumes t: "table_ok io has P r s" and same: "\<forall>p\<in>P. has p s' \<and> io_identity io p s' = io_identity io p s"
    and o: "outpipes r' = outpipes r"
  shows "table_ok io has P r' s'"
proof (rule table_okI, unfold o)
  fix i e assume "map_of (outpipes r) i = Some e"
  with table_lookup[OF t this] same show "has (op_pipe e) s' \<and> io_identity io (op_pipe e) s' = i \<and> op_pipe e \<in> P" by metis
next
  fix p assume p: "p \<in> P"
  obtain e where "map_of (outpipes r) (io_identity io p s) = Some e" "op_pipe e = p" by (rule table_member[OF t p])
  then show "\<exists>e. map_of (outpipes r) (io_identity io p s') = Some e \<and> op_pipe e = p" using same p by metis
qed (rule table_distinct[OF t])

lemma table_insert:
  assumes t: "table_ok io has P r s" and i: "outpipes_insert i e r = Some r'" "has (op_pipe e) s" "io_identity io (op_pipe e) s = i"
  shows "table_ok io has (insert (op_pipe e) P) r' s"
proof -
  have o: "outpipes r' = (i, e) # outpipes r" "map_of (outpipes r) i = None"
    using i(1) by (auto simp: outpipes_insert_def split: if_splits)
  show ?thesis
  proof (rule table_okI)
    show "distinct (map fst (outpipes r'))" using table_distinct[OF t] o by (simp add: map_of_eq_None_iff)
  next
    fix j d assume "map_of (outpipes r') j = Some d"
    then show "has (op_pipe d) s \<and> io_identity io (op_pipe d) s = j \<and> op_pipe d \<in> insert (op_pipe e) P"
      using table_lookup[OF t, of j d] i o(1) by (cases "j = i") auto
  next
    fix p assume "p \<in> insert (op_pipe e) P"
    then consider "p = op_pipe e" | "p \<in> P" by blast
    then show "\<exists>d. map_of (outpipes r') (io_identity io p s) = Some d \<and> op_pipe d = p"
    proof cases
      case 1 then show ?thesis using o i by simp
    next
      case 2
      obtain d where d: "map_of (outpipes r) (io_identity io p s) = Some d" "op_pipe d = p" by (rule table_member[OF t 2])
      then have "io_identity io p s \<noteq> i" using o(2) by auto
      then show ?thesis using o(1) d by simp
    qed
  qed
qed

lemma table_delete:
  assumes t: "table_ok io has P r s" and p: "p \<in> P" and r': "outpipes r' = AList.delete (io_identity io p s) (outpipes r)"
  shows "table_ok io has (P - {p}) r' s"
proof (rule table_okI)
  show "distinct (map fst (outpipes r'))" unfolding r' by (rule distinct_delete[OF table_distinct[OF t]])
next
  fix i e assume "map_of (outpipes r') i = Some e"
  then have "i \<noteq> io_identity io p s" "map_of (outpipes r) i = Some e" unfolding r' by (auto simp: delete_conv' split: if_splits)
  with table_lookup[OF t this(2)] show "has (op_pipe e) s \<and> io_identity io (op_pipe e) s = i \<and> op_pipe e \<in> P - {p}" by blast
next
  fix q assume q: "q \<in> P - {p}"
  then have "io_identity io q s \<noteq> io_identity io p s" using table_unique[OF t _ p] by blast
  moreover obtain e where "map_of (outpipes r) (io_identity io q s) = Some e" "op_pipe e = q" using table_member[OF t] q by blast
  ultimately show "\<exists>e. map_of (outpipes r') (io_identity io q s) = Some e \<and> op_pipe e = q" unfolding r' by (simp add: delete_conv')
qed

lemma table_update:
  assumes t: "table_ok io has P r s" and e: "map_of (outpipes r) i = Some e" "op_pipe e' = op_pipe e"
    and r': "outpipes r' = AList.update i e' (outpipes r)"
  shows "table_ok io has P r' s"
proof (rule table_okI)
  show "distinct (map fst (outpipes r'))" unfolding r' by (rule distinct_update[OF table_distinct[OF t]])
next
  fix j d assume "map_of (outpipes r') j = Some d"
  then show "has (op_pipe d) s \<and> io_identity io (op_pipe d) s = j \<and> op_pipe d \<in> P"
    using table_lookup[OF t e(1)] table_lookup[OF t, of j d] e(2) unfolding r' by (cases "j = i") (auto simp: update_conv')
next
  fix p assume "p \<in> P"
  then obtain d where "map_of (outpipes r) (io_identity io p s) = Some d" "op_pipe d = p" by (rule table_member[OF t])
  then show "\<exists>d. map_of (outpipes r') (io_identity io p s) = Some d \<and> op_pipe d = p" using e unfolding r' by (auto simp: update_conv')
qed

lemma same_traffic_trans: "same_traffic r r1 \<Longrightarrow> same_traffic r1 r2 \<Longrightarrow> same_traffic r r2"
  by (simp add: same_traffic_def)

lemma insert_traffic:
  "outpipes_insert i e r = Some r' \<Longrightarrow> same_traffic r r' \<and> outpipes r' = (i, e) # outpipes r \<and> map_of (outpipes r) i = None \<and>
    current_in r' = current_in r"
  by (auto simp: outpipes_insert_def same_traffic_def split: if_splits)

text \<open>An operation on the pipes in which none of them disappears.\<close>

definition keeps_pipes :: "(nat \<Rightarrow> 's \<Rightarrow> bool) \<Rightarrow> 's \<Rightarrow> 's \<Rightarrow> bool" where
  "keeps_pipes has s s' \<longleftrightarrow> (\<forall>q. has q s \<longrightarrow> has q s')"

lemma keeps_pipes_refl [simp]: "keeps_pipes has s s" and
  keeps_pipes_trans: "keeps_pipes has s s1 \<Longrightarrow> keeps_pipes has s1 s2 \<Longrightarrow> keeps_pipes has s s2" and
  same_identities_keeps: "same_identities io has s s' \<Longrightarrow> keeps_pipes has s s'"
  by (auto simp: keeps_pipes_def same_identities_def)

lemma table_ok_same:
  assumes "table_ok io has P r s" "same_identities io has s s'" "outpipes r' = outpipes r"
  shows "table_ok io has P r' s'"
proof (rule table_ok_ids[OF assms(1) _ assms(3)], rule ballI)
  fix p assume "p \<in> P"
  from table_member[OF assms(1) this] assms(2) show "has p s' \<and> io_identity io p s' = io_identity io p s"
    unfolding same_identities_def by metis
qed

context identified_pipes
begin

lemma take_over_table:
  assumes t: "table_ok io has P r s" and i: "map_of (outpipes r) i = Some e" and run: "take_over io i e r s = Some (r', s')"
  shows "table_ok io has P r' s' \<and> same_traffic r r' \<and> keeps_pipes has s s'"
proof -
  let ?new = "generated_identity r" and ?p = "op_pipe e"
  let ?s1 = "io_set_identity io ?p ?new s"
  obtain r1 where r1: "outpipes_insert ?new e (r\<lparr>next_rid := next_rid r + 1\<rparr>) = Some r1"
    using run by (auto simp: take_over_def Let_def split: bind_splits)
  let ?r2 = "r1\<lparr>outpipes := AList.delete i (outpipes r1)\<rparr>"
  note o1 = insert_traffic[OF r1]
  have hp: "has ?p s" "io_identity io ?p s = i" "?p \<in> P" using table_lookup[OF t i] by auto
  have new: "?new \<noteq> i" "map_of (outpipes r) ?new = None" using o1 i by auto
  have ids: "has q s \<Longrightarrow> has q ?s1 \<and> io_identity io q ?s1 = (if q = ?p then ?new else io_identity io q s)" for q
    by (rule set_identity_ids[OF hp(1)])
  have tab: "table_ok io has P ?r2 ?s1"
  proof (rule table_okI)
    have "distinct (map fst (outpipes r1))" using o1 table_distinct[OF t] by (simp add: map_of_eq_None_iff)
    then show "distinct (map fst (outpipes ?r2))" using distinct_delete by simp
  next
    fix j d assume "map_of (outpipes ?r2) j = Some d"
    then have j: "j \<noteq> i" "j = ?new \<and> d = e \<or> map_of (outpipes r) j = Some d" using o1 by (auto simp: delete_conv' split: if_splits)
    show "has (op_pipe d) ?s1 \<and> io_identity io (op_pipe d) ?s1 = j \<and> op_pipe d \<in> P"
    proof (cases "j = ?new \<and> d = e")
      case True
      then show ?thesis using ids[OF hp(1)] hp(3) by auto
    next
      case False
      then have d: "has (op_pipe d) s" "io_identity io (op_pipe d) s = j" "op_pipe d \<in> P" using table_lookup[OF t, of j d] j(2) by auto
      then have "op_pipe d \<noteq> ?p" using j(1) hp(2) by metis
      with ids[OF d(1)] d show ?thesis by auto
    qed
  next
    fix p assume p: "p \<in> P"
    show "\<exists>d. map_of (outpipes ?r2) (io_identity io p ?s1) = Some d \<and> op_pipe d = p"
    proof (cases "p = ?p")
      case True
      then show ?thesis using ids[OF hp(1)] o1 new(1) by (auto simp: delete_conv')
    next
      case False
      obtain d where d: "map_of (outpipes r) (io_identity io p s) = Some d" "op_pipe d = p" "has p s" by (rule table_member[OF t p])
      have "io_identity io p s \<noteq> i" using table_unique[OF t p hp(3)] False hp(2) by auto
      moreover have "io_identity io p s \<noteq> ?new" using d(1) new(2) by auto
      ultimately show ?thesis using ids[OF d(3)] False d o1 by (auto simp: delete_conv')
    qed
  qed
  have tr: "same_traffic r ?r2" using o1 by (simp add: same_traffic_def)
  have k: "keeps_pipes has s ?s1" using ids by (simp add: keeps_pipes_def)
  show ?thesis
  proof (cases "current_in ?r2 = Some ?p")
    case True
    then have "r' = ?r2\<lparr>terminate_current_in := True\<rparr>" "s' = ?s1" using run r1 by (simp_all add: take_over_def Let_def)
    then show ?thesis using table_ok_same[OF tab same_identities_refl] tr k by (simp add: same_traffic_def)
  next
    case False
    then obtain "r' = ?r2" "io_terminate io ?p True ?s1 = Some s'" using run r1 by (auto simp: take_over_def Let_def)
    then show ?thesis using table_ok_same[OF tab terminate_ids] tr k keeps_pipes_trans same_identities_keeps terminate_ids by metis
  qed
qed

lemma choose_identity_table:
  assumes t: "table_ok io has P r s" and run: "choose_identity io p r s = Some (r', s', i)"
  shows "table_ok io has P r' s' \<and> same_traffic r r' \<and> keeps_pipes has s s'"
proof (cases "connect_rid r \<noteq> [] \<or> opt_raw_socket r")
  case True
  then have "outpipes r' = outpipes r" "s' = s" "same_traffic r r'"
    using run by (auto simp: choose_identity_def same_traffic_def split: if_splits)
  then show ?thesis using table_ok_same[OF t same_identities_refl] by simp
next
  case False
  then obtain s1 m where m: "io_read io p s = Some (s1, m)" using run by (auto simp: choose_identity_def split: bind_splits)
  note t1 = table_ok_same[OF t read_ids[OF m]] and k1 = same_identities_keeps[OF read_ids[OF m]]
  show ?thesis
  proof (cases "\<exists>x e. m = Some x \<and> mdata x \<noteq> [] \<and> map_of (outpipes r) (mdata x) = Some e \<and> handover r")
    case True
    then obtain x e where x: "m = Some x" "mdata x \<noteq> []" "map_of (outpipes r) (mdata x) = Some e" "handover r" by blast
    have "map_option (\<lambda>(r2, s2). (r2, s2, Some (mdata x))) (take_over io (mdata x) e r s1) = Some (r', s', i)"
      using run False m x by (simp add: choose_identity_def)
    then have "take_over io (mdata x) e r s1 = Some (r', s')" by (cases "take_over io (mdata x) e r s1") auto
    from take_over_table[OF t1[OF HOL.refl] x(3) this] show ?thesis using keeps_pipes_trans[OF k1] by simp
  next
    case no: False
    then have "outpipes r' = outpipes r" "s' = s1" "same_traffic r r'"
      using run False m by (auto simp: choose_identity_def same_traffic_def split: option.splits if_splits)
    then show ?thesis using t1 k1 by simp
  qed
qed

lemma identify_peer_table:
  assumes t: "table_ok io has P r s" and p: "has p s" "p \<notin> P" and run: "identify_peer io p r s = Some (r', s', b)"
  shows "table_ok io has (if b then insert p P else P) r' s' \<and> same_traffic r r' \<and> keeps_pipes has s s'"
proof -
  obtain r1 s1 x where x: "choose_identity io p r s = Some (r1, s1, x)" using run by (auto simp: identify_peer_def split: bind_splits)
  note c = choose_identity_table[OF t x]
  show ?thesis
  proof (cases x)
    case None
    then show ?thesis using run x c by (auto simp: identify_peer_def)
  next
    case (Some i)
    then have s': "outpipes_insert i \<lparr>op_pipe = p, op_active = True\<rparr> r1 = Some r'" "s' = io_set_identity io p i s1" "b"
      using run x by (auto simp: identify_peer_def)
    have h: "has p s1" using c p(1) by (simp add: keeps_pipes_def)
    note ids = set_identity_ids[OF h, of _ i]
    have "\<forall>q\<in>P. has q s' \<and> io_identity io q s' = io_identity io q s1"
    proof
      fix q assume q: "q \<in> P"
      then have "has q s1" using table_member[of io has P r1 s1 q] c by blast
      with ids[OF this] q p(2) show "has q s' \<and> io_identity io q s' = io_identity io q s1" unfolding s' by auto
    qed
    then have t1: "table_ok io has P r1 s'" using table_ok_ids[of io has P r1 s1 s' r1] c by blast
    have "table_ok io has (insert p P) r' s'"
      using table_insert[OF t1 s'(1)] ids[OF h] unfolding s'(2) by simp
    moreover have "keeps_pipes has s1 s'" using ids unfolding s' by (simp add: keeps_pipes_def)
    moreover have "same_traffic r r'" using c insert_traffic[OF s'(1)] same_traffic_trans by blast
    ultimately show ?thesis using c s'(3) by (auto intro: keeps_pipes_trans)
  qed
qed

end

section \<open>Every call keeps the table\<close>

text \<open>
  What happens to a ROUTER socket. A pipe is attached once; the pipes report being readable only after they were not
  (\<open>pipe_t::process_activate_read\<close>), and exist until they reported their termination; apart from that
  they change in any way that keeps the identities.
\<close>

inductive router_step :: "'s pipe_io \<Rightarrow> (nat \<Rightarrow> 's \<Rightarrow> bool) \<Rightarrow> router \<times> 's \<Rightarrow> router \<times> 's \<Rightarrow> bool" for io has where
  attach: "p \<notin> attached r \<Longrightarrow> has p s \<Longrightarrow> router_attach_pipe io p r s = Some (r', s') \<Longrightarrow> router_step io has (r, s) (r', s')"
| terminated: "p \<in> attached r \<Longrightarrow> router_xpipe_terminated io p r s = Some r' \<Longrightarrow> router_step io has (r, s) (r', s)"
| read_activated: "p \<in> anonymous_pipes r \<or> p \<in> fq_members (ro_fq r) - fq_actives (ro_fq r) \<Longrightarrow>
    router_xread_activated io p r s = Some (r', s') \<Longrightarrow> router_step io has (r, s) (r', s')"
| write_activated: "router_xwrite_activated p r = Some r' \<Longrightarrow> router_step io has (r, s) (r', s)"
| send: "router_xsend io m r s = Some (r', s', x) \<Longrightarrow> router_step io has (r, s) (r', s')"
| recv: "router_xrecv io r s = Some (r', s', y) \<Longrightarrow> router_step io has (r, s) (r', s')"
| has_in: "router_xhas_in io r s = Some (r', s', b) \<Longrightarrow> router_step io has (r, s) (r', s')"
| rollback: "router_rollback io r s = Some (r', s') \<Longrightarrow> router_step io has (r, s) (r', s')"
| setsockopt: "router_setsockopt opt v r = (r', z) \<Longrightarrow> router_step io has (r, s) (r', s)"
| pipes: "\<forall>p\<in>attached r. has p s' \<and> io_identity io p s' = io_identity io p s \<Longrightarrow> router_step io has (r, s) (r, s')"

definition router_reach :: "'s pipe_io \<Rightarrow> (nat \<Rightarrow> 's \<Rightarrow> bool) \<Rightarrow> router \<Rightarrow> 's \<Rightarrow> bool" where
  "router_reach io has r s \<longleftrightarrow> (\<exists>random s0. (router_step io has)\<^sup>*\<^sup>* (router_t random, s0) (r, s))"

lemma router_okI:
  assumes "fq_ok (ro_fq r)" "table_ok io has (fq_members (ro_fq r)) r s" "fq_members (ro_fq r) \<inter> anonymous_pipes r = {}"
    "\<And>p. p \<in> anonymous_pipes r \<Longrightarrow> has p s" "current_out r \<noteq> None \<Longrightarrow> more_out r" "raw_socket r \<Longrightarrow> opt_raw_socket r"
  shows "router_ok io has r s"
  unfolding router_ok_def using assms by blast

lemma router_okD:
  assumes "router_ok io has r s"
  shows "fq_ok (ro_fq r)" "table_ok io has (fq_members (ro_fq r)) r s" "fq_members (ro_fq r) \<inter> anonymous_pipes r = {}"
    "p \<in> anonymous_pipes r \<Longrightarrow> has p s" "current_out r \<noteq> None \<Longrightarrow> more_out r" "raw_socket r \<Longrightarrow> opt_raw_socket r"
  using assms unfolding router_ok_def by blast+

lemma router_ok_same:
  assumes ok: "router_ok io has r s" and s: "same_identities io has s s'" and f: "fq_ok (ro_fq r')" "fq_members (ro_fq r') = fq_members (ro_fq r)"
    and r: "outpipes r' = outpipes r" "anonymous_pipes r' = anonymous_pipes r" "current_out r' \<noteq> None \<Longrightarrow> more_out r'"
      "raw_socket r' \<Longrightarrow> opt_raw_socket r'"
  shows "router_ok io has r' s'"
proof (rule router_okI)
  show "table_ok io has (fq_members (ro_fq r')) r' s'" unfolding f(2) by (rule table_ok_same[OF router_okD(2)[OF ok] s r(1)])
  show "has p s'" if "p \<in> anonymous_pipes r'" for p
    using router_okD(4)[OF ok, of p] that r(2) s by (auto simp: same_identities_def)
qed (use router_okD[OF ok] f r in auto)

lemma router_ok_identified:
  assumes ok: "router_ok io has r s" and tr: "same_traffic r r1" and t: "table_ok io has (fq_members f) r1 s1" and f: "fq_ok f"
    and a: "A \<inter> fq_members f = {}" "\<And>p. p \<in> A \<Longrightarrow> has p s1"
  shows "router_ok io has (r1\<lparr>ro_fq := f, anonymous_pipes := A\<rparr>) s1"
proof (rule router_okI)
  show "table_ok io has (fq_members (ro_fq (r1\<lparr>ro_fq := f, anonymous_pipes := A\<rparr>))) (r1\<lparr>ro_fq := f, anonymous_pipes := A\<rparr>) s1"
    using table_ok_same[OF t same_identities_refl] by simp
  show "more_out (r1\<lparr>ro_fq := f, anonymous_pipes := A\<rparr>)" if "current_out (r1\<lparr>ro_fq := f, anonymous_pipes := A\<rparr>) \<noteq> None"
    using router_okD(5)[OF ok] tr that by (simp add: same_traffic_def)
  show "opt_raw_socket (r1\<lparr>ro_fq := f, anonymous_pipes := A\<rparr>)" if "raw_socket (r1\<lparr>ro_fq := f, anonymous_pipes := A\<rparr>)"
    using router_okD(6)[OF ok] tr that by (simp add: same_traffic_def)
qed (use f a in auto)

lemma router_t_ok: "router_ok io has (router_t random) s"
  using fq_t_ok by (intro router_okI table_okI) (auto simp: router_t_def)

context identified_pipes
begin

lemma router_recvpipe_ok:
  "router_recvpipe io f s = Some x \<Longrightarrow>
    fq_ok f \<longrightarrow> fq_ok (fst x) \<and> fq_members (fst x) = fq_members f \<and> same_identities io has s (fst (snd x))"
proof (erule router_recvpipe.raw_induct[rotated, where P = "\<lambda>io1 f s x. io1 = io \<longrightarrow> fq_ok f \<longrightarrow>
    fq_ok (fst x) \<and> fq_members (fst x) = fq_members f \<and> same_identities io has s (fst (snd x))" for io, THEN mp[OF _ HOL.refl]], goal_cases)
  case (1 rec io1 f s x)
  then obtain f1 s1 y where y: "fq_recvpipe (io_read io1) f s = Some (f1, s1, y)"
    "(case y of None \<Rightarrow> Some (f1, s1, None) | Some mp \<Rightarrow> if has_identity (fst mp) then rec io1 f1 s1 else Some (f1, s1, Some mp)) = Some x"
    by (auto split: bind_split_asm)
  show ?case
  proof (intro impI)
    assume io: "io1 = io" and ok: "fq_ok f"
    have e: "fq_ok f1 \<and> fq_members f1 = fq_members f" using recv_effect[OF ok y(1)] by blast
    have i: "same_identities io has s s1" using fq_recvpipe_ids y(1) io by blast
    have "x = (f1, s1, y) \<or> rec io1 f1 s1 = Some x"
    proof (cases y)
      case (Some mp)
      then show ?thesis using y(2) by (cases "has_identity (fst mp)") simp_all
    qed (use y(2) in simp)
    then consider "x = (f1, s1, y)" | "rec io1 f1 s1 = Some x" by blast
    then show "fq_ok (fst x) \<and> fq_members (fst x) = fq_members f \<and> same_identities io has s (fst (snd x))"
    proof cases
      case 2
      note r = mp[OF mp[OF 1(1)[OF 2] io] conjunct1[OF e]]
      then show ?thesis using e same_identities_trans[OF i, of "fst (snd x)"] by simp
    qed (use e i in simp)
  qed
qed

lemma attach_ok:
  assumes ok: "router_ok io has r s" and p: "p \<notin> attached r" "has p s" and run: "router_attach_pipe io p r s = Some (r', s')"
  shows "router_ok io has r' s'"
proof -
  note D = router_okD[OF ok]
  obtain s1 where s1: "(if ro_probe_router r then do { (s1, _) \<leftarrow> io_write io p empty_msg s; io_flush io p s1 } else Some s) = Some s1"
    using run by (auto simp: router_attach_pipe_def split: bind_splits)
  have i: "same_identities io has s s1"
    using s1 same_identities_trans[OF write_ids flush_ids] by (auto split: if_splits bind_splits)
  obtain r1 s2 b where b: "identify_peer io p r s1 = Some (r1, s2, b)"
    using run s1 by (auto simp: router_attach_pipe_def split: bind_splits)
  have h1: "has p s1" using i p(2) by (simp add: same_identities_def)
  have np: "p \<notin> fq_members (ro_fq r)" "p \<notin> anonymous_pipes r" using p(1) by (auto simp: attached_def)
  from identify_peer_table[OF table_ok_same[OF D(2) i HOL.refl] h1 np(1) b]
  have t: "table_ok io has (if b then insert p (fq_members (ro_fq r)) else fq_members (ro_fq r)) r1 s2"
    and tr: "same_traffic r r1" and k: "keeps_pipes has s1 s2" by auto
  have k2: "has q s \<Longrightarrow> has q s2" for q using i k by (simp add: same_identities_def keeps_pipes_def)
  have fq1: "ro_fq r1 = ro_fq r" "anonymous_pipes r1 = anonymous_pipes r" using tr by (simp_all add: same_traffic_def)
  show ?thesis
  proof (cases b)
    case True
    obtain f where f: "fq_attach p (ro_fq r) = Some f" "fq_ok f" "fq_members f = insert p (fq_members (ro_fq r))"
      using fq_attach_ok[OF D(1) np(1)] by blast
    have r0: "r' = r1\<lparr>ro_fq := f\<rparr>" "s' = s2" using run s1 b True f(1) fq1 by (simp_all add: router_attach_pipe_def)
    then have r': "r' = r1\<lparr>ro_fq := f, anonymous_pipes := anonymous_pipes r\<rparr>" "s' = s2" using fq1 by (cases r1; simp)+
    show ?thesis unfolding r'
      using router_ok_identified[OF ok tr _ f(2), of s2 "anonymous_pipes r"] t True f(3) D(3,4) np(2) k2 by auto
  next
    case False
    then have r0: "r' = r1\<lparr>anonymous_pipes := insert p (anonymous_pipes r)\<rparr>" "s' = s2"
      using run s1 b fq1 by (simp_all add: router_attach_pipe_def)
    then have r': "r' = r1\<lparr>ro_fq := ro_fq r, anonymous_pipes := insert p (anonymous_pipes r)\<rparr>" "s' = s2"
      using fq1 by (cases r1; simp)+
    show ?thesis unfolding r'
      using router_ok_identified[OF ok tr _ D(1), of s2 "insert p (anonymous_pipes r)"] t False D(3,4) np(1) k2 p(2) by auto
  qed
qed

lemma read_activated_ok:
  assumes ok: "router_ok io has r s" and p: "p \<in> anonymous_pipes r \<or> p \<in> fq_members (ro_fq r) - fq_actives (ro_fq r)"
    and run: "router_xread_activated io p r s = Some (r', s')"
  shows "router_ok io has r' s'"
proof (cases "p \<in> anonymous_pipes r")
  case False
  note D = router_okD[OF ok]
  obtain f where f: "fq_activated p (ro_fq r) = Some f" "fq_ok f" "fq_members f = fq_members (ro_fq r)"
    using fq_activated_ok[OF D(1)] p False by blast
  then have r': "r' = r\<lparr>ro_fq := f\<rparr>" "s' = s" using run False by (auto simp: router_xread_activated_def)
  show ?thesis unfolding r' by (rule router_ok_same[OF ok same_identities_refl]) (use f D in auto)
next
  case True
  note D = router_okD[OF ok]
  have np: "p \<notin> fq_members (ro_fq r)" using True D(3) by blast
  obtain r1 s1 b where s1: "identify_peer io p r s = Some (r1, s1, b)" using run True by (auto simp: router_xread_activated_def split: bind_splits)
  from identify_peer_table[OF D(2) D(4)[OF True] np s1]
  have t: "table_ok io has (if b then insert p (fq_members (ro_fq r)) else fq_members (ro_fq r)) r1 s1"
    and tr: "same_traffic r r1" and k2: "\<And>q. has q s \<Longrightarrow> has q s1" by (auto simp: keeps_pipes_def)
  have fq1: "ro_fq r1 = ro_fq r" "anonymous_pipes r1 = anonymous_pipes r" using tr by (simp_all add: same_traffic_def)
  show ?thesis
  proof (cases b)
    case b: True
    obtain f where f: "fq_attach p (ro_fq r) = Some f" "fq_ok f" "fq_members f = insert p (fq_members (ro_fq r))"
      using fq_attach_ok[OF D(1) np] by blast
    have r': "r' = r1\<lparr>ro_fq := f, anonymous_pipes := anonymous_pipes r - {p}\<rparr>" "s' = s1"
      using run s1 b True f(1) fq1 by (cases r1; auto simp: router_xread_activated_def)+
    show ?thesis unfolding r'
      using router_ok_identified[OF ok tr _ f(2), of s1 "anonymous_pipes r - {p}"] t b f(3) D(3,4) k2 by auto
  next
    case b: False
    then have r': "r' = r1\<lparr>ro_fq := ro_fq r, anonymous_pipes := anonymous_pipes r\<rparr>" "s' = s1"
      using run s1 True fq1 by (cases r1; auto simp: router_xread_activated_def)+
    show ?thesis unfolding r'
      using router_ok_identified[OF ok tr _ D(1), of s1 "anonymous_pipes r"] t b D(3,4) k2 by auto
  qed
qed

lemma terminated_ok:
  assumes ok: "router_ok io has r s" and p: "p \<in> attached r"
  shows "\<exists>r'. router_xpipe_terminated io p r s = Some r' \<and> router_ok io has r' s"
proof (cases "p \<in> anonymous_pipes r")
  case True
  note D = router_okD[OF ok]
  have "router_ok io has (r\<lparr>anonymous_pipes := anonymous_pipes r - {p}\<rparr>) s"
    by (rule router_okI) (use D table_ok_same[OF D(2) same_identities_refl] in auto)
  then show ?thesis using True by (simp add: router_xpipe_terminated_def)
next
  case False
  note D = router_okD[OF ok]
  let ?i = "io_identity io p s"
  have m: "p \<in> fq_members (ro_fq r)" using p False by (simp add: attached_def)
  obtain e where e: "map_of (outpipes r) ?i = Some e" by (rule table_member[OF D(2) m])
  obtain f where f: "fq_pipe_terminated (\<lambda>q. io_credential io q s) p (ro_fq r) = Some f" "fq_ok f" "fq_members f = fq_members (ro_fq r) - {p}"
    using fq_pipe_terminated_ok[OF D(1) m] by blast
  let ?r = "r\<lparr>ro_fq := f, outpipes := AList.delete ?i (outpipes r), current_out := (if current_out r = Some p then None else current_out r)\<rparr>"
  have "router_ok io has ?r s"
  proof (rule router_okI)
    show "table_ok io has (fq_members (ro_fq ?r)) ?r s" using table_delete[OF D(2) m, of ?r] f(3) by simp
    show "more_out ?r" if "current_out ?r \<noteq> None" using D(5) that by (auto split: if_splits)
  qed (use D f in auto)
  then show ?thesis using False e f(1) by (simp add: router_xpipe_terminated_def)
qed

lemma xwrite_activated_ok:
  assumes ok: "router_ok io has r s" and run: "router_xwrite_activated p r = Some r'"
  shows "router_ok io has r' s"
proof -
  note D = router_okD[OF ok]
  obtain i e where e: "find (\<lambda>(i, e). op_pipe e = p) (outpipes r) = Some (i, e)"
    "r' = r\<lparr>outpipes := AList.update i (e\<lparr>op_active := True\<rparr>) (outpipes r)\<rparr>"
    using run by (auto simp: router_xwrite_activated_def split: option.splits if_splits)
  then have "(i, e) \<in> set (outpipes r)" by (metis find_Some_iff nth_mem)
  then have m: "map_of (outpipes r) i = Some e" using table_distinct[OF D(2)] by (simp add: map_of_eq_Some_iff)
  show ?thesis
  proof (rule router_okI)
    show "table_ok io has (fq_members (ro_fq r')) r' s"
      using table_update[OF D(2) m, of "e\<lparr>op_active := True\<rparr>" r'] e(2) by simp
  qed (use D e in auto)
qed

lemma part_received_ok:
  assumes ok: "router_ok io has r s" and run: "router_part_received io m r s = Some (r', s')"
  shows "router_ok io has r' s'"
proof -
  note D = router_okD[OF ok]
  have i: "same_identities io has s s'"
    using run terminate_ids by (auto simp: router_part_received_def Let_def split: if_splits bind_splits)
  have "ro_fq r' = ro_fq r \<and> outpipes r' = outpipes r \<and> anonymous_pipes r' = anonymous_pipes r \<and> current_out r' = current_out r \<and>
      more_out r' = more_out r \<and> raw_socket r' = raw_socket r \<and> opt_raw_socket r' = opt_raw_socket r"
    using run by (auto simp: router_part_received_def Let_def split: if_splits bind_splits)
  then show ?thesis using D by (intro router_ok_same[OF ok i]) auto
qed

lemma received_ok:
  assumes ok: "router_ok io has r s" and run: "router_recvpipe io (ro_fq r) s = Some (f, s', x)"
  shows "router_ok io has (r\<lparr>ro_fq := f\<rparr>) s'"
proof -
  note D = router_okD[OF ok]
  note e = mp[OF router_recvpipe_ok[OF run] D(1), unfolded fst_conv snd_conv]
  show ?thesis using e D by (intro router_ok_same[OF ok, of s']) auto
qed

lemma ok_prefetch:
  assumes ok: "router_ok io has r s"
  shows "router_ok io has (r\<lparr>prefetched_msg := m, prefetched := b, current_in := c, identity_sent := d\<rparr>) s"
    "router_ok io has (r\<lparr>prefetched_msg := m, prefetched_id := j, prefetched := b, identity_sent := d, current_in := c\<rparr>) s"
    "router_ok io has (r\<lparr>prefetched_id := j, identity_sent := d\<rparr>) s"
    "router_ok io has (r\<lparr>prefetched_msg := m, prefetched := b\<rparr>) s"
  by (rule router_ok_same[OF ok same_identities_refl]; use router_okD[OF ok] in simp)+

lemma xrecv_ok:
  assumes ok: "router_ok io has r s" and run: "router_xrecv io r s = Some (r', s', x)"
  shows "router_ok io has r' s'"
proof (cases "prefetched r")
  case True
  then show ?thesis using run part_received_ok[OF ok_prefetch(3)[OF ok]] part_received_ok[OF ok_prefetch(4)[OF ok]]
    by (auto simp: router_xrecv_def split: if_splits)
next
  case False
  then obtain f s1 y where y: "router_recvpipe io (ro_fq r) s = Some (f, s1, y)"
    using run by (auto simp: router_xrecv_def split: bind_splits)
  note ok1 = received_ok[OF ok y]
  show ?thesis
  proof (cases y)
    case None
    then show ?thesis using run y False ok1 by (simp add: router_xrecv_def)
  next
    case (Some mp)
    then obtain m p where mp: "y = Some (m, p)" by (cases mp) auto
    show ?thesis
    proof (cases "more_in r")
      case True
      then have "map_option (\<lambda>(r2, s2). (r2, s2, Some m)) (router_part_received io m (r\<lparr>ro_fq := f\<rparr>) s1) = Some (r', s', x)"
        using run y False mp by (simp add: router_xrecv_def)
      then have "router_part_received io m (r\<lparr>ro_fq := f\<rparr>) s1 = Some (r', s')" by auto
      then show ?thesis by (rule part_received_ok[OF ok1])
    next
      case no: False
      then have "r' = r\<lparr>ro_fq := f, prefetched_msg := m, prefetched := True, current_in := Some p, identity_sent := True\<rparr>" "s' = s1"
        using run y False mp by (simp_all add: router_xrecv_def)
      then show ?thesis using ok_prefetch(1)[OF ok1] by simp
    qed
  qed
qed

lemma xhas_in_ok:
  assumes ok: "router_ok io has r s" and run: "router_xhas_in io r s = Some (r', s', b)"
  shows "router_ok io has r' s'"
proof (cases "more_in r \<or> prefetched r")
  case True
  then show ?thesis using run ok by (simp add: router_xhas_in_def)
next
  case False
  then obtain f s1 y where y: "router_recvpipe io (ro_fq r) s = Some (f, s1, y)"
    using run by (auto simp: router_xhas_in_def split: bind_splits)
  show ?thesis using run y False received_ok[OF ok y] ok_prefetch(2)[OF received_ok[OF ok y]]
    by (auto simp: router_xhas_in_def Let_def split: option.splits)
qed

lemma xsend_ok:
  assumes ok: "router_ok io has r s" and run: "router_xsend io m r s = Some (r', s', x)"
  shows "router_ok io has r' s'"
proof (cases "more_out r")
  case True
  note D = router_okD[OF ok]
  let ?m = "if opt_raw_socket r then m\<lparr>flags := flags m AND NOT flag_more\<rparr> else m"
  have run1: "router_send_part io m r s = Some (r', s')" using run True by (auto simp: router_xsend_def)
  have raw: "opt_raw_socket r \<Longrightarrow> \<not> has_more ?m" by (simp add: has_more_def and.assoc)
  show ?thesis
  proof (cases "current_out r")
    case None
    then have "r' = r\<lparr>more_out := has_more ?m\<rparr>" "s' = s" using run1 by (simp_all add: router_send_part_def Let_def)
    then show ?thesis using D None by (intro router_ok_same[OF ok]) simp_all
  next
    case (Some p)
    show ?thesis
    proof (cases "raw_socket r \<and> mdata ?m = []")
      case t: True
      then obtain "io_terminate io p False s = Some s'" "r' = r\<lparr>more_out := has_more ?m, current_out := None\<rparr>"
        using run1 Some by (auto simp: router_send_part_def Let_def)
      then show ?thesis using D terminate_ids by (intro router_ok_same[OF ok]) simp_all
    next
      case nt: False
      then obtain s1 b where w: "io_write io p ?m s = Some (s1, b)" using run1 Some by (auto simp: router_send_part_def Let_def split: bind_splits)
      note i = write_ids[OF w]
      consider "\<not> b" "r' = r\<lparr>more_out := has_more ?m, current_out := None\<rparr>" "s' = s1"
        | "b" "\<not> has_more ?m" "r' = r\<lparr>more_out := has_more ?m, current_out := None\<rparr>" "io_flush io p s1 = Some s'"
        | "has_more ?m" "r' = r\<lparr>more_out := has_more ?m\<rparr>" "s' = s1"
        using run1 Some nt w by (auto simp: router_send_part_def Let_def split: if_splits)
      then show ?thesis
      proof cases
        case 1
        then show ?thesis using D i by (intro router_ok_same[OF ok]) simp_all
      next
        case 2
        then show ?thesis using D same_identities_trans[OF i flush_ids] by (intro router_ok_same[OF ok]) simp_all
      next
        case 3
        then show ?thesis using D i by (intro router_ok_same[OF ok]) simp_all
      qed
    qed
  qed
next
  case False
  note D = router_okD[OF ok]
  show ?thesis
  proof (cases "has_more m \<and> current_out r = None")
    case no: False
    then show ?thesis using run False ok by (auto simp: router_xsend_def split: if_splits)
  next
    case True
    then have run1: "router_address io m r s = Some (r', s', x)" using run False by (simp add: router_xsend_def)
    show ?thesis
    proof (cases "map_of (outpipes r) (mdata m)")
      case None
      then show ?thesis using run1 ok D router_ok_same[OF ok same_identities_refl, of r'] by (auto simp: router_address_def split: if_splits)
    next
      case (Some e)
      then obtain s1 b where c: "io_check_write io (op_pipe e) s = Some (s1, b)" using run1 by (auto simp: router_address_def split: bind_splits)
      have s1: "s' = s1" using run1 Some c by (auto simp: router_address_def Let_def split: if_splits)
      let ?o = "AList.update (mdata m) (e\<lparr>op_active := False\<rparr>) (outpipes r)"
      have r': "r' = r\<lparr>more_out := True, current_out := Some (op_pipe e)\<rparr> \<or> r' = r\<lparr>outpipes := ?o\<rparr> \<or> r' = r\<lparr>outpipes := ?o, more_out := True\<rparr>"
        using run1 Some c by (auto simp: router_address_def Let_def split: if_splits)
      note i = check_write_ids[OF c]
      have u: "table_ok io has (fq_members (ro_fq r)) r1 s1" if "outpipes r1 = ?o" for r1
        using table_update[OF table_ok_same[OF D(2) i HOL.refl] Some _ that] by simp
      have h: "\<And>p. p \<in> anonymous_pipes r \<Longrightarrow> has p s1" using D(4) i by (simp add: same_identities_def)
      from r' show ?thesis
      proof (elim disjE)
        assume "r' = r\<lparr>more_out := True, current_out := Some (op_pipe e)\<rparr>"
        then show ?thesis using D i s1 by (intro router_ok_same[OF ok]) simp_all
      next
        assume r': "r' = r\<lparr>outpipes := ?o\<rparr>"
        show ?thesis by (rule router_okI) (use r' s1 D u h in simp_all)
      next
        assume r': "r' = r\<lparr>outpipes := ?o, more_out := True\<rparr>"
        show ?thesis by (rule router_okI) (use r' s1 D u h in simp_all)
      qed
    qed
  qed
qed

lemma rollback_ok:
  assumes ok: "router_ok io has r s" and run: "router_rollback io r s = Some (r', s')"
  shows "router_ok io has r' s'"
proof (cases "current_out r")
  case None
  then show ?thesis using run ok by (simp add: router_rollback_def)
next
  case (Some p)
  then obtain "io_rollback io p s = Some s'" "r' = r\<lparr>current_out := None, more_out := False\<rparr>"
    using run by (auto simp: router_rollback_def)
  then show ?thesis using router_okD[OF ok] rollback_ids by (intro router_ok_same[OF ok]) simp_all
qed

lemma setsockopt_ok_router:
  assumes ok: "router_ok io has r s" and run: "router_setsockopt opt v r = (r', x)"
  shows "router_ok io has r' s"
proof (rule router_ok_same[OF ok same_identities_refl])
  show "raw_socket r' \<Longrightarrow> opt_raw_socket r'" using run router_okD(6)[OF ok]
    by (auto simp: router_setsockopt_def Let_def split: router_option.splits option.splits if_splits)
qed (use run router_okD[OF ok] in \<open>auto simp: router_setsockopt_def Let_def split: router_option.splits option.splits if_splits\<close>)

lemma step_ok:
  assumes "router_step io has x y" "router_ok io has (fst x) (snd x)"
  shows "router_ok io has (fst y) (snd y)"
  using assms
proof (induction rule: router_step.induct)
  case (terminated p r s r')
  then show ?case using terminated_ok[of r s p] by auto
next
  case (pipes r s' s)
  then have ok: "router_ok io has r s" by simp
  note D = router_okD[OF ok]
  have "router_ok io has r s'"
  proof (rule router_okI)
    show "table_ok io has (fq_members (ro_fq r)) r s'"
      using table_ok_ids[OF D(2) _ HOL.refl, of s'] pipes by (simp add: attached_def)
  qed (use D pipes in \<open>auto simp: attached_def\<close>)
  then show ?case by simp
next
  case (attach p r s r' s')
  then show ?case using attach_ok[of r s p r' s'] by simp
next
  case (read_activated p r s r' s')
  then show ?case using read_activated_ok[of r s p r' s'] by simp
next
  case (write_activated p r r' s)
  then show ?case using xwrite_activated_ok[of r s p r'] by simp
next
  case (send m r s r' s' x)
  then show ?case using xsend_ok[of r s m r' s' x] by simp
next
  case (recv r s r' s' y)
  then show ?case using xrecv_ok[of r s r' s' y] by simp
next
  case (has_in r s r' s' b)
  then show ?case using xhas_in_ok[of r s r' s' b] by simp
next
  case (rollback r s r' s')
  then show ?case using rollback_ok[of r s r' s'] by simp
next
  case (setsockopt opt v r r' z s)
  then show ?case using setsockopt_ok_router[of r s opt v r' z] by simp
qed

lemma reach_ok:
  assumes "router_reach io has r s"
  shows "router_ok io has r s"
proof -
  have "(router_step io has)\<^sup>*\<^sup>* x y \<Longrightarrow> router_ok io has (fst x) (snd x) \<Longrightarrow> router_ok io has (fst y) (snd y)" for x y
    by (induction rule: rtranclp_induct) (blast dest: step_ok)+
  then show ?thesis using assms router_t_ok unfolding router_reach_def by fastforce
qed

end

section \<open>Sending a message\<close>

fun router_send_all :: "'s pipe_io \<Rightarrow> msg list \<Rightarrow> router \<Rightarrow> 's \<Rightarrow> (router \<times> 's \<times> unit result) option" where
  "router_send_all io [] r s = Some (r, s, Inr ())"
| "router_send_all io (m # ms) r s = do {
     (r1, s1, x) \<leftarrow> router_xsend io m r s;
     if x = Inr () then router_send_all io ms r1 s1 else Some (r1, s1, x) }"

text \<open>Writing all of some parts to a pipe, which takes each of them.\<close>

fun write_all :: "'s pipe_io \<Rightarrow> nat \<Rightarrow> msg list \<Rightarrow> 's \<Rightarrow> 's option" where
  "write_all io p [] s = Some s"
| "write_all io p (m # ms) s = Option.bind (io_write io p m s) (\<lambda>(s1, ok). if ok then write_all io p ms s1 else None)"

lemma send_parts:
  assumes "\<not> opt_raw_socket r" "\<not> raw_socket r" "current_out r = Some p" "more_out r" "\<forall>m\<in>set ms. has_more m" "\<not> has_more m1"
    "write_all io p (ms @ [m1]) s = Some s1" "io_flush io p s1 = Some s2"
  shows "router_send_all io (ms @ [m1]) r s = Some (r\<lparr>more_out := False, current_out := None\<rparr>, s2, Inr ())"
  using assms
proof (induction ms arbitrary: s)
  case Nil
  then show ?case by (auto simp: router_xsend_def router_send_part_def Let_def split: bind_splits if_splits)
next
  case (Cons m ms)
  then obtain s0 where w: "io_write io p m s = Some (s0, True)" "write_all io p (ms @ [m1]) s0 = Some s1"
    by (auto split: bind_splits if_splits)
  have "r\<lparr>more_out := True\<rparr> = r" using Cons.prems(4) by (cases r) simp
  then have "router_xsend io m r s = Some (r, s0, Inr ())"
    using Cons.prems w by (simp add: router_xsend_def router_send_part_def)
  then show ?case using Cons.IH[OF Cons.prems(1-4) _ Cons.prems(6) w(2) Cons.prems(8)] Cons.prems(5) by simp
qed

lemma router_send_message:
  assumes ok: "router_ok io has r s" and idle: "\<not> more_out r" "\<not> opt_raw_socket r" and p: "p \<in> fq_members (ro_fq r)"
    and a: "mdata a = io_identity io p s" "has_more a" "io_check_write io p s = Some (s1, True)"
    and ms: "\<forall>m\<in>set ms. has_more m" "\<not> has_more m1"
    and w: "write_all io p (ms @ [m1]) s1 = Some s2" "io_flush io p s2 = Some s3"
  shows "router_send_all io (a # ms @ [m1]) r s = Some (r, s3, Inr ())"
proof -
  note D = router_okD[OF ok]
  obtain e where e: "map_of (outpipes r) (mdata a) = Some e" "op_pipe e = p" using table_member[OF D(2) p] a(1) by metis
  let ?r = "r\<lparr>more_out := True, current_out := Some p\<rparr>"
  have c: "current_out r = None" using D(5) idle(1) by blast
  have raw: "\<not> raw_socket r" using D(6) idle(2) by blast
  have "router_xsend io a r s = Some (?r, s1, Inr ())" using idle c a e by (simp add: router_xsend_def router_address_def)
  moreover have "router_send_all io (ms @ [m1]) ?r s1 = Some (?r\<lparr>more_out := False, current_out := None\<rparr>, s3, Inr ())"
    by (rule send_parts) (use idle raw ms w in simp_all)
  moreover have "?r\<lparr>more_out := False, current_out := None\<rparr> = r" using idle(1) c by (cases r) simp
  ultimately show ?thesis by simp
qed

text \<open>
  Claim C21. Over pipes, after any calls: every identified peer is found in the routing table under its identity and
  under no other peer's, its termination never violates the assertion on the table, and no peer has the
  identity of another.
\<close>

theorem router_table_exact:
  assumes "router_reach bank_io bank_has r W" "p \<in> fq_members (ro_fq r)"
  shows "(\<exists>e. map_of (outpipes r) (io_identity bank_io p W) = Some e \<and> op_pipe e = p) \<and>
    (\<forall>i e. map_of (outpipes r) i = Some e \<and> op_pipe e = p \<longrightarrow> i = io_identity bank_io p W) \<and>
    (\<forall>q\<in>fq_members (ro_fq r). io_identity bank_io q W = io_identity bank_io p W \<longrightarrow> q = p) \<and>
    router_xpipe_terminated bank_io p r W \<noteq> None"
proof -
  have ok: "router_ok bank_io bank_has r W" by (rule bank_peers.reach_ok[OF assms(1)])
  note t = router_okD(2)[OF ok]
  have "\<exists>e. map_of (outpipes r) (io_identity bank_io p W) = Some e \<and> op_pipe e = p" using table_member[OF t assms(2)] by metis
  moreover have "i = io_identity bank_io p W" if "map_of (outpipes r) i = Some e" "op_pipe e = p" for i e
    using table_lookup[OF t that(1)] that(2) by simp
  moreover have "q = p" if "q \<in> fq_members (ro_fq r)" "io_identity bank_io q W = io_identity bank_io p W" for q
    by (rule table_unique[OF t that(1) assms(2) that(2)])
  moreover have "router_xpipe_terminated bank_io p r W \<noteq> None"
    using bank_peers.terminated_ok[OF ok, of p] assms(2) by (auto simp: attached_def)
  ultimately show ?thesis by blast
qed

text \<open>
  Claim C22. A message sent to an idle ROUTER socket over pipes, with the identity of a writable peer as its first part,
  is written to the pipe of that peer without that part, and to no other pipe, flushed once after its last
  part, and the socket is as it was.
\<close>

theorem router_delivers:
  assumes "router_reach bank_io bank_has r W" "\<not> more_out r" "\<not> opt_raw_socket r" "p \<in> fq_members (ro_fq r)"
    "mdata a = io_identity bank_io p W" "has_more a" "io_check_write bank_io p W = Some (W1, True)"
    "\<forall>m\<in>set ms. has_more m" "\<not> has_more m1"
    "write_all bank_io p (ms @ [m1]) W1 = Some W2" "io_flush bank_io p W2 = Some W3"
  shows "router_send_all bank_io (a # ms @ [m1]) r W = Some (r, W3, Inr ())"
  by (rule router_send_message[OF bank_peers.reach_ok[OF assms(1)] assms(2-)])

text \<open>A socket with one peer, whose identity was given by \<open>ZMQ_CONNECT_RID\<close>.\<close>

definition one_peer :: router where
  "one_peer = (router_t 0)\<lparr>ro_fq := one_pipe, outpipes := [([65], \<lparr>op_pipe = 0, op_active = True\<rparr>)]\<rparr>"

definition peer_bank :: pipe_bank where
  "peer_bank = (\<lambda>_. start 0 0 False False)(0 := upd P0 (pipe_set_identity [65]) (start 0 0 False False))"

lemma one_peer_reach: "router_reach bank_io bank_has one_peer peer_bank"
proof -
  let ?W = "\<lambda>_. start 0 0 False False" and ?r = "(router_t 0)\<lparr>connect_rid := [65]\<rparr>"
  have h: "bank_has 0 ?W" by (simp add: bank_has_def start_def pipepair_def)
  have "router_step bank_io bank_has (router_t 0, ?W) (?r, ?W)"
    by (rule router_step.setsockopt[of Opt_connect_rid "[65]"]) (simp add: router_setsockopt_def)
  moreover have "router_step bank_io bank_has (?r, ?W) (one_peer, peer_bank)"
  proof (rule router_step.attach)
    show "0 \<notin> attached ?r" by (simp add: attached_def router_t_def fq_t_def arr_empty_def)
    show "router_attach_pipe bank_io 0 ?r ?W = Some (one_peer, peer_bank)"
      by (simp add: router_attach_pipe_def identify_peer_def choose_identity_def outpipes_insert_def router_t_def one_peer_def
          bank_io_def bank_upd_def peer_bank_def fq_attach_def fq_t_def arr_empty_def arr_push_back_def arr_swap_def Let_def one_pipe_def
          fun_eq_iff)
  qed (rule h)
  ultimately show ?thesis unfolding router_reach_def by (meson rtranclp.rtrancl_refl rtranclp.rtrancl_into_rtrancl)
qed

lemma peer_bank_identity: "io_identity bank_io 0 peer_bank = [65]"
  by (simp add: bank_io_def bank_field_def peer_bank_def upd_def pipe_set_identity_def start_def pipepair_def)

theorem router_table_exact_witness:
  "map_of (outpipes one_peer) [65] = Some \<lparr>op_pipe = 0, op_active = True\<rparr> \<and> router_xpipe_terminated bank_io 0 one_peer peer_bank \<noteq> None"
  using router_table_exact[OF one_peer_reach, of 0] by (simp add: one_peer_def one_pipe_def)

theorem router_delivers_witness:
  "\<exists>W. router_send_all bank_io [\<lparr>kind = Kdata, flags = flag_more, mdata = [65]\<rparr>, empty_msg] one_peer peer_bank = Some (one_peer, W, Inr ())"
proof -
  let ?w = "peer_bank 0"
  have m: "\<not> has_more empty_msg" "\<not> has_identity empty_msg" by (simp_all add: has_more_def has_identity_def empty_msg_def)
  have "pipe_check_write P0 ?w = Some (?w, True) \<and> (\<exists>w2. pipe_write P0 empty_msg ?w = Some (w2, True) \<and> pipe_flush P0 w2 \<noteq> None)"
    by (simp add: pipe_write_def pipe_check_write_def check_hwm_def new_pipe_def upd_def put_up_def pipe_flush_def peer_bank_def start_def
        pipepair_def pipe_set_identity_def new_upipe_def Let_def m split: prod.splits)
  then obtain w2 w3 where w: "pipe_check_write P0 ?w = Some (?w, True)" "pipe_write P0 empty_msg ?w = Some (w2, True)" "pipe_flush P0 w2 = Some w3"
    by blast
  have c: "io_check_write bank_io 0 peer_bank = Some (peer_bank, True)" using w by (simp add: bank_io_def bank_lift_def)
  have ww: "write_all bank_io 0 ([] @ [empty_msg]) peer_bank = Some (peer_bank(0 := w2))" using w by (simp add: bank_io_def bank_lift_def)
  have f: "io_flush bank_io 0 (peer_bank(0 := w2)) = Some (peer_bank(0 := w3))" using w by (simp add: bank_io_def bank_act_def)
  from router_delivers[OF one_peer_reach _ _ _ _ _ c _ m(1) ww f, of "\<lparr>kind = Kdata, flags = flag_more, mdata = [65]\<rparr>"]
  show ?thesis by (simp add: one_peer_def router_t_def one_pipe_def peer_bank_identity has_more_def)
qed

section \<open>Behaviour that is not as intended\<close>

text \<open>
  A peer may choose the identity the socket is going to generate; the next peer without an identity of its own
  then violates the assertion of \<open>identify_peer\<close>.
\<close>

lemma generated_identity_aborts:
  assumes "connect_rid r = []" "\<not> opt_raw_socket r" "map_of (outpipes r) (generated_identity r) \<noteq> None"
    "io_read io p s = Some (s1, Some m)" "mdata m = []"
  shows "identify_peer io p r s = None"
  using assms by (simp add: identify_peer_def choose_identity_def outpipes_insert_def generated_identity_def)

text \<open>
  \<open>rollback\<close> only ends a message that has a pipe. After a malformed request whose reply pipe was full, a REP
  socket stays in the middle of an outgoing message, takes the identity in front of the next request for a
  part of it, and drops the reply to that request.
\<close>

lemma rollback_keeps_dropped_message:
  assumes "more_out r" "current_out r = None" "\<not> opt_raw_socket r"
  shows "router_rollback io r s = Some (r, s)"
    "has_more m \<Longrightarrow> router_xsend io m r s = Some (r, s, Inr ())"
    "\<not> has_more m \<Longrightarrow> router_xsend io m r s = Some (r\<lparr>more_out := False\<rparr>, s, Inr ())"
proof -
  have "r\<lparr>more_out := True\<rparr> = r" using assms(1) by (cases r) simp
  then show "router_rollback io r s = Some (r, s)" "has_more m \<Longrightarrow> router_xsend io m r s = Some (r, s, Inr ())"
    "\<not> has_more m \<Longrightarrow> router_xsend io m r s = Some (r\<lparr>more_out := False\<rparr>, s, Inr ())"
    using assms by (simp_all add: router_rollback_def router_xsend_def router_send_part_def)
qed

text \<open>
  A REP socket with \<open>ZMQ_ROUTER_MANDATORY\<close> aborts when it receives a request from a peer that it can not write to:
  the copy of the label to the reply pipe fails, which \<open>xrecv\<close> asserts it does not.
\<close>

lemma rep_mandatory_aborts:
  assumes "router_xrecv io r s = Some (r1, s1, Some m)" "has_more m" "mandatory r1" "\<not> more_out r1" "current_out r1 = None"
    "map_of (outpipes r1) (mdata m) = Some e" "io_check_write io (op_pipe e) s1 = Some (s2, False)"
  shows "rep_xrecv io \<lparr>rp_router = r, sending_reply = False, request_begins = True\<rparr> s = None"
proof -
  have "router_xsend io m r1 s1 = Some (r1\<lparr>outpipes := AList.update (mdata m) (e\<lparr>op_active := False\<rparr>) (outpipes r1)\<rparr>, s2, Inl EAGAIN)"
    using assms by (simp add: router_xsend_def router_address_def)
  then have "rep_labels io r s = None" using assms by (subst rep_labels.simps) simp
  then show ?thesis by (simp add: rep_xrecv_def)
qed

section \<open>REP alternates\<close>

datatype 's rep_event = Rp_send msg | Rp_recv | Rp_poll | Rp_other "router \<Rightarrow> 's \<Rightarrow> (router \<times> 's) option"

datatype rep_seen = Request_received | Reply_sent

definition rep_step :: "'s pipe_io \<Rightarrow> 's rep_event \<Rightarrow> rep \<times> 's \<Rightarrow> (rep \<times> 's \<times> rep_seen list) option" where
  "rep_step io ev = (\<lambda>(q, s).
     (case ev of
        Rp_send m \<Rightarrow> map_option (\<lambda>(q1, s1, x). (q1, s1, if x = Inr () \<and> \<not> has_more m then [Reply_sent] else [])) (rep_xsend io m q s)
      | Rp_recv \<Rightarrow> map_option (\<lambda>(q1, s1, x). (q1, s1, case x of Inr m \<Rightarrow> if \<not> has_more m then [Request_received] else [] | Inl _ \<Rightarrow> []))
          (rep_xrecv io q s)
      | Rp_poll \<Rightarrow> map_option (\<lambda>(q1, s1, _). (q1, s1, [])) (rep_xhas_in io q s)
      | Rp_other f \<Rightarrow> map_option (\<lambda>(r, s1). (q\<lparr>rp_router := r\<rparr>, s1, [])) (f (rp_router q) s)))"

fun rep_run :: "'s pipe_io \<Rightarrow> 's rep_event list \<Rightarrow> rep \<times> 's \<Rightarrow> (rep \<times> 's \<times> rep_seen list) option" where
  "rep_run io [] qs = Some (fst qs, snd qs, [])"
| "rep_run io (ev # evs) qs = do {
     (q1, s1, o1) \<leftarrow> rep_step io ev qs;
     (q2, s2, o2) \<leftarrow> rep_run io evs (q1, s1);
     Some (q2, s2, o1 @ o2) }"

fun rep_alternates :: "bool \<Rightarrow> rep_seen list \<Rightarrow> bool" where
  "rep_alternates b [] = True"
| "rep_alternates b (Request_received # xs) = (\<not> b \<and> rep_alternates True xs)"
| "rep_alternates b (Reply_sent # xs) = (b \<and> rep_alternates False xs)"

lemma rep_xsend_phase:
  "rep_xsend io m q s = Some (q', s', x) \<Longrightarrow>
    if x = Inr () \<and> \<not> has_more m then sending_reply q \<and> \<not> sending_reply q' else sending_reply q' = sending_reply q"
  by (auto simp: rep_xsend_def Let_def split: if_splits bind_splits)

lemma rep_xrecv_phase:
  assumes "rep_xrecv io q s = Some (q', s', x)"
  shows "case x of Inr m \<Rightarrow> \<not> sending_reply q \<and> sending_reply q' = (\<not> has_more m) | Inl _ \<Rightarrow> sending_reply q' = sending_reply q"
proof (cases "sending_reply q")
  case False
  then obtain r s1 b where r: "(if request_begins q then rep_labels io (rp_router q) s else Some (rp_router q, s, True)) = Some (r, s1, b)"
    using assms by (auto simp: rep_xrecv_def split: bind_splits)
  then show ?thesis using assms False by (auto simp: rep_xrecv_def Let_def split: bind_splits if_splits option.splits)
qed (use assms in \<open>auto simp: rep_xrecv_def\<close>)

lemma rep_step_alternates:
  assumes "rep_step io ev (q, s) = Some (q', s', obs)" "rep_alternates (sending_reply q') rest"
  shows "rep_alternates (sending_reply q) (obs @ rest)"
proof (cases ev)
  case (Rp_send m)
  then obtain x where "rep_xsend io m q s = Some (q', s', x)" "obs = (if x = Inr () \<and> \<not> has_more m then [Reply_sent] else [])"
    using assms(1) by (auto simp: rep_step_def)
  then show ?thesis using rep_xsend_phase assms(2) by (fastforce split: if_splits)
next
  case Rp_recv
  then obtain x where "rep_xrecv io q s = Some (q', s', x)"
    "obs = (case x of Inr m \<Rightarrow> if \<not> has_more m then [Request_received] else [] | Inl _ \<Rightarrow> [])"
    using assms(1) by (auto simp: rep_step_def)
  then show ?thesis using rep_xrecv_phase[of io q s q' s' x] assms(2) by (auto split: sum.splits)
next
  case Rp_poll
  then have "sending_reply q' = sending_reply q" "obs = []"
    using assms(1) by (auto simp: rep_step_def rep_xhas_in_def split: if_splits)
  then show ?thesis using assms(2) by simp
next
  case (Rp_other f)
  then have "sending_reply q' = sending_reply q" "obs = []" using assms(1) by (auto simp: rep_step_def)
  then show ?thesis using assms(2) by simp
qed

text \<open>
  Claim C24. A REP socket alternates: whatever its user calls and whatever happens to its pipes and its routing table in
  between, what it received and sent completely is request, reply, request, reply, and so on, starting with a
  request.
\<close>

theorem rep_alternation:
  "rep_run io evs (rep_t random, s) = Some (q, s', obs) \<Longrightarrow> rep_alternates False obs"
proof -
  have "rep_run io evs (q0, s) = Some (q, s', obs) \<Longrightarrow> rep_alternates (sending_reply q0) obs" for q0
  proof (induction evs arbitrary: q0 s obs)
    case (Cons ev evs)
    then obtain q1 s1 o1 o2 where a: "rep_step io ev (q0, s) = Some (q1, s1, o1)"
      "rep_run io evs (q1, s1) = Some (q, s', o2)" "obs = o1 @ o2"
      by (auto split: bind_split_asm)
    then show ?case using rep_step_alternates[OF a(1)] Cons.IH[OF a(2)] by blast
  qed simp
  then show "rep_run io evs (rep_t random, s) = Some (q, s', obs) \<Longrightarrow> rep_alternates False obs"
    by (force simp: rep_t_def)
qed

lemmas router_eval = router_t_def router_attach_pipe_def identify_peer_def choose_identity_def outpipes_insert_def router_xrecv_def
  router_part_received_def router_xsend_def router_address_def router_send_part_def identity_frame_def fq_recvpipe.simps
  fq_t_def fq_attach_def fq_deactivate_def arr_empty_def arr_at_def arr_push_back_def arr_index_def arr_swap_def exchange_def
  inbox_simps Let_def

abbreviation request_frames :: "msg list" where
  "request_frames \<equiv> [\<lparr>kind = Kdata, flags = 0, mdata = [65]\<rparr>, \<lparr>kind = Kdata, flags = flag_more, mdata = []\<rparr>, \<lparr>kind = Kdata, flags = 0, mdata = [104]\<rparr>]"

lemma rep_example:
  "map_option (snd \<circ> snd) (rep_run inbox_io [Rp_other (router_attach_pipe inbox_io 0), Rp_send \<lparr>kind = Kdata, flags = 0, mdata = [104]\<rparr>, Rp_recv, Rp_recv,
     Rp_send \<lparr>kind = Kdata, flags = 0, mdata = [104]\<rparr>] (rep_t 7, (request_frames, []))) = Some [Request_received, Reply_sent]"
  apply (simp add: rep_step_def rep_t_def rep_xsend_def rep_xrecv_def router_eval cong: weak_congs split del: if_split)
  apply (subst rep_labels.simps, simp add: router_eval cong: weak_congs split del: if_split)
  apply (subst router_recvpipe.simps, simp add: router_eval cong: weak_congs split del: if_split)
  apply (subst rep_labels.simps, simp add: router_eval cong: weak_congs split del: if_split)
  apply (subst router_recvpipe.simps, simp add: rep_step_def rep_xsend_def rep_xrecv_def router_eval cong: weak_congs split del: if_split)
  done

theorem rep_alternation_witness:
  "\<exists>q s. rep_run inbox_io [Rp_other (router_attach_pipe inbox_io 0), Rp_send \<lparr>kind = Kdata, flags = 0, mdata = [104]\<rparr>, Rp_recv, Rp_recv,
     Rp_send \<lparr>kind = Kdata, flags = 0, mdata = [104]\<rparr>] (rep_t 7, (request_frames, [])) = Some (q, s, [Request_received, Reply_sent]) \<and>
     rep_alternates False [Request_received, Reply_sent]"
  using rep_example rep_alternation by fastforce

end
