(* ===== verification/Pub_Sub.thy ===== *)
theory Pub_Sub
  imports Pipe_Io Sub_Trie Sub_Mtrie
begin

text \<open>
  Model of \<open>src/src/xpub.cpp\<close>, \<open>pub.cpp\<close>, \<open>xsub.cpp\<close> and \<open>sub.cpp\<close> over the multi-trie, the trie, the distributor and
  fair queueing. \<open>vsm\<close> is what \<open>is_vsm\<close> says of a message. The metadata of messages is not part of their value,
  and is left out of what is pending. \<open>None\<close> is a failed assertion, or a loop over received messages that
  pipes which never run dry keep from ending.
\<close>

section \<open>XPUB and PUB\<close>

record xpub =
  xp_subscriptions :: mtrie
  manual_subscriptions :: mtrie
  xp_dist :: dist
  verbose_subs :: bool
  verbose_unsubs :: bool
  xp_more :: bool
  lossy :: bool
  manual :: bool
  last_pipe :: "nat option"
  pending_pipes :: "nat option list"
  welcome_msg :: "byte list"
  pending :: "(byte list \<times> 8 word) list"
  xp_is_pub :: bool
  xp_invert_matching :: bool

definition xpub_t :: "bool \<Rightarrow> xpub" where
  "xpub_t is_pub = \<lparr>xp_subscriptions = mtrie_t, manual_subscriptions = mtrie_t, xp_dist = dist_t, verbose_subs = False, verbose_unsubs = False,
     xp_more = False, lossy = True, manual = False, last_pipe = None, pending_pipes = [], welcome_msg = [], pending = [],
     xp_is_pub = is_pub, xp_invert_matching = False\<rparr>"

text \<open>A message that was read from a pipe: a subscription, a cancellation, or a message of the user.\<close>

definition xpub_process :: "nat \<Rightarrow> msg \<Rightarrow> xpub \<Rightarrow> xpub option" where
  "xpub_process p m x =
     (if mdata m \<noteq> [] \<and> (hd (mdata m) = 0 \<or> hd (mdata m) = 1) then
        if manual x then do {
          t \<leftarrow> (if hd (mdata m) = 0 then map_option fst (mtrie_rm (tl (mdata m)) p (manual_subscriptions x))
                else Some (fst (mtrie_add (tl (mdata m)) p (manual_subscriptions x))));
          Some (x\<lparr>manual_subscriptions := t, pending_pipes := pending_pipes x @ [Some p], pending := pending x @ [(mdata m, 0)]\<rparr>) }
        else do {
          (t, unique) \<leftarrow> (if hd (mdata m) = 0 then mtrie_rm (tl (mdata m)) p (xp_subscriptions x)
                          else Some (mtrie_add (tl (mdata m)) p (xp_subscriptions x)));
          let x1 = x\<lparr>xp_subscriptions := t\<rparr>;
          Some (if \<not> xp_is_pub x \<and> (unique \<or> hd (mdata m) = 1 \<and> verbose_subs x \<or> hd (mdata m) = 0 \<and> verbose_unsubs x \<and> verbose_subs x)
                then x1\<lparr>pending := pending x @ [(mdata m, 0)]\<rparr> else x1) }
      else Some (x\<lparr>pending := pending x @ [(mdata m, flags m)]\<rparr>))"

partial_function (option) xpub_xread_activated :: "'s pipe_io \<Rightarrow> nat \<Rightarrow> xpub \<Rightarrow> 's \<Rightarrow> (xpub \<times> 's) option" where
  "xpub_xread_activated io p x s =
     Option.bind (io_read io p s) (\<lambda>(s1, r).
       case r of
         None \<Rightarrow> Some (x, s1)
       | Some m \<Rightarrow> Option.bind (xpub_process p m x) (\<lambda>x1. xpub_xread_activated io p x1 s1))"

definition xpub_attach_pipe :: "'s pipe_io \<Rightarrow> nat \<Rightarrow> bool \<Rightarrow> xpub \<Rightarrow> 's \<Rightarrow> (xpub \<times> 's) option" where
  "xpub_attach_pipe io p subscribe_to_all x s = do {
     d \<leftarrow> dist_attach p (xp_dist x);
     let x1 = x\<lparr>xp_dist := d\<rparr>;
     let x2 = (if subscribe_to_all then x1\<lparr>xp_subscriptions := fst (mtrie_add [] p (xp_subscriptions x1))\<rparr> else x1);
     s1 \<leftarrow> (if welcome_msg x \<noteq> [] then do {
              (s1, _) \<leftarrow> io_write io p \<lparr>kind = Kdata, flags = 0, mdata = welcome_msg x\<rparr> s;
              io_flush io p s1 }
            else Some s);
     xpub_xread_activated io p x2 s1 }"

definition xpub_xwrite_activated :: "nat \<Rightarrow> xpub \<Rightarrow> xpub option" where
  "xpub_xwrite_activated p x = map_option (\<lambda>d. x\<lparr>xp_dist := d\<rparr>) (dist_activated p (xp_dist x))"

datatype xpub_option = Opt_xpub_verbose | Opt_xpub_verboser | Opt_xpub_nodrop | Opt_xpub_manual | Opt_subscribe | Opt_unsubscribe
  | Opt_xpub_welcome | Opt_xpub_other

definition xpub_setsockopt :: "xpub_option \<Rightarrow> byte list \<Rightarrow> xpub \<Rightarrow> (xpub \<times> unit result) option" where
  "xpub_setsockopt opt v x =
     (let flag = (case int_value v of Some n \<Rightarrow> if n < 0 then None else Some (n \<noteq> 0) | None \<Rightarrow> None);
          set_flag = (\<lambda>f. Some (case flag of None \<Rightarrow> (x, Inl EINVAL) | Some b \<Rightarrow> (f b, Inr ())))
      in case opt of
        Opt_xpub_verbose \<Rightarrow> set_flag (\<lambda>b. x\<lparr>verbose_subs := b, verbose_unsubs := False\<rparr>)
      | Opt_xpub_verboser \<Rightarrow> set_flag (\<lambda>b. x\<lparr>verbose_subs := b, verbose_unsubs := b\<rparr>)
      | Opt_xpub_nodrop \<Rightarrow> set_flag (\<lambda>b. x\<lparr>lossy := \<not> b\<rparr>)
      | Opt_xpub_manual \<Rightarrow> set_flag (\<lambda>b. x\<lparr>manual := b\<rparr>)
      | Opt_subscribe \<Rightarrow>
          Some (if \<not> manual x then (x, Inl EINVAL)
                else case last_pipe x of
                    None \<Rightarrow> (x, Inr ())
                  | Some p \<Rightarrow> (x\<lparr>xp_subscriptions := fst (mtrie_add v p (xp_subscriptions x))\<rparr>, Inr ()))
      | Opt_unsubscribe \<Rightarrow>
          (if \<not> manual x then Some (x, Inl EINVAL)
           else case last_pipe x of
               None \<Rightarrow> Some (x, Inr ())
             | Some p \<Rightarrow> map_option (\<lambda>(t, _). (x\<lparr>xp_subscriptions := t\<rparr>, Inr ())) (mtrie_rm v p (xp_subscriptions x)))
      | Opt_xpub_welcome \<Rightarrow> Some (x\<lparr>welcome_msg := v\<rparr>, Inr ())
      | Opt_xpub_other \<Rightarrow> Some (x, Inl EINVAL))"

definition send_unsubscription :: "byte list \<Rightarrow> xpub \<Rightarrow> xpub" where
  "send_unsubscription data x =
     (if xp_is_pub x then x
      else let x1 = x\<lparr>pending := pending x @ [(0 # data, 0)]\<rparr> in
        if manual x then x1\<lparr>last_pipe := None, pending_pipes := pending_pipes x @ [None]\<rparr> else x1)"

definition xpub_xpipe_terminated :: "nat \<Rightarrow> xpub \<Rightarrow> xpub option" where
  "xpub_xpipe_terminated p x = do {
     x1 \<leftarrow> (if manual x
            then map_option (\<lambda>(t, calls). fold send_unsubscription calls (x\<lparr>manual_subscriptions := t\<rparr>)) (mtrie_rm_all p False [] (manual_subscriptions x))
            else map_option (\<lambda>(t, calls). fold send_unsubscription calls (x\<lparr>xp_subscriptions := t\<rparr>))
              (mtrie_rm_all p (\<not> verbose_unsubs x) [] (xp_subscriptions x)));
     d \<leftarrow> dist_pipe_terminated p (xp_dist x1);
     Some (x1\<lparr>xp_dist := d\<rparr>) }"

primrec mark_as_matching :: "nat list \<Rightarrow> dist \<Rightarrow> dist option" where
  "mark_as_matching [] d = Some d"
| "mark_as_matching (p # ps) d = Option.bind (dist_match p d) (mark_as_matching ps)"

definition xpub_match :: "msg \<Rightarrow> xpub \<Rightarrow> xpub option" where
  "xpub_match m x = do {
     ps \<leftarrow> mtrie_match (xp_subscriptions x) (mdata m);
     d \<leftarrow> mark_as_matching ps (xp_dist x);
     d1 \<leftarrow> (if xp_invert_matching x then reverse_match d else Some d);
     Some (x\<lparr>xp_dist := d1\<rparr>) }"

text \<open>The result: the pipes the message was written to.\<close>

definition xpub_xsend :: "'s pipe_io \<Rightarrow> bool \<Rightarrow> msg \<Rightarrow> xpub \<Rightarrow> 's \<Rightarrow> (xpub \<times> 's \<times> nat list result) option" where
  "xpub_xsend io vsm m x s = do {
     x1 \<leftarrow> (if \<not> xp_more x then xpub_match m x else Some x);
     if lossy x1 \<or> dist_check_hwm (\<lambda>p. io_check_hwm io p s) (xp_dist x1) then do {
       (d, s1, ps, _) \<leftarrow> send_to_matching (io_write io) (io_flush io) vsm m (xp_dist x1) s;
       Some (x1\<lparr>xp_dist := (if has_more m then d else unmatch d), xp_more := has_more m\<rparr>, s1, Inr ps) }
     else Some (x1, s, Inl EAGAIN) }"

definition xpub_xhas_out :: "xpub \<Rightarrow> bool" where
  "xpub_xhas_out x = True"

definition xpub_xrecv :: "xpub \<Rightarrow> xpub \<times> msg result" where
  "xpub_xrecv x =
     (case pending x of
        [] \<Rightarrow> (x, Inl EAGAIN)
      | (d, fl) # rest \<Rightarrow>
          let x1 = (if manual x \<and> pending_pipes x \<noteq> [] then x\<lparr>last_pipe := hd (pending_pipes x), pending_pipes := tl (pending_pipes x)\<rparr> else x)
          in (x1\<lparr>pending := rest\<rparr>, Inr \<lparr>kind = Kdata, flags = fl, mdata = d\<rparr>))"

definition xpub_xhas_in :: "xpub \<Rightarrow> bool" where
  "xpub_xhas_in x \<longleftrightarrow> pending x \<noteq> []"

definition pub_attach_pipe :: "'s pipe_io \<Rightarrow> nat \<Rightarrow> bool \<Rightarrow> xpub \<Rightarrow> 's \<Rightarrow> (xpub \<times> 's) option" where
  "pub_attach_pipe io p subscribe_to_all x s = xpub_attach_pipe io p subscribe_to_all x (io_set_nodelay io p s)"

definition pub_xrecv :: "xpub \<Rightarrow> xpub \<times> msg result" where
  "pub_xrecv x = (x, Inl ENOTSUP)"

definition pub_xhas_in :: "xpub \<Rightarrow> bool" where
  "pub_xhas_in x = False"

section \<open>XSUB and SUB\<close>

record xsub =
  xs_fq :: fq
  xs_dist :: dist
  xs_subscriptions :: trie
  has_message :: bool
  xs_message :: msg
  xs_more :: bool
  xs_filter :: bool
  xs_invert_matching :: bool

definition xsub_t :: xsub where
  "xsub_t = \<lparr>xs_fq = fq_t, xs_dist = dist_t, xs_subscriptions = trie_t, has_message = False, xs_message = empty_msg, xs_more = False,
     xs_filter = False, xs_invert_matching = False\<rparr>"

definition sub_t :: xsub where
  "sub_t = xsub_t\<lparr>xs_filter := True\<rparr>"

definition subscription_msg :: "byte list \<Rightarrow> msg" where
  "subscription_msg k = \<lparr>kind = Kdata, flags = 0, mdata = 1 # k\<rparr>"

text \<open>\<open>send_subscription\<close> for each of the topics; a subscription that does not fit into the pipe is dropped.\<close>

primrec send_subscriptions :: "'s pipe_io \<Rightarrow> nat \<Rightarrow> byte list list \<Rightarrow> 's \<Rightarrow> 's option" where
  "send_subscriptions io p [] s = Some s"
| "send_subscriptions io p (k # ks) s = Option.bind (io_write io p (subscription_msg k) s) (\<lambda>(s1, _). send_subscriptions io p ks s1)"

definition xsub_xhiccuped :: "'s pipe_io \<Rightarrow> nat \<Rightarrow> xsub \<Rightarrow> 's \<Rightarrow> 's option" where
  "xsub_xhiccuped io p x s = do {
     ks \<leftarrow> trie_apply (xs_subscriptions x);
     s1 \<leftarrow> send_subscriptions io p ks s;
     io_flush io p s1 }"

definition xsub_attach_pipe :: "'s pipe_io \<Rightarrow> nat \<Rightarrow> xsub \<Rightarrow> 's \<Rightarrow> (xsub \<times> 's) option" where
  "xsub_attach_pipe io p x s = do {
     f \<leftarrow> fq_attach p (xs_fq x);
     d \<leftarrow> dist_attach p (xs_dist x);
     s1 \<leftarrow> xsub_xhiccuped io p x s;
     Some (x\<lparr>xs_fq := f, xs_dist := d\<rparr>, s1) }"

definition xsub_xread_activated :: "nat \<Rightarrow> xsub \<Rightarrow> xsub option" where
  "xsub_xread_activated p x = map_option (\<lambda>f. x\<lparr>xs_fq := f\<rparr>) (fq_activated p (xs_fq x))"

definition xsub_xwrite_activated :: "nat \<Rightarrow> xsub \<Rightarrow> xsub option" where
  "xsub_xwrite_activated p x = map_option (\<lambda>d. x\<lparr>xs_dist := d\<rparr>) (dist_activated p (xs_dist x))"

definition xsub_xpipe_terminated :: "'s pipe_io \<Rightarrow> nat \<Rightarrow> xsub \<Rightarrow> 's \<Rightarrow> xsub option" where
  "xsub_xpipe_terminated io p x s = do {
     f \<leftarrow> fq_pipe_terminated (\<lambda>q. io_credential io q s) p (xs_fq x);
     d \<leftarrow> dist_pipe_terminated p (xs_dist x);
     Some (x\<lparr>xs_fq := f, xs_dist := d\<rparr>) }"

definition xsub_xsend :: "'s pipe_io \<Rightarrow> bool \<Rightarrow> msg \<Rightarrow> xsub \<Rightarrow> 's \<Rightarrow> (xsub \<times> 's) option" where
  "xsub_xsend io vsm m x s = do {
     (t, forward) \<leftarrow>
       (if mdata m \<noteq> [] \<and> hd (mdata m) = 1 then map_option (\<lambda>(t, _). (t, True)) (trie_add (tl (mdata m)) (xs_subscriptions x))
        else if mdata m \<noteq> [] \<and> hd (mdata m) = 0 then trie_rm (tl (mdata m)) (xs_subscriptions x)
        else Some (xs_subscriptions x, True));
     if forward then do {
       (d, s1, _, _) \<leftarrow> send_to_all (io_write io) (io_flush io) vsm m (xs_dist x) s;
       Some (x\<lparr>xs_subscriptions := t, xs_dist := d\<rparr>, s1) }
     else Some (x\<lparr>xs_subscriptions := t\<rparr>, s) }"

definition xsub_xhas_out :: "xsub \<Rightarrow> bool" where
  "xsub_xhas_out x = True"

definition xsub_match :: "msg \<Rightarrow> xsub \<Rightarrow> bool option" where
  "xsub_match m x = map_option (\<lambda>b. b \<noteq> xs_invert_matching x) (trie_check (xs_subscriptions x) (mdata m))"

text \<open>\<open>while (msg_->flags () & msg_t::more)\<close>: the rest of a message, which has to be there.\<close>

partial_function (option) xsub_skip :: "'s pipe_io \<Rightarrow> msg \<Rightarrow> fq \<Rightarrow> 's \<Rightarrow> (fq \<times> 's) option" where
  "xsub_skip io m f s =
     (if has_more m then
        Option.bind (fq_recv (io_read io) f s) (\<lambda>(f1, s1, r).
          case r of None \<Rightarrow> None | Some m1 \<Rightarrow> xsub_skip io m1 f1 s1)
      else Some (f, s))"

text \<open>The loop of \<open>xrecv\<close> and \<open>xhas_in\<close>: the next message that passes, where every part does if \<open>any\<close>.\<close>

partial_function (option) xsub_next :: "'s pipe_io \<Rightarrow> bool \<Rightarrow> xsub \<Rightarrow> 's \<Rightarrow> (xsub \<times> 's \<times> msg option) option" where
  "xsub_next io any x s =
     Option.bind (fq_recv (io_read io) (xs_fq x) s) (\<lambda>(f, s1, r).
       let x1 = x\<lparr>xs_fq := f\<rparr> in
       case r of
         None \<Rightarrow> Some (x1, s1, None)
       | Some m \<Rightarrow>
           Option.bind (if any \<or> \<not> xs_filter x then Some True else xsub_match m x) (\<lambda>ok.
             if ok then Some (x1, s1, Some m)
             else Option.bind (xsub_skip io m f s1) (\<lambda>(f2, s2). xsub_next io any (x\<lparr>xs_fq := f2\<rparr>) s2)))"

definition xsub_xrecv :: "'s pipe_io \<Rightarrow> xsub \<Rightarrow> 's \<Rightarrow> (xsub \<times> 's \<times> msg result) option" where
  "xsub_xrecv io x s =
     (if has_message x
      then Some (x\<lparr>has_message := False, xs_message := empty_msg, xs_more := has_more (xs_message x)\<rparr>, s, Inr (xs_message x))
      else do {
        (x1, s1, r) \<leftarrow> xsub_next io (xs_more x) x s;
        Some (case r of None \<Rightarrow> (x1, s1, Inl EAGAIN) | Some m \<Rightarrow> (x1\<lparr>xs_more := has_more m\<rparr>, s1, Inr m)) })"

definition xsub_xhas_in :: "'s pipe_io \<Rightarrow> xsub \<Rightarrow> 's \<Rightarrow> (xsub \<times> 's \<times> bool) option" where
  "xsub_xhas_in io x s =
     (if xs_more x \<or> has_message x then Some (x, s, True)
      else do {
        (x1, s1, r) \<leftarrow> xsub_next io False x s;
        Some (case r of None \<Rightarrow> (x1, s1, False) | Some m \<Rightarrow> (x1\<lparr>has_message := True, xs_message := m\<rparr>, s1, True)) })"

definition xsub_get_credential :: "'s pipe_io \<Rightarrow> xsub \<Rightarrow> 's \<Rightarrow> byte list" where
  "xsub_get_credential io x s = fq_get_credential (\<lambda>q. io_credential io q s) (xs_fq x)"

definition sub_setsockopt :: "'s pipe_io \<Rightarrow> bool \<Rightarrow> xpub_option \<Rightarrow> byte list \<Rightarrow> xsub \<Rightarrow> 's \<Rightarrow> (xsub \<times> 's \<times> unit result) option" where
  "sub_setsockopt io vsm opt v x s =
     (if opt = Opt_subscribe \<or> opt = Opt_unsubscribe
      then map_option (\<lambda>(x1, s1). (x1, s1, Inr ()))
        (xsub_xsend io vsm \<lparr>kind = Kdata, flags = 0, mdata = (if opt = Opt_subscribe then 1 else 0) # v\<rparr> x s)
      else Some (x, s, Inl EINVAL))"

definition sub_xsend :: "xsub \<Rightarrow> xsub \<times> unit result" where
  "sub_xsend x = (x, Inl ENOTSUP)"

definition sub_xhas_out :: "xsub \<Rightarrow> bool" where
  "sub_xhas_out x = False"

section \<open>Publishing\<close>

text \<open>The pipes that subscribe to a prefix of some data.\<close>

definition subscribers :: "mtrie \<Rightarrow> byte list \<Rightarrow> nat set" where
  "subscribers t data = {p. \<exists>k. prefix k data \<and> p \<in> msubs t k}"

definition xpub_ok :: "xpub \<Rightarrow> bool" where
  "xpub_ok x \<longleftrightarrow> mtrie_inv (xp_subscriptions x) \<and> dist_ok (xp_dist x) \<and> (\<forall>k. msubs (xp_subscriptions x) k \<subseteq> d_members (xp_dist x)) \<and>
     d_more (xp_dist x) = xp_more x \<and> \<not> manual x \<and> lossy x \<and> (\<not> xp_more x \<longrightarrow> matched (xp_dist x) = {})"

text \<open>
  What happens to a socket that is neither in manual mode nor set to block. A pipe is attached once, and
  reports being writable only after a write failed (\<open>pipe_t::process_activate_write\<close>).
\<close>

inductive xpub_step :: "'s pipe_io \<Rightarrow> xpub \<times> 's \<Rightarrow> xpub \<times> 's \<Rightarrow> bool" for io where
  attach: "p \<notin> d_members (xp_dist x) \<Longrightarrow> xpub_attach_pipe io p all x s = Some (x', s') \<Longrightarrow> xpub_step io (x, s) (x', s')"
| read_activated: "p \<in> d_members (xp_dist x) \<Longrightarrow> xpub_xread_activated io p x s = Some (x', s') \<Longrightarrow> xpub_step io (x, s) (x', s')"
| write_activated: "p \<in> d_members (xp_dist x) - eligibles (xp_dist x) \<Longrightarrow> xpub_xwrite_activated p x = Some x' \<Longrightarrow> xpub_step io (x, s) (x', s)"
| terminated: "p \<in> d_members (xp_dist x) \<Longrightarrow> xpub_xpipe_terminated p x = Some x' \<Longrightarrow> xpub_step io (x, s) (x', s)"
| send: "xpub_xsend io vsm m x s = Some (x', s', r) \<Longrightarrow> xpub_step io (x, s) (x', s')"
| recv: "xpub_xrecv x = (x', y) \<Longrightarrow> xpub_step io (x, s) (x', s)"
| setsockopt: "opt \<notin> {Opt_xpub_nodrop, Opt_xpub_manual} \<Longrightarrow> xpub_setsockopt opt v x = Some (x', z) \<Longrightarrow> xpub_step io (x, s) (x', s)"
| pipes: "xpub_step io (x, s) (x, s')"

definition xpub_reach :: "'s pipe_io \<Rightarrow> xpub \<Rightarrow> 's \<Rightarrow> bool" where
  "xpub_reach io x s \<longleftrightarrow> (\<exists>is_pub invert s0. (xpub_step io)\<^sup>*\<^sup>* (xpub_t is_pub\<lparr>xp_invert_matching := invert\<rparr>, s0) (x, s))"

lemma xpub_okI:
  assumes "mtrie_inv (xp_subscriptions x)" "dist_ok (xp_dist x)" "\<And>k. msubs (xp_subscriptions x) k \<subseteq> d_members (xp_dist x)"
    "d_more (xp_dist x) = xp_more x" "\<not> manual x" "lossy x" "\<not> xp_more x \<Longrightarrow> matched (xp_dist x) = {}"
  shows "xpub_ok x"
  unfolding xpub_ok_def using assms by blast

lemma xpub_okD:
  assumes "xpub_ok x"
  shows "mtrie_inv (xp_subscriptions x)" "dist_ok (xp_dist x)" "msubs (xp_subscriptions x) k \<subseteq> d_members (xp_dist x)"
    "d_more (xp_dist x) = xp_more x" "\<not> manual x" "lossy x" "\<not> xp_more x \<Longrightarrow> matched (xp_dist x) = {}"
  using assms unfolding xpub_ok_def by blast+

text \<open>A change of the subscriptions alone.\<close>

lemma xpub_ok_subs:
  assumes ok: "xpub_ok x" and t: "mtrie_inv (xp_subscriptions x')" "\<And>k. msubs (xp_subscriptions x') k \<subseteq> d_members (xp_dist x)"
    and e: "xp_dist x' = xp_dist x" "xp_more x' = xp_more x" "manual x' = manual x" "lossy x' = lossy x"
  shows "xpub_ok x'"
  by (rule xpub_okI) (use xpub_okD[OF ok] t e in auto)

lemma mrm_some:
  assumes "mtrie_inv t" "mtrie_rm k p t = Some (t', b)"
  shows "mtrie_inv t' \<and> (\<forall>j. msubs t' j \<subseteq> msubs t j)"
proof (cases "p \<in> msubs t k \<or> msubs t k = {}")
  case True
  from mrm_ok[OF assms(1) True] show ?thesis using assms(2) by (auto split: if_splits)
next
  case False
  then show ?thesis using mrm_abort[OF assms(1), of k p] assms(2) by auto
qed

lemma madd_some:
  assumes "mtrie_inv t" "mtrie_add k p t = (t', b)"
  shows "mtrie_inv t' \<and> (\<forall>j. msubs t' j \<subseteq> insert p (msubs t j))"
  using madd_ok[OF assms(1), of k p] assms(2) by auto

lemma xpub_process_ok:
  assumes ok: "xpub_ok x" and p: "p \<in> d_members (xp_dist x)" and run: "xpub_process p m x = Some x'"
  shows "xpub_ok x' \<and> xp_dist x' = xp_dist x"
proof (cases "mdata m \<noteq> [] \<and> (hd (mdata m) = 0 \<or> hd (mdata m) = 1)")
  case False
  then have x': "x' = x\<lparr>pending := pending x @ [(mdata m, flags m)]\<rparr>" using run by (auto simp: xpub_process_def)
  show ?thesis using xpub_ok_subs[OF ok, of x'] xpub_okD(1,3)[OF ok] x' by simp
next
  case True
  note D = xpub_okD[OF ok]
  obtain t u where t: "(if hd (mdata m) = 0 then mtrie_rm (tl (mdata m)) p (xp_subscriptions x)
      else Some (mtrie_add (tl (mdata m)) p (xp_subscriptions x))) = Some (t, u)"
    and x': "xp_subscriptions x' = t" "xp_dist x' = xp_dist x" "xp_more x' = xp_more x" "manual x' = manual x" "lossy x' = lossy x"
    using run True D(5) by (auto simp: xpub_process_def Let_def split: bind_splits if_splits)
  have "mtrie_inv t \<and> (\<forall>j. msubs t j \<subseteq> insert p (msubs (xp_subscriptions x) j))"
    using t mrm_some[OF D(1)] madd_some[OF D(1)] by (fastforce split: if_splits)
  then have "msubs t k \<subseteq> d_members (xp_dist x)" for k using D(3)[of k] p by blast
  then show ?thesis using xpub_ok_subs[OF ok, of x'] x' \<open>mtrie_inv t \<and> _\<close> by simp
qed

lemma xpub_read_ok:
  "xpub_xread_activated io p x s = Some r \<Longrightarrow>
    xpub_ok x \<longrightarrow> p \<in> d_members (xp_dist x) \<longrightarrow> xpub_ok (fst r) \<and> xp_dist (fst r) = xp_dist x"
proof (erule xpub_xread_activated.raw_induct[rotated, where P = "\<lambda>io p x s r. xpub_ok x \<longrightarrow> p \<in> d_members (xp_dist x) \<longrightarrow>
    xpub_ok (fst r) \<and> xp_dist (fst r) = xp_dist x" and xa = "(((io, p), x), s)", unfolded prod.case], goal_cases)
  case (1 rec io p x s r)
  then obtain s1 y where y: "io_read io p s = Some (s1, y)"
    "(case y of None \<Rightarrow> Some (x, s1) | Some m \<Rightarrow> Option.bind (xpub_process p m x) (\<lambda>x1. rec io p x1 s1)) = Some r"
    by (auto split: bind_split_asm)
  show ?case
  proof (cases y)
    case None
    then show ?thesis using y(2) by auto
  next
    case (Some m)
    then obtain x1 where x1: "xpub_process p m x = Some x1" "rec io p x1 s1 = Some r" using y(2) by (auto split: bind_split_asm)
    show ?thesis using 1(1)[OF x1(2)] xpub_process_ok[OF _ _ x1(1)] by auto
  qed
qed

lemma xpub_attach_ok:
  assumes ok: "xpub_ok x" and p: "p \<notin> d_members (xp_dist x)" and run: "xpub_attach_pipe io p all x s = Some (x', s')"
  shows "xpub_ok x'"
proof -
  note D = xpub_okD[OF ok]
  obtain d where d: "dist_attach p (xp_dist x) = Some d" "dist_ok d" "d_members d = insert p (d_members (xp_dist x))"
    "matched d = matched (xp_dist x)" "d_more d = d_more (xp_dist x)" using dist_attach_ok[OF D(2) p] by blast
  let ?t = "if all then fst (mtrie_add [] p (xp_subscriptions x)) else xp_subscriptions x"
  let ?x = "x\<lparr>xp_dist := d, xp_subscriptions := ?t\<rparr>"
  let ?y = "if all then x\<lparr>xp_dist := d, xp_subscriptions := fst (mtrie_add [] p (xp_subscriptions (x\<lparr>xp_dist := d\<rparr>)))\<rparr> else x\<lparr>xp_dist := d\<rparr>"
  have "\<exists>s1. xpub_xread_activated io p ?y s1 = Some (x', s')"
    using run d(1) by (auto simp: xpub_attach_pipe_def Let_def split: bind_splits)
  moreover have "?y = ?x" by (cases x) simp
  ultimately obtain s1 where r: "xpub_xread_activated io p ?x s1 = Some (x', s')" by metis
  have "mtrie_inv ?t \<and> (\<forall>j. msubs ?t j \<subseteq> insert p (msubs (xp_subscriptions x) j))"
    using D(1) madd_some[OF D(1), of "[]" p] by (cases "mtrie_add [] p (xp_subscriptions x)") auto
  then have t: "mtrie_inv ?t" "\<And>k. msubs ?t k \<subseteq> d_members d" using D(3) d(3) by (simp, blast)
  have "xpub_ok ?x" by (rule xpub_okI) (use D d t in auto)
  then show ?thesis using xpub_read_ok[OF r] d(3) by simp
qed

lemma fold_unsubscription [simp]:
  "xp_subscriptions (fold send_unsubscription cs x) = xp_subscriptions x" "xp_dist (fold send_unsubscription cs x) = xp_dist x"
  "xp_more (fold send_unsubscription cs x) = xp_more x" "manual (fold send_unsubscription cs x) = manual x"
  "lossy (fold send_unsubscription cs x) = lossy x"
  by (induction cs arbitrary: x) (simp_all add: send_unsubscription_def Let_def)

lemma terminated_more: "dist_pipe_terminated p d = Some d' \<Longrightarrow> d_more d' = d_more d"
  by (auto simp: dist_pipe_terminated_def split: bind_splits)

lemma xpub_terminated_ok:
  assumes ok: "xpub_ok x" and p: "p \<in> d_members (xp_dist x)"
  shows "\<exists>x'. xpub_xpipe_terminated p x = Some x' \<and> xpub_ok x' \<and> (\<forall>k. msubs (xp_subscriptions x') k = msubs (xp_subscriptions x) k - {p})"
proof -
  note D = xpub_okD[OF ok]
  obtain t cs where t: "mtrie_rm_all p (\<not> verbose_unsubs x) [] (xp_subscriptions x) = Some (t, cs)" "mtrie_inv t"
    "\<And>k. msubs t k = msubs (xp_subscriptions x) k - {p}" using mrm_all_ok[OF D(1), of p "\<not> verbose_unsubs x" "[]"] by blast
  obtain d where d: "dist_pipe_terminated p (xp_dist x) = Some d" "dist_ok d" "d_members d = d_members (xp_dist x) - {p}"
    "matched d = matched (xp_dist x) - {p}" using dist_pipe_terminated_ok[OF D(2) p] by blast
  let ?x = "(fold send_unsubscription cs (x\<lparr>xp_subscriptions := t\<rparr>))\<lparr>xp_dist := d\<rparr>"
  have "xpub_xpipe_terminated p x = Some ?x" using t(1) d(1) D(5) by (simp add: xpub_xpipe_terminated_def)
  moreover have "xpub_ok ?x"
    by (rule xpub_okI) (use D t d terminated_more[OF d(1)] in auto)
  ultimately show ?thesis using t(3) by simp
qed

lemma mark_ok:
  "dist_ok d \<Longrightarrow> \<not> d_more d \<Longrightarrow> set ps \<subseteq> d_members d \<Longrightarrow>
    \<exists>d'. mark_as_matching ps d = Some d' \<and> dist_ok d' \<and> \<not> d_more d' \<and> d_members d' = d_members d \<and> eligibles d' = eligibles d \<and>
      matched d' = matched d \<union> (set ps \<inter> eligibles d)"
proof (induction ps arbitrary: d)
  case (Cons p ps)
  obtain d1 where d1: "dist_match p d = Some d1" "dist_ok d1" "d_members d1 = d_members d" "eligibles d1 = eligibles d" "\<not> d_more d1"
    "matched d1 = (if p \<in> eligibles d then insert p (matched d) else matched d)"
    using dist_match_ok[OF Cons.prems(1) _ Cons.prems(2), of p] Cons.prems(3) by auto
  have "set ps \<subseteq> d_members d1" using Cons.prems(3) d1(3) by auto
  from Cons.IH[OF d1(2,5) this] show ?case using d1 by (auto split: if_splits)
qed simp

lemma match_subscribers:
  assumes ok: "xpub_ok x"
  shows "\<exists>ps. mtrie_match (xp_subscriptions x) data = Some ps \<and> set ps = subscribers (xp_subscriptions x) data \<and> set ps \<subseteq> d_members (xp_dist x)"
proof -
  note D = xpub_okD[OF ok]
  have f: "finite (msubs (xp_subscriptions x) k)" for k using D(3)[of k] finite_subset by blast
  have "set (concat (map (\<lambda>k. sorted_list_of_set (msubs (xp_subscriptions x) k)) (prefixes data))) = subscribers (xp_subscriptions x) data"
    using f by (auto simp: subscribers_def)
  moreover have "subscribers (xp_subscriptions x) data \<subseteq> d_members (xp_dist x)" using D(3) by (auto simp: subscribers_def)
  ultimately show ?thesis using mmatch_ok[OF D(1), of data] by auto
qed

text \<open>The pipes the first part of a message is for.\<close>

definition audience :: "xpub \<Rightarrow> byte list \<Rightarrow> nat set" where
  "audience x data = (if xp_invert_matching x then eligibles (xp_dist x) - subscribers (xp_subscriptions x) data
                      else eligibles (xp_dist x) \<inter> subscribers (xp_subscriptions x) data)"

lemma xpub_match_ok:
  assumes ok: "xpub_ok x" and b: "\<not> xp_more x"
  shows "\<exists>d. xpub_match m x = Some (x\<lparr>xp_dist := d\<rparr>) \<and> dist_ok d \<and> d_members d = d_members (xp_dist x) \<and>
    eligibles d = eligibles (xp_dist x) \<and> matched d = audience x (mdata m)"
proof -
  note D = xpub_okD[OF ok]
  obtain ps where ps: "mtrie_match (xp_subscriptions x) (mdata m) = Some ps" "set ps = subscribers (xp_subscriptions x) (mdata m)"
    "set ps \<subseteq> d_members (xp_dist x)" using match_subscribers[OF ok] by blast
  obtain d where d: "mark_as_matching ps (xp_dist x) = Some d" "dist_ok d" "\<not> d_more d" "d_members d = d_members (xp_dist x)"
    "eligibles d = eligibles (xp_dist x)" "matched d = set ps \<inter> eligibles (xp_dist x)"
    using mark_ok[OF D(2) _ ps(3)] D(4,7) b by auto
  show ?thesis
  proof (cases "xp_invert_matching x")
    case True
    obtain d1 where "reverse_match d = Some d1" "dist_ok d1" "d_members d1 = d_members d" "eligibles d1 = eligibles d"
      "matched d1 = eligibles d - matched d" using reverse_match_ok[OF d(2,3)] by blast
    then show ?thesis using ps d True by (auto simp: xpub_match_def audience_def)
  next
    case False
    then show ?thesis using ps d by (auto simp: xpub_match_def audience_def)
  qed
qed

lemma unmatch_ok: "dist_ok d \<Longrightarrow> dist_ok (unmatch d) \<and> matched (unmatch d) = {} \<and> d_members (unmatch d) = d_members d \<and> d_more (unmatch d) = d_more d"
  by (simp add: unmatch_def dist_ok_def active_set_def)

lemma sent_more: "send_to_matching wr fl vsm m d s = Some (d', s', ps, n) \<Longrightarrow> d_more d' = has_more m"
  by (auto simp: send_to_matching_def)

lemma sent_members:
  assumes "dist_ok d" "send_to_matching wr fl vsm m d s = Some (d', s', ps, n)"
  shows "d_members d' = d_members d"
proof (cases "matching d = 0")
  case True
  then show ?thesis using assms by (auto simp: send_to_matching_def distribute_def split: if_splits)
next
  case False
  then obtain d1 k where l: "dist_loop wr fl m 0 d s = Some (d1, s', ps, k)" "d_members d' = d_members d1"
    using assms(2) by (auto simp: send_to_matching_def distribute_def Let_def split: if_splits)
  show ?thesis using dist_loop_effect[OF assms(1) _ l(1)] l(2) by auto
qed

lemma xpub_xsend_effect:
  assumes ok: "xpub_ok x" and run: "xpub_xsend io vsm m x s = Some (x', s', r)"
  shows "xpub_ok x' \<and> (\<exists>ps. r = Inr ps \<and> distinct ps \<and> (has_more m \<longrightarrow> matched (xp_dist x') = set ps) \<and>
    (if xp_more x then set ps \<subseteq> matched (xp_dist x)
     else set ps \<subseteq> audience x (mdata m) \<and> eligibles (xp_dist x') = eligibles (xp_dist x) - (audience x (mdata m) - set ps)))"
proof -
  note D = xpub_okD[OF ok]
  obtain d where d: "(if \<not> xp_more x then xpub_match m x else Some x) = Some (x\<lparr>xp_dist := d\<rparr>)" "dist_ok d"
    "d_members d = d_members (xp_dist x)" "eligibles d = eligibles (xp_dist x)"
    "matched d = (if xp_more x then matched (xp_dist x) else audience x (mdata m))"
  proof (cases "xp_more x")
    case True
    have "x = x\<lparr>xp_dist := xp_dist x\<rparr>" by simp
    then show thesis using that[of "xp_dist x"] True D(2) by simp
  qed (use that xpub_match_ok[OF ok, of m] in auto)
  obtain d1 ps n where s: "send_to_matching (io_write io) (io_flush io) vsm m d s = Some (d1, s', ps, n)"
    and x': "x' = x\<lparr>xp_dist := (if has_more m then d1 else unmatch d1), xp_more := has_more m\<rparr>" "r = Inr ps"
    using run d(1) D(6) by (auto simp: xpub_xsend_def split: bind_splits)
  note e = dist_send_effect[OF d(2) s]
  have m: "d_members d1 = d_members (xp_dist x)" using sent_members[OF d(2) s] d(3) by simp
  have el: "eligibles (if has_more m then d1 else unmatch d1) = eligibles d1" by (simp add: unmatch_def)
  have "xpub_ok x'"
    by (rule xpub_okI) (use x' e m D sent_more[OF s] unmatch_ok[of d1] in auto)
  then show ?thesis using e x' el d(4,5) by (auto split: if_splits)
qed

lemma xpub_step_ok:
  assumes "xpub_step io y z" "xpub_ok (fst y)"
  shows "xpub_ok (fst z)"
  using assms
proof (induction rule: xpub_step.induct)
  case (attach p x all s x' s')
  then show ?case using xpub_attach_ok[of x p io all s x' s'] by simp
next
  case (read_activated p x s x' s')
  then show ?case using xpub_read_ok[of io p x s "(x', s')"] by simp
next
  case (write_activated p x x' s)
  then have ok: "xpub_ok x" by simp
  note D = xpub_okD[OF ok]
  obtain d where d: "dist_activated p (xp_dist x) = Some d" "dist_ok d" "d_members d = d_members (xp_dist x)" "matched d = matched (xp_dist x)"
    "d_more d = d_more (xp_dist x)" using dist_activated_ok[OF D(2), of p] write_activated(1) by auto
  then have x': "x' = x\<lparr>xp_dist := d\<rparr>" using write_activated(2) by (simp add: xpub_xwrite_activated_def)
  have "xpub_ok x'" by (rule xpub_okI) (use D d x' in auto)
  then show ?case by simp
next
  case (terminated p x x' s)
  then show ?case using xpub_terminated_ok[of x p] by auto
next
  case (send vsm m x s x' s' r)
  then show ?case using xpub_xsend_effect[of x io vsm m s x' s' r] by simp
next
  case (recv x x' y s)
  then have ok: "xpub_ok x" by simp
  have "xp_subscriptions x' = xp_subscriptions x \<and> xp_dist x' = xp_dist x \<and> xp_more x' = xp_more x \<and> manual x' = manual x \<and> lossy x' = lossy x"
    using recv(1) xpub_okD(5)[OF ok] by (auto simp: xpub_xrecv_def Let_def split: list.splits)
  then show ?case using xpub_ok_subs[OF ok, of x'] xpub_okD(1,3)[OF ok] by simp
next
  case (setsockopt opt v x x' z s)
  then have ok: "xpub_ok x" by simp
  have "xp_subscriptions x' = xp_subscriptions x \<and> xp_dist x' = xp_dist x \<and> xp_more x' = xp_more x \<and> manual x' = manual x \<and> lossy x' = lossy x"
    using setsockopt(1,2) xpub_okD(5)[OF ok] by (cases opt) (auto simp: xpub_setsockopt_def Let_def split: option.splits if_splits)
  then show ?case using xpub_ok_subs[OF ok, of x'] xpub_okD(1,3)[OF ok] by simp
qed simp

lemma xpub_reach_ok:
  assumes "xpub_reach io x s"
  shows "xpub_ok x"
proof -
  have "(xpub_step io)\<^sup>*\<^sup>* y z \<Longrightarrow> xpub_ok (fst y) \<Longrightarrow> xpub_ok (fst z)" for y z
    by (induction rule: rtranclp_induct) (blast dest: xpub_step_ok)+
  moreover have "xpub_ok (xpub_t b\<lparr>xp_invert_matching := i\<rparr>)" for b i
    using dist_t_ok by (intro xpub_okI) (simp_all add: xpub_t_def dist_t_def active_set_def)
  ultimately show ?thesis using assms unfolding xpub_reach_def by fastforce
qed


section \<open>Receiving\<close>

lemma xsub_next_match:
  "xsub_next io any x s = Some r \<Longrightarrow> \<not> any \<longrightarrow> trie_inv (xs_subscriptions x) \<longrightarrow> xs_filter x \<longrightarrow>
    (case snd (snd r) of None \<Rightarrow> True
     | Some m \<Rightarrow> (\<exists>k. prefix k (mdata m) \<and> sub_count (xs_subscriptions x) k \<noteq> 0) \<longleftrightarrow> \<not> xs_invert_matching x)"
proof (erule xsub_next.raw_induct[rotated, where P = "\<lambda>io any x s r. \<not> any \<longrightarrow> trie_inv (xs_subscriptions x) \<longrightarrow> xs_filter x \<longrightarrow>
    (case snd (snd r) of None \<Rightarrow> True
     | Some m \<Rightarrow> (\<exists>k. prefix k (mdata m) \<and> sub_count (xs_subscriptions x) k \<noteq> 0) \<longleftrightarrow> \<not> xs_invert_matching x)"
    and xa = "(((io, any), x), s)", unfolded prod.case], goal_cases)
  case (1 rec io any x s r)
  then obtain f s1 y where y: "fq_recv (io_read io) (xs_fq x) s = Some (f, s1, y)"
    "(case y of
         None \<Rightarrow> Some (x\<lparr>xs_fq := f\<rparr>, s1, None)
       | Some m \<Rightarrow>
           Option.bind (if any \<or> \<not> xs_filter x then Some True else xsub_match m x) (\<lambda>ok.
             if ok then Some (x\<lparr>xs_fq := f\<rparr>, s1, Some m)
             else Option.bind (xsub_skip io m f s1) (\<lambda>(f2, s2). rec io any (x\<lparr>xs_fq := f2\<rparr>) s2))) = Some r"
    by (auto simp: Let_def split: bind_split_asm)
  show ?case
  proof (intro impI)
    assume a: "\<not> any" "trie_inv (xs_subscriptions x)" "xs_filter x"
    show "case snd (snd r) of None \<Rightarrow> True
      | Some m \<Rightarrow> (\<exists>k. prefix k (mdata m) \<and> sub_count (xs_subscriptions x) k \<noteq> 0) \<longleftrightarrow> \<not> xs_invert_matching x"
    proof (cases y)
      case None
      then show ?thesis using y(2) by auto
    next
      case (Some m)
      have c: "xsub_match m x = Some ((\<exists>k. prefix k (mdata m) \<and> sub_count (xs_subscriptions x) k \<noteq> 0) \<noteq> xs_invert_matching x)"
        using check_ok[OF a(2)] by (simp add: xsub_match_def)
      show ?thesis
      proof (cases "(\<exists>k. prefix k (mdata m) \<and> sub_count (xs_subscriptions x) k \<noteq> 0) \<noteq> xs_invert_matching x")
        case True
        then have "r = (x\<lparr>xs_fq := f\<rparr>, s1, Some m)" using y(2) Some a c by simp
        then show ?thesis using True by auto
      next
        case False
        then obtain f2 s2 where "rec io any (x\<lparr>xs_fq := f2\<rparr>) s2 = Some r" using y(2) Some a c by (auto split: bind_split_asm)
        from 1(1)[OF this] a show ?thesis by (simp split: option.splits)
      qed
    qed
  qed
qed

text \<open>
  A SUB socket and the subscriptions and cancellations its user made so far. Everything else that happens to it
  leaves them alone.
\<close>

inductive sub_reach :: "'s pipe_io \<Rightarrow> sub_op list \<Rightarrow> xsub \<Rightarrow> 's \<Rightarrow> bool" for io where
  init: "sub_reach io [] (sub_t\<lparr>xs_invert_matching := i\<rparr>) s"
| subscribe: "sub_reach io xs x s \<Longrightarrow> sub_setsockopt io vsm Opt_subscribe k x s = Some (x', s', r) \<Longrightarrow> sub_reach io (xs @ [Sub k]) x' s'"
| unsubscribe: "sub_reach io xs x s \<Longrightarrow> sub_setsockopt io vsm Opt_unsubscribe k x s = Some (x', s', r) \<Longrightarrow> sub_reach io (xs @ [Unsub k]) x' s'"
| recv: "sub_reach io xs x s \<Longrightarrow> xsub_xrecv io x s = Some (x', s', r) \<Longrightarrow> sub_reach io xs x' s'"
| has_in: "sub_reach io xs x s \<Longrightarrow> xsub_xhas_in io x s = Some (x', s', b) \<Longrightarrow> sub_reach io xs x' s'"
| attach: "sub_reach io xs x s \<Longrightarrow> xsub_attach_pipe io p x s = Some (x', s') \<Longrightarrow> sub_reach io xs x' s'"
| hiccuped: "sub_reach io xs x s \<Longrightarrow> xsub_xhiccuped io p x s = Some s' \<Longrightarrow> sub_reach io xs x s'"
| read_activated: "sub_reach io xs x s \<Longrightarrow> xsub_xread_activated p x = Some x' \<Longrightarrow> sub_reach io xs x' s"
| write_activated: "sub_reach io xs x s \<Longrightarrow> xsub_xwrite_activated p x = Some x' \<Longrightarrow> sub_reach io xs x' s"
| terminated: "sub_reach io xs x s \<Longrightarrow> xsub_xpipe_terminated io p x s = Some x' \<Longrightarrow> sub_reach io xs x' s"
| pipes: "sub_reach io xs x s \<Longrightarrow> sub_reach io xs x s'"

definition same_filter :: "xsub \<Rightarrow> xsub \<Rightarrow> bool" where
  "same_filter x x' \<longleftrightarrow> xs_subscriptions x' = xs_subscriptions x \<and> xs_filter x' = xs_filter x"

lemma xsub_next_filter: "xsub_next io any x s = Some r \<Longrightarrow> same_filter x (fst r)"
proof (erule xsub_next.raw_induct[rotated, where P = "\<lambda>io any x s r. same_filter x (fst r)" and xa = "(((io, any), x), s)",
    unfolded prod.case], goal_cases)
  case (1 rec io any x s r)
  then obtain f s1 y where y: "(case y of
         None \<Rightarrow> Some (x\<lparr>xs_fq := f\<rparr>, s1, None)
       | Some m \<Rightarrow>
           Option.bind (if any \<or> \<not> xs_filter x then Some True else xsub_match m x) (\<lambda>ok.
             if ok then Some (x\<lparr>xs_fq := f\<rparr>, s1, Some m)
             else Option.bind (xsub_skip io m f s1) (\<lambda>(f2, s2). rec io any (x\<lparr>xs_fq := f2\<rparr>) s2))) = Some r"
    by (auto simp: Let_def split: bind_split_asm)
  have "r = (x\<lparr>xs_fq := f\<rparr>, s1, y) \<or> (\<exists>f2 s2. rec io any (x\<lparr>xs_fq := f2\<rparr>) s2 = Some r)"
    using y by (cases y) (auto split: bind_split_asm if_split_asm)
  then show ?case using 1(1) by (fastforce simp: same_filter_def)
qed

lemma spec_subs_append: "spec_subs (xs @ ys) f = spec_subs ys (spec_subs xs f)"
proof (induction xs arbitrary: f)
  case (Cons a xs)
  then show ?case by (cases a) (simp_all add: fun_upd_def)
qed simp

lemma spec_subs_le: "spec_subs xs f k \<le> f k + length xs"
proof (induction xs arbitrary: f)
  case (Cons a xs)
  show ?case
  proof (cases a)
    case (Sub j)
    then show ?thesis using Cons.IH[of "f(j := f j + 1)"] by (auto simp: fun_upd_def split: if_splits)
  next
    case (Unsub j)
    then show ?thesis using Cons.IH[of "f(j := f j - 1)"] by (auto simp: fun_upd_def split: if_splits)
  qed
qed simp

lemma spec_subs_word:
  assumes "length xs < 2 ^ 32"
  shows "(of_nat (spec_subs xs (\<lambda>_. 0) k) :: 32 word) = 0 \<longleftrightarrow> spec_subs xs (\<lambda>_. 0) k = 0"
proof -
  have "spec_subs xs (\<lambda>_. 0) k < 2 ^ LENGTH(32)" using spec_subs_le[of xs "\<lambda>_. 0" k] assms by simp
  then have "unat (of_nat (spec_subs xs (\<lambda>_. 0) k) :: 32 word) = spec_subs xs (\<lambda>_. 0) k" by (simp only: unat_of_nat mod_less)
  then show ?thesis by (metis unat_0_iff)
qed

lemma sub_reach_counts:
  "sub_reach io xs x s \<Longrightarrow> length xs < 2 ^ 32 \<Longrightarrow>
    trie_inv (xs_subscriptions x) \<and> xs_filter x \<and> (\<forall>k. sub_count (xs_subscriptions x) k = of_nat (spec_subs xs (\<lambda>_. 0) k))"
proof (induction rule: sub_reach.induct)
  case (init i s)
  then show ?case by (simp add: sub_t_def xsub_t_def)
next
  case (subscribe xs x s vsm k x' s' r)
  then have h: "trie_inv (xs_subscriptions x)" "xs_filter x" "\<And>k. sub_count (xs_subscriptions x) k = of_nat (spec_subs xs (\<lambda>_. 0) k)" by auto
  obtain t where t: "trie_add k (xs_subscriptions x) = Some (t, sub_count (xs_subscriptions x) k = 0)" "trie_inv t"
    "sub_count t = (sub_count (xs_subscriptions x))(k := sub_count (xs_subscriptions x) k + 1)" using add_ok[OF h(1)] by blast
  have "xs_subscriptions x' = t \<and> xs_filter x'"
    using subscribe(2) t(1) h(2) by (auto simp: sub_setsockopt_def xsub_xsend_def split: bind_splits)
  then show ?case using t h by (simp add: spec_subs_append)
next
  case (unsubscribe xs x s vsm k x' s' r)
  then have h: "trie_inv (xs_subscriptions x)" "xs_filter x" "\<And>k. sub_count (xs_subscriptions x) k = of_nat (spec_subs xs (\<lambda>_. 0) k)" by auto
  let ?n = "spec_subs xs (\<lambda>_. 0) k"
  obtain t b where t: "trie_rm k (xs_subscriptions x) = Some (t, b)" "trie_inv t"
    "sub_count t = (sub_count (xs_subscriptions x))(k := if sub_count (xs_subscriptions x) k = 0 then 0 else sub_count (xs_subscriptions x) k - 1)"
    using rm_ok[OF h(1)] by blast
  have x': "xs_subscriptions x' = t \<and> xs_filter x'"
    using unsubscribe(2) t(1) h(2) by (auto simp: sub_setsockopt_def xsub_xsend_def split: bind_splits if_splits)
  have z: "(of_nat ?n :: 32 word) = 0 \<longleftrightarrow> ?n = 0" by (rule spec_subs_word) (use unsubscribe.prems in simp)
  have "(if (of_nat ?n :: 32 word) = 0 then 0 else of_nat ?n - 1) = (of_nat (?n - 1) :: 32 word)"
    unfolding z by (cases "?n") auto
  then have "sub_count t j = of_nat (spec_subs (xs @ [Unsub k]) (\<lambda>_. 0) j)" for j
    using t(3) h(3) z by (simp add: spec_subs_append)
  then show ?case using t(2) x' by simp
next
  case (recv xs x s x' s' r)
  then have "same_filter x x'" using xsub_next_filter[of io "xs_more x" x s]
    by (auto simp: xsub_xrecv_def same_filter_def split: if_splits bind_splits option.splits)
  then show ?case using recv by (simp add: same_filter_def)
next
  case (has_in xs x s x' s' b)
  then have "same_filter x x'" using xsub_next_filter[of io False x s]
    by (auto simp: xsub_xhas_in_def same_filter_def split: if_splits bind_splits option.splits)
  then show ?case using has_in by (simp add: same_filter_def)
next
  case (attach xs x s p x' s')
  then have "same_filter x x'" by (auto simp: xsub_attach_pipe_def same_filter_def split: bind_splits)
  then show ?case using attach by (simp add: same_filter_def)
next
  case (read_activated xs x s p x')
  then have "same_filter x x'" by (auto simp: xsub_xread_activated_def same_filter_def)
  then show ?case using read_activated by (simp add: same_filter_def)
next
  case (write_activated xs x s p x')
  then have "same_filter x x'" by (auto simp: xsub_xwrite_activated_def same_filter_def)
  then show ?case using write_activated by (simp add: same_filter_def)
next
  case (terminated xs x s p x')
  then have "same_filter x x'" by (auto simp: xsub_xpipe_terminated_def same_filter_def split: bind_splits)
  then show ?case using terminated by (simp add: same_filter_def)
qed simp_all


section \<open>Examples\<close>

abbreviation part :: "byte list \<Rightarrow> msg" where
  "part d \<equiv> \<lparr>kind = Kdata, flags = 0, mdata = d\<rparr>"

lemmas publish_eval = inbox_simps xpub_process_def xpub_xsend_def xpub_match_def mtrie_t_def tb_empty_def Node_Table.extend_def in_range_def
  child_node_def set_slot_def dist_match_def d_swap_def arr_swap_def arr_index_def send_to_matching_def distribute_def dist_loop.simps
  dist_write_def arr_at_def exchange_def xpub_attach_pipe_def xpub_t_def dist_attach_def dist_t_def arr_empty_def arr_push_back_def Let_def

lemma publish_example:
  "\<exists>x1 s1 x2. xpub_attach_pipe inbox_io 0 False (xpub_t True) ([part [1, 65]], []) = Some (x1, s1) \<and> \<not> xp_more x1 \<and> \<not> xp_invert_matching x1 \<and>
     xpub_xsend inbox_io True (part [65, 66]) x1 s1 = Some (x2, s1, Inr [0])"
  apply (simp add: publish_eval cong: weak_congs split del: if_split)
  apply (subst xpub_xread_activated.simps, simp add: publish_eval cong: weak_congs split del: if_split)
  apply (subst xpub_xread_activated.simps, simp add: publish_eval cong: weak_congs split del: if_split)
  done


lemma sub_example:
  "\<exists>x1 x2 x3 s2 s3. sub_setsockopt inbox_io True Opt_subscribe [65] sub_t ([part [90], part [65, 1]], []) = Some (x1, ([part [90], part [65, 1]], []), Inr ()) \<and>
     xsub_attach_pipe inbox_io 0 x1 ([part [90], part [65, 1]], []) = Some (x2, s2) \<and> \<not> has_message x2 \<and> \<not> xs_more x2 \<and>
     \<not> xs_invert_matching x2 \<and>
     xsub_xrecv inbox_io x2 s2 = Some (x3, s3, Inr (part [65, 1]))"
  apply (simp add: publish_eval sub_setsockopt_def xsub_xsend_def sub_t_def xsub_t_def trie_t_def send_to_all_def xsub_attach_pipe_def
      xsub_xhiccuped_def trie_apply_def fq_t_def fq_attach_def xsub_xrecv_def
      cong: weak_congs split del: if_split)
  apply (subst xsub_next.simps, simp add: publish_eval fq_recv_def fq_recvpipe.simps xsub_match_def cong: weak_congs split del: if_split)
  apply (subst xsub_skip.simps, simp add: publish_eval cong: weak_congs split del: if_split)
  apply (subst xsub_next.simps, simp add: publish_eval fq_recv_def fq_recvpipe.simps xsub_match_def cong: weak_congs split del: if_split)
  done


section \<open>Behaviour that is not as intended\<close>

text \<open>
  In manual mode the termination of a pipe removes it from \<open>manual_subscriptions\<close> only: what the user subscribed it
  to stays in \<open>subscriptions\<close>, and the next message that matches is sent to a pipe that is no longer there.
\<close>

lemma manual_subscription_dangles:
  assumes "manual x" "last_pipe x = Some p" "mtrie_inv (xp_subscriptions x)" "mtrie_inv (manual_subscriptions x)" "dist_ok (xp_dist x)"
    "p \<in> d_members (xp_dist x)"
  shows "\<exists>x1 x2. xpub_setsockopt Opt_subscribe k x = Some (x1, Inr ()) \<and> xpub_xpipe_terminated p x1 = Some x2 \<and>
    p \<notin> d_members (xp_dist x2) \<and> (\<forall>data. p \<in> subscribers (xp_subscriptions x2) (k @ data))"
proof -
  obtain t b where t: "mtrie_add k p (xp_subscriptions x) = (t, b)" "p \<in> msubs t k"
    using madd_ok[OF assms(3), of k p] by auto
  let ?x1 = "x\<lparr>xp_subscriptions := t\<rparr>"
  have x1: "xpub_setsockopt Opt_subscribe k x = Some (?x1, Inr ())" using assms(1,2) t(1) by (simp add: xpub_setsockopt_def)
  obtain mt cs where mt: "mtrie_rm_all p False [] (manual_subscriptions x) = Some (mt, cs)" using mrm_all_ok[OF assms(4)] by blast
  obtain d where d: "dist_pipe_terminated p (xp_dist x) = Some d" "d_members d = d_members (xp_dist x) - {p}"
    using dist_pipe_terminated_ok[OF assms(5,6)] by blast
  let ?x2 = "(fold send_unsubscription cs (?x1\<lparr>manual_subscriptions := mt\<rparr>))\<lparr>xp_dist := d\<rparr>"
  have "xpub_xpipe_terminated p ?x1 = Some ?x2" using assms(1) mt d(1) by (simp add: xpub_xpipe_terminated_def)
  moreover have "p \<in> subscribers (xp_subscriptions ?x2) (k @ data)" for data using t(2) by (auto simp: subscribers_def intro!: exI[of _ k])
  moreover have "p \<notin> d_members (xp_dist ?x2)" using d(2) by simp
  ultimately show ?thesis using x1 by blast
qed

text \<open>
  With \<open>ZMQ_XPUB_NODROP\<close> a send that fails leaves its pipes marked: they also get the next message, whether
  they subscribed to it or not.
\<close>

lemma nodrop_keeps_marks:
  assumes "xpub_xsend io vsm m x s = Some (x', s', Inl EAGAIN)" "\<not> xp_more x"
  shows "xpub_match m x = Some x' \<and> s' = s \<and> xp_more x' = xp_more x"
  using assms by (auto simp: xpub_xsend_def xpub_match_def split: bind_splits if_splits)

lemma marks_accumulate:
  assumes "dist_ok d" "\<not> d_more d" "set ps \<subseteq> d_members d" "mark_as_matching ps d = Some d'"
  shows "matched d \<subseteq> matched d'"
  using mark_ok[OF assms(1-3)] assms(4) by auto

text \<open>
  In manual mode a message of the user gets no entry in \<open>pending_pipes\<close>. After one, the subscription of peer 7 is
  received with the pipe of peer 9, which sent its own later, as the pipe to subscribe.
\<close>

lemma manual_wrong_pipe:
  "Option.bind (xpub_process 5 (part [2]) ((xpub_t False)\<lparr>manual := True\<rparr>)) (\<lambda>x1.
     Option.bind (xpub_process 7 (part [1, 65]) x1) (\<lambda>x2.
     Option.bind (xpub_process 9 (part [1, 66]) x2) (\<lambda>x3.
     let (x4, m4) = xpub_xrecv x3; (x5, m5) = xpub_xrecv x4 in Some (m5, last_pipe x5)))) = Some (Inr (part [1, 65]), Some 9)"
  by (simp add: xpub_process_def xpub_t_def xpub_xrecv_def mtrie_t_def tb_empty_def Node_Table.extend_def in_range_def child_node_def set_slot_def Let_def)

text \<open>A PUB socket keeps what its peers send as messages of their users, which nobody can receive.\<close>

lemma pub_keeps_user_messages:
  assumes "xp_is_pub x" "mdata m = c # d" "c \<noteq> 0" "c \<noteq> 1"
  shows "\<exists>x'. xpub_process p m x = Some x' \<and> length (pending x') = length (pending x) + 1 \<and> pub_xrecv x' = (x', Inl ENOTSUP)"
  using assms by (simp add: xpub_process_def pub_xrecv_def)

end
