(* ===== verification/Spec2Isabelle.thy ===== *)
theory Spec2Isabelle
  imports Decoder_Safety Ypipe_Threads Pipe_Flow Queue_Pipes Load_Balancer Distributor Sub_Mtrie Null_Mechanism Plain_Mechanism Own Req Router Pub_Sub
begin

text \<open>
  Verification of the core of libzmq 4.2.0 (\<open>src/src\<close>): what happens to a message between \<open>zmq_send\<close> of one
  peer and \<open>zmq_recv\<close> of another.

  The program. A socket of the user's thread routes messages (\<open>req.cpp\<close>, \<open>router.cpp\<close>, \<open>xpub.cpp\<close> and so on) with the help of
  fair queueing (\<open>fq.cpp\<close>), load balancing (\<open>lb.cpp\<close>), distribution (\<open>dist.cpp\<close>) and subscription tries
  (\<open>trie.cpp\<close>, \<open>mtrie.cpp\<close>) to pairs of pipes (\<open>pipe.cpp\<close>). Each pipe is a lock-free queue (\<open>ypipe.hpp\<close> over
  \<open>yqueue.hpp\<close>) between two threads, and commands (\<open>object.cpp\<close>) that wake, block and terminate its ends. In the I/O
  thread a session moves messages between the pipe and an engine, which turns them into frames with an
  encoder, and frames into messages with a decoder, after a handshake of the security mechanism. Sockets,
  sessions and listeners form a tree of objects that is deallocated from its leaves (\<open>own.cpp\<close>).

  Theories, from the bottom.
  \<open>Zmq_Prelude\<close>: bytes, error numbers, results, block copies, exchanges of array slots.
  \<open>Msg\<close> (\<open>msg.cpp\<close>): message objects over an explicit memory, with shared contents and metadata; close, copy and
  move keep the reference counts and touch no other message. \<open>Msg_View\<close>: the value of a message, which everything
  above works with.
  \<open>Wire\<close>, \<open>Encoder\<close>, \<open>Decoder\<close>, \<open>Codec\<close>, \<open>Zmtp\<close>, \<open>Decoder_Safety\<close> (\<open>wire.hpp\<close>, \<open>encoder.hpp\<close>, \<open>decoder.hpp\<close>, the v1, v2
  and raw codecs, \<open>in_event\<close> of \<open>stream_engine.cpp\<close>): the state machines of the codecs; round trip of both protocol
  versions over the locale \<open>codec\<close>, for every cut of the byte stream; memory safety of the decoders on any input
  with a size limit, and its failure without one.
  \<open>Yqueue\<close>, \<open>Ypipe\<close>, \<open>Ypipe_Threads\<close>, \<open>Ypipe_Conflate\<close>: the chunked queue refines a list, the pipe over it refines the
  specification \<open>fifo\<close> (locale \<open>ypipe_base\<close>), also when its two threads interleave inside of \<open>flush\<close>; no wake-up is
  lost; the conflating pipe.
  \<open>Pipe\<close>, \<open>Pipe_Protocol\<close>, \<open>Pipe_Flow\<close> (\<open>pipe.cpp\<close>): the two ends of a pipe and their commands; every interleaving keeps the
  invariant of the termination protocol, frees everything once, and ends; the high watermark, and the
  wake-up of blocked writers.
  \<open>Pipe_Array\<close>, \<open>Fair_Queue\<close>, \<open>Load_Balancer\<close>, \<open>Distributor\<close>, \<open>Queue_Pipes\<close> (\<open>array.hpp\<close>, \<open>fq.cpp\<close>, \<open>lb.cpp\<close>, \<open>dist.cpp\<close>): fairness,
  parts of a message that stay together, exact distribution; fair queueing over real pipes by the locale
  \<open>message_source\<close>.
  \<open>Node_Table\<close>, \<open>Sub_Trie\<close>, \<open>Sub_Mtrie\<close> (\<open>trie.cpp\<close>, \<open>mtrie.cpp\<close>): the tables of subnodes as finite maps; the trie is a
  multiset of topics (locale \<open>subscriptions\<close>), the multi-trie a relation between topics and pipes.
  \<open>Tcp_Address\<close>, \<open>Z85\<close>, \<open>Options\<close> (\<open>tcp_address.cpp\<close>, \<open>zmq_utils.cpp\<close>, \<open>options.cpp\<close>): matching of addresses, the key codec, ranges
  and round trips of all options.
  \<open>Mechanism\<close>, \<open>Null_Mechanism\<close>, \<open>Plain_Mechanism\<close> (\<open>mechanism.cpp\<close>, \<open>null_mechanism.cpp\<close>, \<open>plain_client.cpp\<close>, \<open>plain_server.cpp\<close>, the part of
  \<open>session_base.cpp\<close> that talks to the authentication handler): metadata, the handshakes, and that a peer is
  accepted only after the handler accepted it.
  \<open>Own\<close> (\<open>own.cpp\<close>): the tree of objects; its shutdown touches no deallocated object and always ends.
  \<open>Pipe_Io\<close>: what a socket does to its pipes as a record of operations, and the operations of \<open>Pipe\<close> as its instance
  (locale \<open>identified_pipes\<close>: only \<open>set_identity\<close> changes identities). On it
  \<open>Req\<close> (\<open>dealer.cpp\<close>, \<open>req.cpp\<close>): requests and replies alternate;
  \<open>Router\<close> (\<open>router.cpp\<close>, \<open>rep.cpp\<close>): the routing table is exact, messages go to the peer they are addressed to, REP
  alternates;
  \<open>Pub_Sub\<close> (\<open>xpub.cpp\<close>, \<open>pub.cpp\<close>, \<open>xsub.cpp\<close>, \<open>sub.cpp\<close>): messages go to exactly the peers that subscribed, and only
  subscribed ones are received.

  Conventions. Objects are records, their methods functions from the old to the new state. An outer \<open>None\<close> is an aborted
  process: a failed \<open>zmq_assert\<close>, a NULL or dangling pointer, an access out of bounds; an \<open>errno\<close> is a value of
  \<open>result\<close>. Integers have their width where it matters. What comes from outside of the repository (memory
  allocation, the resolver, the random numbers, the content of uninitialised memory) is a parameter.

  Bounds. Loops are structurally recursive or come with a termination proof; those over received messages, which
  the code itself says may not end, are \<open>partial_function\<close>s whose \<open>None\<close> includes not ending, and the
  theorems about them state what holds of a call that returns. There is no fuel. The shutdown of the object tree and the
  counters of subscriptions have fewer than \<open>2 ^ 32\<close> steps, the width of their counters; beyond that the
  code is wrong (\<open>own_seqnum_wraps\<close>).

  Behaviour that is not as intended is stated next to the code it is in, as a lemma or theorem of its own: wrapped pointer
  arithmetic in the v2 decoder, cancellations of foreign topics that abort a publisher, credentials that use up the
  watermark, messages split by a termination, dangling subscriptions in manual mode, generated identities that
  collide, and others.

  Not modelled: PUSH, PULL, PAIR, STREAM, SERVER, CLIENT, RADIO, DISH, GATHER, SCATTER and DGRAM sockets, of which all but PAIR,
  STREAM, SERVER, DGRAM, RADIO and DISH only forward to fair queueing or load balancing; \<open>socket_base.cpp\<close>, \<open>ctx.cpp\<close>, \<open>session_base.cpp\<close> and the handshake of
  \<open>stream_engine.cpp\<close>, which are driven by threads, mailboxes, the poller and the clock; CURVE and GSSAPI, which rest on
  external cryptography; pollers, signalers, transports and the C API, which call the operating system or
  forward to the above; \<open>timers.cpp\<close>; the destructors of the tries, which only free memory.
\<close>

end
